(* ===== verification/Prelude.thy ===== *)
theory Prelude
  imports Main "HOL-Library.Word" "HOL-Library.AList" "HOL-Library.Multiset"
begin

text \<open>
  The vocabulary every component shares: the machine types of Go, Go strings as byte
  strings, Go maps, integer division that truncates towards zero, and the few facts on
  lists and association lists that several components use.
\<close>

section \<open>Types of the language\<close>

type_synonym byte = "8 word"
type_synonym u16 = "16 word"
type_synonym u32 = "32 word"
type_synonym u64 = "64 word"

text \<open>An address of a heap object; \<open>None\<close> is the nil pointer.\<close>

type_synonym ptr = "nat option"

text \<open>
  The error values the modelled functions return. \<open>EOF\<close>, \<open>UnexpectedEOF\<close> and \<open>Timeout\<close>
  are those of \<open>io\<close> and \<open>net\<close>; \<open>Errorf\<close> is a \<open>fmt.Errorf\<close> or \<open>errors.New\<close> of the
  source, named by a tag in place of its message.
\<close>

datatype go_error =
    EOF
  | UnexpectedEOF
  | Timeout
  | CtxDone
  | NetErr string
  | Errorf string

section \<open>Collections of facts\<close>

named_theorems op_defs \<open>definitions of operations, for unfolding\<close>
named_theorems inv_intros \<open>preservation of invariants by operations\<close>

section \<open>Strings as bytes\<close>

text \<open>
  A Go string is a sequence of bytes, and so is a HOL string: a \<open>char\<close> has eight bits.
  \<open>bytes_of\<close> and \<open>string_of\<close> are the conversions \<open>[]byte(s)\<close> and \<open>string(b)\<close>.
\<close>

definition byte_of_char :: "char \<Rightarrow> byte" where
  "byte_of_char c = word_of_nat (of_char c)"

definition char_of_byte :: "byte \<Rightarrow> char" where
  "char_of_byte b = char_of (unat b)"

definition bytes_of :: "string \<Rightarrow> byte list" where
  "bytes_of s = map byte_of_char s"

definition string_of :: "byte list \<Rightarrow> string" where
  "string_of bs = map char_of_byte bs"

lemma char_of_byte_of_char [simp]: "char_of_byte (byte_of_char c) = c"
proof -
  have "of_char c mod 256 = (of_char c :: nat)" by simp
  then have "unat (word_of_nat (of_char c) :: byte) = of_char c"
    by (simp add: unat_of_nat)
  then show ?thesis by (simp add: char_of_byte_def byte_of_char_def)
qed

lemma byte_of_char_of_byte [simp]: "byte_of_char (char_of_byte b) = b"
proof -
  have "unat b < 256" using unsigned_less [of b, where ?'a = nat] by simp
  then show ?thesis by (simp add: char_of_byte_def byte_of_char_def)
qed

lemma string_of_bytes_of [simp]: "string_of (bytes_of s) = s"
  by (simp add: string_of_def bytes_of_def comp_def)

lemma bytes_of_string_of [simp]: "bytes_of (string_of bs) = bs"
  by (simp add: string_of_def bytes_of_def comp_def)

lemma length_bytes_of [simp]: "length (bytes_of s) = length s"
  by (simp add: bytes_of_def)

lemma length_string_of [simp]: "length (string_of bs) = length bs"
  by (simp add: string_of_def)

lemma string_of_eq_Nil [simp]: "string_of bs = [] \<longleftrightarrow> bs = []"
  by (simp add: string_of_def)

lemma bytes_of_eq_Nil [simp]: "bytes_of s = [] \<longleftrightarrow> s = []"
  by (simp add: bytes_of_def)

section \<open>Numbers as text\<close>

text \<open>\<open>strconv.Itoa\<close>, and \<open>%d\<close> in a format.\<close>

definition digit :: "nat \<Rightarrow> char" where
  "digit d = char_of (48 + d)"

fun decimal :: "nat \<Rightarrow> string" where
  "decimal n = (if n < 10 then [digit n] else decimal (n div 10) @ [digit (n mod 10)])"

definition Itoa :: "int \<Rightarrow> string" where
  "Itoa i = (if i < 0 then CHR ''-'' # decimal (nat (- i)) else decimal (nat i))"

declare decimal.simps [simp del]

section \<open>Integer division\<close>

text \<open>Go's \<open>/\<close> on signed integers truncates towards zero.\<close>

definition go_quot :: "int \<Rightarrow> int \<Rightarrow> int" where
  "go_quot a b = sgn a * sgn b * (\<bar>a\<bar> div \<bar>b\<bar>)"

lemma go_quot_nonneg: "0 \<le> a \<Longrightarrow> 0 < b \<Longrightarrow> go_quot a b = a div b"
  by (cases "a = 0") (simp_all add: go_quot_def)

section \<open>Go maps\<close>

text \<open>
  A Go map is an association list whose keys are distinct. The order of the list is the
  order in which one \<open>range\<close> over it happens to visit the keys, which the language
  leaves open: no property depends on it.
\<close>

type_synonym ('k, 'v) gomap = "('k \<times> 'v) list"

definition gomap_ok :: "('k, 'v) gomap \<Rightarrow> bool" where
  "gomap_ok m \<longleftrightarrow> distinct (map fst m)"

text \<open>\<open>v, ok := m[k]\<close>, with the zero value of the value type.\<close>

definition gomap_get :: "'v \<Rightarrow> ('k, 'v) gomap \<Rightarrow> 'k \<Rightarrow> 'v \<times> bool" where
  "gomap_get zv m k = (case map_of m k of None \<Rightarrow> (zv, False) | Some v \<Rightarrow> (v, True))"

abbreviation gomap_set :: "('k, 'v) gomap \<Rightarrow> 'k \<Rightarrow> 'v \<Rightarrow> ('k, 'v) gomap" where
  "gomap_set m k v \<equiv> AList.update k v m"

abbreviation gomap_delete :: "('k, 'v) gomap \<Rightarrow> 'k \<Rightarrow> ('k, 'v) gomap" where
  "gomap_delete m k \<equiv> AList.delete k m"

lemma gomap_ok_Nil [simp]: "gomap_ok []"
  by (simp add: gomap_ok_def)

lemma gomap_ok_set [simp, intro]: "gomap_ok m \<Longrightarrow> gomap_ok (gomap_set m k v)"
  by (simp add: gomap_ok_def distinct_update)

lemma gomap_ok_delete [simp, intro]: "gomap_ok m \<Longrightarrow> gomap_ok (gomap_delete m k)"
  by (simp add: gomap_ok_def distinct_delete)

lemma map_of_gomap_set [simp]: "map_of (gomap_set m k v) = (map_of m)(k \<mapsto> v)"
  by (rule update_conv')

lemma map_of_gomap_delete [simp]: "map_of (gomap_delete m k) = (map_of m)(k := None)"
  by (rule delete_conv')

lemma gomap_get_set [simp]:
  "gomap_get zv (gomap_set m k v) k' = (if k' = k then (v, True) else gomap_get zv m k')"
  by (simp add: gomap_get_def)

lemma gomap_get_delete [simp]:
  "gomap_get zv (gomap_delete m k) k' = (if k' = k then (zv, False) else gomap_get zv m k')"
  by (simp add: gomap_get_def)

lemma gomap_ok_length: "gomap_ok m \<Longrightarrow> length m = card (dom (map_of m))"
  by (metis distinct_card dom_map_of_conv_image_fst gomap_ok_def length_map set_map)

section \<open>Lists\<close>

lemma set_update_nth_distinct:
  "i < length xs \<Longrightarrow> mset (xs[i := x]) + {#xs ! i#} = mset xs + {#x#}"
  by (simp add: mset_update)

lemma sum_list_update_int:
  "i < length xs \<Longrightarrow> sum_list (xs[i := x]) = sum_list xs - xs ! i + (x :: int)"
proof (induction xs arbitrary: i)
  case Nil
  then show ?case by simp
next
  case (Cons a xs)
  then show ?case by (cases i) auto
qed

lemma sum_list_nonneg_int: "(\<forall>x\<in>set xs. (0::int) \<le> x) \<Longrightarrow> 0 \<le> sum_list xs"
  by (induction xs) auto

lemma list_all_update:
  "list_all P xs \<Longrightarrow> P x \<Longrightarrow> list_all P (xs[i := x])"
  by (auto simp: list_all_iff dest: subsetD [OF set_update_subset_insert])

end
