(* ===== verification/MQueue.thy ===== *)
theory MQueue
  imports Prelude
begin

text \<open>
  The FIFO queue of \<^verbatim>\<open>utils/Queue/mqueue.go\<close> and its interface
  \<^verbatim>\<open>utils/Queue/queue.go\<close>. The nodes are heap objects: a queue owns a heap of nodes, the
  pointers \<open>head\<close> and \<open>tail\<close> and the free list of its \<open>sync.Pool\<close>. The first part models
  the operations pointer by pointer and shows that they implement a list; the second part
  runs them under any number of goroutines, with the condition variable.
\<close>

section \<open>State\<close>

record 'a node =
  nvalue :: 'a
  nnext :: ptr

record 'a mqueue =
  q_head :: ptr
  q_tail :: ptr
  q_status :: bool
  q_count :: int
  q_nodePool :: "nat list"
  q_zeroValue :: 'a
  q_nodes :: "nat \<rightharpoonup> 'a node"
  q_fresh :: nat

definition NewMQueue :: "'a \<Rightarrow> 'a mqueue" where
  "NewMQueue zv = \<lparr>q_head = None, q_tail = None, q_status = True, q_count = 0,
     q_nodePool = [], q_zeroValue = zv, q_nodes = Map.empty, q_fresh = 0\<rparr>"

section \<open>Operations\<close>

text \<open>
  \<open>sync.Pool.Get\<close> hands out any object put into the pool before, or a new one: which, is
  not determined, so the choice \<open>pick\<close> is an argument. A pick that is not in the pool
  stands for the call of \<open>New\<close>.
\<close>

definition pool_new :: "'a mqueue \<Rightarrow> nat \<times> 'a mqueue" where
  "pool_new q = (q_fresh q,
     q\<lparr>q_nodes := (q_nodes q)(q_fresh q \<mapsto> \<lparr>nvalue = q_zeroValue q, nnext = None\<rparr>),
       q_fresh := Suc (q_fresh q)\<rparr>)"

definition pool_get :: "ptr \<Rightarrow> 'a mqueue \<Rightarrow> nat \<times> 'a mqueue" where
  "pool_get pick q = (case pick of
     None \<Rightarrow> pool_new q
   | Some a \<Rightarrow> if a \<in> set (q_nodePool q)
       then (a, q\<lparr>q_nodePool := remove1 a (q_nodePool q)\<rparr>)
       else pool_new q)"

definition Close :: "'a mqueue \<Rightarrow> 'a mqueue" where
  "Close q = q\<lparr>q_status := False\<rparr>"

text \<open>A write to a field of a node through a pointer; \<open>None\<close> is the nil dereference.\<close>

definition put_next :: "nat \<Rightarrow> ptr \<Rightarrow> 'a mqueue \<Rightarrow> 'a mqueue option" where
  "put_next a nx q = (case q_nodes q a of
     None \<Rightarrow> None
   | Some nd \<Rightarrow> Some (q\<lparr>q_nodes := (q_nodes q)(a \<mapsto> nd\<lparr>nnext := nx\<rparr>)\<rparr>))"

text \<open>The linking of the new node \<open>n\<close> behind the last one: the three branches of \<open>Enqueue\<close>.\<close>

definition link_tail :: "nat \<Rightarrow> 'a mqueue \<Rightarrow> 'a mqueue option" where
  "link_tail n q = (case q_head q of
     None \<Rightarrow> Some (q\<lparr>q_head := Some n\<rparr>)
   | Some h \<Rightarrow> (case q_tail q of
       None \<Rightarrow> put_next h (Some n) (q\<lparr>q_tail := Some n\<rparr>)
     | Some oldTail \<Rightarrow>
         map_option (\<lambda>q'. q'\<lparr>q_tail := Some n\<rparr>) (put_next oldTail (Some n) q)))"

definition Enqueue :: "ptr \<Rightarrow> 'a \<Rightarrow> 'a mqueue \<Rightarrow> (go_error option \<times> 'a mqueue) option" where
  "Enqueue pick v q =
    (if \<not> q_status q then Some (Some (Errorf ''is close''), q)
     else
       let (n, q1) = pool_get pick q;
           q2 = q1\<lparr>q_nodes := (q_nodes q1)(n \<mapsto> \<lparr>nvalue = v, nnext = None\<rparr>)\<rparr>
       in map_option (\<lambda>q'. (None, q'\<lparr>q_count := q_count q' + 1\<rparr>)) (link_tail n q2))"

text \<open>The result of \<open>dequeue\<close> is \<open>(t, ok, isClose)\<close>.\<close>

definition dequeue :: "'a mqueue \<Rightarrow> (('a \<times> bool \<times> bool) \<times> 'a mqueue) option" where
  "dequeue q =
    (let isClose = (\<not> q_status q) in
     case q_head q of
       None \<Rightarrow> Some ((q_zeroValue q, False, isClose), q)
     | Some oldHead \<Rightarrow>
         (case q_nodes q oldHead of
            None \<Rightarrow> None
          | Some nd \<Rightarrow>
              let q1 = (case nnext nd of
                          None \<Rightarrow> q\<lparr>q_head := None\<rparr>
                        | Some nx \<Rightarrow>
                            let q' = q\<lparr>q_head := Some nx\<rparr> in
                            if q_head q' = q_tail q' then q'\<lparr>q_tail := None\<rparr> else q')
              in Some ((nvalue nd, True, isClose),
                   q1\<lparr>q_count := q_count q1 - 1,
                      q_nodes := (q_nodes q1)(oldHead \<mapsto> \<lparr>nvalue = q_zeroValue q1, nnext = None\<rparr>),
                      q_nodePool := oldHead # q_nodePool q1\<rparr>)))"

definition Dequeue :: "'a mqueue \<Rightarrow> (('a \<times> bool \<times> bool) \<times> 'a mqueue) option" where
  "Dequeue q = dequeue q"

definition Count :: "'a mqueue \<Rightarrow> int" where
  "Count q = q_count q"

definition Status :: "'a mqueue \<Rightarrow> bool" where
  "Status q = q_status q"

lemmas queue_ops [op_defs] =
  NewMQueue_def Close_def Enqueue_def dequeue_def Dequeue_def Count_def Status_def
  pool_new_def pool_get_def link_tail_def put_next_def

section \<open>Lists on the heap\<close>

text \<open>\<open>walk k h p\<close> follows at most \<open>k\<close> next pointers from \<open>p\<close>.\<close>

fun walk :: "nat \<Rightarrow> (nat \<rightharpoonup> 'a node) \<Rightarrow> ptr \<Rightarrow> nat list" where
  "walk 0 h p = []"
| "walk (Suc k) h p = (case p of None \<Rightarrow> []
     | Some a \<Rightarrow> (case h a of None \<Rightarrow> [] | Some nd \<Rightarrow> a # walk k h (nnext nd)))"

fun chain :: "(nat \<rightharpoonup> 'a node) \<Rightarrow> ptr \<Rightarrow> nat list \<Rightarrow> ptr \<Rightarrow> bool" where
  "chain h p [] e \<longleftrightarrow> p = e"
| "chain h p (a # as) e \<longleftrightarrow> p = Some a \<and> (\<exists>nd. h a = Some nd \<and> chain h (nnext nd) as e)"

lemma chain_append [simp]:
  "chain h p (as @ bs) e \<longleftrightarrow> (\<exists>m. chain h p as m \<and> chain h m bs e)"
  by (induction as arbitrary: p) auto

lemma chain_upd_other [simp]:
  "a \<notin> set as \<Longrightarrow> chain (h(a \<mapsto> nd)) p as e \<longleftrightarrow> chain h p as e"
  by (induction as arbitrary: p) auto

lemma chain_walk: "chain h p as None \<Longrightarrow> walk (length as) h p = as"
  by (induction as arbitrary: p) auto

lemma chain_dom: "chain h p as e \<Longrightarrow> set as \<subseteq> dom h"
  by (induction as arbitrary: p) auto

definition nodes_of :: "'a mqueue \<Rightarrow> nat list" where
  "nodes_of q = walk (nat (q_count q)) (q_nodes q) (q_head q)"

text \<open>The value of an allocated node; \<open>walk\<close> visits allocated nodes only.\<close>

definition value_at :: "(nat \<rightharpoonup> 'a node) \<Rightarrow> nat \<Rightarrow> 'a" where
  "value_at h a = nvalue (the (h a))"

text \<open>The abstraction: the values from the head on.\<close>

definition mq_list :: "'a mqueue \<Rightarrow> 'a list" where
  "mq_list q = map (value_at (q_nodes q)) (nodes_of q)"

text \<open>
  The representation: a chain without repetition from \<open>head\<close> to nil, its length in
  \<open>count\<close>; \<open>tail\<close> is the last node when there are at least two nodes and nil otherwise;
  the pool holds other nodes, none twice; all nodes were allocated.
\<close>

definition mq_rep :: "'a mqueue \<Rightarrow> nat list \<Rightarrow> bool" where
  "mq_rep q as \<longleftrightarrow>
     chain (q_nodes q) (q_head q) as None \<and> distinct as \<and> q_count q = int (length as) \<and>
     q_tail q = (if 2 \<le> length as then Some (last as) else None) \<and>
     distinct (q_nodePool q) \<and>
     (\<forall>a\<in>set (q_nodePool q). a \<notin> set as \<and> q_nodes q a \<noteq> None) \<and>
     (\<forall>a. q_nodes q a \<noteq> None \<longrightarrow> a < q_fresh q)"

definition mq_inv :: "'a mqueue \<Rightarrow> bool" where
  "mq_inv q \<longleftrightarrow> mq_rep q (nodes_of q)"

lemma mq_rep_nodes: "mq_rep q as \<Longrightarrow> nodes_of q = as"
  by (simp add: mq_rep_def nodes_of_def chain_walk)

lemma mq_rep_inv: "mq_rep q as \<Longrightarrow> mq_inv q"
  by (simp add: mq_inv_def mq_rep_nodes)

lemma mq_rep_list: "mq_rep q as \<Longrightarrow> mq_list q = map (value_at (q_nodes q)) as"
  by (simp add: mq_list_def mq_rep_nodes)

lemma mq_count_list: "mq_inv q \<Longrightarrow> q_count q = int (length (mq_list q))"
  by (simp add: mq_inv_def mq_list_def mq_rep_def)

section \<open>The operations implement a list\<close>

lemma pool_new_rep:
  assumes "mq_rep q as" and "pool_new q = (n, q1)"
  shows "mq_rep q1 as \<and> n \<notin> set as \<and> n \<notin> set (q_nodePool q1) \<and> n < q_fresh q1 \<and>
    (\<forall>a\<in>set as. q_nodes q1 a = q_nodes q a) \<and>
    q_status q1 = q_status q \<and> q_zeroValue q1 = q_zeroValue q"
proof -
  have new: "q_nodes q (q_fresh q) = None" using assms(1) by (auto simp: mq_rep_def)
  have sub: "set as \<subseteq> dom (q_nodes q)" using assms(1) by (auto simp: mq_rep_def dest: chain_dom)
  with new have a: "q_fresh q \<notin> set as" by blast
  have p: "q_fresh q \<notin> set (q_nodePool q)" using assms(1) new by (auto simp: mq_rep_def)
  have "mq_rep q1 as"
    using assms a p unfolding mq_rep_def pool_new_def
    by (auto simp: less_Suc_eq split: if_splits)
  with a p assms show ?thesis by (auto simp: pool_new_def)
qed

lemma pool_get_rep:
  assumes "mq_rep q as" and "pool_get pick q = (n, q1)"
  shows "mq_rep q1 as \<and> n \<notin> set as \<and> n \<notin> set (q_nodePool q1) \<and> n < q_fresh q1 \<and>
    (\<forall>a\<in>set as. q_nodes q1 a = q_nodes q a) \<and>
    q_status q1 = q_status q \<and> q_zeroValue q1 = q_zeroValue q"
proof (cases "\<exists>a. pick = Some a \<and> a \<in> set (q_nodePool q)")
  case True
  with assms have n: "n \<in> set (q_nodePool q)"
    and q1: "q1 = q\<lparr>q_nodePool := remove1 n (q_nodePool q)\<rparr>"
    by (auto simp: pool_get_def)
  have d: "distinct (q_nodePool q)" using assms(1) by (simp add: mq_rep_def)
  have "mq_rep q1 as"
    using assms(1) d unfolding mq_rep_def q1 by (simp add: distinct_remove1)
  moreover have "n \<notin> set as" "n < q_fresh q" using n assms(1) by (auto simp: mq_rep_def)
  moreover have "n \<notin> set (q_nodePool q1)" using d by (simp add: q1)
  ultimately show ?thesis by (simp add: q1)
next
  case False
  then have "pool_get pick q = pool_new q" by (auto simp: pool_get_def split: option.split)
  with assms(2) have "pool_new q = (n, q1)" by simp
  with assms(1) show ?thesis by (rule pool_new_rep)
qed

lemma map_value_at_cong:
  "(\<forall>a\<in>set as. h a = h' a) \<Longrightarrow> map (value_at h) as = map (value_at h') as"
  by (simp add: value_at_def)

text \<open>Linking a fresh node behind the last one.\<close>

lemma enqueue_link:
  assumes rep: "mq_rep q as" and fresh: "n \<notin> set as" "n \<notin> set (q_nodePool q)" "n < q_fresh q"
    and st: "q_status q"
    and q2: "q2 = q\<lparr>q_nodes := (q_nodes q)(n \<mapsto> \<lparr>nvalue = v, nnext = None\<rparr>)\<rparr>"
  shows "\<exists>q'. link_tail n q2 = Some q' \<and> mq_rep (q'\<lparr>q_count := q_count q' + 1\<rparr>) (as @ [n]) \<and>
    map (value_at (q_nodes q')) (as @ [n]) = map (value_at (q_nodes q)) as @ [v] \<and> q_status q' \<and>
    q_zeroValue q' = q_zeroValue q"
proof (cases as rule: rev_cases)
  case Nil
  with rep have "q_head q = None" by (simp add: mq_rep_def)
  with Nil rep fresh st show ?thesis
    by (auto simp: link_tail_def q2 mq_rep_def value_at_def)
next
  case (snoc bs b)
  with rep obtain nd where ch: "chain (q_nodes q) (q_head q) bs (Some b)"
    and nd: "q_nodes q b = Some nd" and nx: "nnext nd = None" and d: "distinct (bs @ [b])"
    by (auto simp: mq_rep_def)
  have bn: "b \<noteq> n" "n \<notin> set bs" "b \<notin> set bs" using fresh snoc d by auto
  from ch have hd: "q_head q \<noteq> None" by (cases bs) auto
  show ?thesis
  proof (cases bs)
    case Nil
    with rep snoc fresh st nd nx bn ch show ?thesis
      by (auto simp: link_tail_def q2 mq_rep_def value_at_def put_next_def)
  next
    case (Cons c cs)
    then have "q_tail q = Some b" using rep snoc by (simp add: mq_rep_def)
    with hd rep snoc fresh st nd nx bn ch Cons show ?thesis
      by (auto simp: link_tail_def q2 mq_rep_def value_at_def put_next_def)
  qed
qed

lemma Enqueue_open:
  assumes inv: "mq_inv q" and st: "q_status q"
  shows "\<exists>q'. Enqueue pick v q = Some (None, q') \<and> mq_inv q' \<and>
    mq_list q' = mq_list q @ [v] \<and> q_status q' \<and> q_zeroValue q' = q_zeroValue q"
proof -
  obtain n q1 where g: "pool_get pick q = (n, q1)" by (cases "pool_get pick q") auto
  have rep: "mq_rep q (nodes_of q)" using inv by (simp add: mq_inv_def)
  from pool_get_rep [OF rep g]
  have r1: "mq_rep q1 (nodes_of q)" "n \<notin> set (nodes_of q)" "n \<notin> set (q_nodePool q1)"
      "n < q_fresh q1" "q_status q1"
    and same: "\<forall>a\<in>set (nodes_of q). q_nodes q1 a = q_nodes q a" "q_zeroValue q1 = q_zeroValue q"
    using st by auto
  define q2 where "q2 = q1\<lparr>q_nodes := (q_nodes q1)(n \<mapsto> \<lparr>nvalue = v, nnext = None\<rparr>)\<rparr>"
  from enqueue_link [OF r1 q2_def] obtain q' where
    l: "link_tail n q2 = Some q'" and rep': "mq_rep (q'\<lparr>q_count := q_count q' + 1\<rparr>) (nodes_of q @ [n])"
    and vals: "map (value_at (q_nodes q')) (nodes_of q @ [n]) = map (value_at (q_nodes q1)) (nodes_of q) @ [v]"
    and st': "q_status q'" "q_zeroValue q' = q_zeroValue q1" by blast
  have "Enqueue pick v q = Some (None, q'\<lparr>q_count := q_count q' + 1\<rparr>)"
    using st g l by (simp add: Enqueue_def q2_def)
  moreover have "mq_list (q'\<lparr>q_count := q_count q' + 1\<rparr>) = mq_list q @ [v]"
    using mq_rep_list [OF rep'] vals map_value_at_cong [OF same(1)]
    by (simp add: mq_list_def)
  ultimately show ?thesis
    using mq_rep_inv [OF rep'] st' same(2) by simp
qed

lemma Enqueue_closed:
  "\<not> q_status q \<Longrightarrow> Enqueue pick v q = Some (Some (Errorf ''is close''), q)"
  by (simp add: Enqueue_def)

lemma dequeue_empty:
  assumes "mq_inv q" and "mq_list q = []"
  shows "dequeue q = Some ((q_zeroValue q, False, \<not> q_status q), q)"
proof -
  have "nodes_of q = []" using assms(2) by (simp add: mq_list_def)
  then have "q_head q = None" using assms(1) by (simp add: mq_inv_def mq_rep_def)
  then show ?thesis by (simp add: dequeue_def)
qed

lemma dequeue_step:
  assumes rep: "mq_rep q (a # as)"
  shows "\<exists>q'. dequeue q = Some ((value_at (q_nodes q) a, True, \<not> q_status q), q') \<and>
    mq_rep q' as \<and> map (value_at (q_nodes q')) as = map (value_at (q_nodes q)) as \<and>
    q_status q' = q_status q \<and> q_zeroValue q' = q_zeroValue q"
proof -
  from rep obtain nd where hd: "q_head q = Some a" and nd: "q_nodes q a = Some nd"
    and ch: "chain (q_nodes q) (nnext nd) as None"
    by (auto simp: mq_rep_def)
  have notin: "a \<notin> set as" using rep by (simp add: mq_rep_def)
  then have cong: "map (value_at ((q_nodes q)(a \<mapsto> nd'))) as = map (value_at (q_nodes q)) as" for nd'
    by (intro map_value_at_cong) auto
  show ?thesis
  proof (cases as)
    case Nil
    then have "nnext nd = None" using ch by simp
    with Nil rep hd nd show ?thesis
      by (auto simp: dequeue_def mq_rep_def value_at_def)
  next
    case (Cons b bs)
    then have nx: "nnext nd = Some b" using ch by auto
    have tl: "q_tail q = Some (last as)" using rep Cons by (simp add: mq_rep_def)
    show ?thesis
    proof (cases bs)
      case Nil
      with Cons tl nx rep hd nd ch notin cong show ?thesis
        by (auto simp: dequeue_def mq_rep_def value_at_def Let_def)
    next
      case (Cons c cs)
      have "last as \<noteq> b" using rep \<open>as = b # bs\<close> Cons by (auto simp: mq_rep_def)
      with Cons \<open>as = b # bs\<close> tl nx rep hd nd ch notin cong show ?thesis
        by (auto simp: dequeue_def mq_rep_def value_at_def Let_def)
    qed
  qed
qed

lemma dequeue_nonempty:
  assumes inv: "mq_inv q" and xs: "mq_list q = x # xs"
  shows "\<exists>q'. dequeue q = Some ((x, True, \<not> q_status q), q') \<and> mq_inv q' \<and> mq_list q' = xs \<and>
    q_status q' = q_status q \<and> q_zeroValue q' = q_zeroValue q"
proof -
  from xs obtain a as where n: "nodes_of q = a # as" and v: "value_at (q_nodes q) a = x"
    and vs: "map (value_at (q_nodes q)) as = xs"
    by (auto simp: mq_list_def)
  have "mq_rep q (a # as)" using inv n by (simp add: mq_inv_def)
  from dequeue_step [OF this] show ?thesis
    using v vs by (auto simp: mq_rep_list dest: mq_rep_inv)
qed

lemma NewMQueue_empty: "mq_inv (NewMQueue zv)" "mq_list (NewMQueue zv) = []" "q_status (NewMQueue zv)"
  by (simp_all add: NewMQueue_def mq_inv_def mq_rep_def nodes_of_def mq_list_def)

lemma Close_same: "mq_inv (Close q) = mq_inv q" "mq_list (Close q) = mq_list q" "\<not> q_status (Close q)"
  by (simp_all add: Close_def mq_inv_def mq_rep_def nodes_of_def mq_list_def)


section \<open>The interface \<open>Queue\<close>\<close>

text \<open>
  \<^verbatim>\<open>queue.go\<close> gives the clients an interface. Its contract: a queue holds a list of values;
  \<open>Enqueue\<close> appends while the queue is open and fails without effect once it is closed,
  \<open>Dequeue\<close> takes the first value, also after the close, and reports whether the queue is
  closed.
\<close>

locale go_queue =
  fixes enq :: "'c \<Rightarrow> 'a \<Rightarrow> 'q \<Rightarrow> (go_error option \<times> 'q) option"
    and deq :: "'q \<Rightarrow> (('a \<times> bool \<times> bool) \<times> 'q) option"
    and close :: "'q \<Rightarrow> 'q"
    and count :: "'q \<Rightarrow> int"
    and status :: "'q \<Rightarrow> bool"
    and invar :: "'q \<Rightarrow> bool"
    and list :: "'q \<Rightarrow> 'a list"
  assumes enq_open: "invar q \<Longrightarrow> status q \<Longrightarrow>
      \<exists>q'. enq c v q = Some (None, q') \<and> invar q' \<and> list q' = list q @ [v] \<and> status q'"
    and enq_closed: "invar q \<Longrightarrow> \<not> status q \<Longrightarrow> \<exists>e. enq c v q = Some (Some e, q)"
    and deq_empty: "invar q \<Longrightarrow> list q = [] \<Longrightarrow> \<exists>t. deq q = Some ((t, False, \<not> status q), q)"
    and deq_cons: "invar q \<Longrightarrow> list q = x # xs \<Longrightarrow>
      \<exists>q'. deq q = Some ((x, True, \<not> status q), q') \<and> invar q' \<and> list q' = xs \<and>
        status q' = status q"
    and close_laws: "invar q \<Longrightarrow> invar (close q) \<and> list (close q) = list q \<and> \<not> status (close q)"
    and count_list: "invar q \<Longrightarrow> count q = int (length (list q))"

text \<open>
  A client's calls in sequence. \<open>queue_run\<close> collects the values whose \<open>Enqueue\<close> returned no
  error and the values whose \<open>Dequeue\<close> returned \<open>ok\<close>; \<open>None\<close> is a nil dereference.
\<close>

datatype ('c, 'a) queue_op = OpEnq 'c 'a | OpDeq | OpClose

fun queue_run :: "('c \<Rightarrow> 'a \<Rightarrow> 'q \<Rightarrow> (go_error option \<times> 'q) option) \<Rightarrow>
    ('q \<Rightarrow> (('a \<times> bool \<times> bool) \<times> 'q) option) \<Rightarrow> ('q \<Rightarrow> 'q) \<Rightarrow>
    ('c, 'a) queue_op list \<Rightarrow> 'q \<Rightarrow> ('a list \<times> 'a list \<times> 'q) option" where
  "queue_run enq deq close [] q = Some ([], [], q)"
| "queue_run enq deq close (OpEnq c v # ops) q =
     (case enq c v q of None \<Rightarrow> None
      | Some (e, q1) \<Rightarrow>
          map_option (\<lambda>(ins, outs, q2). ((if e = None then v # ins else ins), outs, q2))
            (queue_run enq deq close ops q1))"
| "queue_run enq deq close (OpDeq # ops) q =
     (case deq q of None \<Rightarrow> None
      | Some ((t, ok, _), q1) \<Rightarrow>
          map_option (\<lambda>(ins, outs, q2). (ins, (if ok then t # outs else outs), q2))
            (queue_run enq deq close ops q1))"
| "queue_run enq deq close (OpClose # ops) q = queue_run enq deq close ops (close q)"

context go_queue
begin

text \<open>Any sequence of calls runs without a panic and is first in, first out.\<close>

lemma run_fifo:
  "invar q \<Longrightarrow> \<exists>ins outs q'. queue_run enq deq close ops q = Some (ins, outs, q') \<and> invar q' \<and>
     outs @ list q' = list q @ ins \<and> (\<not> status q \<longrightarrow> ins = [] \<and> \<not> status q')"
proof (induction ops arbitrary: q)
  case Nil
  then show ?case by simp
next
  case (Cons x ops)
  show ?case
  proof (cases x)
    case (OpEnq c v)
    show ?thesis
    proof (cases "status q")
      case True
      with enq_open [OF Cons.prems] obtain q1 where
        "enq c v q = Some (None, q1)" "invar q1" "list q1 = list q @ [v]" by blast
      with Cons.IH [of q1] True OpEnq show ?thesis by fastforce
    next
      case False
      with enq_closed [OF Cons.prems] obtain e where "enq c v q = Some (Some e, q)" by blast
      with Cons.IH [OF Cons.prems] False OpEnq show ?thesis by fastforce
    qed
  next
    case OpDeq
    show ?thesis
    proof (cases "list q")
      case Nil
      with deq_empty [OF Cons.prems] obtain t where "deq q = Some ((t, False, \<not> status q), q)" by blast
      with Cons.IH [OF Cons.prems] OpDeq show ?thesis by fastforce
    next
      case (Cons y ys)
      with deq_cons [OF \<open>invar q\<close>] obtain q1 where
        "deq q = Some ((y, True, \<not> status q), q1)" "invar q1" "list q1 = ys" "status q1 = status q"
        by blast
      with Cons.IH [of q1] OpDeq Cons show ?thesis by fastforce
    qed
  next
    case OpClose
    with Cons.IH [of "close q"] close_laws [OF Cons.prems] show ?thesis by fastforce
  qed
qed

end

interpretation mq: go_queue Enqueue dequeue Close Count Status mq_inv mq_list
proof unfold_locales
  fix q :: "'a mqueue" and c v x xs
  show "mq_inv q \<Longrightarrow> Status q \<Longrightarrow>
      \<exists>q'. Enqueue c v q = Some (None, q') \<and> mq_inv q' \<and> mq_list q' = mq_list q @ [v] \<and> Status q'"
    using Enqueue_open [of q c v] by (auto simp: Status_def)
  show "mq_inv q \<Longrightarrow> \<not> Status q \<Longrightarrow> \<exists>e. Enqueue c v q = Some (Some e, q)"
    by (simp add: Enqueue_closed Status_def)
  show "mq_inv q \<Longrightarrow> mq_list q = [] \<Longrightarrow> \<exists>t. dequeue q = Some ((t, False, \<not> Status q), q)"
    by (simp add: dequeue_empty Status_def)
  show "mq_inv q \<Longrightarrow> mq_list q = x # xs \<Longrightarrow>
      \<exists>q'. dequeue q = Some ((x, True, \<not> Status q), q') \<and> mq_inv q' \<and> mq_list q' = xs \<and>
        Status q' = Status q"
    using dequeue_nonempty [of q x xs] by (auto simp: Status_def)
  show "mq_inv q \<Longrightarrow> mq_inv (Close q) \<and> mq_list (Close q) = mq_list q \<and> \<not> Status (Close q)"
    by (simp add: Close_same Status_def)
  show "mq_inv q \<Longrightarrow> Count q = int (length (mq_list q))"
    by (simp add: mq_count_list Count_def)
qed

section \<open>Blocking consumers\<close>

text \<open>
  Any number of goroutines, numbered by \<open>nat\<close>, block in \<open>DequeueWait\<close> or in \<open>DequeueFunc\<close>.
  Between two acquisitions of \<open>recvLock\<close> a goroutine is at one of these points:
  \<open>Loop\<close> before the call of \<open>dequeue\<close>; \<open>Call t cl\<close> before the call of \<open>fn(t, isClose)\<close>;
  \<open>Check\<close> before it takes the lock to test \<open>status && count == 0\<close>; \<open>Asleep\<close> inside
  \<open>recvCond.Wait\<close>; \<open>Ret\<close> and \<open>Done\<close> after the return of \<open>DequeueWait\<close> and of \<open>DequeueFunc\<close>.
\<close>

datatype mode = InDequeueWait | InDequeueFunc

datatype 'a pc =
    Loop
  | Call 'a bool
  | Check
  | Asleep
  | Ret 'a bool bool
  | Done "go_error option"

definition DequeueWait_after :: "'a \<Rightarrow> bool \<Rightarrow> bool \<Rightarrow> 'a pc" where
  "DequeueWait_after t ok isClose =
     (if ok then Ret t ok isClose else if isClose then Ret t ok isClose else Check)"

definition DequeueFunc_after :: "'a \<Rightarrow> bool \<Rightarrow> bool \<Rightarrow> 'a pc" where
  "DequeueFunc_after t ok isClose =
     (if ok then Call t isClose
      else if isClose then Done (Some (Errorf ''queue is close and empty'')) else Check)"

definition after_dequeue :: "mode \<Rightarrow> 'a \<Rightarrow> bool \<Rightarrow> bool \<Rightarrow> 'a pc" where
  "after_dequeue m = (case m of InDequeueWait \<Rightarrow> DequeueWait_after | InDequeueFunc \<Rightarrow> DequeueFunc_after)"

text \<open>The locked region at the end of both loops; \<open>Wait\<close> gives the lock up and sleeps.\<close>

definition wait_check :: "'a mqueue \<Rightarrow> 'a pc" where
  "wait_check q = (if q_status q \<and> q_count q = 0 then Asleep else Loop)"

text \<open>\<open>Broadcast\<close> wakes every sleeper, which then goes round its loop.\<close>

definition broadcast :: "(nat \<Rightarrow> 'a pc) \<Rightarrow> nat \<Rightarrow> 'a pc" where
  "broadcast pcs i = (case pcs i of Asleep \<Rightarrow> Loop | _ \<Rightarrow> pcs i)"

record 'a qsys =
  mq :: "'a mqueue"
  modes :: "nat \<Rightarrow> mode"
  pcs :: "nat \<Rightarrow> 'a pc"
  sent :: "'a list"
  rcvd :: "(nat \<times> 'a) list"

text \<open>
  \<open>sent\<close> and \<open>rcvd\<close> are ghost histories: the values of the successful \<open>Enqueue\<close> calls and,
  with the goroutine, those of the successful \<open>dequeue\<close> calls. Each rule is one region under
  \<open>recvLock\<close>, or the call of \<open>fn\<close>, whose answer \<open>b\<close> is arbitrary, or a new call of
  \<open>DequeueWait\<close> by a goroutine whose last one has returned.
\<close>

inductive qstep :: "'a qsys \<Rightarrow> 'a qsys \<Rightarrow> bool" where
  enqueue: "Enqueue pick v (mq s) = Some (None, q') \<Longrightarrow>
     qstep s (s\<lparr>mq := q', pcs := broadcast (pcs s), sent := sent s @ [v]\<rparr>)"
| enqueue_error: "Enqueue pick v (mq s) = Some (Some e, q') \<Longrightarrow> qstep s (s\<lparr>mq := q'\<rparr>)"
| close: "qstep s (s\<lparr>mq := Close (mq s), pcs := broadcast (pcs s)\<rparr>)"
| take: "pcs s i = Loop \<Longrightarrow> dequeue (mq s) = Some ((t, ok, cl), q') \<Longrightarrow>
     qstep s (s\<lparr>mq := q', pcs := (pcs s)(i := after_dequeue (modes s i) t ok cl),
       rcvd := (if ok then rcvd s @ [(i, t)] else rcvd s)\<rparr>)"
| call: "pcs s i = Call t cl \<Longrightarrow>
     qstep s (s\<lparr>pcs := (pcs s)(i := (if b then Check else Done None))\<rparr>)"
| check: "pcs s i = Check \<Longrightarrow> qstep s (s\<lparr>pcs := (pcs s)(i := wait_check (mq s))\<rparr>)"
| again: "pcs s i = Ret t ok cl \<Longrightarrow> qstep s (s\<lparr>pcs := (pcs s)(i := Loop)\<rparr>)"

definition qsys_init :: "'a \<Rightarrow> (nat \<Rightarrow> mode) \<Rightarrow> 'a qsys" where
  "qsys_init zv ms = \<lparr>mq = NewMQueue zv, modes = ms, pcs = (\<lambda>_. Loop), sent = [], rcvd = []\<rparr>"

inductive qreach :: "'a \<Rightarrow> (nat \<Rightarrow> mode) \<Rightarrow> 'a qsys \<Rightarrow> bool" for zv ms where
  start: "qreach zv ms (qsys_init zv ms)"
| step: "qreach zv ms s \<Longrightarrow> qstep s s' \<Longrightarrow> qreach zv ms s'"

text \<open>
  The invariant: the queue is well formed; what was sent is what was received, in order,
  followed by what is still queued; a sleeper sleeps on an open, empty queue; a consumer that
  returned without a value returned from a closed, empty queue.
\<close>

definition ended :: "'a pc \<Rightarrow> bool" where
  "ended p \<longleftrightarrow> (case p of Ret _ ok _ \<Rightarrow> \<not> ok | Done (Some _) \<Rightarrow> True | _ \<Rightarrow> False)"

definition qsys_inv :: "'a qsys \<Rightarrow> bool" where
  "qsys_inv s \<longleftrightarrow> mq_inv (mq s) \<and> sent s = map snd (rcvd s) @ mq_list (mq s) \<and>
     (\<forall>i. pcs s i = Asleep \<longrightarrow> q_status (mq s) \<and> mq_list (mq s) = []) \<and>
     (\<forall>i. ended (pcs s i) \<longrightarrow> \<not> q_status (mq s) \<and> mq_list (mq s) = [])"

lemma broadcast_not_Asleep [simp]: "broadcast p i \<noteq> Asleep"
  by (simp add: broadcast_def split: pc.split)

lemma ended_broadcast [simp]: "ended (broadcast p i) = ended (p i)"
  by (simp add: broadcast_def ended_def split: pc.split)

lemma Enqueue_cases:
  assumes "mq_inv q" and "Enqueue pick v q = Some (r, q')"
  shows "(r = None \<and> q_status q \<and> q_status q' \<and> mq_inv q' \<and> mq_list q' = mq_list q @ [v]) \<or>
     (r \<noteq> None \<and> \<not> q_status q \<and> q' = q)"
  using Enqueue_open [OF assms(1), of pick v] Enqueue_closed [of q pick v] assms(2)
  by (cases "q_status q") auto

lemma dequeue_cases:
  assumes "mq_inv q" and "dequeue q = Some ((t, ok, cl), q')"
  shows "(ok \<and> mq_inv q' \<and> mq_list q = t # mq_list q' \<and> q_status q' = q_status q \<and>
       cl = (\<not> q_status q)) \<or>
     (\<not> ok \<and> q' = q \<and> mq_list q = [] \<and> cl = (\<not> q_status q))"
  using dequeue_empty [OF assms(1)] dequeue_nonempty [OF assms(1)] assms(2)
  by (cases "mq_list q") auto

lemma after_dequeue_ended:
  "after_dequeue m t ok cl \<noteq> Asleep \<and> (ended (after_dequeue m t ok cl) \<longrightarrow> \<not> ok \<and> cl)"
  by (cases m) (simp_all add: after_dequeue_def DequeueWait_after_def DequeueFunc_after_def ended_def)

lemma qsys_inv_init: "qsys_inv (qsys_init zv ms)"
  by (simp add: qsys_inv_def qsys_init_def NewMQueue_empty ended_def)

lemma qsys_inv_step: "qstep s s' \<Longrightarrow> qsys_inv s \<Longrightarrow> qsys_inv s'"
proof (induction rule: qstep.induct)
  case (enqueue pick v s q')
  then have i: "mq_inv (mq s)" by (simp add: qsys_inv_def)
  from Enqueue_cases [OF i enqueue.hyps] enqueue.prems show ?case
    by (auto simp: qsys_inv_def)
next
  case (enqueue_error pick v s e q')
  then have i: "mq_inv (mq s)" by (simp add: qsys_inv_def)
  from Enqueue_cases [OF i enqueue_error.hyps] enqueue_error.prems show ?case
    by (auto simp: qsys_inv_def)
next
  case (close s)
  then show ?case by (auto simp: qsys_inv_def Close_same)
next
  case (take s i t ok cl q')
  then have i: "mq_inv (mq s)" by (simp add: qsys_inv_def)
  from dequeue_cases [OF i take.hyps(2)] after_dequeue_ended [of "modes s i" t ok cl] take.prems
  show ?case by (auto simp: qsys_inv_def)
next
  case (call s i t cl b)
  then show ?case by (auto simp: qsys_inv_def ended_def)
next
  case (check s i)
  then have "q_count (mq s) = int (length (mq_list (mq s)))"
    by (simp add: qsys_inv_def mq_count_list)
  with check show ?case by (auto simp: qsys_inv_def wait_check_def ended_def)
next
  case (again s i t ok cl)
  then show ?case by (auto simp: qsys_inv_def ended_def)
qed

lemma qreach_inv: "qreach zv ms s \<Longrightarrow> qsys_inv s"
  by (induction rule: qreach.induct) (auto intro: qsys_inv_init qsys_inv_step)

section \<open>Properties\<close>

text \<open>Any sequence of calls of \<open>Enqueue\<close>, \<open>Dequeue\<close> and \<open>Close\<close> on a new queue, with any
  reuse of pooled nodes, runs without a nil dereference, and the values dequeued followed by
  the values still queued are exactly the values accepted, in their order.\<close>

theorem mq_fifo:
  "\<exists>ins outs q'. queue_run Enqueue dequeue Close ops (NewMQueue zv) = Some (ins, outs, q') \<and>
     mq_inv q' \<and> outs @ mq_list q' = ins \<and> Count q' = int (length ins) - int (length outs)"
proof -
  obtain ins outs q' where r: "queue_run Enqueue dequeue Close ops (NewMQueue zv) = Some (ins, outs, q')"
    "mq_inv q'" "outs @ mq_list q' = mq_list (NewMQueue zv) @ ins"
    using mq.run_fifo [OF NewMQueue_empty(1) [of zv], of ops] by blast
  then have "outs @ mq_list q' = ins" by (simp add: NewMQueue_empty)
  moreover from this have "Count q' = int (length ins) - int (length outs)"
    using mq.count_list [OF r(2)] by (auto simp flip: \<open>outs @ mq_list q' = ins\<close>)
  ultimately show ?thesis using r by blast
qed

text \<open>C22: No wake-up is lost: in every reachable state a goroutine asleep in
  \<open>recvCond.Wait\<close> sleeps on an open queue with no element, so no value and no close waits
  for a sleeper.\<close>

theorem mq_no_lost_wakeup:
  assumes "qreach zv ms s" and "pcs s i = Asleep"
  shows "Status (mq s) \<and> Count (mq s) = 0 \<and> mq_list (mq s) = []"
proof -
  have "qsys_inv s" by (rule qreach_inv [OF assms(1)])
  with assms(2) show ?thesis
    by (auto simp: qsys_inv_def Status_def Count_def mq_count_list)
qed

text \<open>C12: Across all goroutines every accepted value is delivered at most once and in the
  order of acceptance; what is not delivered yet is still queued.\<close>

theorem mq_exactly_once:
  assumes "qreach zv ms s"
  shows "sent s = map snd (rcvd s) @ mq_list (mq s)"
  using qreach_inv [OF assms] by (simp add: qsys_inv_def)

text \<open>Graceful close: when a consumer has left \<open>DequeueWait\<close> without a value, or
  \<open>DequeueFunc\<close> with its error, the queue is closed and every value ever accepted has been
  delivered.\<close>

theorem mq_drained_at_end:
  assumes "qreach zv ms s" and "ended (pcs s i)"
  shows "\<not> Status (mq s) \<and> map snd (rcvd s) = sent s"
  using qreach_inv [OF assms(1)] assms(2) by (auto simp: qsys_inv_def Status_def)

text \<open>Witnesses: a run in which goroutine 0 falls asleep, and one in which a value is sent,
  the queue closed, and goroutine 0 takes the value and then leaves.\<close>

lemma qreach_asleep:
  "\<exists>s. qreach (0::nat) (\<lambda>_. InDequeueFunc) s \<and> pcs s 0 = Asleep"
proof -
  let ?s0 = "qsys_init (0::nat) (\<lambda>_. InDequeueFunc)"
  let ?s1 = "?s0\<lparr>mq := NewMQueue 0, pcs := (pcs ?s0)(0 := Check), rcvd := []\<rparr>"
  let ?s2 = "?s1\<lparr>pcs := (pcs ?s1)(0 := Asleep)\<rparr>"
  have "qstep ?s0 ?s1"
    using qstep.take [of ?s0 0 0 False False "NewMQueue 0"]
    by (simp add: qsys_init_def NewMQueue_def dequeue_def after_dequeue_def DequeueFunc_after_def)
  moreover have "qstep ?s1 ?s2"
    using qstep.check [of ?s1 0] by (simp add: wait_check_def NewMQueue_def)
  ultimately have "qreach 0 (\<lambda>_. InDequeueFunc) ?s2"
    by (blast intro: qreach.intros)
  then show ?thesis by (intro exI [of _ ?s2]) simp
qed

lemma qreach_ended:
  "\<exists>s. qreach (0::nat) (\<lambda>_. InDequeueWait) s \<and> ended (pcs s 0) \<and> sent s = [7]"
proof -
  let ?Q = "\<lambda>s. qreach (0::nat) (\<lambda>_. InDequeueWait) s"
  let ?s0 = "qsys_init (0::nat) (\<lambda>_. InDequeueWait)"
  obtain q1 where q1: "Enqueue None 7 (NewMQueue (0::nat)) = Some (None, q1)" "mq_inv q1"
      "mq_list q1 = [7]" "q_status q1"
    using Enqueue_open [of "NewMQueue (0::nat)" None 7] by (auto simp: NewMQueue_empty)
  let ?s1 = "?s0\<lparr>mq := q1, pcs := broadcast (pcs ?s0), sent := [7]\<rparr>"
  have "qstep ?s0 ?s1"
    using qstep.enqueue [of None 7 ?s0 q1] q1 by (simp add: qsys_init_def)
  then have r1: "?Q ?s1" by (blast intro: qreach.intros)
  let ?s2 = "?s1\<lparr>mq := Close q1, pcs := broadcast (broadcast (pcs ?s0))\<rparr>"
  have "qstep ?s1 ?s2" using qstep.close [of ?s1] by simp
  with r1 have r2: "?Q ?s2" by (blast intro: qreach.intros)
  obtain q3 where q3: "dequeue (Close q1) = Some ((7, True, True), q3)" "mq_inv q3"
      "mq_list q3 = []" "\<not> q_status q3"
    using dequeue_nonempty [of "Close q1" 7 "[]"] q1 by (auto simp: Close_same)
  let ?s3 = "?s2\<lparr>mq := q3, pcs := (pcs ?s2)(0 := Ret 7 True True), rcvd := [(0, 7)]\<rparr>"
  have "qstep ?s2 ?s3"
    using qstep.take [of ?s2 0 7 True True q3] q3
    by (simp add: qsys_init_def broadcast_def after_dequeue_def DequeueWait_after_def)
  with r2 have r3: "?Q ?s3" by (blast intro: qreach.intros)
  let ?s4 = "?s3\<lparr>pcs := (pcs ?s3)(0 := Loop)\<rparr>"
  have "qstep ?s3 ?s4" using qstep.again [of ?s3 0 7 True True] by simp
  with r3 have r4: "?Q ?s4" by (blast intro: qreach.intros)
  let ?s5 = "?s4\<lparr>mq := q3, pcs := (pcs ?s4)(0 := Ret (q_zeroValue q3) False True), rcvd := [(0, 7)]\<rparr>"
  have "qstep ?s4 ?s5"
    using qstep.take [of ?s4 0 "q_zeroValue q3" False True q3] dequeue_empty [of q3] q3
    by (simp add: qsys_init_def after_dequeue_def DequeueWait_after_def)
  with r4 have "?Q ?s5" by (blast intro: qreach.intros)
  then show ?thesis by (intro exI [of _ ?s5]) (simp add: ended_def)
qed

theorem mq_no_lost_wakeup_witness:
  "\<exists>s :: nat qsys. qreach 0 (\<lambda>_. InDequeueFunc) s \<and> pcs s 0 = Asleep \<and>
     Status (mq s) \<and> Count (mq s) = 0 \<and> mq_list (mq s) = []"
proof -
  obtain s :: "nat qsys" where s: "qreach 0 (\<lambda>_. InDequeueFunc) s" "pcs s 0 = Asleep"
    using qreach_asleep by blast
  show ?thesis using s mq_no_lost_wakeup [OF s] by blast
qed

theorem mq_exactly_once_witness:
  "\<exists>s :: nat qsys. qreach 0 (\<lambda>_. InDequeueWait) s \<and> sent s = [7] \<and>
     sent s = map snd (rcvd s) @ mq_list (mq s)"
proof -
  obtain s :: "nat qsys" where s: "qreach 0 (\<lambda>_. InDequeueWait) s" "sent s = [7]"
    using qreach_ended by blast
  show ?thesis using s mq_exactly_once [OF s(1)] by blast
qed

theorem mq_drained_at_end_witness:
  "\<exists>s :: nat qsys. qreach 0 (\<lambda>_. InDequeueWait) s \<and> sent s = [7] \<and>
     \<not> Status (mq s) \<and> map snd (rcvd s) = [7]"
proof -
  obtain s :: "nat qsys" where s: "qreach 0 (\<lambda>_. InDequeueWait) s" "ended (pcs s 0)" "sent s = [7]"
    using qreach_ended by blast
  show ?thesis using s mq_drained_at_end [OF s(1,2)] by auto
qed

end
