(* ===== verification/ConcurrentMap.thy ===== *)
theory ConcurrentMap
  imports Prelude
begin

unbundle bit_operations_syntax

text \<open>
  The sharded map of \<^verbatim>\<open>utils/Map/concurrentMap/map.go\<close>: \<open>SHARD_COUNT\<close> Go maps, each under its
  own lock, and a sharding function on the keys. Every operation on one key is one region
  under the lock of that key's shard, so it is modelled as one step on the map; the callbacks
  of \<open>Upsert\<close> and \<open>RemoveCb\<close>, which run inside that region and may change variables and heap
  objects of their caller, thread a state of type \<open>'s\<close>. \<open>None\<close> is a panic.
\<close>

section \<open>State\<close>

definition SHARD_COUNT :: nat where
  "SHARD_COUNT = 4"

record ('k, 'v) cmap =
  shards :: "('k, 'v) gomap list"
  sharding :: "'k \<Rightarrow> u32"

definition create :: "('k \<Rightarrow> u32) \<Rightarrow> ('k, 'v) cmap" where
  "create f = \<lparr>shards = replicate SHARD_COUNT [], sharding = f\<rparr>"

text \<open>FNV over the bytes of the key, in 32-bit arithmetic: multiply, then exclusive or.\<close>

definition fnv32 :: "string \<Rightarrow> u32" where
  "fnv32 key = foldl (\<lambda>hash c. (hash * 16777619) XOR ucast (byte_of_char c)) 2166136261 key"

definition strfnv32 :: "('k \<Rightarrow> string) \<Rightarrow> 'k \<Rightarrow> u32" where
  "strfnv32 String key = fnv32 (String key)"

definition New :: "(string, 'v) cmap" where
  "New = create fnv32"

definition NewStringer :: "('k \<Rightarrow> string) \<Rightarrow> ('k, 'v) cmap" where
  "NewStringer String = create (strfnv32 String)"

definition NewWithCustomShardingFunction :: "('k \<Rightarrow> u32) \<Rightarrow> ('k, 'v) cmap" where
  "NewWithCustomShardingFunction f = create f"

section \<open>Operations on one key\<close>

definition shard_index :: "('k, 'v) cmap \<Rightarrow> 'k \<Rightarrow> nat" where
  "shard_index m key = unat (sharding m key) mod SHARD_COUNT"

text \<open>\<open>GetShard\<close> indexes the slice \<open>m.shards\<close>, which panics on a map that was never created.\<close>

definition GetShard :: "('k, 'v) cmap \<Rightarrow> 'k \<Rightarrow> ('k, 'v) gomap option" where
  "GetShard m key =
     (if shard_index m key < length (shards m) then Some (shards m ! shard_index m key) else None)"

text \<open>A region under the shard's lock: \<open>f\<close> maps the items to a result and new items.\<close>

definition on_shard :: "('k, 'v) cmap \<Rightarrow> 'k \<Rightarrow> (('k, 'v) gomap \<Rightarrow> 'r \<times> ('k, 'v) gomap) \<Rightarrow>
    ('r \<times> ('k, 'v) cmap) option" where
  "on_shard m key f = (case GetShard m key of
     None \<Rightarrow> None
   | Some items \<Rightarrow> (let (r, items') = f items
       in Some (r, m\<lparr>shards := (shards m)[shard_index m key := items']\<rparr>)))"

definition cm_Set :: "('k, 'v) cmap \<Rightarrow> 'k \<Rightarrow> 'v \<Rightarrow> ('k, 'v) cmap option" where
  "cm_Set m key value = map_option snd (on_shard m key (\<lambda>items. ((), gomap_set items key value)))"

fun MSet :: "('k, 'v) cmap \<Rightarrow> ('k, 'v) gomap \<Rightarrow> ('k, 'v) cmap option" where
  "MSet m [] = Some m"
| "MSet m ((key, value) # data) =
     (case cm_Set m key value of None \<Rightarrow> None | Some m' \<Rightarrow> MSet m' data)"

definition Upsert :: "'v \<Rightarrow> ('k, 'v) cmap \<Rightarrow> 'k \<Rightarrow> 'v \<Rightarrow>
    (bool \<Rightarrow> 'v \<Rightarrow> 'v \<Rightarrow> 's \<Rightarrow> 'v \<times> 's) \<Rightarrow> 's \<Rightarrow> (('v \<times> 's) \<times> ('k, 'v) cmap) option" where
  "Upsert zv m key value cb s = on_shard m key (\<lambda>items.
     let (v, ok) = gomap_get zv items key;
         (res, s') = cb ok v value s
     in ((res, s'), gomap_set items key res))"

definition SetIfAbsent :: "('k, 'v) cmap \<Rightarrow> 'k \<Rightarrow> 'v \<Rightarrow> (bool \<times> ('k, 'v) cmap) option" where
  "SetIfAbsent m key value = on_shard m key (\<lambda>items.
     let ok = map_of items key \<noteq> None
     in (\<not> ok, if \<not> ok then gomap_set items key value else items))"

definition cm_Get :: "'v \<Rightarrow> ('k, 'v) cmap \<Rightarrow> 'k \<Rightarrow> ('v \<times> bool) option" where
  "cm_Get zv m key = map_option (\<lambda>items. gomap_get zv items key) (GetShard m key)"

definition Has :: "('k, 'v) cmap \<Rightarrow> 'k \<Rightarrow> bool option" where
  "Has m key = map_option (\<lambda>items. map_of items key \<noteq> None) (GetShard m key)"

definition cm_Remove :: "('k, 'v) cmap \<Rightarrow> 'k \<Rightarrow> ('k, 'v) cmap option" where
  "cm_Remove m key = map_option snd (on_shard m key (\<lambda>items. ((), gomap_delete items key)))"

definition RemoveCb :: "'v \<Rightarrow> ('k, 'v) cmap \<Rightarrow> 'k \<Rightarrow> ('k \<Rightarrow> 'v \<Rightarrow> bool \<Rightarrow> 's \<Rightarrow> bool \<times> 's) \<Rightarrow> 's \<Rightarrow>
    ((bool \<times> 's) \<times> ('k, 'v) cmap) option" where
  "RemoveCb zv m key cb s = on_shard m key (\<lambda>items.
     let (v, ok) = gomap_get zv items key;
         (remove, s') = cb key v ok s
     in ((remove, s'), if remove \<and> ok then gomap_delete items key else items))"

definition Pop :: "'v \<Rightarrow> ('k, 'v) cmap \<Rightarrow> 'k \<Rightarrow> (('v \<times> bool) \<times> ('k, 'v) cmap) option" where
  "Pop zv m key = on_shard m key (\<lambda>items. (gomap_get zv items key, gomap_delete items key))"

section \<open>Operations on the whole map\<close>

text \<open>
  These take the shards' locks one after the other; the model is their effect when no other
  goroutine writes meanwhile. \<open>snapshot\<close> panics on a map that was never created; its channels
  hold the items of one shard each. \<open>fanIn\<close> reads the channels with one goroutine each, so
  their items interleave: the schedule says which channel is read next.
\<close>

definition cm_Count :: "('k, 'v) cmap \<Rightarrow> nat option" where
  "cm_Count m = (if SHARD_COUNT \<le> length (shards m)
     then Some (sum_list (map length (take SHARD_COUNT (shards m)))) else None)"

definition IsEmpty :: "('k, 'v) cmap \<Rightarrow> bool option" where
  "IsEmpty m = map_option (\<lambda>n. n = 0) (cm_Count m)"

definition snapshot :: "('k, 'v) cmap \<Rightarrow> ('k \<times> 'v) list list option" where
  "snapshot m = (if length (shards m) = 0 then None else Some (shards m))"

fun fanIn :: "nat list \<Rightarrow> 'a list list \<Rightarrow> 'a list" where
  "fanIn [] chans = concat chans"
| "fanIn (i # sched) chans =
     (if i < length chans \<and> chans ! i \<noteq> []
      then hd (chans ! i) # fanIn sched (chans[i := tl (chans ! i)])
      else fanIn sched chans)"

definition Iter :: "nat list \<Rightarrow> ('k, 'v) cmap \<Rightarrow> ('k \<times> 'v) list option" where
  "Iter sched m = map_option (fanIn sched) (snapshot m)"

definition IterBuffered :: "nat list \<Rightarrow> ('k, 'v) cmap \<Rightarrow> ('k \<times> 'v) list option" where
  "IterBuffered sched m = map_option (fanIn sched) (snapshot m)"

fun remove_keys :: "('k, 'v) cmap \<Rightarrow> ('k \<times> 'v) list \<Rightarrow> ('k, 'v) cmap option" where
  "remove_keys m [] = Some m"
| "remove_keys m (item # its) =
     (case cm_Remove m (fst item) of None \<Rightarrow> None | Some m' \<Rightarrow> remove_keys m' its)"

definition Clear :: "nat list \<Rightarrow> ('k, 'v) cmap \<Rightarrow> ('k, 'v) cmap option" where
  "Clear sched m = Option.bind (IterBuffered sched m) (remove_keys m)"

definition Items :: "nat list \<Rightarrow> ('k, 'v) cmap \<Rightarrow> ('k, 'v) gomap option" where
  "Items sched m =
     map_option (foldl (\<lambda>tmp item. gomap_set tmp (fst item) (snd item)) []) (IterBuffered sched m)"

definition IterCb :: "('k \<Rightarrow> 'v \<Rightarrow> 's \<Rightarrow> 's) \<Rightarrow> ('k, 'v) cmap \<Rightarrow> 's \<Rightarrow> 's" where
  "IterCb fn m s = foldl (\<lambda>s items. foldl (\<lambda>s (key, v). fn key v s) s items) s (shards m)"

definition Keys :: "nat list \<Rightarrow> ('k, 'v) cmap \<Rightarrow> 'k list" where
  "Keys sched m = fanIn sched (map (map fst) (shards m))"

text \<open>\<open>encoding/json\<close> is a pair of parameters of the two JSON methods.\<close>

definition MarshalJSON :: "(('k, 'v) gomap \<Rightarrow> go_error + byte list) \<Rightarrow> nat list \<Rightarrow>
    ('k, 'v) cmap \<Rightarrow> (go_error + byte list) option" where
  "MarshalJSON marshal sched m = map_option marshal (Items sched m)"

definition UnmarshalJSON :: "(byte list \<Rightarrow> go_error + ('k, 'v) gomap) \<Rightarrow> ('k, 'v) cmap \<Rightarrow>
    byte list \<Rightarrow> (go_error option \<times> ('k, 'v) cmap) option" where
  "UnmarshalJSON unmarshal m b = (case unmarshal b of
     Inl err \<Rightarrow> Some (Some err, m)
   | Inr tmp \<Rightarrow> map_option (\<lambda>m'. (None, m')) (MSet m tmp))"

lemmas cmap_ops [op_defs] =
  cm_Set_def Upsert_def SetIfAbsent_def cm_Get_def Has_def cm_Remove_def RemoveCb_def Pop_def

section \<open>The abstract map\<close>

definition cm_lookup :: "('k, 'v) cmap \<Rightarrow> 'k \<rightharpoonup> 'v" where
  "cm_lookup m key = map_of (shards m ! shard_index m key) key"

text \<open>
  A created map has all its shards, each a Go map, and a key is stored in its own shard only.
\<close>

definition cmap_inv :: "('k, 'v) cmap \<Rightarrow> bool" where
  "cmap_inv m \<longleftrightarrow> length (shards m) = SHARD_COUNT \<and>
     (\<forall>i<SHARD_COUNT. gomap_ok (shards m ! i) \<and>
        dom (map_of (shards m ! i)) \<subseteq> {key. shard_index m key = i})"

lemma shard_index_less: "shard_index m key < SHARD_COUNT"
  by (simp add: shard_index_def SHARD_COUNT_def)

lemma shard_index_shards [simp]: "shard_index (m\<lparr>shards := sh\<rparr>) key = shard_index m key"
  by (simp add: shard_index_def)

lemma GetShard_inv: "cmap_inv m \<Longrightarrow> GetShard m key = Some (shards m ! shard_index m key)"
  by (simp add: GetShard_def cmap_inv_def shard_index_less)

lemma on_shard_inv:
  "cmap_inv m \<Longrightarrow> on_shard m key f =
     (let (r, items') = f (shards m ! shard_index m key)
      in Some (r, m\<lparr>shards := (shards m)[shard_index m key := items']\<rparr>))"
  by (simp add: on_shard_def GetShard_inv)

text \<open>A region that stores or deletes \<open>key\<close> in the shard stores or deletes it in the map.\<close>

definition put_shard :: "('k, 'v) cmap \<Rightarrow> 'k \<Rightarrow> ('k, 'v) gomap \<Rightarrow> ('k, 'v) cmap" where
  "put_shard m key items = m\<lparr>shards := (shards m)[shard_index m key := items]\<rparr>"

lemma put_shard_inv:
  assumes inv: "cmap_inv m" and ok: "gomap_ok items"
    and keys: "dom (map_of items) \<subseteq> {k. shard_index m k = shard_index m key}"
  shows "cmap_inv (put_shard m key items)"
  unfolding cmap_inv_def
proof (intro conjI allI impI)
  show "length (shards (put_shard m key items)) = SHARD_COUNT"
    using inv by (simp add: cmap_inv_def put_shard_def)
next
  fix i assume "i < SHARD_COUNT"
  then show "gomap_ok (shards (put_shard m key items) ! i)"
    using inv ok by (cases "i = shard_index m key") (simp_all add: cmap_inv_def put_shard_def)
next
  fix i assume "i < SHARD_COUNT"
  then show "dom (map_of (shards (put_shard m key items) ! i)) \<subseteq>
      {k. shard_index (put_shard m key items) k = i}"
    using inv keys by (cases "i = shard_index m key") (simp_all add: cmap_inv_def put_shard_def)
qed

lemma put_shard_lookup:
  assumes inv: "cmap_inv m"
    and same: "\<forall>k. k \<noteq> key \<longrightarrow> map_of items k = map_of (shards m ! shard_index m key) k"
  shows "cm_lookup (put_shard m key items) = (cm_lookup m)(key := map_of items key)"
proof
  fix k
  have "shard_index m key < length (shards m)" using inv by (simp add: cmap_inv_def shard_index_less)
  with same show "cm_lookup (put_shard m key items) k = ((cm_lookup m)(key := map_of items key)) k"
    by (cases "shard_index m k = shard_index m key") (auto simp: cm_lookup_def put_shard_def)
qed

lemma shard_ok: "cmap_inv m \<Longrightarrow> gomap_ok (shards m ! shard_index m key)"
  by (simp add: cmap_inv_def shard_index_less)

lemma shard_keys:
  "cmap_inv m \<Longrightarrow>
   dom (map_of (shards m ! shard_index m key)) \<subseteq> {k. shard_index m k = shard_index m key}"
  by (simp add: cmap_inv_def shard_index_less)

lemma put_set:
  assumes "cmap_inv m"
  shows "cmap_inv (put_shard m key (gomap_set (shards m ! shard_index m key) key v)) \<and>
    cm_lookup (put_shard m key (gomap_set (shards m ! shard_index m key) key v)) =
      (cm_lookup m)(key \<mapsto> v)"
proof
  show "cmap_inv (put_shard m key (gomap_set (shards m ! shard_index m key) key v))"
    using shard_keys [OF assms] by (intro put_shard_inv assms) (auto simp: shard_ok [OF assms])
  show "cm_lookup (put_shard m key (gomap_set (shards m ! shard_index m key) key v)) =
      (cm_lookup m)(key \<mapsto> v)"
    by (subst put_shard_lookup [OF assms]) simp_all
qed

lemma put_delete:
  assumes "cmap_inv m"
  shows "cmap_inv (put_shard m key (gomap_delete (shards m ! shard_index m key) key)) \<and>
    cm_lookup (put_shard m key (gomap_delete (shards m ! shard_index m key) key)) =
      (cm_lookup m)(key := None)"
proof
  show "cmap_inv (put_shard m key (gomap_delete (shards m ! shard_index m key) key))"
    using shard_keys [OF assms] by (intro put_shard_inv assms) (auto simp: shard_ok [OF assms])
  show "cm_lookup (put_shard m key (gomap_delete (shards m ! shard_index m key) key)) =
      (cm_lookup m)(key := None)"
    by (subst put_shard_lookup [OF assms]) simp_all
qed

lemma put_same:
  assumes "cmap_inv m"
  shows "put_shard m key (shards m ! shard_index m key) = m"
  using assms by (simp add: put_shard_def)

lemma gomap_get_lookup:
  "gomap_get zv (shards m ! shard_index m key) key =
     (case cm_lookup m key of None \<Rightarrow> (zv, False) | Some v \<Rightarrow> (v, True))"
  by (simp add: gomap_get_def cm_lookup_def)

section \<open>Each operation implements the map's\<close>

text \<open>The value and the flag that \<open>v, ok := items[key]\<close> gives, from the abstract map.\<close>

definition old_value :: "'v \<Rightarrow> ('k \<rightharpoonup> 'v) \<Rightarrow> 'k \<Rightarrow> 'v" where
  "old_value zv f key = (case f key of None \<Rightarrow> zv | Some v \<Rightarrow> v)"

lemma old_value_simps [simp]:
  "f key = Some v \<Longrightarrow> old_value zv f key = v"
  "f key = None \<Longrightarrow> old_value zv f key = zv"
  by (simp_all add: old_value_def)

lemma gomap_get_shard:
  "gomap_get zv (shards m ! shard_index m key) key =
     (old_value zv (cm_lookup m) key, cm_lookup m key \<noteq> None)"
  by (auto simp: gomap_get_def old_value_def cm_lookup_def split: option.split)

lemma create_empty: "cmap_inv (create f)" "cm_lookup (create f) = Map.empty"
  by (auto simp: create_def cmap_inv_def cm_lookup_def SHARD_COUNT_def shard_index_def)

lemma cm_Set_spec:
  assumes "cmap_inv m"
  shows "\<exists>m'. cm_Set m key v = Some m' \<and> cmap_inv m' \<and> cm_lookup m' = (cm_lookup m)(key \<mapsto> v)"
  using put_set [OF assms, of key v] by (simp add: cm_Set_def on_shard_inv [OF assms] put_shard_def)

lemma cm_Get_spec:
  "cmap_inv m \<Longrightarrow> cm_Get zv m key = Some (old_value zv (cm_lookup m) key, cm_lookup m key \<noteq> None)"
  by (simp add: cm_Get_def GetShard_inv gomap_get_shard)

lemma Has_spec: "cmap_inv m \<Longrightarrow> Has m key = Some (cm_lookup m key \<noteq> None)"
  by (simp add: Has_def GetShard_inv cm_lookup_def)

lemma Upsert_spec:
  assumes "cmap_inv m"
  shows "\<exists>m'. Upsert zv m key v cb s =
      Some (cb (cm_lookup m key \<noteq> None) (old_value zv (cm_lookup m) key) v s, m') \<and> cmap_inv m' \<and>
      cm_lookup m' = (cm_lookup m)(key \<mapsto>
        fst (cb (cm_lookup m key \<noteq> None) (old_value zv (cm_lookup m) key) v s))"
  using put_set [OF assms, of key]
  by (auto simp: Upsert_def on_shard_inv [OF assms] put_shard_def gomap_get_shard split: prod.split)

lemma SetIfAbsent_spec:
  assumes "cmap_inv m"
  shows "\<exists>m'. SetIfAbsent m key v = Some (cm_lookup m key = None, m') \<and> cmap_inv m' \<and>
      cm_lookup m' = (if cm_lookup m key = None then (cm_lookup m)(key \<mapsto> v) else cm_lookup m)"
  using put_set [OF assms, of key v] put_same [OF assms, of key] assms
  by (auto simp: SetIfAbsent_def on_shard_inv [OF assms] put_shard_def cm_lookup_def Let_def)

lemma cm_Remove_spec:
  assumes "cmap_inv m"
  shows "\<exists>m'. cm_Remove m key = Some m' \<and> cmap_inv m' \<and> cm_lookup m' = (cm_lookup m)(key := None)"
  using put_delete [OF assms, of key] by (simp add: cm_Remove_def on_shard_inv [OF assms] put_shard_def)

lemma RemoveCb_spec:
  assumes "cmap_inv m"
  shows "\<exists>m'. RemoveCb zv m key cb s =
      Some (cb key (old_value zv (cm_lookup m) key) (cm_lookup m key \<noteq> None) s, m') \<and> cmap_inv m' \<and>
      cm_lookup m' =
        (if fst (cb key (old_value zv (cm_lookup m) key) (cm_lookup m key \<noteq> None) s)
         then (cm_lookup m)(key := None) else cm_lookup m)"
proof -
  obtain r s' where r: "cb key (old_value zv (cm_lookup m) key) (cm_lookup m key \<noteq> None) s = (r, s')"
    by (cases "cb key (old_value zv (cm_lookup m) key) (cm_lookup m key \<noteq> None) s") auto
  have "RemoveCb zv m key cb s = Some ((r, s'), put_shard m key
      (if r \<and> cm_lookup m key \<noteq> None then gomap_delete (shards m ! shard_index m key) key
       else shards m ! shard_index m key))"
    by (simp add: RemoveCb_def on_shard_inv [OF assms] put_shard_def gomap_get_shard r
        del: not_None_eq)
  moreover have "(cm_lookup m)(key := None) = cm_lookup m" if "cm_lookup m key = None"
    using that by (rule fun_upd_idem)
  ultimately show ?thesis
    using put_delete [OF assms, of key] put_same [OF assms, of key] assms r
    by (cases "cm_lookup m key = None") auto
qed

lemma Pop_spec:
  assumes "cmap_inv m"
  shows "\<exists>m'. Pop zv m key = Some ((old_value zv (cm_lookup m) key, cm_lookup m key \<noteq> None), m') \<and>
      cmap_inv m' \<and> cm_lookup m' = (cm_lookup m)(key := None)"
  using put_delete [OF assms, of key]
  by (simp add: Pop_def on_shard_inv [OF assms] put_shard_def gomap_get_shard)

section \<open>Iteration\<close>

lemma mset_fanIn [simp]: "mset (fanIn sched chans) = mset (concat chans)"
proof (induction sched chans rule: fanIn.induct)
  case (1 chans)
  then show ?case by simp
next
  case (2 i sched chans)
  show ?case
  proof (cases "i < length chans \<and> chans ! i \<noteq> []")
    case True
    have "mset (concat (chans[i := tl (chans ! i)])) + {#hd (chans ! i)#} = mset (concat chans)"
      using True
    proof (induction chans arbitrary: i)
      case (Cons c cs)
      then show ?case by (cases i) (auto simp: neq_Nil_conv)
    qed simp
    with True "2.IH"(1) show ?thesis by simp
  next
    case False
    then have "mset (fanIn sched chans) = mset (concat chans)" by (rule "2.IH"(2))
    moreover have "fanIn (i # sched) chans = fanIn sched chans"
      using False by (subst fanIn.simps) (rule if_not_P)
    ultimately show ?thesis by (simp del: fanIn.simps)
  qed
qed

lemma set_fanIn [simp]: "set (fanIn sched chans) = set (concat chans)"
  by (metis mset_fanIn set_mset_mset)

lemma distinct_concat_keys:
  "(\<forall>i<length xss. distinct (map fst (xss ! i)) \<and> (\<forall>x\<in>set (xss ! i). f (fst x) = n + i)) \<Longrightarrow>
   distinct (map fst (concat xss)) \<and> (\<forall>x\<in>set (concat xss). n \<le> f (fst x))"
proof (induction xss arbitrary: n)
  case Nil
  then show ?case by simp
next
  case (Cons xs xss)
  have rest: "\<forall>i<length xss. distinct (map fst (xss ! i)) \<and>
      (\<forall>x\<in>set (xss ! i). f (fst x) = Suc n + i)"
    using Cons.prems [rule_format, of "Suc _"] by auto
  have hd: "distinct (map fst xs)" "\<forall>x\<in>set xs. f (fst x) = n"
    using Cons.prems [rule_format, of 0] by auto
  from Cons.IH [OF rest] have ih: "distinct (map fst (concat xss))"
    "\<forall>x\<in>set (concat xss). Suc n \<le> f (fst x)" by auto
  have "fst ` set xs \<inter> fst ` set (concat xss) = {}"
    using hd(2) ih(2) by fastforce
  with hd ih show ?case by fastforce
qed

lemma concat_shards_distinct:
  assumes "cmap_inv m"
  shows "distinct (map fst (concat (shards m)))"
proof -
  have "\<forall>i<length (shards m). distinct (map fst (shards m ! i)) \<and>
      (\<forall>x\<in>set (shards m ! i). shard_index m (fst x) = 0 + i)"
  proof (intro allI impI conjI ballI)
    fix i assume i: "i < length (shards m)"
    then show "distinct (map fst (shards m ! i))"
      using assms by (simp add: cmap_inv_def gomap_ok_def)
    fix x assume "x \<in> set (shards m ! i)"
    then have "fst x \<in> dom (map_of (shards m ! i))" by (simp add: dom_map_of_conv_image_fst)
    then show "shard_index m (fst x) = 0 + i" using assms i by (auto simp: cmap_inv_def)
  qed
  from distinct_concat_keys [OF this] show ?thesis by blast
qed

lemma in_shards_lookup:
  assumes "cmap_inv m"
  shows "(k, v) \<in> set (concat (shards m)) \<longleftrightarrow> cm_lookup m k = Some v"
proof
  assume "(k, v) \<in> set (concat (shards m))"
  then obtain i where i: "i < length (shards m)" "(k, v) \<in> set (shards m ! i)"
    by (fastforce simp: set_conv_nth [of "shards m"])
  then have "map_of (shards m ! i) k = Some v"
    using assms by (simp add: cmap_inv_def gomap_ok_def)
  moreover from this have "shard_index m k = i" using assms i by (auto simp: cmap_inv_def)
  ultimately show "cm_lookup m k = Some v" by (simp add: cm_lookup_def)
next
  assume "cm_lookup m k = Some v"
  then have "(k, v) \<in> set (shards m ! shard_index m k)" by (auto simp: cm_lookup_def map_of_SomeD)
  then show "(k, v) \<in> set (concat (shards m))"
    using assms by (auto simp: cmap_inv_def shard_index_less intro!: bexI [OF _ nth_mem])
qed

text \<open>Whatever the schedule, an iteration visits every entry once.\<close>

lemma Iter_spec:
  assumes "cmap_inv m"
  shows "\<exists>its. Iter sched m = Some its \<and> distinct (map fst its) \<and> map_of its = cm_lookup m"
proof -
  have ne: "shards m \<noteq> []" using assms by (auto simp: cmap_inv_def SHARD_COUNT_def)
  let ?its = "fanIn sched (shards m)"
  have "mset (map fst ?its) = mset (map fst (concat (shards m)))" by simp
  then have d: "distinct (map fst ?its)"
    using concat_shards_distinct [OF assms] by (metis mset_eq_imp_distinct_iff)
  have "map_of ?its k = cm_lookup m k" for k
  proof (cases "cm_lookup m k")
    case None
    then have "k \<notin> fst ` set ?its" using in_shards_lookup [OF assms, of k] by fastforce
    with None show ?thesis by (simp add: map_of_eq_None_iff)
  next
    case (Some v)
    then have "(k, v) \<in> set ?its" using in_shards_lookup [OF assms, of k v] by simp
    with Some d show ?thesis by simp
  qed
  with d ne show ?thesis by (auto simp: Iter_def snapshot_def)
qed

lemma IterBuffered_Iter: "IterBuffered = Iter"
  by (intro ext) (simp add: IterBuffered_def Iter_def)

section \<open>The interface of a concurrent map\<close>

text \<open>
  What the server asks of a concurrent map: the operations with callbacks, \<open>Get\<close>, \<open>Pop\<close> and
  the iteration, over an abstract map \<open>lookup\<close>. The server itself imports
  \<^verbatim>\<open>github.com/orcaman/concurrent-map/v2\<close>, of which this package is a copy with fewer shards.
\<close>

locale concurrent_map =
  fixes upsert :: "'m \<Rightarrow> 'k \<Rightarrow> 'v \<Rightarrow> (bool \<Rightarrow> 'v \<Rightarrow> 'v \<Rightarrow> 's \<Rightarrow> 'v \<times> 's) \<Rightarrow> 's \<Rightarrow> (('v \<times> 's) \<times> 'm) option"
    and remove_cb :: "'m \<Rightarrow> 'k \<Rightarrow> ('k \<Rightarrow> 'v \<Rightarrow> bool \<Rightarrow> 's \<Rightarrow> bool \<times> 's) \<Rightarrow> 's \<Rightarrow> ((bool \<times> 's) \<times> 'm) option"
    and pop :: "'m \<Rightarrow> 'k \<Rightarrow> (('v \<times> bool) \<times> 'm) option"
    and iter :: "nat list \<Rightarrow> 'm \<Rightarrow> ('k \<times> 'v) list option"
    and zv :: 'v
    and invar :: "'m \<Rightarrow> bool"
    and lookup :: "'m \<Rightarrow> 'k \<rightharpoonup> 'v"
  assumes upsert: "invar m \<Longrightarrow>
      \<exists>m'. upsert m k v cb s = Some (cb (lookup m k \<noteq> None) (old_value zv (lookup m) k) v s, m') \<and>
        invar m' \<and>
        lookup m' = (lookup m)(k \<mapsto> fst (cb (lookup m k \<noteq> None) (old_value zv (lookup m) k) v s))"
    and remove_cb: "invar m \<Longrightarrow>
      \<exists>m'. remove_cb m k cb' s =
          Some (cb' k (old_value zv (lookup m) k) (lookup m k \<noteq> None) s, m') \<and> invar m' \<and>
        lookup m' = (if fst (cb' k (old_value zv (lookup m) k) (lookup m k \<noteq> None) s)
          then (lookup m)(k := None) else lookup m)"
    and pop: "invar m \<Longrightarrow>
      \<exists>m'. pop m k = Some ((old_value zv (lookup m) k, lookup m k \<noteq> None), m') \<and> invar m' \<and>
        lookup m' = (lookup m)(k := None)"
    and iter: "invar m \<Longrightarrow>
      \<exists>its. iter sched m = Some its \<and> distinct (map fst its) \<and> map_of its = lookup m"

interpretation cm: concurrent_map "Upsert zv" "RemoveCb zv" "Pop zv" Iter zv cmap_inv cm_lookup
  by unfold_locales (fact Upsert_spec RemoveCb_spec Pop_spec Iter_spec)+

section \<open>Properties\<close>

text \<open>
  The calls of a client on a created map, what each returns, and what it does to the map and to the variables
  \<open>'s\<close> that its callbacks close over; then the same on one map without shards.
\<close>

datatype ('k, 'v, 's) cmap_op =
    CSet 'k 'v | CSetIfAbsent 'k 'v | CUpsert 'k 'v "bool \<Rightarrow> 'v \<Rightarrow> 'v \<Rightarrow> 's \<Rightarrow> 'v \<times> 's"
  | CRemove 'k | CRemoveCb 'k "'k \<Rightarrow> 'v \<Rightarrow> bool \<Rightarrow> 's \<Rightarrow> bool \<times> 's" | CPop 'k | CMSet "('k, 'v) gomap"
  | CGet 'k | CHas 'k | CCount | CIsEmpty

datatype 'v cmap_res = RNone | RBool bool | RValue 'v | RFound 'v bool | RCount nat

fun cmap_exec :: "'v \<Rightarrow> ('k, 'v, 's) cmap_op \<Rightarrow> ('k, 'v) cmap \<times> 's \<Rightarrow> ('v cmap_res \<times> ('k, 'v) cmap \<times> 's) option" where
  "cmap_exec zv (CSet k v) (m, s) = map_option (\<lambda>m'. (RNone, m', s)) (cm_Set m k v)"
| "cmap_exec zv (CSetIfAbsent k v) (m, s) = map_option (\<lambda>(b, m'). (RBool b, m', s)) (SetIfAbsent m k v)"
| "cmap_exec zv (CUpsert k v f) (m, s) = map_option (\<lambda>((x, s'), m'). (RValue x, m', s')) (Upsert zv m k v f s)"
| "cmap_exec zv (CRemove k) (m, s) = map_option (\<lambda>m'. (RNone, m', s)) (cm_Remove m k)"
| "cmap_exec zv (CRemoveCb k f) (m, s) = map_option (\<lambda>((b, s'), m'). (RBool b, m', s')) (RemoveCb zv m k f s)"
| "cmap_exec zv (CPop k) (m, s) = map_option (\<lambda>((x, ex), m'). (RFound x ex, m', s)) (Pop zv m k)"
| "cmap_exec zv (CMSet d) (m, s) = map_option (\<lambda>m'. (RNone, m', s)) (MSet m d)"
| "cmap_exec zv (CGet k) (m, s) = map_option (\<lambda>(x, ex). (RFound x ex, m, s)) (cm_Get zv m k)"
| "cmap_exec zv (CHas k) (m, s) = map_option (\<lambda>b. (RBool b, m, s)) (Has m k)"
| "cmap_exec zv CCount (m, s) = map_option (\<lambda>n. (RCount n, m, s)) (cm_Count m)"
| "cmap_exec zv CIsEmpty (m, s) = map_option (\<lambda>b. (RBool b, m, s)) (IsEmpty m)"

fun spec_exec :: "'v \<Rightarrow> ('k, 'v, 's) cmap_op \<Rightarrow> ('k \<rightharpoonup> 'v) \<times> 's \<Rightarrow> 'v cmap_res \<times> ('k \<rightharpoonup> 'v) \<times> 's" where
  "spec_exec zv (CSet k v) (f, s) = (RNone, f(k \<mapsto> v), s)"
| "spec_exec zv (CSetIfAbsent k v) (f, s) = (RBool (f k = None), if f k = None then f(k \<mapsto> v) else f, s)"
| "spec_exec zv (CUpsert k v g) (f, s) =
     (case g (f k \<noteq> None) (old_value zv f k) v s of (x, s') \<Rightarrow> (RValue x, f(k \<mapsto> x), s'))"
| "spec_exec zv (CRemove k) (f, s) = (RNone, f(k := None), s)"
| "spec_exec zv (CRemoveCb k g) (f, s) =
     (case g k (old_value zv f k) (f k \<noteq> None) s of (b, s') \<Rightarrow> (RBool b, if b then f(k := None) else f, s'))"
| "spec_exec zv (CPop k) (f, s) = (RFound (old_value zv f k) (f k \<noteq> None), f(k := None), s)"
| "spec_exec zv (CMSet d) (f, s) = (RNone, foldl (\<lambda>g (k, v). g(k \<mapsto> v)) f d, s)"
| "spec_exec zv (CGet k) (f, s) = (RFound (old_value zv f k) (f k \<noteq> None), f, s)"
| "spec_exec zv (CHas k) (f, s) = (RBool (f k \<noteq> None), f, s)"
| "spec_exec zv CCount (f, s) = (RCount (card (dom f)), f, s)"
| "spec_exec zv CIsEmpty (f, s) = (RBool (f = Map.empty), f, s)"

text \<open>A sequence of calls, with all that they return.\<close>

fun cmap_run :: "'v \<Rightarrow> ('k, 'v, 's) cmap_op list \<Rightarrow> ('k, 'v) cmap \<times> 's \<Rightarrow> ('v cmap_res list \<times> ('k, 'v) cmap \<times> 's) option" where
  "cmap_run zv [] ms = Some ([], ms)"
| "cmap_run zv (x # xs) ms = Option.bind (cmap_exec zv x ms) (\<lambda>(r, ms').
     map_option (\<lambda>(rs, ms''). (r # rs, ms'')) (cmap_run zv xs ms'))"

fun spec_run :: "'v \<Rightarrow> ('k, 'v, 's) cmap_op list \<Rightarrow> ('k \<rightharpoonup> 'v) \<times> 's \<Rightarrow> 'v cmap_res list \<times> ('k \<rightharpoonup> 'v) \<times> 's" where
  "spec_run zv [] fs = ([], fs)"
| "spec_run zv (x # xs) fs = (case spec_exec zv x fs of (r, fs') \<Rightarrow> (case spec_run zv xs fs' of (rs, fs'') \<Rightarrow> (r # rs, fs'')))"

lemma MSet_spec:
  "cmap_inv m \<Longrightarrow> \<exists>m'. MSet m d = Some m' \<and> cmap_inv m' \<and>
     cm_lookup m' = foldl (\<lambda>g (k, v). g(k \<mapsto> v)) (cm_lookup m) d"
proof (induction d arbitrary: m)
  case Nil
  then show ?case by simp
next
  case (Cons x d)
  obtain k v where x: "x = (k, v)" by (cases x) auto
  from cm_Set_spec [OF Cons.prems, of k v] obtain m1 where
    "cm_Set m k v = Some m1" "cmap_inv m1" "cm_lookup m1 = (cm_lookup m)(k \<mapsto> v)" by blast
  with Cons.IH [of m1] x show ?case by simp
qed

lemma cm_Count_spec:
  assumes "cmap_inv m"
  shows "cm_Count m = Some (card (dom (cm_lookup m)))"
proof -
  have l: "length (shards m) = SHARD_COUNT" using assms by (simp add: cmap_inv_def)
  obtain its where its: "Iter [] m = Some its" "distinct (map fst its)" "map_of its = cm_lookup m"
    using Iter_spec [OF assms] by blast
  then have "its = concat (shards m)" by (auto simp: Iter_def snapshot_def split: if_splits)
  then have "card (dom (cm_lookup m)) = length (concat (shards m))"
    using its(2,3) gomap_ok_length [of its] by (simp add: gomap_ok_def)
  then show ?thesis using l by (simp add: cm_Count_def length_concat)
qed

lemma finite_lookup:
  assumes "cmap_inv m"
  shows "finite (dom (cm_lookup m))"
  using Iter_spec [OF assms, of "[]"] finite_dom_map_of by metis

lemma cmap_exec_refines:
  assumes "cmap_inv m"
  shows "\<exists>r m' s'. cmap_exec zv x (m, s) = Some (r, m', s') \<and> cmap_inv m' \<and> spec_exec zv x (cm_lookup m, s) = (r, cm_lookup m', s')"
proof (cases x)
  case (CSet k v)
  then show ?thesis using cm_Set_spec [OF assms, of k v] by auto
next
  case (CSetIfAbsent k v)
  then show ?thesis using SetIfAbsent_spec [OF assms, of k v] by auto
next
  case (CUpsert k v f)
  then show ?thesis using Upsert_spec [OF assms, of zv k v f s]
    by (cases "f (cm_lookup m k \<noteq> None) (old_value zv (cm_lookup m) k) v s") auto
next
  case (CRemove k)
  then show ?thesis using cm_Remove_spec [OF assms, of k] by auto
next
  case (CRemoveCb k f)
  then show ?thesis using RemoveCb_spec [OF assms, of zv k f s]
    by (cases "f k (old_value zv (cm_lookup m) k) (cm_lookup m k \<noteq> None) s") auto
next
  case (CPop k)
  then show ?thesis using Pop_spec [OF assms, of zv k] by auto
next
  case (CMSet d)
  then show ?thesis using MSet_spec [OF assms, of d] by auto
next
  case CIsEmpty
  then show ?thesis using assms finite_lookup [OF assms] by (simp add: IsEmpty_def cm_Count_spec)
qed (simp_all add: assms cm_Get_spec Has_spec cm_Count_spec)

lemma cmap_run_refines:
  "cmap_inv m \<Longrightarrow> \<exists>rs m' s'. cmap_run zv xs (m, s) = Some (rs, m', s') \<and> cmap_inv m' \<and>
     spec_run zv xs (cm_lookup m, s) = (rs, cm_lookup m', s')"
proof (induction xs arbitrary: m s)
  case (Cons x xs)
  from cmap_exec_refines [OF Cons.prems, of zv x s] obtain r m1 s1 where
    1: "cmap_exec zv x (m, s) = Some (r, m1, s1)" "cmap_inv m1" "spec_exec zv x (cm_lookup m, s) = (r, cm_lookup m1, s1)" by blast
  with Cons.IH [OF 1(2), of s1] show ?case by auto
qed simp

text \<open>C13: For any sharding function, any sequence of calls on a created map runs without a panic, and each call
  returns what it returns on one map without shards, its callback sees what it sees there, and the map is
  left as that map is.\<close>

theorem cmap_refines_map:
  "\<exists>rs m' s'. cmap_run zv xs (create sh, s) = Some (rs, m', s') \<and> cmap_inv m' \<and>
     spec_run zv xs (Map.empty, s) = (rs, cm_lookup m', s')"
  using cmap_run_refines [OF create_empty(1) [of sh], of zv xs s] by (simp add: create_empty(2))

lemma foldl_set_lookup:
  "distinct (map fst its) \<Longrightarrow> fst ` set its \<inter> dom (map_of tmp) = {} \<Longrightarrow> gomap_ok tmp \<Longrightarrow>
   gomap_ok (foldl (\<lambda>tmp item. gomap_set tmp (fst item) (snd item)) tmp its) \<and>
   map_of (foldl (\<lambda>tmp item. gomap_set tmp (fst item) (snd item)) tmp its) =
     map_of tmp ++ map_of its"
proof (induction its arbitrary: tmp)
  case Nil
  then show ?case by simp
next
  case (Cons x its)
  let ?tmp = "gomap_set tmp (fst x) (snd x)"
  have "fst ` set its \<inter> dom (map_of ?tmp) = {}" "gomap_ok ?tmp" "distinct (map fst its)"
    using Cons.prems by auto
  from Cons.IH [OF this(3,1,2)] have
    "gomap_ok (foldl (\<lambda>tmp item. gomap_set tmp (fst item) (snd item)) ?tmp its)"
    "map_of (foldl (\<lambda>tmp item. gomap_set tmp (fst item) (snd item)) ?tmp its) = map_of ?tmp ++ map_of its"
    by blast+
  moreover have "map_of ?tmp ++ map_of its = map_of tmp ++ map_of (x # its)"
    using Cons.prems(1) by (auto simp: map_add_def fun_eq_iff map_of_eq_None_iff image_iff split: option.split)
  ultimately show ?case by (simp add: fun_upd_def)
qed

lemma remove_keys_spec:
  "cmap_inv m \<Longrightarrow> \<exists>m'. remove_keys m its = Some m' \<and> cmap_inv m' \<and>
     cm_lookup m' = cm_lookup m |` (- fst ` set its)"
proof (induction its arbitrary: m)
  case Nil
  then show ?case by simp
next
  case (Cons x its)
  from cm_Remove_spec [OF Cons.prems, of "fst x"] obtain m1 where
    m1: "cm_Remove m (fst x) = Some m1" "cmap_inv m1" "cm_lookup m1 = (cm_lookup m)(fst x := None)"
    by blast
  from Cons.IH [OF m1(2)] m1 show ?case
    by (auto simp: restrict_map_def fun_eq_iff)
qed

text \<open>With any interleaving of the channels, \<open>Items\<close> returns exactly the entries of the
  map, \<open>Keys\<close> each key once, and \<open>Clear\<close> empties the map.\<close>

theorem cmap_iteration:
  assumes "cmap_inv m"
  shows "(\<exists>its. Items sched m = Some its \<and> gomap_ok its \<and> map_of its = cm_lookup m) \<and>
    distinct (Keys sched m) \<and> set (Keys sched m) = dom (cm_lookup m) \<and>
    (\<exists>m'. Clear sched m = Some m' \<and> cmap_inv m' \<and> cm_lookup m' = Map.empty \<and> IsEmpty m' = Some True)"
proof (intro conjI)
  obtain its where its: "IterBuffered sched m = Some its" "distinct (map fst its)"
      "map_of its = cm_lookup m"
    using Iter_spec [OF assms, of sched] by (auto simp: IterBuffered_Iter)
  then show "\<exists>its. Items sched m = Some its \<and> gomap_ok its \<and> map_of its = cm_lookup m"
    using foldl_set_lookup [of its "[]"] by (simp add: Items_def)
  have e: "concat (map (map fst) (shards m)) = map fst (concat (shards m))"
    by (simp add: map_concat)
  have "mset (Keys sched m) = mset (map fst (concat (shards m)))"
    by (simp add: Keys_def e)
  then show "distinct (Keys sched m)"
    using concat_shards_distinct [OF assms] by (metis mset_eq_imp_distinct_iff)
  have "set (Keys sched m) = fst ` set (concat (shards m))"
    by (simp only: Keys_def set_fanIn e set_map)
  also have "\<dots> = dom (cm_lookup m)"
    using in_shards_lookup [OF assms] by force
  finally show "set (Keys sched m) = dom (cm_lookup m)" .
  obtain m' where m': "remove_keys m its = Some m'" "cmap_inv m'"
      "cm_lookup m' = cm_lookup m |` (- fst ` set its)"
    using remove_keys_spec [OF assms] by blast
  have "fst ` set its = dom (cm_lookup m)"
    by (simp flip: its(3) add: dom_map_of_conv_image_fst)
  with m'(3) have "cm_lookup m' = Map.empty"
    by (auto simp: restrict_map_def fun_eq_iff domIff)
  with m'(1,2) its(1) cm_Count_spec [OF m'(2)]
  show "\<exists>m'. Clear sched m = Some m' \<and> cmap_inv m' \<and> cm_lookup m' = Map.empty \<and> IsEmpty m' = Some True"
    by (simp add: Clear_def IsEmpty_def)
qed

theorem cmap_iteration_witness:
  "cmap_inv (create fnv32 :: (string, nat) cmap) \<and>
   distinct (Keys [0] (create fnv32 :: (string, nat) cmap))"
  using create_empty(1) [of fnv32] cmap_iteration [OF create_empty(1) [of fnv32], of "[0]"] by blast

end
