(* ===== verification/FlowLimit.thy ===== *)
theory FlowLimit
  imports Prelude
begin

text \<open>
  The traffic limiter of \<^verbatim>\<open>server/flow_limit.go\<close>: a budget of bytes per second
  (\<open>LimitedReaderAction\<close>), handed out through eight shards, and the reader that asks it
  (\<open>LimitedReader\<close>). Go's \<open>int\<close> and \<open>int64\<close> are both 64 bits wide here; the counters are
  \<open>int\<close>, and the bounds below keep them between 0 and the largest configured burst, so no
  operation on them wraps. The shard counter \<open>cc\<close> does wrap and is a word. The clock is an
  argument: the second that \<open>time.Now().Unix()\<close> returns.
\<close>

section \<open>State\<close>

definition LimitshareSize :: nat where
  "LimitshareSize = 8"

record action =
  readRate :: int
  readBurst :: int
  nowTimeUnix :: int
  residReadueBurst :: int
  cc :: u64
  slimitArray :: "int list"
  slimitMaxFlow :: int

definition default_rate :: "int \<Rightarrow> int" where
  "default_rate r = (if r \<le> 0 then 1024 * 30 else r)"

definition default_burst :: "int \<Rightarrow> int" where
  "default_burst b = (if b \<le> 0 then 1024 * 100000 else b)"

definition NewLimitedReaderAction :: "int \<Rightarrow> int \<Rightarrow> int \<Rightarrow> action" where
  "NewLimitedReaderAction now rate burst =
    (let rate = default_rate rate; burst = default_burst burst;
         maxFlow = go_quot burst (int LimitshareSize)
     in \<lparr>readRate = rate, readBurst = burst, nowTimeUnix = now, residReadueBurst = burst,
          cc = 0, slimitArray = replicate LimitshareSize maxFlow, slimitMaxFlow = maxFlow\<rparr>)"

definition ReadBurst :: "action \<Rightarrow> int" where
  "ReadBurst l = readBurst l"

definition GetNowTimeUnix :: "action \<Rightarrow> int" where
  "GetNowTimeUnix l = nowTimeUnix l"

definition UpdateParameter :: "int \<Rightarrow> int \<Rightarrow> action \<Rightarrow> action" where
  "UpdateParameter rate burst l =
    (let rate = default_rate rate; burst = default_burst burst
     in l\<lparr>readRate := rate, readBurst := burst, residReadueBurst := burst,
          slimitMaxFlow := go_quot burst (int LimitshareSize)\<rparr>)"

section \<open>The size of one read\<close>

text \<open>
  The region under \<open>wMutex\<close>, entered when the shard has no flow left: a new second restores
  the burst; \<open>False\<close> is the early return with 0, otherwise the shard gets its share.
\<close>

definition refill :: "int \<Rightarrow> nat \<Rightarrow> action \<Rightarrow> bool \<times> action" where
  "refill now idx l =
    (let l = (if nowTimeUnix l \<noteq> now
              then l\<lparr>nowTimeUnix := now, residReadueBurst := readBurst l\<rparr> else l)
     in if residReadueBurst l = 0 then (False, l)
        else if slimitMaxFlow l \<le> residReadueBurst l
        then (True, l\<lparr>residReadueBurst := residReadueBurst l - slimitMaxFlow l,
                      slimitArray := (slimitArray l)[idx := slimitMaxFlow l]\<rparr>)
        else (True, l\<lparr>slimitArray := (slimitArray l)[idx := residReadueBurst l],
                      residReadueBurst := 0\<rparr>))"

text \<open>The rest of \<open>GetReadSize\<close>: what is granted and taken from the shard.\<close>

definition take_flow :: "nat \<Rightarrow> int \<Rightarrow> action \<Rightarrow> int \<times> action" where
  "take_flow idx dataLen l =
    (let available = slimitArray l ! idx in
     if available \<le> readRate l then
       if available \<le> dataLen then (available, l\<lparr>slimitArray := (slimitArray l)[idx := 0]\<rparr>)
       else (dataLen, l\<lparr>slimitArray := (slimitArray l)[idx := available - dataLen]\<rparr>)
     else if dataLen \<le> readRate l
     then (dataLen, l\<lparr>slimitArray := (slimitArray l)[idx := available - dataLen]\<rparr>)
     else (readRate l, l\<lparr>slimitArray := (slimitArray l)[idx := available - readRate l]\<rparr>))"

text \<open>\<open>None\<close> is the index panic of \<open>l.slimitArray[idx]\<close>.\<close>

definition GetReadSize :: "int \<Rightarrow> int \<Rightarrow> action \<Rightarrow> (int \<times> action) option" where
  "GetReadSize now dataLen l =
    (let l = l\<lparr>cc := cc l + 1\<rparr>;
         idx = unat (cc l) mod LimitshareSize
     in if length (slimitArray l) \<le> idx then None
        else if slimitArray l ! idx \<le> 0 then
          (case refill now idx l of
             (False, l') \<Rightarrow> Some (0, l')
           | (True, l') \<Rightarrow> Some (take_flow idx dataLen l'))
        else Some (take_flow idx dataLen l))"

section \<open>Invariant\<close>

definition action_inv :: "action \<Rightarrow> bool" where
  "action_inv l \<longleftrightarrow> length (slimitArray l) = LimitshareSize \<and> 0 < readRate l \<and> 0 < readBurst l \<and>
     slimitMaxFlow l = readBurst l div 8 \<and>
     0 \<le> residReadueBurst l \<and> residReadueBurst l \<le> readBurst l \<and> list_all ((\<le>) 0) (slimitArray l)"

text \<open>The bytes that can still be granted before the next second.\<close>

definition credits :: "action \<Rightarrow> int" where
  "credits l = residReadueBurst l + sum_list (slimitArray l)"

lemma default_pos [simp]: "0 < default_rate r" "0 < default_burst b"
  by (simp_all add: default_rate_def default_burst_def)

lemma go_quot_share: "0 < b \<Longrightarrow> go_quot b (int LimitshareSize) = b div 8"
  by (simp add: go_quot_nonneg LimitshareSize_def)

lemma New_inv [inv_intros]: "action_inv (NewLimitedReaderAction now rate burst)"
  using default_pos(1) [of rate] default_pos(2) [of burst]
  by (auto simp: action_inv_def NewLimitedReaderAction_def go_quot_share list_all_iff
      pos_imp_zdiv_nonneg_iff order_less_imp_le Let_def)

lemma UpdateParameter_inv [inv_intros]: "action_inv l \<Longrightarrow> action_inv (UpdateParameter rate burst l)"
  by (simp add: action_inv_def UpdateParameter_def go_quot_share Let_def order_less_imp_le)

lemma go_quot_eight: "0 < b \<Longrightarrow> go_quot b 8 = b div 8"
  by (simp add: go_quot_nonneg)

lemma nth_nonneg: "list_all ((\<le>) (0::int)) xs \<Longrightarrow> i < length xs \<Longrightarrow> 0 \<le> xs ! i"
  by (simp add: list_all_length)

lemma refill_spec:
  assumes inv: "action_inv l" and idx: "idx < LimitshareSize" and empty: "slimitArray l ! idx = 0"
    and r: "refill now idx l = (b, l')"
  shows "action_inv l' \<and> readRate l' = readRate l \<and> readBurst l' = readBurst l \<and>
    nowTimeUnix l' = now \<and> cc l' = cc l \<and>
    credits l' = (if nowTimeUnix l = now then credits l
                  else readBurst l + sum_list (slimitArray l)) \<and>
    (b = (\<not> (nowTimeUnix l = now \<and> residReadueBurst l = 0))) \<and>
    (\<not> b \<longrightarrow> residReadueBurst l' = 0) \<and>
    (b \<and> 8 \<le> readBurst l \<longrightarrow> 0 < slimitArray l' ! idx)"
proof -
  have len: "idx < length (slimitArray l)" using inv idx by (simp add: action_inv_def)
  define l1 where "l1 = (if nowTimeUnix l \<noteq> now
    then l\<lparr>nowTimeUnix := now, residReadueBurst := readBurst l\<rparr> else l)"
  have l1: "action_inv l1" "slimitArray l1 = slimitArray l" "readRate l1 = readRate l"
      "readBurst l1 = readBurst l" "nowTimeUnix l1 = now" "cc l1 = cc l"
      "slimitMaxFlow l1 = slimitMaxFlow l"
      "residReadueBurst l1 = (if nowTimeUnix l = now then residReadueBurst l else readBurst l)"
    using inv by (auto simp: l1_def action_inv_def)
  have mf: "0 \<le> slimitMaxFlow l" "8 \<le> readBurst l \<longrightarrow> 0 < slimitMaxFlow l"
    "slimitMaxFlow l = readBurst l div 8"
    using inv by (auto simp: action_inv_def)
  have r': "refill now idx l = (if residReadueBurst l1 = 0 then (False, l1)
        else if slimitMaxFlow l1 \<le> residReadueBurst l1
        then (True, l1\<lparr>residReadueBurst := residReadueBurst l1 - slimitMaxFlow l1,
                      slimitArray := (slimitArray l1)[idx := slimitMaxFlow l1]\<rparr>)
        else (True, l1\<lparr>slimitArray := (slimitArray l1)[idx := residReadueBurst l1],
                      residReadueBurst := 0\<rparr>))"
    by (simp add: refill_def l1_def Let_def)
  have inv1: "residReadueBurst l1 \<ge> 0" "residReadueBurst l1 \<le> readBurst l"
    "list_all ((\<le>) 0) (slimitArray l)" "length (slimitArray l) = LimitshareSize"
    "0 < readRate l" "0 < readBurst l"
    using l1 by (auto simp: action_inv_def)
  consider (zero) "residReadueBurst l1 = 0" |
    (full) "residReadueBurst l1 \<noteq> 0" "slimitMaxFlow l \<le> residReadueBurst l1" |
    (part) "residReadueBurst l1 \<noteq> 0" "residReadueBurst l1 < slimitMaxFlow l" by linarith
  then show ?thesis
  proof cases
    case zero
    then have "b = False" "l' = l1" using r r' by auto
    with zero l1 inv1 show ?thesis by (auto simp: credits_def split: if_splits)
  next
    case full
    then have "b = True" and l': "l' = l1\<lparr>residReadueBurst := residReadueBurst l1 - slimitMaxFlow l,
                      slimitArray := (slimitArray l)[idx := slimitMaxFlow l]\<rparr>"
      using r r' l1 by auto
    moreover have "action_inv l'"
      using inv1 mf full l1 by (auto simp: l' action_inv_def list_all_update)
    moreover have "sum_list ((slimitArray l)[idx := slimitMaxFlow l]) =
        sum_list (slimitArray l) + slimitMaxFlow l"
      using len empty by (simp add: sum_list_update_int)
    ultimately show ?thesis
      using full inv1 mf l1 len by (auto simp: credits_def)
  next
    case part
    then have "b = True" and l': "l' = l1\<lparr>slimitArray := (slimitArray l)[idx := residReadueBurst l1],
                      residReadueBurst := 0\<rparr>"
      using r r' l1 by auto
    moreover have "action_inv l'"
      using inv1 mf part l1 by (auto simp: l' action_inv_def list_all_update)
    moreover have "sum_list ((slimitArray l)[idx := residReadueBurst l1]) =
        sum_list (slimitArray l) + residReadueBurst l1"
      using len empty by (simp add: sum_list_update_int)
    ultimately show ?thesis
      using part inv1 mf l1 len by (auto simp: credits_def)
  qed
qed

lemma take_flow_spec:
  assumes inv: "action_inv l" and idx: "idx < LimitshareSize" and dl: "0 \<le> dataLen"
    and t: "take_flow idx dataLen l = (n, l')"
  shows "action_inv l' \<and> readRate l' = readRate l \<and> readBurst l' = readBurst l \<and>
    nowTimeUnix l' = nowTimeUnix l \<and> residReadueBurst l' = residReadueBurst l \<and> cc l' = cc l \<and>
    0 \<le> n \<and> n \<le> dataLen \<and> n \<le> readRate l \<and> n \<le> slimitArray l ! idx \<and>
    credits l' = credits l - n \<and> (0 < dataLen \<and> 0 < slimitArray l ! idx \<longrightarrow> 0 < n)"
proof -
  have len: "idx < length (slimitArray l)" using inv idx by (simp add: action_inv_def)
  have av: "0 \<le> slimitArray l ! idx" using inv len by (simp add: action_inv_def nth_nonneg)
  have rr: "0 < readRate l" using inv by (simp add: action_inv_def)
  have "n = (if slimitArray l ! idx \<le> readRate l then min dataLen (slimitArray l ! idx)
             else min dataLen (readRate l))"
    and l': "l' = l\<lparr>slimitArray := (slimitArray l)[idx := slimitArray l ! idx - n]\<rparr>"
    using t by (auto simp: take_flow_def Let_def split: if_splits)
  then have n: "0 \<le> n" "n \<le> dataLen" "n \<le> readRate l" "n \<le> slimitArray l ! idx"
      "0 < dataLen \<and> 0 < slimitArray l ! idx \<longrightarrow> 0 < n"
    using av rr dl by auto
  moreover have "action_inv l'"
    using inv n by (auto simp: l' action_inv_def list_all_update)
  moreover have "credits l' = credits l - n"
    using len by (simp add: l' credits_def sum_list_update_int)
  ultimately show ?thesis by (simp add: l')
qed

lemma GetReadSize_spec:
  assumes inv: "action_inv l" and dl: "0 \<le> dataLen"
  shows "\<exists>n l'. GetReadSize now dataLen l = Some (n, l') \<and> action_inv l' \<and>
    readRate l' = readRate l \<and> readBurst l' = readBurst l \<and> cc l' = cc l + 1 \<and>
    0 \<le> n \<and> n \<le> dataLen \<and> n \<le> readRate l \<and>
    (nowTimeUnix l' = nowTimeUnix l \<and> credits l' = credits l - n \<or>
     nowTimeUnix l \<noteq> now \<and> nowTimeUnix l' = now \<and>
       credits l' \<le> readBurst l + credits l - n) \<and>
    (n = 0 \<and> 0 < dataLen \<and> 8 \<le> readBurst l \<longrightarrow>
       nowTimeUnix l' = now \<and> residReadueBurst l' = 0)"
proof -
  define l0 where "l0 = l\<lparr>cc := cc l + 1\<rparr>"
  define idx where "idx = unat (cc l0) mod LimitshareSize"
  have idx: "idx < LimitshareSize" by (simp add: idx_def LimitshareSize_def)
  have l0: "action_inv l0" "readRate l0 = readRate l" "readBurst l0 = readBurst l"
    "nowTimeUnix l0 = nowTimeUnix l" "residReadueBurst l0 = residReadueBurst l"
    "slimitArray l0 = slimitArray l" "credits l0 = credits l" "cc l0 = cc l + 1"
    using inv by (auto simp: l0_def action_inv_def credits_def)
  have len: "idx < length (slimitArray l)" using inv idx by (simp add: action_inv_def)
  have nonneg: "0 \<le> slimitArray l ! idx" using inv len by (simp add: action_inv_def nth_nonneg)
  have g: "GetReadSize now dataLen l =
      (if slimitArray l0 ! idx \<le> 0 then
          (case refill now idx l0 of
             (False, l') \<Rightarrow> Some (0, l')
           | (True, l') \<Rightarrow> Some (take_flow idx dataLen l'))
        else Some (take_flow idx dataLen l0))"
    using len l0(6) unfolding GetReadSize_def Let_def l0_def [symmetric] idx_def [symmetric]
    by simp
  have resid: "0 \<le> residReadueBurst l" using inv by (simp add: action_inv_def)
  show ?thesis
  proof (cases "slimitArray l ! idx \<le> 0")
    case False
    obtain n l' where t: "take_flow idx dataLen l0 = (n, l')" by (cases "take_flow idx dataLen l0") auto
    from take_flow_spec [OF l0(1) idx dl t] show ?thesis
      using False g t l0 by auto
  next
    case True
    with nonneg have empty: "slimitArray l0 ! idx = 0" using l0 by simp
    obtain b l1 where r: "refill now idx l0 = (b, l1)" by (cases "refill now idx l0") auto
    note R = refill_spec [OF l0(1) idx empty r]
    have c1: "nowTimeUnix l = now \<longrightarrow> credits l1 = credits l"
      "nowTimeUnix l \<noteq> now \<longrightarrow> credits l1 \<le> readBurst l + credits l"
      using R l0 resid by (auto simp: credits_def)
    show ?thesis
    proof (cases b)
      case False
      then have "GetReadSize now dataLen l = Some (0, l1)" using g r empty by simp
      moreover have "0 \<le> readRate l" using inv by (simp add: action_inv_def)
      ultimately show ?thesis using R l0 c1 dl False by auto
    next
      case True
      obtain n l' where t: "take_flow idx dataLen l1 = (n, l')" by (cases "take_flow idx dataLen l1") auto
      have i1: "action_inv l1" using R by blast
      note T = take_flow_spec [OF i1 idx dl t]
      have "GetReadSize now dataLen l = Some (n, l')" using g r t empty True by simp
      then show ?thesis using T R l0 c1 True by auto
    qed
  qed
qed

section \<open>Runs\<close>

text \<open>A sequence of calls \<open>GetReadSize\<close>, each with its second and its request.\<close>

fun grants :: "(int \<times> int) list \<Rightarrow> action \<Rightarrow> (int list \<times> action) option" where
  "grants [] l = Some ([], l)"
| "grants ((now, dataLen) # reqs) l =
     (case GetReadSize now dataLen l of None \<Rightarrow> None
      | Some (n, l') \<Rightarrow> map_option (\<lambda>(ns, l''). (n # ns, l'')) (grants reqs l'))"

text \<open>How often the clock shows another second than at the call before.\<close>

fun ticks :: "int \<Rightarrow> (int \<times> int) list \<Rightarrow> int" where
  "ticks t [] = 0"
| "ticks t ((now, _) # reqs) = (if now = t then 0 else 1) + ticks now reqs"

lemma ticks_nonneg: "0 \<le> ticks t reqs"
  by (induction t reqs rule: ticks.induct) auto

lemma ticks_change: "ticks t reqs \<le> (if t = t' then 0 else 1) + ticks t' reqs"
  by (cases reqs) auto

lemma grants_spec:
  assumes "action_inv l" and "\<forall>(now, d)\<in>set reqs. 0 \<le> d"
  shows "\<exists>ns l'. grants reqs l = Some (ns, l') \<and> action_inv l' \<and>
    readBurst l' = readBurst l \<and> readRate l' = readRate l \<and>
    length ns = length reqs \<and> (\<forall>n\<in>set ns. 0 \<le> n \<and> n \<le> readRate l) \<and>
    sum_list ns + credits l' \<le> credits l + readBurst l * ticks (nowTimeUnix l) reqs"
  using assms
proof (induction reqs arbitrary: l)
  case Nil
  then show ?case by simp
next
  case (Cons r reqs)
  obtain now d where r: "r = (now, d)" by (cases r) auto
  have rb: "0 < readBurst l" using Cons.prems by (simp add: action_inv_def)
  from GetReadSize_spec [OF Cons.prems(1), of d now] Cons.prems(2) r obtain n l1 where
    g: "GetReadSize now d l = Some (n, l1)" and i1: "action_inv l1"
    and same: "readBurst l1 = readBurst l" "readRate l1 = readRate l"
    and n: "0 \<le> n" "n \<le> readRate l"
    and cr: "nowTimeUnix l1 = nowTimeUnix l \<and> credits l1 = credits l - n \<or>
     nowTimeUnix l \<noteq> now \<and> nowTimeUnix l1 = now \<and> credits l1 \<le> readBurst l + credits l - n"
    by auto
  from Cons.IH [OF i1] Cons.prems(2) obtain ns l' where
    ih: "grants reqs l1 = Some (ns, l')" "action_inv l'" "readBurst l' = readBurst l"
      "readRate l' = readRate l" "length ns = length reqs" "\<forall>n\<in>set ns. 0 \<le> n \<and> n \<le> readRate l"
      "sum_list ns + credits l' \<le> credits l1 + readBurst l * ticks (nowTimeUnix l1) reqs"
    using same by auto
  have "credits l1 + readBurst l * ticks (nowTimeUnix l1) reqs + n
      \<le> credits l + readBurst l * ticks (nowTimeUnix l) (r # reqs)"
  proof (cases "nowTimeUnix l1 = nowTimeUnix l \<and> credits l1 = credits l - n")
    case True
    have "ticks (nowTimeUnix l) reqs \<le> ticks (nowTimeUnix l) (r # reqs)"
      using ticks_change [of "nowTimeUnix l" reqs now] r by auto
    then have "readBurst l * ticks (nowTimeUnix l) reqs \<le>
        readBurst l * ticks (nowTimeUnix l) (r # reqs)"
      using rb by (simp add: mult_left_mono)
    with True show ?thesis by simp
  next
    case False
    with cr r show ?thesis by (auto simp: algebra_simps)
  qed
  with g ih r n show ?case by auto
qed

lemma sum_list_replicate_int: "sum_list (replicate k (x::int)) = int k * x"
  by (induction k) (auto simp: algebra_simps)

lemma New_credits:
  "credits (NewLimitedReaderAction now rate burst) \<le> 2 * default_burst burst"
proof -
  have "8 * (default_burst burst div 8) \<le> default_burst burst" by simp
  then show ?thesis
    by (simp add: credits_def NewLimitedReaderAction_def go_quot_eight Let_def
        sum_list_replicate_int LimitshareSize_def)
qed

section \<open>The reader\<close>

text \<open>
  \<open>tempbuf\<close> has 2048 bytes, of which \<open>buf\<close> is the part from \<open>lr_off\<close> on. The underlying
  reader is the list of what its \<open>Read\<close> calls will return: a chunk of at most as many bytes
  as the buffer holds, and an error. The action is shared between readers and so is passed
  along.
\<close>

definition tempbuf_size :: nat where
  "tempbuf_size = 2 * 1024"

record limited_reader =
  lr_temp :: "byte list"
  lr_off :: nat
  lr_llen :: int

definition NewLimitedReader :: limited_reader where
  "NewLimitedReader = \<lparr>lr_temp = replicate tempbuf_size 0, lr_off = 0, lr_llen = 0\<rparr>"

type_synonym source = "(byte list \<times> go_error option) list"

definition source_read :: "source \<Rightarrow> (byte list \<times> go_error option) \<times> source" where
  "source_read src = (case src of [] \<Rightarrow> (([], Some EOF), []) | c # cs \<Rightarrow> (c, cs))"

text \<open>The first part of \<open>Read\<close>: fetch when nothing is buffered.\<close>

definition fetch :: "limited_reader \<Rightarrow> source \<Rightarrow> go_error option \<times> limited_reader \<times> source" where
  "fetch lr src =
    (if lr_llen lr = 0 then
       (case source_read src of ((data, err), src') \<Rightarrow>
         (err, lr\<lparr>lr_off := 0, lr_temp := data @ drop (length data) (lr_temp lr),
                  lr_llen := int (length data)\<rparr>, src'))
     else (None, lr, src))"

text \<open>
  The rest of \<open>Read(p)\<close> with \<open>len(p) = plen\<close>. When no flow is available it waits 33 ms and
  then reads one byte all the same.
\<close>

definition deliver :: "int \<Rightarrow> nat \<Rightarrow> limited_reader \<Rightarrow> action \<Rightarrow>
    ((byte list \<times> go_error option) \<times> limited_reader \<times> action) option" where
  "deliver now plen lr act =
    (if lr_llen lr \<le> 0 then Some (([], Some EOF), lr, act)
     else case GetReadSize now (lr_llen lr) act of
       None \<Rightarrow> None
     | Some (granted, act') \<Rightarrow>
         let sz = (if granted \<le> 0 then 1 else granted);
             n = (if int plen > sz then nat sz else plen)
         in if lr_off lr + n \<le> length (lr_temp lr)
            then Some ((take n (drop (lr_off lr) (lr_temp lr)), None),
                   lr\<lparr>lr_llen := lr_llen lr - int n, lr_off := lr_off lr + n\<rparr>, act')
            else None)"

definition LimitedReader_Read :: "bool \<Rightarrow> int \<Rightarrow> nat \<Rightarrow> limited_reader \<Rightarrow> action \<Rightarrow> source \<Rightarrow>
    ((byte list \<times> go_error option) \<times> limited_reader \<times> action \<times> source) option" where
  "LimitedReader_Read ctx_done now plen lr act src =
    (if ctx_done then Some (([], Some CtxDone), lr, act, src)
     else case fetch lr src of
       (Some e, lr', src') \<Rightarrow> Some (([], Some e), lr', act, src')
     | (None, lr', src') \<Rightarrow>
         map_option (\<lambda>(res, lr'', act'). (res, lr'', act', src')) (deliver now plen lr' act))"

definition lr_inv :: "limited_reader \<Rightarrow> bool" where
  "lr_inv lr \<longleftrightarrow> length (lr_temp lr) = tempbuf_size \<and> 0 \<le> lr_llen lr \<and>
     lr_off lr + nat (lr_llen lr) \<le> tempbuf_size"

definition source_ok :: "source \<Rightarrow> bool" where
  "source_ok src \<longleftrightarrow> (\<forall>(data, err)\<in>set src. length data \<le> tempbuf_size)"

text \<open>The bytes fetched and not yet delivered, and those the source will still give.\<close>

definition pending :: "limited_reader \<Rightarrow> byte list" where
  "pending lr = take (nat (lr_llen lr)) (drop (lr_off lr) (lr_temp lr))"

definition source_bytes :: "source \<Rightarrow> byte list" where
  "source_bytes src = concat (map fst src)"

lemma fetch_spec:
  assumes "lr_inv lr" and "source_ok src" and "fetch lr src = (e, lr', src')"
  shows "lr_inv lr' \<and> source_ok src' \<and>
    pending lr' @ source_bytes src' = pending lr @ source_bytes src"
proof (cases "lr_llen lr = 0 \<and> src \<noteq> []")
  case True
  then obtain data err cs where src: "src = (data, err) # cs" by (cases src) auto
  have "length data \<le> tempbuf_size" using assms(2) src by (simp add: source_ok_def)
  with True assms src show ?thesis
    by (auto simp: fetch_def source_read_def lr_inv_def source_ok_def pending_def source_bytes_def)
next
  case False
  then show ?thesis
    using assms by (auto simp: fetch_def source_read_def lr_inv_def source_ok_def pending_def
        source_bytes_def split: if_splits list.splits)
qed

lemma take_split: "n \<le> m \<Longrightarrow> take n xs @ take (m - n) (drop n xs) = take m xs"
  by (metis le_add_diff_inverse take_add)

lemma deliver_spec:
  assumes inv: "lr_inv lr" and act: "action_inv act"
  shows "\<exists>out err lr' act'. deliver now plen lr act = Some ((out, err), lr', act') \<and>
    lr_inv lr' \<and> action_inv act' \<and> out @ pending lr' = pending lr \<and>
    (err = None \<longrightarrow> length out \<le> plen) \<and> (err = None \<and> 0 < plen \<longrightarrow> out \<noteq> []) \<and>
    (err \<noteq> None \<longrightarrow> pending lr = [])"
proof (cases "lr_llen lr \<le> 0")
  case True
  with assms show ?thesis by (auto simp: deliver_def pending_def)
next
  case False
  then have "0 \<le> lr_llen lr" by simp
  from GetReadSize_spec [OF act this, of now] obtain gr act' where
    g: "GetReadSize now (lr_llen lr) act = Some (gr, act')" and a': "action_inv act'"
    and s: "0 \<le> gr" "gr \<le> lr_llen lr" by blast
  define sz where "sz = (if gr \<le> 0 then 1 else gr)"
  define n where "n = (if int plen > sz then nat sz else plen)"
  have n: "n \<le> nat (lr_llen lr)" "n \<le> plen" "0 < plen \<longrightarrow> 0 < n"
    using s False by (auto simp: n_def sz_def)
  have fits: "lr_off lr + n \<le> length (lr_temp lr)" "lr_off lr + nat (lr_llen lr) \<le> tempbuf_size"
    "length (lr_temp lr) = tempbuf_size"
    using inv n(1) by (auto simp: lr_inv_def)
  let ?lr' = "lr\<lparr>lr_llen := lr_llen lr - int n, lr_off := lr_off lr + n\<rparr>"
  let ?out = "take n (drop (lr_off lr) (lr_temp lr))"
  have "deliver now plen lr act = Some ((?out, None), ?lr', act')"
    using False fits(1)
    by (simp only: deliver_def g option.case prod.case Let_def sz_def [symmetric]
        n_def [symmetric] if_False if_True)
  moreover have "lr_inv ?lr'" using fits n False by (auto simp: lr_inv_def)
  moreover have "?out @ pending ?lr' = pending lr"
    using take_split [OF n(1), of "drop (lr_off lr) (lr_temp lr)"] False n
    by (simp add: pending_def add.commute nat_diff_distrib)
  moreover have l: "length ?out = n" using fits by simp
  moreover have "0 < plen \<longrightarrow> ?out \<noteq> []" using l n(3) by (metis length_greater_0_conv)
  ultimately show ?thesis using a' n(2) by (metis option.distinct(1))
qed

lemma LimitedReader_Read_spec:
  assumes inv: "lr_inv lr" and act: "action_inv act" and src: "source_ok src"
  shows "\<exists>out err lr' act' src'.
    LimitedReader_Read ctx_done now plen lr act src = Some ((out, err), lr', act', src') \<and>
    lr_inv lr' \<and> action_inv act' \<and> source_ok src' \<and>
    out @ pending lr' @ source_bytes src' = pending lr @ source_bytes src \<and>
    (err = None \<longrightarrow> length out \<le> plen) \<and> (err = None \<and> 0 < plen \<longrightarrow> out \<noteq> [])"
proof (cases ctx_done)
  case True
  with assms show ?thesis by (simp add: LimitedReader_Read_def)
next
  case False
  obtain e lr1 src1 where f: "fetch lr src = (e, lr1, src1)" by (cases "fetch lr src") auto
  from fetch_spec [OF inv src f] have F: "lr_inv lr1" "source_ok src1"
    "pending lr1 @ source_bytes src1 = pending lr @ source_bytes src" by auto
  show ?thesis
  proof (cases e)
    case (Some err)
    with False f F act show ?thesis by (simp add: LimitedReader_Read_def)
  next
    case None
    from deliver_spec [OF F(1) act, of now plen] obtain out err lr' act' where
      d: "deliver now plen lr1 act = Some ((out, err), lr', act')" "lr_inv lr'" "action_inv act'"
        "out @ pending lr' = pending lr1" "err = None \<longrightarrow> length out \<le> plen"
        "err = None \<and> 0 < plen \<longrightarrow> out \<noteq> []" by blast
    have "out @ pending lr' @ source_bytes src1 = pending lr @ source_bytes src"
      using d(4) F(3) by (metis append.assoc)
    with False f F d None show ?thesis by (simp add: LimitedReader_Read_def)
  qed
qed

text \<open>A sequence of \<open>Read\<close> calls; the outputs are collected.\<close>

fun lr_reads :: "(bool \<times> int \<times> nat) list \<Rightarrow> limited_reader \<Rightarrow> action \<Rightarrow> source \<Rightarrow>
    (byte list list \<times> limited_reader \<times> action \<times> source) option" where
  "lr_reads [] lr act src = Some ([], lr, act, src)"
| "lr_reads ((ctx_done, now, plen) # calls) lr act src =
     (case LimitedReader_Read ctx_done now plen lr act src of None \<Rightarrow> None
      | Some ((out, err), lr', act', src') \<Rightarrow>
          map_option (\<lambda>(outs, r). (out # outs, r)) (lr_reads calls lr' act' src'))"

lemma lr_reads_spec:
  "lr_inv lr \<Longrightarrow> action_inv act \<Longrightarrow> source_ok src \<Longrightarrow>
   \<exists>outs lr' act' src'. lr_reads calls lr act src = Some (outs, lr', act', src') \<and>
     concat outs @ pending lr' @ source_bytes src' = pending lr @ source_bytes src"
proof (induction calls arbitrary: lr act src)
  case Nil
  then show ?case by simp
next
  case (Cons c calls)
  obtain cd now plen where c: "c = (cd, now, plen)" by (cases c) auto
  from LimitedReader_Read_spec [OF Cons.prems, of cd now plen] obtain out err lr1 act1 src1 where
    r: "LimitedReader_Read cd now plen lr act src = Some ((out, err), lr1, act1, src1)"
      "lr_inv lr1" "action_inv act1" "source_ok src1"
      "out @ pending lr1 @ source_bytes src1 = pending lr @ source_bytes src" by blast
  from Cons.IH [OF r(2,3,4)] obtain outs lr' act' src' where
    "lr_reads calls lr1 act1 src1 = Some (outs, lr', act', src')"
    "concat outs @ pending lr' @ source_bytes src' = pending lr1 @ source_bytes src1" by blast
  with c r(1,5) show ?case by simp
qed

lemma NewLimitedReader_inv: "lr_inv NewLimitedReader" "pending NewLimitedReader = []"
  by (simp_all add: NewLimitedReader_def lr_inv_def pending_def tempbuf_size_def)

section \<open>Properties\<close>

text \<open>The budget: whatever the requests and the clock, the calls on a new limiter never
  panic, each grants between 0 and \<open>readRate\<close> bytes, and together they grant at most two
  bursts plus one burst for each change of the second.\<close>

theorem flow_budget:
  assumes "\<forall>(now, dataLen)\<in>set reqs. 0 \<le> dataLen"
  shows "\<exists>ns l'. grants reqs (NewLimitedReaderAction t rate burst) = Some (ns, l') \<and>
    (\<forall>n\<in>set ns. 0 \<le> n \<and> n \<le> default_rate rate) \<and>
    sum_list ns \<le> default_burst burst * (2 + ticks t reqs)"
proof -
  let ?l = "NewLimitedReaderAction t rate burst"
  have l: "readBurst ?l = default_burst burst" "readRate ?l = default_rate rate" "nowTimeUnix ?l = t"
    by (simp_all add: NewLimitedReaderAction_def Let_def)
  from grants_spec [OF New_inv assms] obtain ns l' where
    g: "grants reqs ?l = Some (ns, l')" "action_inv l'" "\<forall>n\<in>set ns. 0 \<le> n \<and> n \<le> default_rate rate"
      "sum_list ns + credits l' \<le> credits ?l + default_burst burst * ticks t reqs"
    using l by metis
  have "0 \<le> credits l'"
    using g(2) sum_list_nonneg_int [of "slimitArray l'"] by (auto simp: action_inv_def credits_def list_all_iff)
  then have "sum_list ns \<le> default_burst burst * (2 + ticks t reqs)"
    using g(4) New_credits [of t rate burst] by (simp add: algebra_simps)
  with g show ?thesis by blast
qed

theorem flow_budget_witness:
  "\<exists>ns l'. grants [(5, 100), (5, 3)] (NewLimitedReaderAction 5 10 800) = Some (ns, l') \<and>
    sum_list ns \<le> default_burst 800 * (2 + ticks 5 [(5, 100), (5, 3)])"
proof -
  have h: "\<forall>(now::int, dataLen::int)\<in>set [(5, 100), (5, 3)]. 0 \<le> dataLen" by simp
  show ?thesis using flow_budget [OF h, of 5 10 800] by blast
qed

text \<open>One call: the grant is at most the request and the rate, and with a burst of at
  least eight bytes a request is turned away only when the budget of the current second is
  used up.\<close>

theorem flow_grant:
  assumes "action_inv l" and "0 < dataLen" and "8 \<le> readBurst l"
  shows "\<exists>n l'. GetReadSize now dataLen l = Some (n, l') \<and> action_inv l' \<and>
    0 \<le> n \<and> n \<le> dataLen \<and> n \<le> readRate l \<and>
    (n = 0 \<longrightarrow> nowTimeUnix l' = now \<and> residReadueBurst l' = 0)"
proof -
  have "0 \<le> dataLen" using assms(2) by simp
  from GetReadSize_spec [OF assms(1) this, of now] show ?thesis
    using assms(2,3) by blast
qed

theorem flow_grant_witness:
  "\<exists>n l'. GetReadSize 7 100 (NewLimitedReaderAction 5 10 800) = Some (n, l') \<and> n \<le> 10"
proof -
  let ?l = "NewLimitedReaderAction 5 10 800"
  have r: "readRate ?l = 10" "8 \<le> readBurst ?l"
    by (simp_all add: NewLimitedReaderAction_def default_rate_def default_burst_def Let_def)
  show ?thesis using flow_grant [OF New_inv, of 100 5 10 800 7] r by auto
qed

lemma small_burst_step:
  assumes "action_inv l" and "readBurst l < 8" and "slimitArray l = replicate LimitshareSize 0"
    and "0 \<le> dataLen"
  shows "\<exists>l'. GetReadSize now dataLen l = Some (0, l') \<and> action_inv l' \<and>
    readBurst l' = readBurst l \<and> slimitArray l' = replicate LimitshareSize 0"
proof -
  let ?i = "unat (cc l + 1) mod LimitshareSize"
  have i: "?i < LimitshareSize" by (simp add: LimitshareSize_def)
  have mf: "slimitMaxFlow l = 0" "0 \<le> residReadueBurst l" "0 < readBurst l" "0 < readRate l"
    using assms(1,2) by (auto simp: action_inv_def)
  from GetReadSize_spec [OF assms(1,4), of now] obtain n l' where
    g: "GetReadSize now dataLen l = Some (n, l')" "action_inv l'" "readBurst l' = readBurst l" by blast
  have "n = 0 \<and> slimitArray l' = replicate LimitshareSize 0"
    using g(1) mf assms(3,4) i
    by (auto simp: GetReadSize_def Let_def refill_def take_flow_def list_update_same_conv
        split: if_splits)
  with g show ?thesis by blast
qed

text \<open>A burst of 1 to 7 bytes gives every shard the share 0: every request of every second
  is turned away, and the reader falls back to one byte per 33 ms whatever the rate.\<close>

theorem flow_small_burst_starves:
  assumes "0 < burst" and "burst < 8" and "\<forall>(now, dataLen)\<in>set reqs. 0 \<le> dataLen"
  shows "\<exists>l'. grants reqs (NewLimitedReaderAction t rate burst) = Some (replicate (length reqs) 0, l')"
proof -
  have "action_inv l \<Longrightarrow> readBurst l < 8 \<Longrightarrow> slimitArray l = replicate LimitshareSize 0 \<Longrightarrow>
      \<exists>l'. grants reqs l = Some (replicate (length reqs) 0, l')" for l
    using assms(3)
  proof (induction reqs arbitrary: l)
    case Nil
    then show ?case by simp
  next
    case (Cons r reqs)
    obtain now d where r: "r = (now, d)" by (cases r) auto
    then have "0 \<le> d" using Cons.prems(4) by simp
    from small_burst_step [OF Cons.prems(1,2,3) this, of now] obtain l1 where
      "GetReadSize now d l = Some (0, l1)" "action_inv l1" "readBurst l1 < 8"
      "slimitArray l1 = replicate LimitshareSize 0" using Cons.prems(2) by auto
    with Cons.IH [of l1] Cons.prems(4) r show ?case by auto
  qed
  moreover have "readBurst (NewLimitedReaderAction t rate burst) < 8"
    "slimitArray (NewLimitedReaderAction t rate burst) = replicate LimitshareSize 0"
    using assms(1,2) by (simp_all add: NewLimitedReaderAction_def Let_def default_burst_def go_quot_share)
  ultimately show ?thesis using New_inv by blast
qed

theorem flow_small_burst_starves_witness:
  "\<exists>l'. grants [(1, 10), (2, 10)] (NewLimitedReaderAction 0 1000 7) = Some ([0, 0], l')"
proof -
  have h: "\<forall>(now::int, dataLen::int)\<in>set [(1, 10), (2, 10)]. 0 \<le> dataLen" by simp
  show ?thesis using flow_small_burst_starves [OF _ _ h, of 7 0 1000] by (simp add: numeral_2_eq_2)
qed

text \<open>The configured rate, documented as bytes per second, bounds one call and not one
  second: a limiter with rate 1 grants forty bytes within one second.\<close>

theorem flow_rate_is_per_call:
  "map_option (\<lambda>(ns, l'). (ns, readRate l', nowTimeUnix l'))
     (grants (replicate 40 (0, 1)) (NewLimitedReaderAction 0 1 800)) = Some (replicate 40 1, 1, 0)"
  by code_simp

text \<open>The reader is transparent: any sequence of \<open>Read\<close> calls, with any limiter and clock,
  delivers the bytes of the source in order, each once; the rest is buffered or unread.\<close>

theorem reader_transparent:
  assumes "action_inv act" and "source_ok src"
  shows "\<exists>outs lr' act' src'. lr_reads calls NewLimitedReader act src = Some (outs, lr', act', src') \<and>
    concat outs @ pending lr' @ source_bytes src' = source_bytes src"
  using lr_reads_spec [OF NewLimitedReader_inv(1) assms, of calls] by (simp add: NewLimitedReader_inv)

theorem reader_transparent_witness:
  "\<exists>outs lr' act' src'. lr_reads [(False, 0, 2), (False, 0, 2)] NewLimitedReader
      (NewLimitedReaderAction 0 1 800) [([1, 2, 3], None)] = Some (outs, lr', act', src') \<and>
    concat outs @ pending lr' @ source_bytes src' = [1, 2, 3]"
proof -
  have s: "source_ok [([1, 2, 3], None)]" by (simp add: source_ok_def tempbuf_size_def)
  show ?thesis
    using reader_transparent [OF New_inv s, of "[(False, 0, 2), (False, 0, 2)]" 0 1 800]
    by (simp add: source_bytes_def)
qed

text \<open>\<open>Read\<close> keeps the contract of \<open>io.Reader\<close>: without an error it returns at most
  \<open>len(p)\<close> bytes and, for a non-empty \<open>p\<close>, at least one, even when the limiter grants
  nothing.\<close>

theorem reader_progress:
  assumes "lr_inv lr" and "action_inv act" and "source_ok src" and "0 < plen"
  shows "\<exists>out err lr' act' src'.
    LimitedReader_Read ctx_done now plen lr act src = Some ((out, err), lr', act', src') \<and>
    lr_inv lr' \<and> (err = None \<longrightarrow> 0 < length out \<and> length out \<le> plen)"
  using LimitedReader_Read_spec [OF assms(1,2,3), of ctx_done now plen] assms(4) by fastforce

theorem reader_progress_witness:
  "\<exists>out err lr' act' src'. LimitedReader_Read False 0 4 NewLimitedReader
      (NewLimitedReaderAction 0 1000 7) [([1, 2, 3], None)] = Some ((out, err), lr', act', src') \<and>
    (err = None \<longrightarrow> 0 < length out \<and> length out \<le> 4)"
proof -
  have s: "source_ok [([1, 2, 3], None)]" by (simp add: source_ok_def tempbuf_size_def)
  show ?thesis
    using reader_progress [OF NewLimitedReader_inv(1) New_inv s, of 4 False 0 0 1000 7] by fastforce
qed

end
