(* ===== verification/FlowShared.thy ===== *)
theory FlowShared
  imports FlowLimit
begin

text \<open>
  The budget of \<^verbatim>\<open>server/flow_limit.go\<close> as it is used: the connections of one user share a \<open>LimitedReaderAction\<close>, each in a goroutine
  that calls \<open>GetReadSize\<close>, and the refresh of the configuration calls \<open>UpdateParameter\<close> in between. \<open>GetReadSize\<close> holds the lock
  of its shard to the end, but it holds \<open>wMutex\<close>, which guards the parameters, only to fill the shard again: it reads \<open>readRate\<close>
  up to four times without it.
\<close>

section \<open>The goroutines\<close>

text \<open>
  Where a call is: a shard has been picked; its lock has been taken and it was empty, or it can be used; the first
  comparison has failed (\<open>readRate\<close> is below what the shard has); so has the second (\<open>readRate\<close> is below the request);
  \<open>readRate\<close> has been taken from the shard and is about to be returned.
\<close>

datatype size_pc = Idle | Picked nat | Refilling nat | Filled nat | Second nat | Third nat | Fourth nat

record flow_call =
  fc_pc :: size_pc
  fc_len :: int

text \<open>The lock of a shard is held from \<open>Lock\<close> to the return.\<close>

fun holds :: "size_pc \<Rightarrow> nat \<Rightarrow> bool" where
  "holds Idle i = False"
| "holds (Picked k) i = False"
| "holds (Refilling k) i = (k = i)"
| "holds (Filled k) i = (k = i)"
| "holds (Second k) i = (k = i)"
| "holds (Third k) i = (k = i)"
| "holds (Fourth k) i = (k = i)"

text \<open>
  The shared budget, the goroutines, the second the clock shows, the requests that were answered with their grants, and
  how often the clock and the parameters have changed.
\<close>

record flow_state =
  fl_act :: action
  fl_calls :: "flow_call list"
  fl_now :: int
  fl_grants :: "(int \<times> int) list"
  fl_seconds :: int
  fl_refreshes :: int

definition call_at :: "flow_state \<Rightarrow> nat \<Rightarrow> size_pc \<Rightarrow> bool" where
  "call_at s j pc \<longleftrightarrow> j < length (fl_calls s) \<and> fc_pc (fl_calls s ! j) = pc"

definition goto :: "nat \<Rightarrow> size_pc \<Rightarrow> flow_state \<Rightarrow> flow_state" where
  "goto j pc s = s\<lparr>fl_calls := (fl_calls s)[j := (fl_calls s ! j)\<lparr>fc_pc := pc\<rparr>]\<rparr>"

definition grant :: "nat \<Rightarrow> int \<Rightarrow> flow_state \<Rightarrow> flow_state" where
  "grant j n s = (goto j Idle s)\<lparr>fl_grants := fl_grants s @ [(fc_len (fl_calls s ! j), n)]\<rparr>"

definition set_flow :: "nat \<Rightarrow> int \<Rightarrow> action \<Rightarrow> action" where
  "set_flow i x l = l\<lparr>slimitArray := (slimitArray l)[i := x]\<rparr>"

text \<open>The region at the start of a call, \<open>l.cc.Add(1)\<close>.\<close>

definition pick :: "action \<Rightarrow> nat \<times> action" where
  "pick l = (unat (cc l + 1) mod LimitshareSize, l\<lparr>cc := cc l + 1\<rparr>)"

inductive flow_step :: "(action \<Rightarrow> action \<Rightarrow> bool) \<Rightarrow> flow_state \<Rightarrow> flow_state \<Rightarrow> bool" for may where
  call: "call_at s j Idle \<Longrightarrow> 0 \<le> d \<Longrightarrow> d < 2 ^ 63 \<Longrightarrow> pick (fl_act s) = (i, l) \<Longrightarrow>
     flow_step may s (s\<lparr>fl_act := l, fl_calls := (fl_calls s)[j := \<lparr>fc_pc = Picked i, fc_len = d\<rparr>]\<rparr>)"
| lock: "call_at s j (Picked i) \<Longrightarrow> \<forall>c\<in>set (fl_calls s). \<not> holds (fc_pc c) i \<Longrightarrow>
     flow_step may s (goto j (if slimitArray (fl_act s) ! i \<le> 0 then Refilling i else Filled i) s)"
| no_flow: "call_at s j (Refilling i) \<Longrightarrow> refill (fl_now s) i (fl_act s) = (False, l) \<Longrightarrow>
     flow_step may s (grant j 0 (s\<lparr>fl_act := l\<rparr>))"
| refill: "call_at s j (Refilling i) \<Longrightarrow> refill (fl_now s) i (fl_act s) = (True, l) \<Longrightarrow>
     flow_step may s (goto j (Filled i) (s\<lparr>fl_act := l\<rparr>))"
| first: "call_at s j (Filled i) \<Longrightarrow> a = slimitArray (fl_act s) ! i \<Longrightarrow> a \<le> readRate (fl_act s) \<Longrightarrow>
     d = fc_len (fl_calls s ! j) \<Longrightarrow>
     flow_step may s (grant j (min d a) (s\<lparr>fl_act := set_flow i (a - min d a) (fl_act s)\<rparr>))"
| first_fails: "call_at s j (Filled i) \<Longrightarrow> readRate (fl_act s) < slimitArray (fl_act s) ! i \<Longrightarrow>
     flow_step may s (goto j (Second i) s)"
| second: "call_at s j (Second i) \<Longrightarrow> d = fc_len (fl_calls s ! j) \<Longrightarrow> d \<le> readRate (fl_act s) \<Longrightarrow>
     flow_step may s (grant j d (s\<lparr>fl_act := set_flow i (slimitArray (fl_act s) ! i - d) (fl_act s)\<rparr>))"
| second_fails: "call_at s j (Second i) \<Longrightarrow> readRate (fl_act s) < fc_len (fl_calls s ! j) \<Longrightarrow>
     flow_step may s (goto j (Third i) s)"
| third: "call_at s j (Third i) \<Longrightarrow>
     flow_step may s (goto j (Fourth i) (s\<lparr>fl_act := set_flow i (slimitArray (fl_act s) ! i - readRate (fl_act s)) (fl_act s)\<rparr>))"
| fourth: "call_at s j (Fourth i) \<Longrightarrow> flow_step may s (grant j (readRate (fl_act s)) s)"
| clock: "t \<noteq> fl_now s \<Longrightarrow> flow_step may s (s\<lparr>fl_now := t, fl_seconds := fl_seconds s + 1\<rparr>)"
| refresh: "l = UpdateParameter rate burst (fl_act s) \<Longrightarrow> may (fl_act s) l \<Longrightarrow>
     flow_step may s (s\<lparr>fl_act := l, fl_refreshes := fl_refreshes s + 1\<rparr>)"

text \<open>A budget that has just been made, and \<open>n\<close> goroutines.\<close>

definition flow_start :: "int \<Rightarrow> int \<Rightarrow> int \<Rightarrow> nat \<Rightarrow> flow_state" where
  "flow_start t rate burst n = \<lparr>fl_act = NewLimitedReaderAction t rate burst, fl_calls = replicate n \<lparr>fc_pc = Idle, fc_len = 0\<rparr>,
     fl_now = t, fl_grants = [], fl_seconds = 0, fl_refreshes = 0\<rparr>"

inductive flow_reach :: "(action \<Rightarrow> action \<Rightarrow> bool) \<Rightarrow> flow_state \<Rightarrow> flow_state \<Rightarrow> bool" for may s0 where
  start: "flow_reach may s0 s0"
| move: "flow_reach may s0 s \<Longrightarrow> flow_step may s s' \<Longrightarrow> flow_reach may s0 s'"

section \<open>The locks\<close>

text \<open>
  What holds of each call by what it has read, and that no two hold the same lock. A condition on a call may depend on
  \<open>readRate\<close> and on the shard that the call holds.
\<close>

definition calls_ok :: "(action \<Rightarrow> flow_call \<Rightarrow> bool) \<Rightarrow> action \<Rightarrow> flow_call list \<Rightarrow> bool" where
  "calls_ok ok l cs \<longleftrightarrow> (\<forall>c\<in>set cs. ok l c) \<and>
     (\<forall>j<length cs. \<forall>k<length cs. \<forall>i. holds (fc_pc (cs ! j)) i \<and> holds (fc_pc (cs ! k)) i \<longrightarrow> j = k)"

definition same_for :: "flow_call \<Rightarrow> action \<Rightarrow> action \<Rightarrow> bool" where
  "same_for c l l' \<longleftrightarrow> readRate l' = readRate l \<and> (\<forall>i. holds (fc_pc c) i \<longrightarrow> slimitArray l' ! i = slimitArray l ! i)"

definition local_cond :: "(action \<Rightarrow> flow_call \<Rightarrow> bool) \<Rightarrow> bool" where
  "local_cond ok \<longleftrightarrow> (\<forall>l l' c. same_for c l l' \<longrightarrow> ok l c \<longrightarrow> ok l' c)"

lemma calls_ok_at: "calls_ok ok l cs \<Longrightarrow> j < length cs \<Longrightarrow> ok l (cs ! j)"
  by (simp add: calls_ok_def)

lemma calls_ok_update:
  assumes "local_cond ok" "calls_ok ok l cs" "j < length cs" "readRate l' = readRate l" "ok l' c"
    and ch: "\<And>i. \<not> holds (fc_pc (cs ! j)) i \<Longrightarrow> slimitArray l' ! i = slimitArray l ! i"
    and lk: "\<And>i. holds (fc_pc c) i \<Longrightarrow> holds (fc_pc (cs ! j)) i \<or> (\<forall>c'\<in>set cs. \<not> holds (fc_pc c') i)"
  shows "calls_ok ok l' (cs[j := c])"
proof -
  have one: "k = m" if "k < length cs" "m < length cs" "holds (fc_pc (cs ! k)) i" "holds (fc_pc (cs ! m)) i" for k m i
    using assms(2) that unfolding calls_ok_def by blast
  have "ok l' (cs[j := c] ! k)" if k: "k < length cs" for k
  proof (cases "k = j")
    case True
    then show ?thesis using assms(3,5) by simp
  next
    case False
    have "same_for (cs ! k) l l'"
      using one [OF k assms(3)] False ch assms(4) unfolding same_for_def by blast
    then show ?thesis using False k assms(1) calls_ok_at [OF assms(2) k] unfolding local_cond_def by simp
  qed
  moreover have "k = m" if "k < length cs" "m < length cs" "holds (fc_pc (cs[j := c] ! k)) i" "holds (fc_pc (cs[j := c] ! m)) i" for k m i
  proof (rule ccontr)
    assume n: "k \<noteq> m"
    have no: False if "holds (fc_pc c) i" "holds (fc_pc (cs ! q)) i" "q < length cs" "q \<noteq> j" for q
      using lk [OF that(1)] one [OF that(3) assms(3) that(2)] that nth_mem by blast
    show False
      using n that one [OF that(1,2)] no [of k] no [of m] by (cases "k = j"; cases "m = j") auto
  qed
  ultimately show ?thesis by (simp add: calls_ok_def all_set_conv_all_nth) blast
qed

text \<open>A call goes on without a change of the budget, or with a change of its own shard.\<close>

lemma goto_ok:
  assumes "local_cond ok" "calls_ok ok (fl_act s) (fl_calls s)" "j < length (fl_calls s)"
    and "readRate l = readRate (fl_act s)" "ok l ((fl_calls s ! j)\<lparr>fc_pc := pc\<rparr>)"
    and "\<And>i. \<not> holds (fc_pc (fl_calls s ! j)) i \<Longrightarrow> slimitArray l ! i = slimitArray (fl_act s) ! i"
    and "\<And>i. holds pc i \<Longrightarrow> holds (fc_pc (fl_calls s ! j)) i \<or> (\<forall>c\<in>set (fl_calls s). \<not> holds (fc_pc c) i)"
  shows "calls_ok ok l (fl_calls (goto j pc (s\<lparr>fl_act := l\<rparr>)))"
proof -
  have "holds (fc_pc ((fl_calls s ! j)\<lparr>fc_pc := pc\<rparr>)) i \<Longrightarrow>
      holds (fc_pc (fl_calls s ! j)) i \<or> (\<forall>c\<in>set (fl_calls s). \<not> holds (fc_pc c) i)" for i
    using assms(7) [of i] by simp
  from calls_ok_update [OF assms(1-6) this] show ?thesis by (simp add: goto_def)
qed

lemma set_flow_simps [simp]:
  "readRate (set_flow i x l) = readRate l" "readBurst (set_flow i x l) = readBurst l"
  "nowTimeUnix (set_flow i x l) = nowTimeUnix l" "residReadueBurst (set_flow i x l) = residReadueBurst l"
  "slimitMaxFlow (set_flow i x l) = slimitMaxFlow l" "cc (set_flow i x l) = cc l"
  "slimitArray (set_flow i x l) = (slimitArray l)[i := x]"
  by (simp_all add: set_flow_def)

lemma goto_simps [simp]:
  "fl_act (goto j pc s) = fl_act s" "fl_now (goto j pc s) = fl_now s" "fl_grants (goto j pc s) = fl_grants s"
  "fl_seconds (goto j pc s) = fl_seconds s" "fl_refreshes (goto j pc s) = fl_refreshes s"
  "length (fl_calls (goto j pc s)) = length (fl_calls s)"
  by (simp_all add: goto_def)

lemma grant_simps [simp]:
  "fl_act (grant j n s) = fl_act s" "fl_now (grant j n s) = fl_now s" "fl_calls (grant j n s) = fl_calls (goto j Idle s)"
  "fl_grants (grant j n s) = fl_grants s @ [(fc_len (fl_calls s ! j), n)]"
  "fl_seconds (grant j n s) = fl_seconds s" "fl_refreshes (grant j n s) = fl_refreshes s"
  by (simp_all add: grant_def goto_def)

section \<open>The budget of calls that overlap\<close>

text \<open>
  While the rate is not raised: a call that waits to fill its shard has an empty shard; a comparison that has failed is
  still false; and what the last step charged is at least what is returned.
\<close>

definition exact_call :: "action \<Rightarrow> flow_call \<Rightarrow> bool" where
  "exact_call l c \<longleftrightarrow> (case fc_pc c of
     Idle \<Rightarrow> True
   | Picked i \<Rightarrow> i < 8 \<and> 0 \<le> fc_len c
   | Refilling i \<Rightarrow> i < 8 \<and> 0 \<le> fc_len c \<and> slimitArray l ! i = 0
   | Filled i \<Rightarrow> i < 8 \<and> 0 \<le> fc_len c
   | Second i \<Rightarrow> i < 8 \<and> 0 \<le> fc_len c \<and> readRate l < slimitArray l ! i
   | Third i \<Rightarrow> i < 8 \<and> readRate l < fc_len c \<and> readRate l < slimitArray l ! i
   | Fourth i \<Rightarrow> i < 8 \<and> readRate l < fc_len c)"

lemma exact_local: "local_cond exact_call"
  by (auto simp: local_cond_def same_for_def exact_call_def split: size_pc.splits)

definition exact_inv :: "int \<Rightarrow> int \<Rightarrow> flow_state \<Rightarrow> bool" where
  "exact_inv R M s \<longleftrightarrow> action_inv (fl_act s) \<and> readRate (fl_act s) \<le> R \<and> readBurst (fl_act s) \<le> M \<and>
     calls_ok exact_call (fl_act s) (fl_calls s) \<and> (\<forall>(d, n)\<in>set (fl_grants s). 0 \<le> n \<and> n \<le> d \<and> n \<le> R)"

text \<open>What has been granted, what has been charged and is about to be returned, and what can still be granted.\<close>

definition owed :: "action \<Rightarrow> flow_call \<Rightarrow> int" where
  "owed l c = (case fc_pc c of Fourth i \<Rightarrow> readRate l | _ \<Rightarrow> 0)"

definition spent :: "int \<Rightarrow> flow_state \<Rightarrow> int" where
  "spent M s = sum_list (map snd (fl_grants s)) + sum_list (map (owed (fl_act s)) (fl_calls s)) + credits (fl_act s) +
     (if nowTimeUnix (fl_act s) = fl_now s then 0 else M)"

text \<open>A new goroutine state \<open>c\<close> of call \<open>j\<close>, with a budget \<open>l\<close> of the same rate.\<close>

lemma owed_update:
  assumes "j < length cs" "readRate l' = readRate l"
  shows "sum_list (map (owed l') (cs[j := c])) = sum_list (map (owed l) cs) - owed l (cs ! j) + owed l c"
proof -
  have "owed l' = owed l" using assms(2) by (auto simp: owed_def split: size_pc.splits)
  then show ?thesis using assms(1) by (simp add: map_update sum_list_update_int)
qed

lemma set_flow_inv: "action_inv l \<Longrightarrow> 0 \<le> x \<Longrightarrow> action_inv (set_flow i x l)"
  by (simp add: action_inv_def list_all_update)

lemma set_flow_credits: "action_inv l \<Longrightarrow> i < 8 \<Longrightarrow> credits (set_flow i x l) = credits l - slimitArray l ! i + x"
  by (simp add: action_inv_def credits_def sum_list_update_int LimitshareSize_def)

lemma exact_goto:
  assumes "exact_inv R M s" "j < length (fl_calls s)" "action_inv l"
    and "readRate l = readRate (fl_act s)" "readBurst l = readBurst (fl_act s)"
    and "exact_call l ((fl_calls s ! j)\<lparr>fc_pc := pc\<rparr>)"
    and "\<And>i. \<not> holds (fc_pc (fl_calls s ! j)) i \<Longrightarrow> slimitArray l ! i = slimitArray (fl_act s) ! i"
    and "\<And>i. holds pc i \<Longrightarrow> holds (fc_pc (fl_calls s ! j)) i \<or> (\<forall>c\<in>set (fl_calls s). \<not> holds (fc_pc c) i)"
  shows "exact_inv R M (goto j pc (s\<lparr>fl_act := l\<rparr>))"
  using goto_ok [OF exact_local _ assms(2,4,6,7,8)] assms(1,3-5) by (auto simp: exact_inv_def)

lemma exact_grant:
  assumes "exact_inv R M s" "j < length (fl_calls s)" "action_inv l"
    and "readRate l = readRate (fl_act s)" "readBurst l = readBurst (fl_act s)"
    and "\<And>i. \<not> holds (fc_pc (fl_calls s ! j)) i \<Longrightarrow> slimitArray l ! i = slimitArray (fl_act s) ! i"
    and "0 \<le> n" "n \<le> fc_len (fl_calls s ! j)" "n \<le> readRate (fl_act s)"
  shows "exact_inv R M (grant j n (s\<lparr>fl_act := l\<rparr>))"
  using exact_goto [OF assms(1-5) _ assms(6), of Idle] assms by (auto simp: exact_inv_def exact_call_def)

lemma exact_at:
  assumes "exact_inv R M s" "call_at s j pc"
  shows "j < length (fl_calls s)" "fc_pc (fl_calls s ! j) = pc" "exact_call (fl_act s) (fl_calls s ! j)"
    "action_inv (fl_act s)" "0 < readRate (fl_act s)" "length (slimitArray (fl_act s)) = 8"
    "i < 8 \<Longrightarrow> 0 \<le> slimitArray (fl_act s) ! i"
  using assms calls_ok_at [of exact_call "fl_act s" "fl_calls s" j] nth_nonneg [of "slimitArray (fl_act s)" i]
  by (auto simp: exact_inv_def call_at_def action_inv_def LimitshareSize_def)

lemma refill_other: "refill now i l = (b, l') \<Longrightarrow> k \<noteq> i \<Longrightarrow> slimitArray l' ! k = slimitArray l ! k"
  by (auto simp: refill_def Let_def split: if_splits)

lemma pick_spec:
  assumes "pick l = (i, l')"
  shows "i < 8" "l' = l\<lparr>cc := cc l + 1\<rparr>" "action_inv l' = action_inv l" "credits l' = credits l"
  using assms by (auto simp: pick_def LimitshareSize_def action_inv_def credits_def)

lemma exact_step:
  assumes "flow_step may s s'" "exact_inv R M s"
    and may: "\<And>l l'. may l l' \<Longrightarrow> readRate l' \<le> readRate l \<and> readBurst l' \<le> M"
  shows "exact_inv R M s'"
  using assms(1)
proof cases
  case (call j d i l)
  note p = pick_spec [OF call(5)]
  have "calls_ok exact_call l ((fl_calls s)[j := \<lparr>fc_pc = Picked i, fc_len = d\<rparr>])"
    using assms(2) exact_at(1) [OF assms(2) call(2)] p(1) call(3)
    by (intro calls_ok_update [OF exact_local, of "fl_act s"]) (simp_all add: p(2) exact_inv_def exact_call_def)
  then show ?thesis using assms(2) call(1) p(2,3) by (simp add: exact_inv_def)
next
  case (lock j i)
  note a = exact_at [OF assms(2) lock(2)]
  have "exact_inv R M (goto j (if slimitArray (fl_act s) ! i \<le> 0 then Refilling i else Filled i) (s\<lparr>fl_act := fl_act s\<rparr>))"
    using a(2,3) a(7) [of i] lock(3) by (intro exact_goto [OF assms(2) a(1,4)]) (auto simp: exact_call_def split: if_splits)
  then show ?thesis unfolding lock(1) by simp
next
  case (no_flow j i l)
  note a = exact_at [OF assms(2) no_flow(2)]
  have "i < LimitshareSize" "slimitArray (fl_act s) ! i = 0" "0 \<le> fc_len (fl_calls s ! j)"
    using a(2,3) by (simp_all add: exact_call_def LimitshareSize_def)
  with refill_spec [OF a(4) this(1,2) no_flow(3)] refill_other [OF no_flow(3)] a(2,5) show ?thesis
    unfolding no_flow(1) by (intro exact_grant [OF assms(2) a(1)]) auto
next
  case (refill j i l)
  note a = exact_at [OF assms(2) refill(2)]
  have i: "i < LimitshareSize" "slimitArray (fl_act s) ! i = 0" "0 \<le> fc_len (fl_calls s ! j)"
    using a(2,3) by (simp_all add: exact_call_def LimitshareSize_def)
  with refill_spec [OF a(4) this(1,2) refill(3)] refill_other [OF refill(3)] a(2) show ?thesis
    unfolding refill(1) by (intro exact_goto [OF assms(2) a(1)]) (auto simp: exact_call_def LimitshareSize_def)
next
  case (first j i a d)
  note a = exact_at [OF assms(2) first(2)]
  show ?thesis
    unfolding first(1) using a(2,3) a(7) [of i] first
    by (intro exact_grant [OF assms(2) a(1)] set_flow_inv a(4)) (auto simp: exact_call_def)
next
  case (first_fails j i)
  note a = exact_at [OF assms(2) first_fails(2)]
  have "exact_inv R M (goto j (Second i) (s\<lparr>fl_act := fl_act s\<rparr>))"
    using a(2,3) first_fails(3) by (intro exact_goto [OF assms(2) a(1,4)]) (auto simp: exact_call_def)
  then show ?thesis unfolding first_fails(1) by simp
next
  case (second j i d)
  note a = exact_at [OF assms(2) second(2)]
  show ?thesis
    unfolding second(1) using a(2,3) second
    by (intro exact_grant [OF assms(2) a(1)] set_flow_inv a(4)) (auto simp: exact_call_def)
next
  case (second_fails j i)
  note a = exact_at [OF assms(2) second_fails(2)]
  have "exact_inv R M (goto j (Third i) (s\<lparr>fl_act := fl_act s\<rparr>))"
    using a(2,3) second_fails(3) by (intro exact_goto [OF assms(2) a(1,4)]) (auto simp: exact_call_def)
  then show ?thesis unfolding second_fails(1) by simp
next
  case (third j i)
  note a = exact_at [OF assms(2) third(2)]
  show ?thesis
    unfolding third(1) using a(2,3)
    by (intro exact_goto [OF assms(2) a(1)] set_flow_inv a(4)) (auto simp: exact_call_def)
next
  case (fourth j i)
  note a = exact_at [OF assms(2) fourth(2)]
  have "exact_inv R M (grant j (readRate (fl_act s)) (s\<lparr>fl_act := fl_act s\<rparr>))"
    using a(2,3,5) by (intro exact_grant [OF assms(2) a(1,4)]) (auto simp: exact_call_def)
  then show ?thesis unfolding fourth(1) by simp
next
  case (clock t)
  then show ?thesis using assms(2) by (simp add: exact_inv_def)
next
  case (refresh l rate burst)
  note m = may [OF refresh(3)]
  have "exact_call l c" if "exact_call (fl_act s) c" for c
    using that m refresh(2) by (auto simp: exact_call_def UpdateParameter_def Let_def split: size_pc.splits)
  then have "calls_ok exact_call l (fl_calls s)" using assms(2) by (auto simp: exact_inv_def calls_ok_def)
  then show ?thesis
    using assms(2) m UpdateParameter_inv [of "fl_act s" rate burst] unfolding refresh(1)
    by (auto simp: exact_inv_def refresh(2) [symmetric])
qed

text \<open>Only a change of the second or of the parameters adds to the budget.\<close>

lemma refill_spent:
  assumes "exact_inv R M s" "call_at s j (Refilling i)" "refill (fl_now s) i (fl_act s) = (b, l)"
  shows "readRate l = readRate (fl_act s)" "nowTimeUnix l = fl_now s"
    "credits l \<le> credits (fl_act s) + (if nowTimeUnix (fl_act s) = fl_now s then 0 else M)"
proof -
  note a = exact_at [OF assms(1,2)]
  have "i < LimitshareSize" "slimitArray (fl_act s) ! i = 0"
    using a(2,3) by (simp_all add: exact_call_def LimitshareSize_def)
  note r = refill_spec [OF a(4) this assms(3)]
  show "readRate l = readRate (fl_act s)" "nowTimeUnix l = fl_now s" using r by simp_all
  have "0 \<le> residReadueBurst (fl_act s)" "readBurst (fl_act s) \<le> M" using a(4) assms(1) by (simp_all add: action_inv_def exact_inv_def)
  then show "credits l \<le> credits (fl_act s) + (if nowTimeUnix (fl_act s) = fl_now s then 0 else M)"
    using r by (auto simp: credits_def)
qed

lemma spent_goto:
  assumes "j < length (fl_calls s)" "readRate l = readRate (fl_act s)"
  shows "spent M (goto j pc (s\<lparr>fl_act := l\<rparr>)) = spent M s - owed (fl_act s) (fl_calls s ! j) +
     owed (fl_act s) ((fl_calls s ! j)\<lparr>fc_pc := pc\<rparr>) + credits l - credits (fl_act s) +
     (if nowTimeUnix l = fl_now s then 0 else M) - (if nowTimeUnix (fl_act s) = fl_now s then 0 else M)"
  using owed_update [OF assms, of "(fl_calls s ! j)\<lparr>fc_pc := pc\<rparr>"]
  by (simp add: spent_def goto_def) 

lemma spent_grant:
  assumes "j < length (fl_calls s)" "readRate l = readRate (fl_act s)"
  shows "spent M (grant j n (s\<lparr>fl_act := l\<rparr>)) = spent M (goto j Idle (s\<lparr>fl_act := l\<rparr>)) + n"
  by (simp add: spent_def)

lemma spent_move:
  assumes "call_at s j pc"
  shows "spent M (goto j pc' s) = spent M s - owed (fl_act s) (fl_calls s ! j) + owed (fl_act s) ((fl_calls s ! j)\<lparr>fc_pc := pc'\<rparr>)"
  using spent_goto [of j s "fl_act s" M pc'] assms by (simp add: call_at_def)

lemma budget_step:
  assumes "flow_step may s s'" "exact_inv R M s"
    and may: "\<And>l l'. may l l' \<Longrightarrow> readRate l' \<le> readRate l \<and> readBurst l' \<le> M"
  shows "spent M s' - M * (fl_seconds s' + fl_refreshes s') \<le> spent M s - M * (fl_seconds s + fl_refreshes s)"
  using assms(1)
proof cases
  case (call j d i l)
  note p = pick_spec [OF call(5)]
  have "spent M s' = spent M s"
    using owed_update [of j "fl_calls s" l "fl_act s" "\<lparr>fc_pc = Picked i, fc_len = d\<rparr>"] call(2)
    by (simp add: call(1) spent_def p(2,4) call_at_def) (simp add: owed_def credits_def)
  then show ?thesis by (simp add: call(1))
next
  case (lock j i)
  then show ?thesis using spent_move [OF lock(2)] by (simp add: owed_def call_at_def)
next
  case (no_flow j i l)
  then show ?thesis using refill_spent [OF assms(2) no_flow(2,3)] spent_goto [of j s l M Idle]
    by (simp add: spent_grant call_at_def owed_def)
next
  case (refill j i l)
  then show ?thesis using refill_spent [OF assms(2) refill(2,3)] spent_goto [of j s l M "Filled i"]
    by (simp add: call_at_def owed_def)
next
  case (first j i a d)
  note e = exact_at [OF assms(2) first(2)]
  have "i < 8" using e(2,3) by (simp add: exact_call_def)
  from set_flow_credits [OF e(4) this] show ?thesis
    unfolding first(1) using first e(1,2) spent_goto [of j s "set_flow i (a - min d a) (fl_act s)" M Idle]
    by (simp add: spent_grant owed_def)
next
  case (first_fails j i)
  then show ?thesis using spent_move [OF first_fails(2)] by (simp add: owed_def call_at_def)
next
  case (second j i d)
  note e = exact_at [OF assms(2) second(2)]
  have "i < 8" using e(2,3) by (simp add: exact_call_def)
  from set_flow_credits [OF e(4) this] show ?thesis
    unfolding second(1) using e(1,2) spent_goto [of j s "set_flow i (slimitArray (fl_act s) ! i - d) (fl_act s)" M Idle]
    by (simp add: spent_grant owed_def)
next
  case (second_fails j i)
  then show ?thesis using spent_move [OF second_fails(2)] by (simp add: owed_def call_at_def)
next
  case (third j i)
  note e = exact_at [OF assms(2) third(2)]
  have "i < 8" using e(2,3) by (simp add: exact_call_def)
  from set_flow_credits [OF e(4) this] show ?thesis
    unfolding third(1) using e(1,2)
      spent_goto [of j s "set_flow i (slimitArray (fl_act s) ! i - readRate (fl_act s)) (fl_act s)" M "Fourth i"]
    by (simp add: owed_def)
next
  case (fourth j i)
  then show ?thesis using spent_grant [of j s "fl_act s" M "readRate (fl_act s)"] spent_move [OF fourth(2), of M Idle]
    by (simp add: owed_def call_at_def)
next
  case (clock t)
  then show ?thesis using assms(2) by (simp add: spent_def exact_inv_def action_inv_def algebra_simps)
next
  case (refresh l rate burst)
  note m = may [OF refresh(3)]
  have l: "slimitArray l = slimitArray (fl_act s)" "nowTimeUnix l = nowTimeUnix (fl_act s)" "residReadueBurst l = readBurst l"
    by (simp_all add: refresh(2) UpdateParameter_def Let_def)
  have "0 \<le> residReadueBurst (fl_act s)" using assms(2) by (simp add: exact_inv_def action_inv_def)
  then have "credits l \<le> credits (fl_act s) + M" using m l by (simp add: credits_def)
  moreover have "sum_list (map (owed l) (fl_calls s)) \<le> sum_list (map (owed (fl_act s)) (fl_calls s))"
    using m by (intro sum_list_mono) (simp add: owed_def split: size_pc.splits)
  ultimately show ?thesis by (simp add: refresh(1) spent_def l algebra_simps)
qed

section \<open>Counters that do not overflow\<close>

text \<open>
  Whatever rates are set at whatever moments, every counter stays in the range of a 64-bit integer. A shard can then be
  below zero, by less than a request or a rate.
\<close>

definition typed_call :: "action \<Rightarrow> flow_call \<Rightarrow> bool" where
  "typed_call l c \<longleftrightarrow> fc_len c < 2 ^ 63 \<and> (case fc_pc c of
     Idle \<Rightarrow> True
   | Picked i \<Rightarrow> i < 8 \<and> 0 \<le> fc_len c
   | Refilling i \<Rightarrow> i < 8 \<and> 0 \<le> fc_len c
   | Filled i \<Rightarrow> i < 8 \<and> 0 \<le> fc_len c \<and> 0 \<le> slimitArray l ! i
   | Second i \<Rightarrow> i < 8 \<and> 0 \<le> fc_len c \<and> 0 \<le> slimitArray l ! i
   | Third i \<Rightarrow> i < 8 \<and> 0 \<le> slimitArray l ! i
   | Fourth i \<Rightarrow> i < 8)"

definition is_int64 :: "int \<Rightarrow> bool" where
  "is_int64 x \<longleftrightarrow> - (2 ^ 63) \<le> x \<and> x < 2 ^ 63"

definition typed_action :: "action \<Rightarrow> bool" where
  "typed_action l \<longleftrightarrow> length (slimitArray l) = 8 \<and> 0 < readRate l \<and> 0 < readBurst l \<and> 0 \<le> residReadueBurst l \<and>
     residReadueBurst l \<le> readBurst l \<and> 0 \<le> slimitMaxFlow l \<and> slimitMaxFlow l \<le> readBurst l \<and>
     is_int64 (readRate l) \<and> is_int64 (readBurst l) \<and> list_all is_int64 (slimitArray l)"

lemma typed_local: "local_cond typed_call"
  by (auto simp: local_cond_def same_for_def typed_call_def split: size_pc.splits)

definition typed_inv :: "flow_state \<Rightarrow> bool" where
  "typed_inv s \<longleftrightarrow> typed_action (fl_act s) \<and> calls_ok typed_call (fl_act s) (fl_calls s) \<and>
     (\<forall>(d, n)\<in>set (fl_grants s). 0 \<le> n \<and> is_int64 n)"

lemma typed_goto:
  assumes "typed_inv s" "j < length (fl_calls s)" "typed_action l" "readRate l = readRate (fl_act s)"
    and "typed_call l ((fl_calls s ! j)\<lparr>fc_pc := pc\<rparr>)"
    and "\<And>i. \<not> holds (fc_pc (fl_calls s ! j)) i \<Longrightarrow> slimitArray l ! i = slimitArray (fl_act s) ! i"
    and "\<And>i. holds pc i \<Longrightarrow> holds (fc_pc (fl_calls s ! j)) i \<or> (\<forall>c\<in>set (fl_calls s). \<not> holds (fc_pc c) i)"
  shows "typed_inv (goto j pc (s\<lparr>fl_act := l\<rparr>))"
  using goto_ok [OF typed_local _ assms(2,4-7)] assms(1,3) by (auto simp: typed_inv_def)

lemma typed_grant:
  assumes "typed_inv s" "j < length (fl_calls s)" "typed_action l" "readRate l = readRate (fl_act s)"
    and "\<And>i. \<not> holds (fc_pc (fl_calls s ! j)) i \<Longrightarrow> slimitArray l ! i = slimitArray (fl_act s) ! i"
    and "0 \<le> n" "is_int64 n"
  shows "typed_inv (grant j n (s\<lparr>fl_act := l\<rparr>))"
proof -
  have "typed_call l ((fl_calls s ! j)\<lparr>fc_pc := Idle\<rparr>)"
    using assms(1,2) by (simp add: typed_inv_def calls_ok_def typed_call_def)
  from typed_goto [OF assms(1-4) this assms(5)] show ?thesis using assms(6,7) by (auto simp: typed_inv_def)
qed

lemma typed_at:
  assumes "typed_inv s" "call_at s j pc"
  shows "j < length (fl_calls s)" "fc_pc (fl_calls s ! j) = pc" "typed_call (fl_act s) (fl_calls s ! j)"
    "typed_action (fl_act s)" "length (slimitArray (fl_act s)) = 8" "i < 8 \<Longrightarrow> is_int64 (slimitArray (fl_act s) ! i)"
  using assms calls_ok_at [of typed_call "fl_act s" "fl_calls s" j]
  by (auto simp: typed_inv_def call_at_def typed_action_def list_all_length)

lemma typed_set_flow: "typed_action l \<Longrightarrow> is_int64 x \<Longrightarrow> typed_action (set_flow i x l)"
  by (simp add: typed_action_def list_all_update)

lemma typed_refill:
  assumes "typed_action l" "i < 8" "refill now i l = (b, l')"
  shows "typed_action l'" "readRate l' = readRate l" "b \<Longrightarrow> 0 \<le> slimitArray l' ! i"
proof -
  let ?m = "if nowTimeUnix l = now then residReadueBurst l else readBurst l"
  have m: "0 \<le> ?m" "?m \<le> readBurst l" "is_int64 ?m" using assms(1) by (auto simp: typed_action_def is_int64_def)
  have f: "is_int64 (slimitMaxFlow l)" using assms(1) by (auto simp: typed_action_def is_int64_def)
  show "typed_action l'" "readRate l' = readRate l" "b \<Longrightarrow> 0 \<le> slimitArray l' ! i"
    using assms m f by (auto simp: refill_def Let_def typed_action_def list_all_update split: if_splits)
qed

lemma UpdateParameter_typed:
  assumes "typed_action l" "is_int64 rate" "is_int64 burst"
  shows "typed_action (UpdateParameter rate burst l)"
proof -
  have "0 \<le> default_burst burst div 8" "default_burst burst div 8 \<le> default_burst burst"
    using default_pos(2) [of burst] by linarith+
  then show ?thesis
    using assms by (auto simp: typed_action_def UpdateParameter_def Let_def go_quot_share order_less_imp_le)
      (simp_all add: is_int64_def default_rate_def default_burst_def)
qed

text \<open>What the configuration can hold: two \<open>int\<close>s.\<close>

definition int_conf :: "action \<Rightarrow> action \<Rightarrow> bool" where
  "int_conf l l' \<longleftrightarrow> (\<exists>rate burst. is_int64 rate \<and> is_int64 burst \<and> l' = UpdateParameter rate burst l)"

lemma typed_step:
  assumes "flow_step int_conf s s'" "typed_inv s"
  shows "typed_inv s'"
  using assms(1)
proof cases
  case (call j d i l)
  note p = pick_spec [OF call(5)]
  have "calls_ok typed_call l ((fl_calls s)[j := \<lparr>fc_pc = Picked i, fc_len = d\<rparr>])"
    using assms(2) typed_at(1) [OF assms(2) call(2)] p(1) call(3,4)
    by (intro calls_ok_update [OF typed_local, of "fl_act s"]) (simp_all add: p(2) typed_inv_def typed_call_def)
  then show ?thesis using assms(2) call(1) p(2) by (simp add: typed_inv_def typed_action_def)
next
  case (lock j i)
  note a = typed_at [OF assms(2) lock(2)]
  have "typed_inv (goto j (if slimitArray (fl_act s) ! i \<le> 0 then Refilling i else Filled i) (s\<lparr>fl_act := fl_act s\<rparr>))"
    using a(2,3) lock(3) by (intro typed_goto [OF assms(2) a(1,4)]) (auto simp: typed_call_def split: if_splits)
  then show ?thesis unfolding lock(1) by simp
next
  case (no_flow j i l)
  note a = typed_at [OF assms(2) no_flow(2)]
  have "i < 8" using a(2,3) by (simp add: typed_call_def)
  from typed_refill [OF a(4) this no_flow(3)] refill_other [OF no_flow(3)] a(2) show ?thesis
    unfolding no_flow(1) by (intro typed_grant [OF assms(2) a(1)]) (auto simp: is_int64_def)
next
  case (refill j i l)
  note a = typed_at [OF assms(2) refill(2)]
  have i: "i < 8" using a(2,3) by (simp add: typed_call_def)
  from typed_refill [OF a(4) this refill(3)] refill_other [OF refill(3)] a(2,3) i show ?thesis
    unfolding refill(1) by (intro typed_goto [OF assms(2) a(1)]) (auto simp: typed_call_def)
next
  case (first j i a d)
  note e = typed_at [OF assms(2) first(2)]
  show ?thesis
    unfolding first(1) using e(2,3) e(6) [of i] first
    by (intro typed_grant [OF assms(2) e(1)] typed_set_flow e(4)) (auto simp: typed_call_def is_int64_def)
next
  case (first_fails j i)
  note a = typed_at [OF assms(2) first_fails(2)]
  have "typed_inv (goto j (Second i) (s\<lparr>fl_act := fl_act s\<rparr>))"
    using a(2,3) by (intro typed_goto [OF assms(2) a(1,4)]) (auto simp: typed_call_def)
  then show ?thesis unfolding first_fails(1) by simp
next
  case (second j i d)
  note e = typed_at [OF assms(2) second(2)]
  show ?thesis
    unfolding second(1) using e(2,3) e(6) [of i] second
    by (intro typed_grant [OF assms(2) e(1)] typed_set_flow e(4)) (auto simp: typed_call_def is_int64_def)
next
  case (second_fails j i)
  note a = typed_at [OF assms(2) second_fails(2)]
  have "typed_inv (goto j (Third i) (s\<lparr>fl_act := fl_act s\<rparr>))"
    using a(2,3) by (intro typed_goto [OF assms(2) a(1,4)]) (auto simp: typed_call_def)
  then show ?thesis unfolding second_fails(1) by simp
next
  case (third j i)
  note e = typed_at [OF assms(2) third(2)]
  show ?thesis
    unfolding third(1) using e(2,3) e(6) [of i] e(4)
    by (intro typed_goto [OF assms(2) e(1)] typed_set_flow e(4)) (auto simp: typed_call_def is_int64_def typed_action_def)
next
  case (fourth j i)
  note a = typed_at [OF assms(2) fourth(2)]
  have "typed_inv (grant j (readRate (fl_act s)) (s\<lparr>fl_act := fl_act s\<rparr>))"
    using a(4) by (intro typed_grant [OF assms(2) a(1,4)]) (auto simp: typed_action_def)
  then show ?thesis unfolding fourth(1) by simp
next
  case (clock t)
  then show ?thesis using assms(2) by (simp add: typed_inv_def)
next
  case (refresh l rate burst)
  then obtain rate burst where u: "is_int64 rate" "is_int64 burst" "l = UpdateParameter rate burst (fl_act s)"
    by (auto simp: int_conf_def)
  have "typed_call l c" if "typed_call (fl_act s) c" for c
    using that by (auto simp: typed_call_def u(3) UpdateParameter_def Let_def split: size_pc.splits)
  then show ?thesis using assms(2) UpdateParameter_typed [OF _ u(1,2), of "fl_act s"]
    by (auto simp: refresh(1) typed_inv_def calls_ok_def u(3))
qed

section \<open>Calls return\<close>

text \<open>The steps a call still has to do at most, and those of all calls.\<close>

fun steps_left :: "size_pc \<Rightarrow> nat" where
  "steps_left Idle = 0"
| "steps_left (Picked i) = 6"
| "steps_left (Refilling i) = 5"
| "steps_left (Filled i) = 4"
| "steps_left (Second i) = 3"
| "steps_left (Third i) = 2"
| "steps_left (Fourth i) = 1"

definition all_left :: "flow_state \<Rightarrow> nat" where
  "all_left s = sum_list (map (steps_left \<circ> fc_pc) (fl_calls s))"

lemma all_left_goto:
  assumes "call_at s j pc" "steps_left pc' < steps_left pc"
  shows "all_left (goto j pc' (s\<lparr>fl_act := l\<rparr>)) < all_left s"
proof -
  have j: "j < length (fl_calls s)" "fc_pc (fl_calls s ! j) = pc" using assms(1) by (simp_all add: call_at_def)
  have "steps_left pc \<le> all_left s"
    unfolding all_left_def using j member_le_sum_list [of "steps_left pc" "map (steps_left \<circ> fc_pc) (fl_calls s)"]
    by (force simp: in_set_conv_nth)
  then show ?thesis using j assms(2) by (simp add: all_left_def goto_def map_update sum_list_update)
qed

lemma all_left_stay: "call_at s j pc \<Longrightarrow> steps_left pc' < steps_left pc \<Longrightarrow> all_left (goto j pc' s) < all_left s"
  using all_left_goto [of s j pc pc' "fl_act s"] by simp

lemma all_left_grant: "call_at s j pc \<Longrightarrow> 0 < steps_left pc \<Longrightarrow> all_left (grant j n (s\<lparr>fl_act := l\<rparr>)) < all_left s"
  using all_left_goto [of s j pc Idle l] by (simp add: all_left_def)

text \<open>A call that holds its lock can go on, and if there is none a call can take its lock.\<close>

lemma holder_moves:
  assumes "call_at s j pc" "holds pc i"
  shows "\<exists>s'. flow_step may s s' \<and> all_left s' < all_left s"
proof (cases pc)
  case (Refilling k)
  note at = assms(1) [unfolded Refilling]
  obtain b l where r: "refill (fl_now s) k (fl_act s) = (b, l)" by (cases "refill (fl_now s) k (fl_act s)")
  show ?thesis
    using flow_step.refill [OF at, of l may] flow_step.no_flow [OF at, of l may] r
      all_left_goto [OF at, of "Filled k" l] all_left_grant [OF at, of 0 l] by (cases b) auto
next
  case (Filled k)
  note at = assms(1) [unfolded Filled]
  show ?thesis
    using flow_step.first [OF at refl _ refl, of may] flow_step.first_fails [OF at, of may]
      all_left_grant [OF at] all_left_stay [OF at, of "Second k"]
    by (cases "slimitArray (fl_act s) ! k \<le> readRate (fl_act s)") auto
next
  case (Second k)
  note at = assms(1) [unfolded Second]
  show ?thesis
    using flow_step.second [OF at refl, of may] flow_step.second_fails [OF at, of may]
      all_left_grant [OF at] all_left_stay [OF at, of "Third k"]
    by (cases "fc_len (fl_calls s ! j) \<le> readRate (fl_act s)") auto
next
  case (Third k)
  show ?thesis using flow_step.third [OF assms(1) [unfolded Third], of may] all_left_goto [OF assms(1) [unfolded Third], of "Fourth k"] by auto
next
  case (Fourth k)
  show ?thesis
    using flow_step.fourth [OF assms(1) [unfolded Fourth], of may] all_left_grant [OF assms(1) [unfolded Fourth], of "readRate (fl_act s)" "fl_act s"]
    by auto
qed (use assms(2) in auto)

lemma call_moves:
  assumes "c \<in> set (fl_calls s)" "fc_pc c \<noteq> Idle"
  shows "\<exists>s'. flow_step may s s' \<and> all_left s' < all_left s"
proof (cases "\<exists>j i. j < length (fl_calls s) \<and> holds (fc_pc (fl_calls s ! j)) i")
  case True
  then show ?thesis using holder_moves [of s _ "fc_pc (fl_calls s ! _)"] by (auto simp: call_at_def)
next
  case False
  then have none: "\<forall>c\<in>set (fl_calls s). \<not> holds (fc_pc c) i" for i by (auto simp: in_set_conv_nth)
  obtain j where j: "j < length (fl_calls s)" "fl_calls s ! j = c" using assms(1) by (auto simp: in_set_conv_nth)
  have "\<not> holds (fc_pc c) i" for i using none assms(1) by blast
  then obtain i where "call_at s j (Picked i)" using assms(2) j by (cases "fc_pc c") (auto simp: call_at_def)
  then show ?thesis
    using flow_step.lock [of s j i may, OF _ none] all_left_stay [of s j "Picked i" "Refilling i"] all_left_stay [of s j "Picked i" "Filled i"]
    by (cases "slimitArray (fl_act s) ! i \<le> 0") auto
qed

lemma calls_return: "\<exists>s'. (flow_step may)\<^sup>*\<^sup>* s s' \<and> (\<forall>c\<in>set (fl_calls s'). fc_pc c = Idle)"
proof (induction "all_left s" arbitrary: s rule: less_induct)
  case less
  show ?case
  proof (cases "\<forall>c\<in>set (fl_calls s). fc_pc c = Idle")
    case False
    then obtain s1 where s1: "flow_step may s s1" "all_left s1 < all_left s" using call_moves [of _ s may] by blast
    from less [OF s1(2)] show ?thesis using s1(1) by (meson converse_rtranclp_into_rtranclp)
  qed blast
qed

section \<open>One call alone\<close>

text \<open>A call that no step comes between is the sequential \<open>GetReadSize\<close>.\<close>

lemma call_at_goto [simp]: "call_at (goto j pc s) j q \<longleftrightarrow> j < length (fl_calls s) \<and> pc = q"
  by (auto simp: call_at_def goto_def)

lemma call_at_less: "call_at s j pc \<Longrightarrow> j < length (fl_calls s)"
  by (simp add: call_at_def)

lemma fc_len_goto [simp]: "fc_len (fl_calls (goto j pc s) ! j) = fc_len (fl_calls s ! j)"
  by (cases "j < length (fl_calls s)") (simp_all add: goto_def list_update_beyond)

lemma call_at_grant [simp]: "call_at (grant j n s) j Idle \<longleftrightarrow> j < length (fl_calls s)"
  by (auto simp: call_at_def grant_def goto_def)

lemma call_at_act [simp]: "call_at (s\<lparr>fl_act := l\<rparr>) j pc = call_at s j pc"
  by (simp add: call_at_def)

lemma goto_act [simp]: "fl_calls (goto j pc (s\<lparr>fl_act := l\<rparr>)) = fl_calls (goto j pc s)"
  by (simp add: goto_def)

lemma filled_alone:
  assumes "call_at s j (Filled i)" "take_flow i (fc_len (fl_calls s ! j)) (fl_act s) = (n, l)"
  shows "\<exists>s'. (flow_step may)\<^sup>*\<^sup>* s s' \<and> fl_act s' = l \<and> fl_grants s' = fl_grants s @ [(fc_len (fl_calls s ! j), n)] \<and>
    call_at s' j Idle"
proof -
  note [simp] = call_at_less [OF assms(1)]
  let ?a = "slimitArray (fl_act s) ! i" and ?d = "fc_len (fl_calls s ! j)" and ?r = "readRate (fl_act s)"
  consider (one) "?a \<le> ?r" | (two) "?r < ?a" "?d \<le> ?r" | (three) "?r < ?a" "?r < ?d" by linarith
  then show ?thesis
  proof cases
    case one
    have "n = min ?d ?a" "l = set_flow i (?a - min ?d ?a) (fl_act s)"
      using assms(2) one by (auto simp: take_flow_def Let_def set_flow_def split: if_splits)
    then show ?thesis using flow_step.first [OF assms(1) refl one refl, of may] assms(1)
      by (intro exI [of _ "grant j n (s\<lparr>fl_act := l\<rparr>)"]) auto
  next
    case two
    let ?s = "goto j (Second i) s"
    have t: "n = ?d" "l = set_flow i (?a - ?d) (fl_act s)"
      using assms(2) two by (auto simp: take_flow_def Let_def set_flow_def split: if_splits)
    have "(flow_step may)\<^sup>*\<^sup>* s ?s" using flow_step.first_fails [OF assms(1) two(1), of may] by blast
    moreover have "flow_step may ?s (grant j ?d (?s\<lparr>fl_act := l\<rparr>))"
      using flow_step.second [of ?s j i ?d may] assms(1) two(2) by (simp add: t(2))
    ultimately have "(flow_step may)\<^sup>*\<^sup>* s (grant j ?d (?s\<lparr>fl_act := l\<rparr>))" by (rule rtranclp.rtrancl_into_rtrancl)
    then show ?thesis using assms(1) t(1) by (intro exI [of _ "grant j ?d (?s\<lparr>fl_act := l\<rparr>)"]) simp
  next
    case three
    let ?s1 = "goto j (Second i) s" let ?s2 = "goto j (Third i) ?s1"
    let ?s3 = "goto j (Fourth i) (?s2\<lparr>fl_act := set_flow i (?a - ?r) (fl_act s)\<rparr>)"
    have t: "n = ?r" "l = set_flow i (?a - ?r) (fl_act s)"
      using assms(2) three by (auto simp: take_flow_def Let_def set_flow_def split: if_splits)
    have "flow_step may s ?s1" by (rule flow_step.first_fails [OF assms(1) three(1)])
    moreover have "flow_step may ?s1 ?s2" by (rule flow_step.second_fails) (use assms(1) three(2) in simp_all)
    moreover have "flow_step may ?s2 ?s3" using flow_step.third [of ?s2 j i may] assms(1) by simp
    moreover have "flow_step may ?s3 (grant j ?r ?s3)" using flow_step.fourth [of ?s3 j i may] assms(1) by simp
    ultimately have "(flow_step may)\<^sup>*\<^sup>* s (grant j ?r ?s3)" by (meson rtranclp.rtrancl_into_rtrancl rtranclp.rtrancl_refl)
    then show ?thesis using assms(1) t by (intro exI [of _ "grant j ?r ?s3"]) simp
  qed
qed

lemma call_alone:
  assumes "GetReadSize (fl_now s) d (fl_act s) = Some (n, l)" and "0 \<le> d" "d < 2 ^ 63"
    and "call_at s j Idle" and "\<forall>c\<in>set (fl_calls s). fc_pc c = Idle"
  shows "\<exists>s'. (flow_step may)\<^sup>*\<^sup>* s s' \<and> fl_act s' = l \<and> fl_grants s' = fl_grants s @ [(d, n)] \<and> call_at s' j Idle"
proof -
  note [simp] = call_at_less [OF assms(4)]
  obtain i l1 where p: "pick (fl_act s) = (i, l1)" by (cases "pick (fl_act s)")
  let ?s1 = "s\<lparr>fl_act := l1, fl_calls := (fl_calls s)[j := \<lparr>fc_pc = Picked i, fc_len = d\<rparr>]\<rparr>"
  let ?e = "slimitArray l1 ! i \<le> 0"
  let ?s2 = "goto j (if ?e then Refilling i else Filled i) ?s1"
  have g: "(if ?e then (case refill (fl_now s) i l1 of (False, l') \<Rightarrow> (0, l') | (True, l') \<Rightarrow> take_flow i d l')
      else take_flow i d l1) = (n, l)"
    using assms(1) p by (auto simp: GetReadSize_def pick_def Let_def split: if_splits prod.splits bool.splits)
  have c1: "call_at ?s1 j (Picked i)" using assms(4) by (simp add: call_at_def)
  have "\<forall>c\<in>set (fl_calls ?s1). \<not> holds (fc_pc c) i"
    using assms(5) by (auto dest: subsetD [OF set_update_subset_insert])
  from flow_step.lock [OF c1 this, of may] have s2: "(flow_step may)\<^sup>*\<^sup>* s ?s2"
    using flow_step.call [OF assms(4,2,3) p, of may] by (simp add: converse_rtranclp_into_rtranclp r_into_rtranclp)
  have d: "fc_len (fl_calls ?s1 ! j) = d" using assms(4) by (simp add: call_at_def)
  obtain b l2 where r: "refill (fl_now s) i l1 = (b, l2)" by (cases "refill (fl_now s) i l1")
  consider (full) "\<not> ?e" | (none) "?e" "\<not> b" | (more) "?e" b by blast
  then show ?thesis
  proof cases
    case full
    then show ?thesis using filled_alone [of ?s2 j i n l may] c1 d g s2 by (auto intro: rtranclp_trans)
  next
    case none
    have c2: "call_at ?s2 j (Refilling i)" using c1 none(1) by simp
    have "flow_step may ?s2 (grant j 0 (?s2\<lparr>fl_act := l2\<rparr>))"
      using flow_step.no_flow [OF c2, of l2 may] r none(2) by simp
    with s2 have "(flow_step may)\<^sup>*\<^sup>* s (grant j 0 (?s2\<lparr>fl_act := l2\<rparr>))" by (rule rtranclp.rtrancl_into_rtrancl)
    then show ?thesis using c2 d g none r by (intro exI [of _ "grant j 0 (?s2\<lparr>fl_act := l2\<rparr>)"]) simp
  next
    case more
    let ?s3 = "goto j (Filled i) (?s2\<lparr>fl_act := l2\<rparr>)"
    have c2: "call_at ?s2 j (Refilling i)" using c1 more(1) by simp
    have "flow_step may ?s2 ?s3" using flow_step.refill [OF c2, of l2 may] r more(2) by simp
    with s2 have "(flow_step may)\<^sup>*\<^sup>* s ?s3" by (rule rtranclp.rtrancl_into_rtrancl)
    then show ?thesis using filled_alone [of ?s3 j i n l may] c2 d g more r by (auto intro: rtranclp_trans)
  qed
qed

section \<open>What a reader does with a grant\<close>

text \<open>
  The end of \<open>Read\<close>, with the result of \<open>GetReadSize\<close>: \<open>None\<close> is the panic of the slice \<open>l.buf[:len(p)]\<close>.
\<close>

definition hand_over :: "int \<Rightarrow> nat \<Rightarrow> limited_reader \<Rightarrow> (byte list \<times> limited_reader) option" where
  "hand_over k plen lr =
    (let sz = (if k \<le> 0 then 1 else k); n = (if int plen > sz then nat sz else plen)
     in if lr_off lr + n \<le> length (lr_temp lr)
        then Some (take n (drop (lr_off lr) (lr_temp lr)), lr\<lparr>lr_llen := lr_llen lr - int n, lr_off := lr_off lr + n\<rparr>)
        else None)"

lemma deliver_hand_over:
  "deliver now plen lr act =
    (if lr_llen lr \<le> 0 then Some (([], Some EOF), lr, act)
     else Option.bind (GetReadSize now (lr_llen lr) act) (\<lambda>(n, act').
       map_option (\<lambda>(bs, lr'). ((bs, None), lr', act')) (hand_over n plen lr)))"
  by (auto simp: deliver_def hand_over_def Let_def split: option.splits)

lemma hand_over_too_much:
  assumes "lr_inv lr" "lr_llen lr < k" "lr_llen lr < int plen" "0 < lr_llen lr"
  shows "case hand_over k plen lr of None \<Rightarrow> True
    | Some (bs, lr') \<Rightarrow> lr_llen lr' < 0 \<and> lr_llen lr < int (length bs) \<and> take (nat (lr_llen lr)) bs = pending lr"
  using assms by (auto simp: hand_over_def Let_def lr_inv_def pending_def min_def take_all_iff split: option.splits)

lemma calls_ok_idle: "\<forall>c. fc_pc c = Idle \<longrightarrow> fc_len c = 0 \<longrightarrow> ok l c \<Longrightarrow> calls_ok ok l (replicate n \<lparr>fc_pc = Idle, fc_len = 0\<rparr>)"
  by (simp add: calls_ok_def)

lemma exact_start: "default_burst burst \<le> M \<Longrightarrow> exact_inv (default_rate rate) M (flow_start t rate burst n)"
  using New_inv [of t rate burst]
  by (simp add: exact_inv_def flow_start_def calls_ok_idle exact_call_def) (simp add: NewLimitedReaderAction_def Let_def)

lemma spent_start: "default_burst burst \<le> M \<Longrightarrow> spent M (flow_start t rate burst n) \<le> 2 * M"
  using New_credits [of t rate burst]
  by (simp add: spent_def flow_start_def owed_def sum_list_replicate) (simp add: NewLimitedReaderAction_def Let_def)

lemma exact_reach:
  assumes "flow_reach may s0 s" "exact_inv R M s0"
    and may: "\<And>l l'. may l l' \<Longrightarrow> readRate l' \<le> readRate l \<and> readBurst l' \<le> M"
  shows "exact_inv R M s \<and> spent M s - M * (fl_seconds s + fl_refreshes s) \<le> spent M s0 - M * (fl_seconds s0 + fl_refreshes s0)"
  using assms(1)
proof induction
  case (move s s')
  then show ?case using exact_step [OF move(2) _ may] budget_step [OF move(2) _ may] by force
qed (use assms(2) in simp)

lemma spent_nonneg:
  assumes "exact_inv R M s"
  shows "sum_list (map snd (fl_grants s)) \<le> spent M s"
proof -
  have "action_inv (fl_act s)" "0 \<le> M" "0 \<le> readRate (fl_act s)" using assms by (auto simp: exact_inv_def action_inv_def)
  moreover from this have "0 \<le> credits (fl_act s)"
    using sum_list_nonneg_int [of "slimitArray (fl_act s)"] by (simp add: credits_def action_inv_def list_all_iff)
  moreover have "0 \<le> sum_list (map (owed (fl_act s)) (fl_calls s))"
    using \<open>0 \<le> readRate (fl_act s)\<close> by (intro sum_list_nonneg) (auto simp: owed_def split: size_pc.splits)
  ultimately show ?thesis by (simp add: spent_def)
qed

lemma typed_start:
  assumes "is_int64 rate" "is_int64 burst"
  shows "typed_inv (flow_start t rate burst n)"
proof -
  have "0 \<le> default_burst burst div 8" "default_burst burst div 8 \<le> default_burst burst"
    using default_pos(2) [of burst] by linarith+
  then have "typed_action (NewLimitedReaderAction t rate burst)"
    using assms
    by (auto simp: typed_action_def NewLimitedReaderAction_def Let_def go_quot_eight order_less_imp_le LimitshareSize_def list_all_iff)
      (simp_all add: is_int64_def default_rate_def default_burst_def split: if_splits)
  then show ?thesis by (simp add: typed_inv_def flow_start_def calls_ok_idle typed_call_def)
qed

lemma typed_reach: "flow_reach int_conf s0 s \<Longrightarrow> typed_inv s0 \<Longrightarrow> typed_inv s"
  by (induction rule: flow_reach.induct) (auto intro: typed_step)

text \<open>The overlap of a call with a refresh that raises the rate, step by step.\<close>

definition race_action :: "int \<Rightarrow> int \<Rightarrow> action" where
  "race_action rate flow = \<lparr>readRate = rate, readBurst = 8000, nowTimeUnix = 0, residReadueBurst = 8000, cc = 1,
     slimitArray = [1000, flow, 1000, 1000, 1000, 1000, 1000, 1000], slimitMaxFlow = 1000\<rparr>"

definition race_state :: "size_pc \<Rightarrow> int \<Rightarrow> int \<Rightarrow> int \<Rightarrow> (int \<times> int) list \<Rightarrow> flow_state" where
  "race_state pc rate flow r gs = \<lparr>fl_act = race_action rate flow, fl_calls = [\<lparr>fc_pc = pc, fc_len = 100\<rparr>], fl_now = 0,
     fl_grants = gs, fl_seconds = 0, fl_refreshes = r\<rparr>"

lemma race_simps [simp]:
  "call_at (race_state pc rate flow r gs) 0 q \<longleftrightarrow> pc = q" "fl_act (race_state pc rate flow r gs) = race_action rate flow"
  "fl_calls (race_state pc rate flow r gs) = [\<lparr>fc_pc = pc, fc_len = 100\<rparr>]"
  "goto 0 q (race_state pc rate flow r gs) = race_state q rate flow r gs"
  "grant 0 n (race_state pc rate flow r gs) = race_state Idle rate flow r (gs @ [(100, n)])"
  "race_state pc rate flow r gs\<lparr>fl_act := race_action rate' flow'\<rparr> = race_state pc rate' flow' r gs"
  "readRate (race_action rate flow) = rate" "slimitArray (race_action rate flow) ! 1 = flow"
  "slimitArray (race_action rate flow) ! Suc 0 = flow" "set_flow 1 x (race_action rate flow) = race_action rate x"
  "set_flow (Suc 0) x (race_action rate flow) = race_action rate x"
  by (auto simp: race_state_def race_action_def call_at_def goto_def grant_def set_flow_def)

lemma race_reach: "flow_reach int_conf (flow_start 0 10 8000 1) (race_state Idle 30720 990 1 [(100, 30720)])"
proof -
  let ?R = "flow_reach int_conf (flow_start 0 10 8000 1)"
  have "pick (fl_act (flow_start 0 10 8000 1)) = (1, race_action 10 1000)"
    by code_simp
  from flow_step.call [OF _ _ _ this, of 0 100 int_conf]
  have "flow_step int_conf (flow_start 0 10 8000 1) (race_state (Picked 1) 10 1000 0 [])"
    by (simp add: call_at_def flow_start_def race_state_def)
  then have "?R (race_state (Picked 1) 10 1000 0 [])" by (rule flow_reach.move [OF flow_reach.start])
  from flow_reach.move [OF this flow_step.lock [of _ 0 1]] have "?R (race_state (Filled 1) 10 1000 0 [])" by simp
  from flow_reach.move [OF this flow_step.first_fails [of _ 0 1]] have "?R (race_state (Second 1) 10 1000 0 [])" by simp
  from flow_reach.move [OF this flow_step.second_fails [of _ 0 1]] have "?R (race_state (Third 1) 10 1000 0 [])" by simp
  from flow_reach.move [OF this flow_step.third [of _ 0 1]] have r: "?R (race_state (Fourth 1) 10 990 0 [])" by simp
  have u: "race_action 30720 990 = UpdateParameter 30720 8000 (race_action 10 990)"
    by (simp add: UpdateParameter_def race_action_def default_rate_def default_burst_def LimitshareSize_def go_quot_def Let_def)
  then have "int_conf (race_action 10 990) (race_action 30720 990)" 
    unfolding int_conf_def by (intro exI [of _ 30720] exI [of _ 8000]) (simp add: is_int64_def)
  with u have "flow_step int_conf (race_state (Fourth 1) 10 990 0 []) (race_state (Fourth 1) 30720 990 1 [])"
    using flow_step.refresh [of "race_action 30720 990" 30720 8000 "race_state (Fourth 1) 10 990 0 []" int_conf]
    by (simp add: race_state_def)
  from flow_reach.move [OF r this] have "?R (race_state (Fourth 1) 30720 990 1 [])" .
  from flow_reach.move [OF this flow_step.fourth [of _ 0 1]] show ?thesis by simp
qed

lemma flow_steps_reach: "(flow_step may)\<^sup>*\<^sup>* s s' \<Longrightarrow> flow_reach may s0 s \<Longrightarrow> flow_reach may s0 s'"
  by (induction rule: rtranclp_induct) (auto intro: flow_reach.move)

lemma demo_grant: "\<exists>l. GetReadSize (fl_now (flow_start 5 10 800 2)) 100 (fl_act (flow_start 5 10 800 2)) = Some (10, l)"
proof -
  have "map_option fst (GetReadSize (fl_now (flow_start 5 10 800 2)) 100 (fl_act (flow_start 5 10 800 2))) = Some 10" by code_simp
  then show ?thesis by auto
qed

section \<open>Properties\<close>

text \<open>C15: As long as no refresh of the configuration raises the rate, the budget of one user holds whatever his
  connections do at the same time: each call is granted between 0 and what it asked for, and at most the rate; and
  together they are granted at most two bursts, plus one burst for every change of the second and for every refresh.\<close>

theorem flow_shared:
  assumes "flow_reach may (flow_start t rate burst n) s" and "default_burst burst \<le> M"
    and "\<And>l l'. may l l' \<Longrightarrow> readRate l' \<le> readRate l \<and> readBurst l' \<le> M"
  shows "(\<forall>(d, k)\<in>set (fl_grants s). 0 \<le> k \<and> k \<le> d \<and> k \<le> default_rate rate) \<and>
    sum_list (map snd (fl_grants s)) \<le> M * (2 + fl_seconds s + fl_refreshes s)"
proof -
  have r: "exact_inv (default_rate rate) M s" "spent M s - M * (fl_seconds s + fl_refreshes s) \<le> spent M (flow_start t rate burst n)"
    using exact_reach [OF assms(1) exact_start [OF assms(2)] assms(3)] by (simp_all add: flow_start_def)
  then have "spent M s \<le> M * (2 + fl_seconds s + fl_refreshes s)" using spent_start [OF assms(2), of t rate n] by (simp add: algebra_simps)
  then show ?thesis using r(1) spent_nonneg [OF r(1)] by (simp add: exact_inv_def)
qed

theorem flow_shared_witness:
  "\<exists>s. flow_reach (\<lambda>_ _. False) (flow_start 5 10 800 2) s \<and> fl_grants s = [(100, 10)] \<and>
     sum_list (map snd (fl_grants s)) \<le> 800 * (2 + fl_seconds s + fl_refreshes s)"
proof -
  let ?s = "flow_start 5 10 800 2"
  obtain l where "GetReadSize (fl_now ?s) 100 (fl_act ?s) = Some (10, l)"
    using demo_grant by blast
  from call_alone [OF this, of 0 "\<lambda>_ _. False"]
  obtain s where st: "(flow_step (\<lambda>_ _. False))\<^sup>*\<^sup>* ?s s" and g: "fl_grants s = [(100, 10)]"
    by (auto simp: call_at_def flow_start_def)
  have r: "flow_reach (\<lambda>_ _. False) ?s s" by (rule flow_steps_reach [OF st flow_reach.start])
  from flow_shared [OF r, of 800] have "sum_list (map snd (fl_grants s)) \<le> 800 * (2 + fl_seconds s + fl_refreshes s)"
    by (simp add: default_burst_def)
  with r g show ?thesis by blast
qed

text \<open>C38: Every counter of a budget stays a 64-bit integer, and every access to a shard stays within the eight shards and under
  the lock of its shard, whatever the connections do and whatever rates and bursts a refresh sets at any moment; and no
  call waits for ever: from every state there is a run in which all calls return.\<close>

theorem flow_typed:
  assumes "flow_reach int_conf (flow_start t rate burst n) s" and "is_int64 rate" "is_int64 burst"
  shows "typed_action (fl_act s) \<and> (\<forall>(d, k)\<in>set (fl_grants s). 0 \<le> k \<and> is_int64 k) \<and>
    (\<forall>j<length (fl_calls s). \<forall>i. holds (fc_pc (fl_calls s ! j)) i \<longrightarrow> i < length (slimitArray (fl_act s)) \<and>
       (\<forall>k<length (fl_calls s). holds (fc_pc (fl_calls s ! k)) i \<longrightarrow> k = j)) \<and>
    (\<exists>s'. (flow_step int_conf)\<^sup>*\<^sup>* s s' \<and> (\<forall>c\<in>set (fl_calls s'). fc_pc c = Idle))"
proof -
  have i: "typed_inv s" by (rule typed_reach [OF assms(1) typed_start [OF assms(2,3)]])
  have "i < 8" if "j < length (fl_calls s)" "holds (fc_pc (fl_calls s ! j)) i" for i j
    using i that(2) calls_ok_at [OF _ that(1), of typed_call "fl_act s"]
    by (cases "fc_pc (fl_calls s ! j)") (auto simp: typed_inv_def typed_call_def)
  moreover have "k = j" if "j < length (fl_calls s)" "k < length (fl_calls s)" "holds (fc_pc (fl_calls s ! j)) i"
      "holds (fc_pc (fl_calls s ! k)) i" for i j k
    using i that unfolding typed_inv_def calls_ok_def by blast
  ultimately show ?thesis using i calls_return [of int_conf s] by (simp add: typed_inv_def typed_action_def)
qed

theorem flow_typed_witness:
  "typed_action (race_action 30720 990)"
  using flow_typed [OF race_reach] by (simp add: is_int64_def)

text \<open>C16: A refresh that raises the rate in the middle of a call makes the call grant more than it asked for. The reader then
  takes the bytes after its data: at the start of its buffer it delivers the whole buffer, with bytes of an earlier
  read, and ends the connection at the next read; elsewhere the slice is out of range and the process panics.\<close>

theorem rate_race:
  "(\<exists>s. flow_reach int_conf (flow_start 0 10 8000 1) s \<and> fl_grants s = [(100, 30720)]) \<and>
    (\<forall>lr. lr_inv lr \<and> lr_llen lr = 100 \<longrightarrow>
      (if lr_off lr = 0
       then \<exists>lr'. hand_over 30720 2048 lr = Some (lr_temp lr, lr') \<and> lr_llen lr' < 0 \<and>
         (\<forall>now act src. LimitedReader_Read False now 2048 lr' act src = Some (([], Some EOF), lr', act, src))
       else hand_over 30720 2048 lr = None))"
proof (intro conjI allI impI)
  show "\<exists>s. flow_reach int_conf (flow_start 0 10 8000 1) s \<and> fl_grants s = [(100, 30720)]"
    using race_reach by (intro exI [of _ "race_state Idle 30720 990 1 [(100, 30720)]"]) (simp add: race_state_def)
  fix lr
  assume "lr_inv lr \<and> lr_llen lr = 100"
  then show "if lr_off lr = 0
       then \<exists>lr'. hand_over 30720 2048 lr = Some (lr_temp lr, lr') \<and> lr_llen lr' < 0 \<and>
         (\<forall>now act src. LimitedReader_Read False now 2048 lr' act src = Some (([], Some EOF), lr', act, src))
       else hand_over 30720 2048 lr = None"
    by (auto simp: hand_over_def lr_inv_def tempbuf_size_def LimitedReader_Read_def fetch_def deliver_def)
qed

theorem rate_race_witness:
  "hand_over 30720 2048 \<lparr>lr_temp = replicate 2048 0, lr_off = 7, lr_llen = 100\<rparr> = None"
  using rate_race by (auto simp: lr_inv_def tempbuf_size_def)

end
