(* ===== verification/Blacklist.thy ===== *)
theory Blacklist
  imports Prelude "HOL-Library.Sublist"
begin

text \<open>
  The domain filter: \<open>regexpDomain\<close> of \<^verbatim>\<open>server/common.go\<close>, the blacklist of
  \<^verbatim>\<open>server/manager.go\<close> (\<open>SetBlackMap\<close>, \<open>GetBlackMap\<close>, \<open>IsInBlacklist\<close>) and the message
  handler of \<^verbatim>\<open>server/rabbitmq_blacklist_consume.go\<close> that replaces it.
\<close>

section \<open>Extracting a domain\<close>

text \<open>The two character classes of \<^verbatim>\<open>([a-zA-Z0-9.-]+\.[a-zA-Z]{2,})\<close>, on bytes.\<close>

definition in_range :: "nat \<Rightarrow> nat \<Rightarrow> char \<Rightarrow> bool" where
  "in_range lo hi c \<longleftrightarrow> lo \<le> of_char c \<and> of_char c \<le> hi"

definition is_letter :: "char \<Rightarrow> bool" where
  "is_letter c \<longleftrightarrow> in_range 97 122 c \<or> in_range 65 90 c"

definition is_host_char :: "char \<Rightarrow> bool" where
  "is_host_char c \<longleftrightarrow> is_letter c \<or> in_range 48 57 c \<or> c = CHR ''.'' \<or> c = CHR ''-''"

text \<open>
  Go's matching is leftmost-first: at the first start that matches at all, the \<^verbatim>\<open>+\<close> takes as
  many characters as it can and gives them back one by one until the rest,
  \<^verbatim>\<open>\.[a-zA-Z]{2,}\<close>, matches behind it.
\<close>

definition rest_length :: "string \<Rightarrow> nat option" where
  "rest_length xs = (case xs of [] \<Rightarrow> None
     | c # cs \<Rightarrow> let n = length (takeWhile is_letter cs)
         in if c = CHR ''.'' \<and> 2 \<le> n then Some (Suc n) else None)"

fun match_plus :: "nat \<Rightarrow> string \<Rightarrow> string option" where
  "match_plus 0 xs = None"
| "match_plus (Suc k) xs = (case rest_length (drop (Suc k) xs) of
     Some n \<Rightarrow> Some (take (Suc k + n) xs)
   | None \<Rightarrow> match_plus k xs)"

definition match_here :: "string \<Rightarrow> string option" where
  "match_here xs = match_plus (length (takeWhile is_host_char xs)) xs"

fun find_match :: "string \<Rightarrow> string option" where
  "find_match [] = None"
| "find_match (c # cs) = (case match_here (c # cs) of Some w \<Rightarrow> Some w | None \<Rightarrow> find_match cs)"

definition regexpDomain :: "string \<Rightarrow> string" where
  "regexpDomain t = (case find_match t of Some w \<Rightarrow> w | None \<Rightarrow> [])"

text \<open>The words of the regular expression.\<close>

definition domain_word :: "string \<Rightarrow> bool" where
  "domain_word w \<longleftrightarrow> (\<exists>a b. w = a @ CHR ''.'' # b \<and> a \<noteq> [] \<and> list_all is_host_char a \<and>
     2 \<le> length b \<and> list_all is_letter b)"

lemma takeWhile_all: "list_all P (takeWhile P xs)"
  by (induction xs) auto

lemma rest_length_Some:
  assumes "rest_length xs = Some n"
  shows "\<exists>b. take n xs = CHR ''.'' # b \<and> 2 \<le> length b \<and> list_all is_letter b \<and> n \<le> length xs"
proof (cases xs)
  case Nil
  with assms show ?thesis by (simp add: rest_length_def)
next
  case (Cons c cs)
  let ?b = "takeWhile is_letter cs"
  have "take (length ?b) cs = ?b" by (rule takeWhile_eq_take [symmetric])
  moreover have "length ?b \<le> length cs" by (rule length_takeWhile_le)
  ultimately show ?thesis
    using assms Cons takeWhile_all [of is_letter cs]
    by (auto simp: rest_length_def Let_def split: if_splits intro!: exI [of _ ?b])
qed

lemma match_plus_Some:
  assumes "match_plus k xs = Some w" and "list_all is_host_char (take k xs)" and "k \<le> length xs"
  shows "domain_word w \<and> prefix w xs"
  using assms
proof (induction k)
  case 0
  then show ?case by simp
next
  case (Suc k)
  show ?case
  proof (cases "rest_length (drop (Suc k) xs)")
    case None
    have "take k xs = take k (take (Suc k) xs)" by simp
    then have "list_all is_host_char (take k xs)"
      using Suc.prems(2) by (metis in_set_takeD list_all_iff)
    with None Suc show ?thesis by simp
  next
    case (Some n)
    from rest_length_Some [OF this] obtain b where
      b: "take n (drop (Suc k) xs) = CHR ''.'' # b" "2 \<le> length b" "list_all is_letter b" by blast
    have w: "w = take (Suc k + n) xs" using Some Suc.prems(1) by simp
    then have "w = take (Suc k) xs @ CHR ''.'' # b" using b(1) by (simp only: take_add)
    moreover have "take (Suc k) xs \<noteq> []" using Suc.prems(3) by auto
    ultimately have "domain_word w"
      unfolding domain_word_def using b(2,3) Suc.prems(2) by blast
    with w show ?thesis by (simp add: take_is_prefix)
  qed
qed

lemma match_here_Some:
  assumes "match_here xs = Some w"
  shows "domain_word w \<and> prefix w xs"
proof -
  let ?k = "length (takeWhile is_host_char xs)"
  have "take ?k xs = takeWhile is_host_char xs" by (rule takeWhile_eq_take [symmetric])
  then have "list_all is_host_char (take ?k xs)" by (simp only: takeWhile_all)
  moreover have "?k \<le> length xs" by (rule length_takeWhile_le)
  ultimately show ?thesis using match_plus_Some assms unfolding match_here_def by blast
qed

lemma rest_length_found:
  assumes "2 \<le> length b" and "list_all is_letter b"
  shows "rest_length (CHR ''.'' # b @ ys) \<noteq> None"
proof -
  have "length b \<le> length (takeWhile is_letter (b @ ys))"
    using assms(2) by (induction b) auto
  with assms(1) show ?thesis by (simp add: rest_length_def)
qed

lemma match_plus_found:
  "rest_length (drop j xs) \<noteq> None \<Longrightarrow> 0 < j \<Longrightarrow> j \<le> k \<Longrightarrow> match_plus k xs \<noteq> None"
proof (induction k)
  case 0
  then show ?case by simp
next
  case (Suc k)
  then show ?case by (cases "j = Suc k") (auto split: option.split)
qed

lemma match_here_found:
  assumes "domain_word w" and "prefix w xs"
  shows "match_here xs \<noteq> None"
proof -
  from assms obtain a b ys where w: "xs = a @ CHR ''.'' # b @ ys" and a: "a \<noteq> []" "list_all is_host_char a"
    and b: "2 \<le> length b" "list_all is_letter b"
    by (auto simp: domain_word_def prefix_def)
  have "length a \<le> length (takeWhile is_host_char xs)"
    using a(2) unfolding w by (induction a) auto
  moreover have "rest_length (drop (length a) xs) \<noteq> None"
    using rest_length_found [OF b] by (simp add: w)
  ultimately show ?thesis
    using a(1) match_plus_found [of "length a" xs] by (simp add: match_here_def)
qed

lemma find_match_Some: "find_match t = Some w \<Longrightarrow> domain_word w \<and> sublist w t"
proof (induction t)
  case Nil
  then show ?case by simp
next
  case (Cons c t)
  then show ?case
    by (auto split: option.splits dest: match_here_Some intro: sublist_Cons_right [THEN iffD2])
qed

lemma find_match_None: "find_match t = None \<Longrightarrow> sublist w t \<Longrightarrow> \<not> domain_word w"
proof (induction t)
  case Nil
  then show ?case by (simp add: domain_word_def)
next
  case (Cons c t)
  then show ?case
    using match_here_found [of w "c # t"] by (auto simp: sublist_Cons_right split: option.splits)
qed

lemma domain_word_not_Nil: "domain_word w \<Longrightarrow> w \<noteq> []"
  by (auto simp: domain_word_def)

section \<open>The blacklist\<close>

fun go_Contains :: "string \<Rightarrow> string \<Rightarrow> bool" where
  "go_Contains [] sub \<longleftrightarrow> sub = []"
| "go_Contains (c # cs) sub \<longleftrightarrow> prefix sub (c # cs) \<or> go_Contains cs sub"

lemma go_Contains_sublist: "go_Contains s sub \<longleftrightarrow> sublist sub s"
  by (induction s) (auto simp: sublist_Cons_right)

text \<open>
  \<open>blackMap\<close> is a pointer to a set of strings, nil before the first message. The set is a list
  of its keys, in the order in which a \<open>range\<close> happens to visit them.
\<close>

type_synonym black_map = "string list option"

definition SetBlackMap :: "string list \<Rightarrow> black_map \<Rightarrow> black_map" where
  "SetBlackMap bm old = Some bm"

definition GetBlackMap :: "black_map \<Rightarrow> black_map" where
  "GetBlackMap bm = bm"

definition IsInBlacklist :: "black_map \<Rightarrow> string \<Rightarrow> string \<times> bool" where
  "IsInBlacklist bm d = (case bm of
     None \<Rightarrow> ([], False)
   | Some keys \<Rightarrow>
       if d \<in> set keys then (d, True)
       else (case find (go_Contains d) keys of
               Some vv \<Rightarrow> (vv, True)
             | None \<Rightarrow> ([], False)))"

text \<open>
  The message handler; \<open>unmarshal\<close> is \<open>json.Unmarshal\<close> into the field \<open>Blacklist\<close>. The loop
  inserts the entries one by one, so a repeated entry is stored once.
\<close>

definition runRabbitmqBlacklistConsumeAction ::
    "(byte list \<Rightarrow> go_error + string list) \<Rightarrow> byte list \<Rightarrow> black_map \<Rightarrow> black_map" where
  "runRabbitmqBlacklistConsumeAction unmarshal body bm = (case unmarshal body of
     Inl _ \<Rightarrow> bm
   | Inr blacklist \<Rightarrow> SetBlackMap (foldl (\<lambda>tmp v. List.insert v tmp) [] blacklist) bm)"

lemma IsInBlacklist_flag:
  "snd (IsInBlacklist (Some keys) d) \<longleftrightarrow> (\<exists>vv\<in>set keys. sublist vv d)"
  by (auto simp: IsInBlacklist_def go_Contains_sublist find_None_iff find_Some_iff
      split: option.split)

lemma IsInBlacklist_name:
  "fst (IsInBlacklist (Some keys) d) \<in> (if snd (IsInBlacklist (Some keys) d) then set keys else {[]})"
  by (auto simp: IsInBlacklist_def find_Some_iff split: option.split)

lemma foldl_insert: "set (foldl (\<lambda>tmp v. List.insert v tmp) acc xs) = set acc \<union> set xs \<and>
  (distinct acc \<longrightarrow> distinct (foldl (\<lambda>tmp v. List.insert v tmp) acc xs))"
  by (induction xs arbitrary: acc) auto

section \<open>Properties\<close>

text \<open>\<open>regexpDomain\<close> is correct for its regular expression: it returns the empty string
  exactly when no part of the text is a word of the expression, and otherwise a part of the
  text that is one.\<close>

theorem regexpDomain_correct:
  "(regexpDomain t = [] \<longleftrightarrow> \<not> (\<exists>w. sublist w t \<and> domain_word w)) \<and>
   (regexpDomain t = [] \<or> sublist (regexpDomain t) t \<and> domain_word (regexpDomain t))"
  using find_match_Some [of t] find_match_None [of t] domain_word_not_Nil
  by (cases "find_match t") (auto simp: regexpDomain_def)

text \<open>A domain is refused exactly when some entry of the latest blacklist message occurs in
  it, whatever the order of the set, and the reported entry is such an entry; a message that
  does not parse leaves the blacklist as it is.\<close>

theorem blacklist_decision:
  "snd (IsInBlacklist (runRabbitmqBlacklistConsumeAction (\<lambda>_. Inr entries) body bm) d) =
     (\<exists>vv\<in>set entries. sublist vv d) \<and>
   fst (IsInBlacklist (runRabbitmqBlacklistConsumeAction (\<lambda>_. Inr entries) body bm) d) \<in>
     (if snd (IsInBlacklist (runRabbitmqBlacklistConsumeAction (\<lambda>_. Inr entries) body bm) d)
      then set entries else {[]}) \<and>
   runRabbitmqBlacklistConsumeAction (\<lambda>_. Inl e) body bm = bm"
proof -
  let ?keys = "foldl (\<lambda>tmp v. List.insert v tmp) [] entries"
  have k: "set ?keys = set entries" using foldl_insert [of "[]" entries] by simp
  have m: "runRabbitmqBlacklistConsumeAction (\<lambda>_. Inr entries) body bm = Some ?keys"
    by (simp add: runRabbitmqBlacklistConsumeAction_def SetBlackMap_def)
  show ?thesis
    unfolding m using IsInBlacklist_flag [of ?keys d] IsInBlacklist_name [of ?keys d]
    by (auto simp: k runRabbitmqBlacklistConsumeAction_def split: if_splits)
qed

end
