(* ===== verification/Socks5.thy ===== *)
theory Socks5
  imports Prelude
begin

unbundle bit_operations_syntax

text \<open>
  The SOCKS5 wire format of \<^verbatim>\<open>utils/socks5/func.go\<close>: reading the user name and password and
  the destination address, writing replies, and the text form of an address.
\<close>

section \<open>Connections\<close>

text \<open>
  The end of the connection the server reads from and writes to: the bytes the client has sent
  and will send before the deadline or the end of the stream, the error a read returns after
  them, the messages written so far, and the answers of the writes to come, in their order: the error
  of a write that fails, nothing for one that does not. Writes for which no answer is left do not fail.
\<close>

record conn =
  inbuf :: "byte list"
  inend :: go_error
  written :: "byte list list"
  werr :: "go_error option list"

text \<open>\<open>Read\<close> of a one-byte slice.\<close>

definition Read1 :: "conn \<Rightarrow> (go_error + byte) \<times> conn" where
  "Read1 c = (case inbuf c of [] \<Rightarrow> (Inl (inend c), c) | b # bs \<Rightarrow> (Inr b, c\<lparr>inbuf := bs\<rparr>))"

text \<open>
  \<open>io.ReadAtLeast(c, buf, n)\<close> with \<open>len(buf) = n\<close>: exactly \<open>n\<close> bytes, or an error after what
  there was has been consumed; an end of the stream in the middle is \<open>UnexpectedEOF\<close>.
\<close>

definition ReadAtLeast :: "nat \<Rightarrow> conn \<Rightarrow> (go_error + byte list) \<times> conn" where
  "ReadAtLeast n c =
    (if n \<le> length (inbuf c) then (Inr (take n (inbuf c)), c\<lparr>inbuf := drop n (inbuf c)\<rparr>)
     else (Inl (if inbuf c \<noteq> [] \<and> inend c = EOF then UnexpectedEOF else inend c), c\<lparr>inbuf := []\<rparr>))"

definition write_answer :: "conn \<Rightarrow> go_error option" where
  "write_answer c = (case werr c of [] \<Rightarrow> None | a # _ \<Rightarrow> a)"

definition conn_Write :: "byte list \<Rightarrow> conn \<Rightarrow> go_error option \<times> conn" where
  "conn_Write msg c = (case write_answer c of
     None \<Rightarrow> (None, c\<lparr>werr := tl (werr c), written := written c @ [msg]\<rparr>)
   | Some e \<Rightarrow> (Some e, c\<lparr>werr := tl (werr c)\<rparr>))"

lemma conn_Write_ok:
  "werr c = [] \<Longrightarrow> conn_Write msg c = (None, c\<lparr>written := written c @ [msg]\<rparr>)"
  by (cases c) (simp add: conn_Write_def write_answer_def)

lemma conn_Write_None:
  "write_answer c = None \<Longrightarrow>
     conn_Write msg c = (None, c\<lparr>werr := tl (werr c), written := written c @ [msg]\<rparr>)"
  by (simp add: conn_Write_def)

text \<open>\<open>if err != nil { return err }\<close> between two reads.\<close>

definition io_bind :: "(conn \<Rightarrow> (go_error + 'a) \<times> conn) \<Rightarrow>
    ('a \<Rightarrow> conn \<Rightarrow> (go_error + 'b) \<times> conn) \<Rightarrow> conn \<Rightarrow> (go_error + 'b) \<times> conn" where
  "io_bind m k c = (case m c of (Inl e, c') \<Rightarrow> (Inl e, c') | (Inr x, c') \<Rightarrow> k x c')"

definition io_return :: "'a \<Rightarrow> conn \<Rightarrow> (go_error + 'a) \<times> conn" where
  "io_return x c = (Inr x, c)"

definition io_fail :: "go_error \<Rightarrow> conn \<Rightarrow> (go_error + 'a) \<times> conn" where
  "io_fail e c = (Inl e, c)"

lemmas io_defs = io_bind_def io_return_def io_fail_def

section \<open>Constants\<close>

definition socks5Version :: byte where "socks5Version = 5"

definition UserPassAuth :: byte where "UserPassAuth = 2"

definition UserAuthVersion :: byte where "UserAuthVersion = 1"

definition AuthSuccess :: byte where "AuthSuccess = 0"

definition AuthFailure :: byte where "AuthFailure = 1"

definition ipv4Address :: byte where "ipv4Address = 1"

definition fqdnAddress :: byte where "fqdnAddress = 3"

definition ipv6Address :: byte where "ipv6Address = 4"

definition SuccessReply :: byte where "SuccessReply = 0"

definition NetworkUnreachable :: byte where "NetworkUnreachable = 3"

definition HostUnreachable :: byte where "HostUnreachable = 4"

definition ConnectionRefused :: byte where "ConnectionRefused = 5"

definition AddrTypeNotSupported :: byte where "AddrTypeNotSupported = 8"

definition UnrecognizedAddrType :: go_error where
  "UnrecognizedAddrType = Errorf ''unrecognized address type''"

lemmas socks_consts = socks5Version_def UserPassAuth_def UserAuthVersion_def AuthSuccess_def
  AuthFailure_def ipv4Address_def fqdnAddress_def ipv6Address_def SuccessReply_def
  NetworkUnreachable_def HostUnreachable_def ConnectionRefused_def AddrTypeNotSupported_def

section \<open>Addresses\<close>

text \<open>\<open>IP\<close> is the byte slice \<open>net.IP\<close>; the empty list is nil.\<close>

record AddrSpec =
  FQDN :: string
  IP :: "byte list"
  Port :: int

definition v4InV6Prefix :: "byte list" where
  "v4InV6Prefix = replicate 10 0 @ [255, 255]"

definition To4 :: "byte list \<Rightarrow> byte list option" where
  "To4 ip = (if length ip = 4 then Some ip
     else if length ip = 16 \<and> take 12 ip = v4InV6Prefix then Some (drop 12 ip) else None)"

definition To16 :: "byte list \<Rightarrow> byte list option" where
  "To16 ip = (if length ip = 4 then Some (v4InV6Prefix @ ip)
     else if length ip = 16 then Some ip else None)"

definition port_bytes :: "int \<Rightarrow> byte list" where
  "port_bytes port = (let p = word_of_int port :: u16
     in [ucast (drop_bit 8 p), ucast (p AND 255)])"

definition port_of_bytes :: "byte \<Rightarrow> byte \<Rightarrow> int" where
  "port_of_bytes hi lo = push_bit 8 (uint hi) OR uint lo"

section \<open>Reading\<close>

definition ReadVersion :: "conn \<Rightarrow> (go_error + byte) \<times> conn" where
  "ReadVersion = io_bind Read1 (\<lambda>version.
     if version \<noteq> socks5Version then io_fail (Errorf ''unsupported SOCKS version'')
     else io_return version)"

definition ReadMethods :: "conn \<Rightarrow> (go_error + byte list) \<times> conn" where
  "ReadMethods = io_bind Read1 (\<lambda>header. ReadAtLeast (unat header))"

definition ReadAddrSpec :: "conn \<Rightarrow> (go_error + AddrSpec) \<times> conn" where
  "ReadAddrSpec = io_bind Read1 (\<lambda>addrType.
     io_bind
       (if addrType = ipv4Address then
          io_bind (ReadAtLeast 4) (\<lambda>addr. io_return ([], addr))
        else if addrType = ipv6Address then
          io_bind (ReadAtLeast 16) (\<lambda>addr. io_return ([], addr))
        else if addrType = fqdnAddress then
          io_bind Read1 (\<lambda>addrLen.
          io_bind (ReadAtLeast (unat addrLen)) (\<lambda>fqdn. io_return (string_of fqdn, [])))
        else io_fail UnrecognizedAddrType)
     (\<lambda>(fqdn, ip).
     io_bind (ReadAtLeast 2) (\<lambda>port.
       io_return \<lparr>FQDN = fqdn, IP = ip, Port = port_of_bytes (port ! 0) (port ! 1)\<rparr>)))"

definition ReadDestAddr :: "conn \<Rightarrow> (go_error + AddrSpec) \<times> conn" where
  "ReadDestAddr c = (case ReadAtLeast 3 c of
     (Inl _, c') \<Rightarrow> (Inl (Errorf ''cannot read the command version''), c')
   | (Inr header, c') \<Rightarrow>
       if header ! 0 \<noteq> socks5Version then (Inl (Errorf ''unsupported command version''), c')
       else ReadAddrSpec c')"

definition GetUserPassword :: "conn \<Rightarrow> (go_error + string \<times> string) \<times> conn" where
  "GetUserPassword c = (case conn_Write [socks5Version, UserPassAuth] c of
     (Some e, c') \<Rightarrow> (Inl e, c')
   | (None, c') \<Rightarrow>
       io_bind (ReadAtLeast 2) (\<lambda>header.
       if header ! 0 \<noteq> UserAuthVersion then io_fail (Errorf ''unsupported authentication version'')
       else io_bind (ReadAtLeast (unat (header ! 1))) (\<lambda>user.
            io_bind Read1 (\<lambda>passLen.
            io_bind (ReadAtLeast (unat passLen)) (\<lambda>pass.
              io_return (string_of user, string_of pass))))) c')"

section \<open>Replies\<close>

text \<open>The type, body and port of a reply; \<open>None\<close> is the address that cannot be formatted.\<close>

definition reply_addr :: "AddrSpec option \<Rightarrow> (byte \<times> byte list \<times> int) option" where
  "reply_addr addr = (case addr of
     None \<Rightarrow> Some (ipv4Address, [0, 0, 0, 0], 0)
   | Some a \<Rightarrow>
       if FQDN a \<noteq> [] then
         Some (fqdnAddress, word_of_nat (length (FQDN a)) # bytes_of (FQDN a), Port a)
       else case To4 (IP a) of
         Some ip4 \<Rightarrow> Some (ipv4Address, ip4, Port a)
       | None \<Rightarrow> (case To16 (IP a) of
           Some ip16 \<Rightarrow> Some (ipv6Address, ip16, Port a)
         | None \<Rightarrow> None))"

definition SendReply :: "byte \<Rightarrow> AddrSpec option \<Rightarrow> conn \<Rightarrow> go_error option \<times> conn" where
  "SendReply resp addr c = (case reply_addr addr of
     None \<Rightarrow> (Some (Errorf ''cannot format the address''), c)
   | Some (addrType, addrBody, addrPort) \<Rightarrow>
       conn_Write ([socks5Version, resp, 0, addrType] @ addrBody @ port_bytes addrPort) c)"

section \<open>Text form\<close>

definition hex_digit :: "nat \<Rightarrow> char" where
  "hex_digit d = (if d < 10 then char_of (48 + d) else char_of (87 + d))"

fun hexadecimal :: "nat \<Rightarrow> string" where
  "hexadecimal n = (if n < 16 then [hex_digit n] else hexadecimal (n div 16) @ [hex_digit (n mod 16)])"

declare hexadecimal.simps [simp del]

fun join_dots :: "string list \<Rightarrow> string" where
  "join_dots [] = []"
| "join_dots [x] = x"
| "join_dots (x # xs) = x @ CHR ''.'' # join_dots xs"

definition ip4_string :: "byte list \<Rightarrow> string" where
  "ip4_string ip = join_dots (map (decimal \<circ> unat) ip)"

text \<open>
  An IPv6 address: eight groups in hexadecimal; the first longest run of at least two zero
  groups is written as two colons.
\<close>

fun groups :: "byte list \<Rightarrow> nat list" where
  "groups (a # b # bs) = (unat a * 256 + unat b) # groups bs"
| "groups _ = []"

definition zero_run :: "nat list \<Rightarrow> nat \<Rightarrow> nat" where
  "zero_run gs i = length (takeWhile (\<lambda>g. g = 0) (drop i gs))"

definition longest_zeros :: "nat list \<Rightarrow> nat \<times> nat" where
  "longest_zeros gs = foldl (\<lambda>(s, l) i. let r = zero_run gs i
      in if 2 \<le> r \<and> l < r then (i, r) else (s, l)) (255, 0) [0..<length gs]"

fun colon_groups :: "nat list \<Rightarrow> string" where
  "colon_groups [] = []"
| "colon_groups [g] = hexadecimal g"
| "colon_groups (g # gs) = hexadecimal g @ CHR '':'' # colon_groups gs"

definition ip6_string :: "byte list \<Rightarrow> string" where
  "ip6_string ip = (let gs = groups ip; (s, l) = longest_zeros gs
     in if l = 0 then colon_groups gs
        else colon_groups (take s gs) @ ''::'' @ colon_groups (drop (s + l) gs))"

text \<open>\<open>net.IP.String\<close>\<close>

definition IP_String :: "byte list \<Rightarrow> string" where
  "IP_String ip =
    (if ip = [] then ''<nil>''
     else case To4 ip of Some ip4 \<Rightarrow> ip4_string ip4
     | None \<Rightarrow> if length ip = 16 then ip6_string ip
               else CHR ''?'' # concat (map (\<lambda>b. [hex_digit (unat b div 16), hex_digit (unat b mod 16)]) ip))"

text \<open>\<open>net.JoinHostPort\<close>\<close>

definition JoinHostPort :: "string \<Rightarrow> string \<Rightarrow> string" where
  "JoinHostPort host port =
    (if CHR '':'' \<in> set host then ''['' @ host @ '']:'' @ port else host @ '':'' @ port)"

definition AddrSpec_Address :: "AddrSpec \<Rightarrow> string" where
  "AddrSpec_Address a =
    (if IP a \<noteq> [] then JoinHostPort (IP_String (IP a)) (Itoa (Port a))
     else JoinHostPort (FQDN a) (Itoa (Port a)))"

definition AddrSpec_String :: "AddrSpec \<Rightarrow> string" where
  "AddrSpec_String a =
    (if FQDN a \<noteq> [] then FQDN a @ '' ('' @ IP_String (IP a) @ ''):'' @ Itoa (Port a)
     else IP_String (IP a) @ '':'' @ Itoa (Port a))"

section \<open>Ports and lengths\<close>

lemma port_of_bytes_sum: "port_of_bytes hi lo = uint hi * 256 + uint lo"
proof -
  have "uint lo = take_bit 8 (uint lo)"
    using uint_lt2p [of lo] by (simp add: take_bit_int_eq_self)
  then have "port_of_bytes hi lo = concat_bit 8 (uint lo) (uint hi)"
    by (simp add: port_of_bytes_def concat_bit_def or.commute)
  also have "\<dots> = take_bit 8 (uint lo) + push_bit 8 (uint hi)"
    by (rule concat_bit_eq)
  finally show ?thesis
    using \<open>uint lo = take_bit 8 (uint lo)\<close> by (simp add: push_bit_eq_mult)
qed

lemma port_bytes_length [simp]: "length (port_bytes p) = 2"
  by (simp add: port_bytes_def Let_def)

lemma port_roundtrip:
  assumes "0 \<le> p" and "p < 65536"
  shows "port_of_bytes (port_bytes p ! 0) (port_bytes p ! 1) = p"
proof -
  let ?w = "word_of_int p :: u16"
  have u: "uint ?w = p" using assms by (simp add: uint_word_of_int)
  have hi: "uint (ucast (drop_bit 8 ?w) :: byte) = p div 256"
    using assms by (simp add: unsigned_ucast_eq uint_div u drop_bit_eq_div take_bit_eq_mod)
  have "?w AND 255 = take_bit 8 ?w" by (simp add: take_bit_eq_mask mask_eq_exp_minus_1)
  then have lo: "uint (ucast (?w AND 255) :: byte) = p mod 256"
    by (simp add: unsigned_ucast_eq uint_mod u take_bit_eq_mod)
  show ?thesis by (simp add: port_of_bytes_sum port_bytes_def Let_def hi lo)
qed

lemma port_range: "0 \<le> port_of_bytes hi lo \<and> port_of_bytes hi lo < 65536"
proof -
  have "0 \<le> uint hi" "uint hi < 256" "0 \<le> uint lo" "uint lo < 256"
    using uint_lt2p [of hi] uint_lt2p [of lo] by simp_all
  then show ?thesis by (simp add: port_of_bytes_sum)
qed

section \<open>What the readers accept\<close>

lemma ReadAtLeast_Inr:
  "ReadAtLeast n c = (Inr xs, c') \<longleftrightarrow>
     length xs = n \<and> inbuf c = xs @ inbuf c' \<and> c' = c\<lparr>inbuf := inbuf c'\<rparr>"
proof
  assume "ReadAtLeast n c = (Inr xs, c')"
  then show "length xs = n \<and> inbuf c = xs @ inbuf c' \<and> c' = c\<lparr>inbuf := inbuf c'\<rparr>"
    by (auto simp: ReadAtLeast_def split: if_splits)
next
  assume a: "length xs = n \<and> inbuf c = xs @ inbuf c' \<and> c' = c\<lparr>inbuf := inbuf c'\<rparr>"
  then have "n \<le> length (inbuf c)" "take n (inbuf c) = xs" "drop n (inbuf c) = inbuf c'" by auto
  with a show "ReadAtLeast n c = (Inr xs, c')" by (simp add: ReadAtLeast_def)
qed

lemma Read1_Inr:
  "Read1 c = (Inr b, c') \<longleftrightarrow> inbuf c = b # inbuf c' \<and> c' = c\<lparr>inbuf := inbuf c'\<rparr>"
  by (auto simp: Read1_def split: list.splits)

lemma io_bind_Inr:
  "io_bind m k c = (Inr y, c') \<longleftrightarrow> (\<exists>x c1. m c = (Inr x, c1) \<and> k x c1 = (Inr y, c'))"
  by (auto simp: io_bind_def split: prod.splits sum.splits)

lemma io_return_Inr: "io_return x c = (Inr y, c') \<longleftrightarrow> y = x \<and> c' = c"
  by (auto simp: io_return_def)

lemma io_fail_Inr: "io_fail e c \<noteq> (Inr y, c')"
  by (simp add: io_fail_def)

lemmas io_Inr = ReadAtLeast_Inr Read1_Inr io_bind_Inr io_return_Inr io_fail_Inr

text \<open>The authentication message of a client.\<close>

definition auth_msg :: "string \<Rightarrow> string \<Rightarrow> byte list" where
  "auth_msg u p = [UserAuthVersion, word_of_nat (length u)] @ bytes_of u @
     word_of_nat (length p) # bytes_of p"

lemma len_byte: "length xs = unat (b :: byte) \<Longrightarrow> length xs \<le> 255 \<and> word_of_nat (length xs) = b"
  using unsigned_less [of b, where ?'a = nat] by auto

lemma unat_len_byte: "n \<le> 255 \<Longrightarrow> unat (word_of_nat n :: byte) = n"
  by (simp add: unat_of_nat)

lemma two_bytes: "length (xs :: 'a list) = 2 \<longleftrightarrow> xs = [xs ! 0, xs ! 1]"
  by (cases xs; cases "tl xs") auto

lemma GetUserPassword_iff:
  "GetUserPassword c = (Inr (u, p), c') \<longleftrightarrow>
     write_answer c = None \<and> length u \<le> 255 \<and> length p \<le> 255 \<and>
     inbuf c = auth_msg u p @ inbuf c' \<and>
     c' = c\<lparr>inbuf := inbuf c', werr := tl (werr c), written := written c @ [[socks5Version, UserPassAuth]]\<rparr>"
  (is "?l \<longleftrightarrow> ?r")
proof
  assume l: ?l
  then have w: "write_answer c = None" by (auto simp: GetUserPassword_def conn_Write_def split: option.splits)
  from l w obtain hd c1 us c2 pl c3 ps where
    r: "ReadAtLeast 2 (c\<lparr>werr := tl (werr c), written := written c @ [[socks5Version, UserPassAuth]]\<rparr>) = (Inr hd, c1)"
      "ReadAtLeast (unat (hd ! 1)) c1 = (Inr us, c2)" "Read1 c2 = (Inr pl, c3)"
      "ReadAtLeast (unat pl) c3 = (Inr ps, c')"
    and hd0: "hd ! 0 = UserAuthVersion" and up: "u = string_of us" "p = string_of ps"
    by (auto simp: GetUserPassword_def conn_Write_def io_bind_Inr io_return_Inr io_fail_Inr
      split: if_splits)
  note r = r [unfolded ReadAtLeast_Inr Read1_Inr]
  have h: "length hd = 2" "length us = unat (hd ! 1)" "length ps = unat pl" using r by simp_all
  have b: "inbuf c = hd @ us @ pl # ps @ inbuf c'" using r by simp
  have "c1 = c\<lparr>werr := tl (werr c), written := written c @ [[socks5Version, UserPassAuth]], inbuf := inbuf c1\<rparr>"
    "c2 = c1\<lparr>inbuf := inbuf c2\<rparr>" "c3 = c2\<lparr>inbuf := inbuf c3\<rparr>" "c' = c3\<lparr>inbuf := inbuf c'\<rparr>"
    using r by simp_all
  then have c': "c' = c\<lparr>inbuf := inbuf c', werr := tl (werr c), written := written c @ [[socks5Version, UserPassAuth]]\<rparr>"
    by (cases c; cases c1; cases c2; cases c3; cases c') simp
  have "hd = [UserAuthVersion, word_of_nat (length us)]"
    using h hd0 len_byte [OF h(2)] two_bytes [of hd] by simp
  then have "inbuf c = auth_msg u p @ inbuf c'"
    using b up len_byte [OF h(3)] by (simp add: auth_msg_def)
  with w c' up len_byte [OF h(2)] len_byte [OF h(3)] show ?r by simp
next
  assume r: ?r
  let ?c1 = "c\<lparr>werr := tl (werr c), written := written c @ [[socks5Version, UserPassAuth]]\<rparr>"
  let ?c2 = "?c1\<lparr>inbuf := bytes_of u @ word_of_nat (length p) # bytes_of p @ inbuf c'\<rparr>"
  let ?c3 = "?c1\<lparr>inbuf := word_of_nat (length p) # bytes_of p @ inbuf c'\<rparr>"
  let ?c4 = "?c1\<lparr>inbuf := bytes_of p @ inbuf c'\<rparr>"
  have "ReadAtLeast 2 ?c1 = (Inr [UserAuthVersion, word_of_nat (length u)], ?c2)"
    using r by (simp add: ReadAtLeast_Inr auth_msg_def)
  moreover have "ReadAtLeast (unat (word_of_nat (length u) :: byte)) ?c2 = (Inr (bytes_of u), ?c3)"
    using r by (simp add: ReadAtLeast_Inr unat_len_byte)
  moreover have "Read1 ?c3 = (Inr (word_of_nat (length p)), ?c4)" by (simp add: Read1_Inr)
  moreover have "ReadAtLeast (unat (word_of_nat (length p) :: byte)) ?c4 = (Inr (bytes_of p), ?c1\<lparr>inbuf := inbuf c'\<rparr>)"
    using r by (simp add: ReadAtLeast_Inr unat_len_byte)
  moreover have "c' = ?c1\<lparr>inbuf := inbuf c'\<rparr>"
    using r [THEN conjunct2, THEN conjunct2, THEN conjunct2, THEN conjunct2]
    by (cases c; cases c') simp
  ultimately show ?l
    using r by (simp add: GetUserPassword_def conn_Write_def io_bind_def io_return_def)
qed

lemma ReadAtLeast_exact:
  "length xs = n \<Longrightarrow> inbuf c = xs @ ys \<Longrightarrow> ReadAtLeast n c = (Inr xs, c\<lparr>inbuf := ys\<rparr>)"
  by (auto simp: ReadAtLeast_Inr)

text \<open>The address a peer reads from a reply: an IPv4 address in either form is four bytes.\<close>

definition wire_addr :: "AddrSpec \<Rightarrow> AddrSpec" where
  "wire_addr a = (if FQDN a \<noteq> [] then a\<lparr>IP := []\<rparr>
     else a\<lparr>IP := (case To4 (IP a) of Some ip4 \<Rightarrow> ip4 | None \<Rightarrow> IP a)\<rparr>)"

lemma To4_length: "To4 ip = Some ip4 \<Longrightarrow> length ip4 = 4"
  by (auto simp: To4_def split: if_splits)

lemma To16_no_To4: "To4 ip = None \<Longrightarrow> To16 ip = Some ip16 \<Longrightarrow> ip16 = ip \<and> length ip = 16"
  by (auto simp: To4_def To16_def split: if_splits)

lemma ReadAddrSpec_ipv4:
  assumes "length ip = 4" and "0 \<le> p" and "p < 65536"
    and "inbuf c = ipv4Address # ip @ port_bytes p @ rest"
  shows "ReadAddrSpec c = (Inr \<lparr>FQDN = [], IP = ip, Port = p\<rparr>, c\<lparr>inbuf := rest\<rparr>)"
  using assms port_roundtrip [of p]
  by (simp add: ReadAddrSpec_def io_bind_def Read1_def io_return_def ReadAtLeast_exact [where xs = ip]
      ReadAtLeast_exact [where xs = "port_bytes p"])

lemma ReadAddrSpec_ipv6:
  assumes "length ip = 16" and "0 \<le> p" and "p < 65536"
    and "inbuf c = ipv6Address # ip @ port_bytes p @ rest"
  shows "ReadAddrSpec c = (Inr \<lparr>FQDN = [], IP = ip, Port = p\<rparr>, c\<lparr>inbuf := rest\<rparr>)"
  using assms port_roundtrip [of p]
  by (simp add: ReadAddrSpec_def io_bind_def Read1_def io_return_def ReadAtLeast_exact [where xs = ip]
      ReadAtLeast_exact [where xs = "port_bytes p"] ipv4Address_def ipv6Address_def)

lemma ReadAddrSpec_fqdn:
  assumes "length d \<le> 255" and "0 \<le> p" and "p < 65536"
    and "inbuf c = fqdnAddress # word_of_nat (length d) # bytes_of d @ port_bytes p @ rest"
  shows "ReadAddrSpec c = (Inr \<lparr>FQDN = d, IP = [], Port = p\<rparr>, c\<lparr>inbuf := rest\<rparr>)"
  using assms port_roundtrip [of p]
  by (simp add: ReadAddrSpec_def io_bind_def Read1_def io_return_def
      ReadAtLeast_exact [where xs = "bytes_of d"] unat_len_byte
      ReadAtLeast_exact [where xs = "port_bytes p"] ipv4Address_def ipv6Address_def fqdnAddress_def)

lemma ReadDestAddr_header:
  "inbuf c = [socks5Version, x, y] @ rest \<Longrightarrow> ReadDestAddr c = ReadAddrSpec (c\<lparr>inbuf := rest\<rparr>)"
  by (simp add: ReadDestAddr_def ReadAtLeast_exact [where xs = "[socks5Version, x, y]"])

text \<open>The destinations a request can carry, and their bytes.\<close>

definition dest_ok :: "AddrSpec \<Rightarrow> bool" where
  "dest_ok a \<longleftrightarrow> 0 \<le> Port a \<and> Port a < 65536 \<and>
     (FQDN a = [] \<and> (length (IP a) = 4 \<or> length (IP a) = 16) \<or> IP a = [] \<and> length (FQDN a) \<le> 255)"

definition dest_bytes :: "AddrSpec \<Rightarrow> byte list" where
  "dest_bytes a = (if length (IP a) = 4 then ipv4Address # IP a
     else if length (IP a) = 16 then ipv6Address # IP a
     else fqdnAddress # word_of_nat (length (FQDN a)) # bytes_of (FQDN a)) @ port_bytes (Port a)"

lemma port_bytes_of: "port_bytes (port_of_bytes hi lo) = [hi, lo]"
proof -
  have lo: "uint lo < 256" and hi: "uint hi < 256"
    using uint_lt2p [of lo] uint_lt2p [of hi] by simp_all
  let ?w = "word_of_int (port_of_bytes hi lo) :: u16"
  have u: "uint ?w = uint hi * 256 + uint lo"
    using port_range [of hi lo] by (simp only: uint_word_of_int) (simp add: port_of_bytes_sum)
  have "uint (ucast (drop_bit 8 ?w) :: byte) = uint hi"
    using lo hi by (simp add: unsigned_ucast_eq uint_div u drop_bit_eq_div take_bit_eq_mod)
  moreover have "?w AND 255 = take_bit 8 ?w" by (simp add: take_bit_eq_mask mask_eq_exp_minus_1)
  then have "uint (ucast (?w AND 255) :: byte) = uint lo"
    using lo hi by (simp add: unsigned_ucast_eq uint_mod u take_bit_eq_mod)
  ultimately show ?thesis by (simp add: port_bytes_def Let_def word_uint_eq_iff)
qed

lemma two_port_bytes: "length ps = 2 \<Longrightarrow> ps = port_bytes (port_of_bytes (ps ! 0) (ps ! 1))"
  using two_bytes [of ps] by (simp add: port_bytes_of)

lemma ReadAddrSpec_Inr:
  assumes "ReadAddrSpec c = (Inr a, c')"
  shows "dest_ok a \<and> inbuf c = dest_bytes a @ inbuf c' \<and> c' = c\<lparr>inbuf := inbuf c'\<rparr>"
proof -
  from assms obtain t c1 d ip c2 ps where t: "Read1 c = (Inr t, c1)"
    and b: "(if t = ipv4Address then io_bind (ReadAtLeast 4) (\<lambda>addr. io_return ([], addr))
        else if t = ipv6Address then io_bind (ReadAtLeast 16) (\<lambda>addr. io_return ([], addr))
        else if t = fqdnAddress then io_bind Read1 (\<lambda>addrLen.
          io_bind (ReadAtLeast (unat addrLen)) (\<lambda>fqdn. io_return (string_of fqdn, [])))
        else io_fail UnrecognizedAddrType) c1 = (Inr (d, ip), c2)"
    and p: "ReadAtLeast 2 c2 = (Inr ps, c')"
    and a0: "a = \<lparr>FQDN = d, IP = ip, Port = port_of_bytes (ps ! 0) (ps ! 1)\<rparr>"
    by (auto simp: ReadAddrSpec_def io_bind_Inr io_return_Inr)
  define P where "P = port_of_bytes (ps ! 0) (ps ! 1)"
  have a: "a = \<lparr>FQDN = d, IP = ip, Port = P\<rparr>" by (simp add: a0 P_def)
  have ps: "ps = port_bytes P" "inbuf c2 = ps @ inbuf c'" "c' = c2\<lparr>inbuf := inbuf c'\<rparr>"
    and c: "inbuf c = t # inbuf c1" "c1 = c\<lparr>inbuf := inbuf c1\<rparr>"
    using p t two_port_bytes [of ps] by (simp_all add: ReadAtLeast_Inr Read1_Inr P_def)
  have pr: "0 \<le> P" "P < 65536" using port_range by (simp_all add: P_def)
  have eq: "c' = c\<lparr>inbuf := inbuf c'\<rparr>" if "c2 = c1\<lparr>inbuf := inbuf c2\<rparr>"
    using ps(3) c(2) that by (cases c; cases c1; cases c2; cases c') simp
  consider (v4) "t = ipv4Address" "ReadAtLeast 4 c1 = (Inr ip, c2)" "d = []"
    | (v6) "t = ipv6Address" "ReadAtLeast 16 c1 = (Inr ip, c2)" "d = []"
    | (name) l c3 f where "t = fqdnAddress" "Read1 c1 = (Inr l, c3)"
      "ReadAtLeast (unat l) c3 = (Inr f, c2)" "d = string_of f" "ip = []"
    using b by (auto simp: io_bind_Inr io_return_Inr io_fail_Inr split: if_splits)
  then show ?thesis
  proof cases
    case v4
    note i = v4(2) [unfolded ReadAtLeast_Inr]
    have "dest_ok a" "inbuf c = dest_bytes a @ inbuf c'"
      using v4(1,3) i [THEN conjunct1] i [THEN conjunct2, THEN conjunct1] c(1) ps(1,2) pr
      by (simp_all add: dest_ok_def dest_bytes_def a)
    with eq i show ?thesis by blast
  next
    case v6
    note i = v6(2) [unfolded ReadAtLeast_Inr]
    have "dest_ok a" "inbuf c = dest_bytes a @ inbuf c'"
      using v6(1,3) i [THEN conjunct1] i [THEN conjunct2, THEN conjunct1] c(1) ps(1,2) pr
      by (simp_all add: dest_ok_def dest_bytes_def a)
    with eq i show ?thesis by blast
  next
    case name
    note i = name(2) [unfolded Read1_Inr] and j = name(3) [unfolded ReadAtLeast_Inr]
    have "c2 = c1\<lparr>inbuf := inbuf c2\<rparr>"
      using i [THEN conjunct2] j by (cases c1; cases c2; cases c3) simp
    moreover have "dest_ok a" "inbuf c = dest_bytes a @ inbuf c'"
      using name(1,4,5) i [THEN conjunct1] j [THEN conjunct1] j [THEN conjunct2, THEN conjunct1]
        c(1) ps(1,2) pr len_byte [of f l]
      by (simp_all add: dest_ok_def dest_bytes_def a)
    ultimately show ?thesis using eq by blast
  qed
qed

lemma ReadAddrSpec_dest:
  assumes "dest_ok a" and "inbuf c = dest_bytes a @ rest"
  shows "ReadAddrSpec c = (Inr a, c\<lparr>inbuf := rest\<rparr>)"
proof -
  obtain d ip p where a: "a = \<lparr>FQDN = d, IP = ip, Port = p\<rparr>" by (cases a) simp
  consider "length ip = 4" "d = []" | "length ip = 16" "d = []" | "ip = []" "length d \<le> 255"
    using assms(1) by (auto simp: dest_ok_def a)
  then show ?thesis
    using assms
    by cases (simp_all add: a dest_ok_def dest_bytes_def ReadAddrSpec_ipv4 ReadAddrSpec_ipv6
      ReadAddrSpec_fqdn)
qed

lemma three_bytes: "length (xs :: 'a list) = 3 \<longleftrightarrow> xs = [xs ! 0, xs ! 1, xs ! 2]"
  by (cases xs; cases "tl xs"; cases "tl (tl xs)") auto

lemma ReadDestAddr_iff:
  "ReadDestAddr c = (Inr a, c') \<longleftrightarrow>
     dest_ok a \<and> c' = c\<lparr>inbuf := inbuf c'\<rparr> \<and>
     (\<exists>cmd rsv. inbuf c = [socks5Version, cmd, rsv] @ dest_bytes a @ inbuf c')"
  (is "?l \<longleftrightarrow> ?r")
proof
  assume ?l
  then obtain h c1 where h: "ReadAtLeast 3 c = (Inr h, c1)" "h ! 0 = socks5Version"
    and r: "ReadAddrSpec c1 = (Inr a, c')"
    by (auto simp: ReadDestAddr_def split: prod.splits sum.splits if_splits)
  from h(1) have h1: "length h = 3" "inbuf c = h @ inbuf c1" "c1 = c\<lparr>inbuf := inbuf c1\<rparr>"
    by (simp_all add: ReadAtLeast_Inr)
  have h3: "h = [socks5Version, h ! 1, h ! 2]" using h1(1) h(2) three_bytes [of h] by simp
  note r = ReadAddrSpec_Inr [OF r]
  have "c' = c\<lparr>inbuf := inbuf c'\<rparr>" using h1(3) r by (cases c; cases c1; cases c') simp
  moreover have "inbuf c = [socks5Version, h ! 1, h ! 2] @ dest_bytes a @ inbuf c'"
    using h1(2) h3 r by simp
  ultimately show ?r using r by blast
next
  assume r: ?r
  then obtain cmd rsv where i: "inbuf c = [socks5Version, cmd, rsv] @ dest_bytes a @ inbuf c'" by blast
  have "ReadDestAddr c = (Inr a, c\<lparr>inbuf := inbuf c'\<rparr>)"
    unfolding ReadDestAddr_header [OF i] using r
    by (subst ReadAddrSpec_dest [where rest = "inbuf c'"]) simp_all
  moreover have "c\<lparr>inbuf := inbuf c'\<rparr> = c'" using r by (metis (lifting))
  ultimately show ?l by simp
qed

text \<open>Reading writes nothing.\<close>

lemma written_io [simp]:
  "written (snd (ReadAtLeast n c)) = written c"
  "written (snd (Read1 c)) = written c"
  "written (snd (io_return x c)) = written c"
  "written (snd (io_fail e c)) = written c"
  by (simp_all add: ReadAtLeast_def Read1_def io_return_def io_fail_def split: list.split)

lemma written_io_bind:
  assumes "\<And>c. written (snd (m c)) = written c" and "\<And>x c. written (snd (k x c)) = written c"
  shows "written (snd (io_bind m k c)) = written c"
  using assms(1) [of c] assms(2) by (auto simp: io_bind_def split: prod.split sum.split)

lemma written_ReadAddrSpec: "written (snd (ReadAddrSpec c)) = written c"
  unfolding ReadAddrSpec_def by (intro written_io_bind) (auto intro!: written_io_bind split: prod.split)

lemma written_ReadDestAddr: "written (snd (ReadDestAddr c)) = written c"
  using written_io(1) [of 3 c]
  by (auto simp: ReadDestAddr_def written_ReadAddrSpec simp del: written_io(1) split: prod.split sum.split)

lemma written_GetUserPassword:
  "written (snd (GetUserPassword c)) =
     written c @ (if write_answer c = None then [[socks5Version, UserPassAuth]] else [])"
proof (cases "write_answer c")
  case (Some e)
  then show ?thesis by (simp add: GetUserPassword_def conn_Write_def)
next
  case None
  let ?c = "c\<lparr>werr := tl (werr c), written := written c @ [[socks5Version, UserPassAuth]]\<rparr>"
  have "written (snd (GetUserPassword c)) = written ?c"
    unfolding GetUserPassword_def conn_Write_None [OF None] option.case prod.case
    by (intro written_io_bind) (auto intro!: written_io_bind)
  then show ?thesis by (simp add: None)
qed

section \<open>Properties\<close>

text \<open>C30: \<open>GetUserPassword\<close> accepts exactly the well-formed RFC 1929 messages: it returns
  \<open>(u, p)\<close> if and only if the client's bytes begin with version 1, the length-prefixed user and
  the length-prefixed password, and consumes exactly those bytes; a truncated message or another
  version is never an authentication. Whatever the client sends, the only thing written is the
  choice of the method.\<close>

theorem socks_auth_exact:
  "(GetUserPassword c = (Inr (u, p), c') \<longleftrightarrow>
     write_answer c = None \<and> length u \<le> 255 \<and> length p \<le> 255 \<and>
     inbuf c = auth_msg u p @ inbuf c' \<and>
     c' = c\<lparr>inbuf := inbuf c', werr := tl (werr c), written := written c @ [[socks5Version, UserPassAuth]]\<rparr>) \<and>
   written (snd (GetUserPassword c)) =
     written c @ (if write_answer c = None then [[socks5Version, UserPassAuth]] else [])"
  by (simp only: GetUserPassword_iff written_GetUserPassword simp_thms)

text \<open>C31: \<open>ReadDestAddr\<close> accepts exactly the SOCKS5 requests for an IPv4, IPv6 or domain
  destination, whatever their command byte (CONNECT, BIND and ASSOCIATE are not told apart), yields
  the destination the request carries with its port in network order, consumes exactly the
  request's bytes and writes nothing.\<close>

theorem socks_request_exact:
  "(ReadDestAddr c = (Inr a, c') \<longleftrightarrow>
     dest_ok a \<and> c' = c\<lparr>inbuf := inbuf c'\<rparr> \<and>
     (\<exists>cmd rsv. inbuf c = [socks5Version, cmd, rsv] @ dest_bytes a @ inbuf c')) \<and>
   written (snd (ReadDestAddr c)) = written c"
  by (simp only: ReadDestAddr_iff written_ReadDestAddr simp_thms)

text \<open>C36: Reply and address round trip: a reply for a formattable address is one write of at most
  262 bytes that carries the reply code, and a peer that parses its address with
  \<open>ReadDestAddr\<close> gets back the name and port, or the IP (in the four-byte form where there is
  one) and port, and is left with exactly the bytes that follow.\<close>

theorem socks_reply_roundtrip:
  assumes "write_answer s = None" and "length (FQDN a) \<le> 255" and "0 \<le> Port a" and "Port a < 65536"
    and "FQDN a \<noteq> [] \<or> length (IP a) = 4 \<or> length (IP a) = 16"
  shows "\<exists>msg. SendReply resp (Some a) s = (None, s\<lparr>werr := tl (werr s), written := written s @ [msg]\<rparr>) \<and>
     length msg \<le> 262 \<and> msg ! 1 = resp \<and>
     (\<forall>c rest. inbuf c = msg @ rest \<longrightarrow> ReadDestAddr c = (Inr (wire_addr a), c\<lparr>inbuf := rest\<rparr>))"
proof -
  obtain d ip p where a: "a = \<lparr>FQDN = d, IP = ip, Port = p\<rparr>" by (cases a) simp
  consider (name) "d \<noteq> []" | (v4) ip4 where "d = []" "To4 ip = Some ip4"
    | (v6) "d = []" "To4 ip = None" "To16 ip = Some ip" "length ip = 16"
    using assms(5) by (cases "To4 ip") (auto simp: a To16_def To4_def split: if_splits)
  then show ?thesis
  proof cases
    case name
    then show ?thesis using assms
      by (auto simp: SendReply_def reply_addr_def conn_Write_None a wire_addr_def
          ReadDestAddr_header ReadAddrSpec_fqdn)
  next
    case v4
    then show ?thesis using assms To4_length [of ip ip4]
      by (auto simp: SendReply_def reply_addr_def conn_Write_None a wire_addr_def
          ReadDestAddr_header ReadAddrSpec_ipv4)
  next
    case v6
    then show ?thesis using assms
      by (auto simp: SendReply_def reply_addr_def conn_Write_None a wire_addr_def
          ReadDestAddr_header ReadAddrSpec_ipv6)
  qed
qed


theorem socks_reply_roundtrip_witness:
  "\<exists>msg. SendReply SuccessReply (Some \<lparr>FQDN = [], IP = [10, 0, 0, 1], Port = 1080\<rparr>)
       \<lparr>inbuf = [], inend = EOF, written = [], werr = []\<rparr> =
       (None, \<lparr>inbuf = [], inend = EOF, written = [msg], werr = []\<rparr>) \<and>
     length msg \<le> 262 \<and> msg ! 1 = SuccessReply \<and>
     (\<forall>c rest. inbuf c = msg @ rest \<longrightarrow> ReadDestAddr c =
        (Inr \<lparr>FQDN = [], IP = [10, 0, 0, 1], Port = 1080\<rparr>, c\<lparr>inbuf := rest\<rparr>))"
  using socks_reply_roundtrip [of "\<lparr>inbuf = [], inend = EOF, written = [], werr = []\<rparr>"
      "\<lparr>FQDN = [], IP = [10, 0, 0, 1], Port = 1080\<rparr>" SuccessReply]
  by (simp add: wire_addr_def To4_def write_answer_def)

end
