(* ===== verification/Manager.thy ===== *)
theory Manager
  imports ConcurrentMap FlowLimit
begin

text \<open>
  The connection bookkeeping of \<^verbatim>\<open>server/manager.go\<close>: the number of live connections of every
  listening address (\<open>AddIpConnCount\<close>, \<open>ReduceIpConnCount\<close>), the shared context of the
  connections of one user on one address (\<open>addUserConnection\<close>, \<open>deleteUserConnection\<close>,
  \<open>CloseUserConnections\<close>), the consumers that close them
  (\<^verbatim>\<open>server/rabbitmq_disconnect_consume.go\<close>, \<^verbatim>\<open>server/rabbitmq_delUserData_consume.go\<close>) and
  the live configuration of \<^verbatim>\<open>server/nacos_config.go\<close>.
\<close>

section \<open>State\<close>

text \<open>
  The manager keeps its entries in two concurrent maps of a package the repository imports. That
  package is a parameter: its operations are an argument of the definitions, and what the code
  relies on is the contract \<open>concurrent_map\<close>. The maps hold pointers; a callback runs under
  the lock of its key and changes the heap.
\<close>

record ('m, 's) cmap_api =
  api_Upsert :: "'m \<Rightarrow> string \<Rightarrow> ptr \<Rightarrow> (bool \<Rightarrow> ptr \<Rightarrow> ptr \<Rightarrow> 's \<Rightarrow> ptr \<times> 's) \<Rightarrow> 's \<Rightarrow>
    ((ptr \<times> 's) \<times> 'm) option"
  api_RemoveCb :: "'m \<Rightarrow> string \<Rightarrow> (string \<Rightarrow> ptr \<Rightarrow> bool \<Rightarrow> 's \<Rightarrow> bool \<times> 's) \<Rightarrow> 's \<Rightarrow>
    ((bool \<times> 's) \<times> 'm) option"
  api_Pop :: "'m \<Rightarrow> string \<Rightarrow> ((ptr \<times> bool) \<times> 'm) option"
  api_Iter :: "nat list \<Rightarrow> 'm \<Rightarrow> (string \<times> ptr) list option"

text \<open>The configuration of \<open>NacosConfig\<close>.\<close>

record NacosConfig =
  LimitedReader_ReadRate :: int
  LimitedReader_ReadBurst :: int
  OneIpMaxConn :: int

text \<open>
  A \<open>connContext\<close>: whether \<open>cancel\<close> has been called on its \<open>ctx\<close>, the number of its
  connections, and the traffic budget they share.
\<close>

record connContext =
  ctx_cancelled :: bool
  conn_count :: u64
  conn_action :: action

record ('m, 'n) manager =
  ipConnCountMap :: 'm
  userCtxMap :: 'n
  counters :: "u64 list"
  contexts :: "connContext list"
  nacosConfig :: NacosConfig

text \<open>The heap and the two result variables that the callback of \<open>AddIpConnCount\<close> closes over.\<close>

type_synonym count_vars = "u64 list \<times> bool \<times> int"

definition getNacosConf :: "('m, 'n) manager \<Rightarrow> NacosConfig" where
  "getNacosConf m = nacosConfig m"

definition setNacosConf :: "NacosConfig \<Rightarrow> ('m, 'n) manager \<Rightarrow> ('m, 'n) manager" where
  "setNacosConf conf m = m\<lparr>nacosConfig := conf\<rparr>"

section \<open>Connections of an address\<close>

text \<open>The count is an \<open>atomic.Int64\<close>: a 64-bit word read as a signed number.\<close>

definition add_count :: "NacosConfig \<Rightarrow> bool \<Rightarrow> ptr \<Rightarrow> ptr \<Rightarrow> count_vars \<Rightarrow> ptr \<times> count_vars" where
  "add_count conf exist valueInMap newValue = (\<lambda>(h, ok, ipCount).
     if exist then
       let p = the valueInMap in
       if OneIpMaxConn conf \<noteq> 0 \<and> OneIpMaxConn conf \<le> sint (h ! p)
       then (valueInMap, (h, ok, sint (h ! p)))
       else (valueInMap, (h[p := h ! p + 1], True, sint (h ! p + 1)))
     else (Some (length h), (h @ [1], True, 1)))"

definition AddIpConnCount :: "('m, count_vars) cmap_api \<Rightarrow> string \<Rightarrow> ('m, 'n) manager \<Rightarrow>
    ((bool \<times> int) \<times> ('m, 'n) manager) option" where
  "AddIpConnCount A ip m =
     (case api_Upsert A (ipConnCountMap m) ip None (add_count (getNacosConf m)) (counters m, False, 0) of
        None \<Rightarrow> None
      | Some ((_, h, ok, ipCount), ips) \<Rightarrow>
          Some ((ok, ipCount), m\<lparr>ipConnCountMap := ips, counters := h\<rparr>))"

definition reduce_count :: "string \<Rightarrow> ptr \<Rightarrow> bool \<Rightarrow> count_vars \<Rightarrow> bool \<times> count_vars" where
  "reduce_count key valueInMap exists = (\<lambda>(h, vars).
     if exists then
       let p = the valueInMap; h = h[p := h ! p - 1] in (h ! p = 0, (h, vars))
     else (False, (h, vars)))"

definition ReduceIpConnCount :: "('m, count_vars) cmap_api \<Rightarrow> string \<Rightarrow> ('m, 'n) manager \<Rightarrow>
    ('m, 'n) manager option" where
  "ReduceIpConnCount A ip m =
     (case api_RemoveCb A (ipConnCountMap m) ip reduce_count (counters m, False, 0) of
        None \<Rightarrow> None
      | Some ((_, h, _), ips) \<Rightarrow> Some (m\<lparr>ipConnCountMap := ips, counters := h\<rparr>))"

section \<open>Connections of a user\<close>

definition add_context :: "int \<Rightarrow> NacosConfig \<Rightarrow> bool \<Rightarrow> ptr \<Rightarrow> ptr \<Rightarrow> connContext list \<Rightarrow>
    ptr \<times> connContext list" where
  "add_context now conf exist valueInMap newValue h =
    (if exist then
       let p = the valueInMap in (valueInMap, h[p := (h ! p)\<lparr>conn_count := conn_count (h ! p) + 1\<rparr>])
     else (Some (length h),
       h @ [\<lparr>ctx_cancelled = False, conn_count = 1,
             conn_action = NewLimitedReaderAction now (LimitedReader_ReadRate conf)
               (LimitedReader_ReadBurst conf)\<rparr>]))"

definition addUserConnection :: "('n, connContext list) cmap_api \<Rightarrow> int \<Rightarrow> string \<Rightarrow>
    ('m, 'n) manager \<Rightarrow> (ptr \<times> ('m, 'n) manager) option" where
  "addUserConnection B now k m =
     (case api_Upsert B (userCtxMap m) k None (add_context now (getNacosConf m)) (contexts m) of
        None \<Rightarrow> None
      | Some ((p, h), users) \<Rightarrow> Some (p, m\<lparr>userCtxMap := users, contexts := h\<rparr>))"

text \<open>\<open>cancel()\<close>\<close>

definition cancel_ctx :: "nat \<Rightarrow> connContext list \<Rightarrow> connContext list" where
  "cancel_ctx p h = h[p := (h ! p)\<lparr>ctx_cancelled := True\<rparr>]"

definition delete_context :: "ptr \<Rightarrow> string \<Rightarrow> ptr \<Rightarrow> bool \<Rightarrow> connContext list \<Rightarrow>
    bool \<times> connContext list" where
  "delete_context ctx key valueInMap exists h =
    (if exists then
       if valueInMap \<noteq> ctx then (False, h)
       else let p = the valueInMap; h = h[p := (h ! p)\<lparr>conn_count := conn_count (h ! p) - 1\<rparr>]
            in if conn_count (h ! p) = 0 then (True, cancel_ctx p h) else (False, h)
     else (True, h))"

definition deleteUserConnection :: "('n, connContext list) cmap_api \<Rightarrow> string \<Rightarrow> ptr \<Rightarrow>
    ('m, 'n) manager \<Rightarrow> ('m, 'n) manager option" where
  "deleteUserConnection B k ctx m =
     (case api_RemoveCb B (userCtxMap m) k (delete_context ctx) (contexts m) of
        None \<Rightarrow> None
      | Some ((_, h), users) \<Rightarrow> Some (m\<lparr>userCtxMap := users, contexts := h\<rparr>))"

definition CloseUserConnections :: "('n, connContext list) cmap_api \<Rightarrow> string \<Rightarrow>
    ('m, 'n) manager \<Rightarrow> (go_error option \<times> ('m, 'n) manager) option" where
  "CloseUserConnections B k m =
     (case api_Pop B (userCtxMap m) k of
        None \<Rightarrow> None
      | Some ((v, exist), users) \<Rightarrow> Some (
          if exist \<and> v \<noteq> None
          then (None, m\<lparr>userCtxMap := users, contexts := cancel_ctx (the v) (contexts m)\<rparr>)
          else (Some (Errorf ''CloseUserConnections''), m\<lparr>userCtxMap := users\<rparr>)))"

section \<open>Messages that close connections\<close>

text \<open>\<open>strings.Split(s, ":")\<close>\<close>

fun split_colon :: "string \<Rightarrow> string list" where
  "split_colon [] = [[]]"
| "split_colon (c # cs) = (if c = CHR '':'' then [] # split_colon cs
     else (c # hd (split_colon cs)) # tl (split_colon cs))"

definition user_key :: "string \<Rightarrow> string \<Rightarrow> string" where
  "user_key user ip = user @ '':'' @ ip"

text \<open>The loop over the entries that \<open>Iter\<close> delivers.\<close>

fun close_matching :: "('n, connContext list) cmap_api \<Rightarrow> string \<Rightarrow> (string \<times> ptr) list \<Rightarrow>
    ('m, 'n) manager \<Rightarrow> ('m, 'n) manager option" where
  "close_matching B username [] m = Some m"
| "close_matching B username (item # its) m =
    (let keys = split_colon (fst item) in
     if keys \<noteq> [] \<and> keys ! 0 = username then
       (case api_Pop B (userCtxMap m) (fst item) of
          None \<Rightarrow> None
        | Some ((v, exist), users) \<Rightarrow> close_matching B username its (
            if exist \<and> v \<noteq> None
            then m\<lparr>userCtxMap := users, contexts := cancel_ctx (the v) (contexts m)\<rparr>
            else m\<lparr>userCtxMap := users\<rparr>))
     else close_matching B username its m)"

definition close_user :: "('n, connContext list) cmap_api \<Rightarrow> nat list \<Rightarrow> string \<Rightarrow>
    ('m, 'n) manager \<Rightarrow> ('m, 'n) manager option" where
  "close_user B sched username m =
     (case api_Iter B sched (userCtxMap m) of
        None \<Rightarrow> None | Some its \<Rightarrow> close_matching B username its m)"

fun close_ips :: "('n, connContext list) cmap_api \<Rightarrow> string \<Rightarrow> string list \<Rightarrow>
    ('m, 'n) manager \<Rightarrow> ('m, 'n) manager option" where
  "close_ips B username [] m = Some m"
| "close_ips B username (ip # ips) m =
    (case CloseUserConnections B (user_key username ip) m of
       None \<Rightarrow> None | Some (_, m') \<Rightarrow> close_ips B username ips m')"

text \<open>\<open>unmarshal\<close> is \<open>proto.Unmarshal\<close> into a \<open>DisconnectInfo\<close>: the user name and the addresses.\<close>

definition runRabbitmqDisconnectQueueConsumeAction :: "('n, connContext list) cmap_api \<Rightarrow>
    (byte list \<Rightarrow> go_error + string \<times> string list) \<Rightarrow> nat list \<Rightarrow> byte list \<Rightarrow>
    ('m, 'n) manager \<Rightarrow> ('m, 'n) manager option" where
  "runRabbitmqDisconnectQueueConsumeAction B unmarshal sched body m = (case unmarshal body of
     Inl _ \<Rightarrow> Some m
   | Inr (username, ips) \<Rightarrow>
       if username = [] then Some m
       else if ips = [] then close_user B sched username m
       else close_ips B username ips m)"

section \<open>Live configuration\<close>

definition update_context :: "NacosConfig \<Rightarrow> connContext \<Rightarrow> connContext" where
  "update_context conf x = x\<lparr>conn_action := UpdateParameter (LimitedReader_ReadRate conf)
     (LimitedReader_ReadBurst conf) (conn_action x)\<rparr>"

fun update_actions :: "NacosConfig \<Rightarrow> (string \<times> ptr) list \<Rightarrow> connContext list \<Rightarrow> connContext list" where
  "update_actions conf [] h = h"
| "update_actions conf (item # its) h =
    (let p = the (snd item) in update_actions conf its (h[p := update_context conf (h ! p)]))"

definition updateLimitedReaderAction :: "('n, connContext list) cmap_api \<Rightarrow> nat list \<Rightarrow>
    ('m, 'n) manager \<Rightarrow> ('m, 'n) manager option" where
  "updateLimitedReaderAction B sched m =
     (case api_Iter B sched (userCtxMap m) of
        None \<Rightarrow> None
      | Some its \<Rightarrow> Some (m\<lparr>contexts := update_actions (getNacosConf m) its (contexts m)\<rparr>))"

text \<open>One round of \<open>runNacosConfServer\<close>; \<open>unmarshal\<close> is what \<open>viperClient.Unmarshal\<close> returns.\<close>

definition nacos_round :: "('n, connContext list) cmap_api \<Rightarrow> nat list \<Rightarrow> go_error + NacosConfig \<Rightarrow>
    ('m, 'n) manager \<Rightarrow> ('m, 'n) manager option" where
  "nacos_round B sched unmarshal m = (case unmarshal of
     Inl _ \<Rightarrow> Some m
   | Inr conf \<Rightarrow> updateLimitedReaderAction B sched (setNacosConf conf m))"

section \<open>Connection handlers\<close>

text \<open>
  What a connection handler has acquired. A handler asks for its address's count first
  (\<open>Refused\<close> when the limit is reached), then for the user's context, and gives both back in
  the reverse order when it returns (the \<open>defer\<close>s of \<open>socksTcpConn\<close> and \<open>httpTcpConn\<close>); it may
  return in between, before it has a context.
\<close>

datatype sess =
    Refused
  | Counted string
  | Relaying string string nat
  | Finished

record ('m, 'n) sys =
  mgr :: "('m, 'n) manager"
  sessions :: "sess list"

fun sess_ip :: "sess \<Rightarrow> string option" where
  "sess_ip (Counted ip) = Some ip"
| "sess_ip (Relaying ip k p) = Some ip"
| "sess_ip _ = None"

fun sess_ctx :: "sess \<Rightarrow> nat option" where
  "sess_ctx (Relaying ip k p) = Some p"
| "sess_ctx _ = None"

definition live :: "sess list \<Rightarrow> string \<Rightarrow> nat" where
  "live ss ip = length (filter (\<lambda>s. sess_ip s = Some ip) ss)"

definition holders :: "sess list \<Rightarrow> nat \<Rightarrow> nat" where
  "holders ss p = length (filter (\<lambda>s. sess_ctx s = Some p) ss)"

text \<open>
  The steps of the server: a handler of any connection performs its next operation, a message
  closes a key, or the configuration changes. Each operation on a concurrent map is atomic
  for its key. A message that closes a key cancels its context in the same step here; \<open>fstep\<close> below has the two steps of
  the code, and the cancellation of all contexts by \<open>Stop\<close>. Fewer than \<open>2 ^ 63\<close> connections are accepted in a run.
\<close>

inductive mstep :: "('m, count_vars) cmap_api \<Rightarrow> ('n, connContext list) cmap_api \<Rightarrow>
    (NacosConfig \<Rightarrow> bool) \<Rightarrow> ('m, 'n) sys \<Rightarrow> ('m, 'n) sys \<Rightarrow> bool"
  for A :: "('m, count_vars) cmap_api" and B :: "('n, connContext list) cmap_api"
    and P :: "NacosConfig \<Rightarrow> bool"
where
  accept: "int (length (sessions s)) < 2 ^ 63 - 1 \<Longrightarrow>
    AddIpConnCount A ip (mgr s) = Some ((ok, n), m') \<Longrightarrow>
    mstep A B P s (s\<lparr>mgr := m', sessions := sessions s @ [if ok then Counted ip else Refused]\<rparr>)"
| start: "i < length (sessions s) \<Longrightarrow> sessions s ! i = Counted ip \<Longrightarrow>
    addUserConnection B now k (mgr s) = Some (Some p, m') \<Longrightarrow>
    mstep A B P s (s\<lparr>mgr := m', sessions := (sessions s)[i := Relaying ip k p]\<rparr>)"
| stop: "i < length (sessions s) \<Longrightarrow> sessions s ! i = Relaying ip k p \<Longrightarrow>
    deleteUserConnection B k (Some p) (mgr s) = Some m' \<Longrightarrow>
    mstep A B P s (s\<lparr>mgr := m', sessions := (sessions s)[i := Counted ip]\<rparr>)"
| leave: "i < length (sessions s) \<Longrightarrow> sessions s ! i = Counted ip \<Longrightarrow>
    ReduceIpConnCount A ip (mgr s) = Some m' \<Longrightarrow>
    mstep A B P s (s\<lparr>mgr := m', sessions := (sessions s)[i := Finished]\<rparr>)"
| kick: "CloseUserConnections B k (mgr s) = Some (e, m') \<Longrightarrow>
    mstep A B P s (s\<lparr>mgr := m'\<rparr>)"
| reconfigure: "P conf \<Longrightarrow> mstep A B P s (s\<lparr>mgr := setNacosConf conf (mgr s)\<rparr>)"
| refresh: "updateLimitedReaderAction B sched (mgr s) = Some m' \<Longrightarrow>
    mstep A B P s (s\<lparr>mgr := m'\<rparr>)"

inductive mreach :: "('m, count_vars) cmap_api \<Rightarrow> ('n, connContext list) cmap_api \<Rightarrow>
    (NacosConfig \<Rightarrow> bool) \<Rightarrow> ('m, 'n) sys \<Rightarrow> ('m, 'n) sys \<Rightarrow> bool"
  for A :: "('m, count_vars) cmap_api" and B :: "('n, connContext list) cmap_api"
    and P :: "NacosConfig \<Rightarrow> bool" and s0 :: "('m, 'n) sys"
where
  mreach_init: "mreach A B P s0 s0"
| mreach_step: "mreach A B P s0 s \<Longrightarrow> mstep A B P s s' \<Longrightarrow> mreach A B P s0 s'"

lemma filter_update:
  assumes "i < length xs"
  shows "int (length (filter P (xs[i := y]))) =
     int (length (filter P xs)) - (if P (xs ! i) then 1 else 0) + (if P y then 1 else 0)"
  using assms
proof (induction xs arbitrary: i)
  case (Cons x xs)
  then show ?case
  proof (cases i)
    case (Suc j)
    with Cons.IH [of j] Cons.prems show ?thesis by (simp split: if_splits)
  qed simp
qed simp

lemma filter_update_same:
  assumes "i < length xs" and "P (xs ! i) = P y"
  shows "length (filter P (xs[i := y])) = length (filter P xs)"
  using filter_update [OF assms(1), of P y] assms(2) by simp

lemma live_append [simp]: "live (ss @ [s]) ip = live ss ip + (if sess_ip s = Some ip then 1 else 0)"
  by (simp add: live_def)

lemma holders_append [simp]: "holders (ss @ [s]) p = holders ss p + (if sess_ctx s = Some p then 1 else 0)"
  by (simp add: holders_def)

lemma live_update: "i < length ss \<Longrightarrow> int (live (ss[i := s]) ip) =
    int (live ss ip) - (if sess_ip (ss ! i) = Some ip then 1 else 0) + (if sess_ip s = Some ip then 1 else 0)"
  by (simp add: live_def filter_update)

lemma holders_update: "i < length ss \<Longrightarrow> int (holders (ss[i := s]) p) =
    int (holders ss p) - (if sess_ctx (ss ! i) = Some p then 1 else 0) + (if sess_ctx s = Some p then 1 else 0)"
  by (simp add: holders_def filter_update)

lemma live_le: "live ss ip \<le> length ss"
  by (simp add: live_def)

lemma live_pos: "i < length ss \<Longrightarrow> sess_ip (ss ! i) = Some ip \<Longrightarrow> 0 < live ss ip"
  by (force simp: live_def in_set_conv_nth filter_empty_conv)

lemma holders_pos: "i < length ss \<Longrightarrow> sess_ctx (ss ! i) = Some p \<Longrightarrow> 0 < holders ss p"
  by (force simp: holders_def in_set_conv_nth filter_empty_conv)

lemma holders_zero: "0 < holders ss p \<Longrightarrow> \<exists>s\<in>set ss. sess_ctx s = Some p"
  by (auto simp: holders_def filter_empty_conv)

section \<open>The number of connections of an address\<close>

text \<open>
  The heap cell of an address holds the number of its live connections, and there is a cell
  exactly while there is one.
\<close>

definition count_cell :: "u64 list \<Rightarrow> nat \<Rightarrow> ptr option \<Rightarrow> bool" where
  "count_cell h n v \<longleftrightarrow> (if n = 0 then v = None
     else \<exists>p. v = Some (Some p) \<and> p < length h \<and> sint (h ! p) = int n)"

definition count_inv :: "(string \<rightharpoonup> ptr) \<Rightarrow> u64 list \<Rightarrow> sess list \<Rightarrow> bool" where
  "count_inv L h ss \<longleftrightarrow> int (length ss) < 2 ^ 63 \<and>
     (\<forall>ip. count_cell h (live ss ip) (L ip)) \<and> inj_on L (dom L)"

lemma count_inv_None: "count_inv L h ss \<Longrightarrow> L ip = None \<longleftrightarrow> live ss ip = 0"
proof -
  assume "count_inv L h ss"
  then have "count_cell h (live ss ip) (L ip)" by (simp add: count_inv_def)
  then show ?thesis by (auto simp: count_cell_def split: if_splits)
qed

lemma count_inv_Some:
  assumes "count_inv L h ss" and "L ip = Some v"
  obtains p where "v = Some p" and "p < length h" and "0 < live ss ip" and "sint (h ! p) = int (live ss ip)"
proof -
  have "count_cell h (live ss ip) (Some v)" using assms by (metis count_inv_def)
  then show thesis using that by (auto simp: count_cell_def split: if_splits)
qed

lemma count_inv_update:
  assumes "count_inv L h ss" and "L ip = Some (Some p)" and "int (length ss') < 2 ^ 63"
    and "sint w = int (live ss' ip)" and "0 < live ss' ip"
    and "\<And>ip'. ip' \<noteq> ip \<Longrightarrow> live ss' ip' = live ss ip'"
  shows "count_inv L (h[p := w]) ss'"
proof -
  have "count_cell (h[p := w]) (live ss' ip') (L ip')" for ip'
  proof (cases "ip' = ip")
    case True
    with assms show ?thesis by (auto simp: count_cell_def elim: count_inv_Some)
  next
    case False
    have "L ip' \<noteq> Some (Some p)"
      using assms(1,2) False by (auto simp: count_inv_def inj_on_def dom_def)
    moreover have "count_cell h (live ss ip') (L ip')" using assms(1) by (simp add: count_inv_def)
    ultimately show ?thesis using assms(6) [OF False] by (auto simp: count_cell_def split: if_splits)
  qed
  then show ?thesis using assms(1,3) by (simp add: count_inv_def)
qed

lemma sint_add1: "sint (x :: u64) + 1 < 2 ^ 63 \<Longrightarrow> sint (x + 1) = sint x + 1"
  using sint_ge [of x]
  by (simp add: sint_word_ariths signed_take_bit_int_eq_self)

lemma sint_sub1: "0 < sint (x :: u64) \<Longrightarrow> sint (x - 1) = sint x - 1"
  using sint_lt [of x]
  by (simp add: sint_word_ariths signed_take_bit_int_eq_self)

lemma sint_zero_iff: "(x :: u64) = 0 \<longleftrightarrow> sint x = 0"
  using signed_word_eqI [of x 0] by auto


lemma count_inv_append_other:
  assumes "count_inv L h ss" and "int (length ss) < 2 ^ 63 - 1" and "sess_ip s = None"
  shows "count_inv L h (ss @ [s])"
  using assms by (simp add: count_inv_def)

lemma count_inv_new:
  assumes "count_inv L h ss" and "int (length ss) < 2 ^ 63 - 1" and "L ip = None"
  shows "count_inv (L(ip \<mapsto> Some (length h))) (h @ [1]) (ss @ [Counted ip])"
proof -
  have z: "live ss ip = 0" using assms(1,3) by (simp add: count_inv_None)
  have c: "count_cell h (live ss ip') (L ip')" for ip' using assms(1) by (simp add: count_inv_def)
  have "count_cell (h @ [1]) (live (ss @ [Counted ip]) ip') ((L(ip \<mapsto> Some (length h))) ip')" for ip'
    using c [of ip'] z by (auto simp: count_cell_def nth_append split: if_splits)
  moreover have "inj_on (L(ip \<mapsto> Some (length h))) (dom (L(ip \<mapsto> Some (length h))))"
  proof (rule inj_onI)
    fix x y
    assume x: "x \<in> dom (L(ip \<mapsto> Some (length h)))" and y: "y \<in> dom (L(ip \<mapsto> Some (length h)))"
      and e: "(L(ip \<mapsto> Some (length h))) x = (L(ip \<mapsto> Some (length h))) y"
    have n: "L z \<noteq> Some (Some (length h))" for z
      using c [of z] by (auto simp: count_cell_def split: if_splits)
    show "x = y"
      using x y e n [of x] n [of y] assms(1)
      by (auto simp: count_inv_def inj_on_def dom_def split: if_splits)
  qed
  ultimately show ?thesis using assms(2) by (simp add: count_inv_def)
qed

lemma add_count_inv:
  assumes inv: "count_inv L h ss" and len: "int (length ss) < 2 ^ 63 - 1"
    and r: "add_count conf (L ip \<noteq> None) (old_value None L ip) None (h, False, 0) = (v, h', ok, n)"
  shows "count_inv (L(ip \<mapsto> v)) h' (ss @ [if ok then Counted ip else Refused]) \<and>
    (ok \<longleftrightarrow> live ss ip = 0 \<or> OneIpMaxConn conf = 0 \<or> int (live ss ip) < OneIpMaxConn conf) \<and>
    n = int (live (ss @ [if ok then Counted ip else Refused]) ip)"
proof (cases "L ip")
  case None
  with r have "v = Some (length h)" "h' = h @ [1]" "ok" "n = 1" by (auto simp: add_count_def)
  moreover have "live ss ip = 0" using inv None by (simp add: count_inv_None)
  ultimately show ?thesis using count_inv_new [OF inv len None] by simp
next
  case (Some v0)
  from count_inv_Some [OF inv this] obtain p where
    p: "v0 = Some p" "p < length h" "0 < live ss ip" "sint (h ! p) = int (live ss ip)" .
  have upd: "L(ip \<mapsto> Some p) = L" using Some p(1) by auto
  have le: "int (live ss ip) \<le> int (length ss)" using live_le [of ss ip] by simp
  show ?thesis
  proof (cases "OneIpMaxConn conf \<noteq> 0 \<and> OneIpMaxConn conf \<le> sint (h ! p)")
    case True
    with r Some p have "v = Some p" "h' = h" "\<not> ok" "n = int (live ss ip)"
      by (auto simp: add_count_def)
    with True p upd count_inv_append_other [OF inv len, of Refused] show ?thesis by auto
  next
    case False
    with r Some p have e: "v = Some p" "h' = h[p := h ! p + 1]" "ok" "n = sint (h ! p + 1)"
      by (auto simp: add_count_def Let_def split: if_splits)
    have s: "sint (h ! p + 1) = int (live ss ip) + 1"
      using sint_add1 [of "h ! p"] p(4) le len by linarith
    have "count_inv L (h[p := h ! p + 1]) (ss @ [Counted ip])"
      by (rule count_inv_update [OF inv]) (use Some p s len in \<open>auto\<close>)
    with False p upd e s show ?thesis by auto
  qed
qed

lemma reduce_count_inv:
  assumes inv: "count_inv L h ss" and i: "i < length ss" "ss ! i = Counted ip"
    and r: "reduce_count ip (old_value None L ip) (L ip \<noteq> None) (h, False, 0) = (rm, h', vars)"
  shows "count_inv (if rm then L(ip := None) else L) h' (ss[i := Finished])"
proof -
  have pos: "0 < live ss ip" using live_pos [OF i(1), of ip] i(2) by simp
  then obtain v0 where L: "L ip = Some v0" using count_inv_None [OF inv, of ip] by auto
  from count_inv_Some [OF inv this] obtain p where
    p: "v0 = Some p" "p < length h" "sint (h ! p) = int (live ss ip)" by blast
  let ?ss = "ss[i := Finished]"
  have lv: "int (live ?ss ip') = int (live ss ip') - (if ip' = ip then 1 else 0)" for ip'
    using live_update [OF i(1), of Finished ip'] i(2) by simp
  have s: "sint (h ! p - 1) = int (live ?ss ip)"
    using sint_sub1 [of "h ! p"] p(3) pos lv [of ip] by simp
  have e: "h' = h[p := h ! p - 1]" "rm \<longleftrightarrow> h ! p - 1 = 0"
    using r L p by (auto simp: reduce_count_def Let_def)
  have others: "live ?ss ip' = live ss ip'" if "ip' \<noteq> ip" for ip' using lv [of ip'] that by simp
  have len: "int (length ?ss) < 2 ^ 63" using inv by (simp add: count_inv_def)
  show ?thesis
  proof (cases rm)
    case False
    then have "0 < live ?ss ip" using e(2) s sint_zero_iff [of "h ! p - 1"] by simp
    then show ?thesis
      using count_inv_update [OF inv _ len s _ others] False L p e(1) by simp
  next
    case True
    then have z: "live ?ss ip = 0" using e(2) s sint_zero_iff [of "h ! p - 1"] by simp
    have "count_cell h' (live ?ss ip') ((L(ip := None)) ip')" for ip'
    proof (cases "ip' = ip")
      case True
      then show ?thesis using z by (simp add: count_cell_def)
    next
      case False
      have "L ip' \<noteq> Some (Some p)"
        using inv L p(1) False by (auto simp: count_inv_def inj_on_def dom_def)
      moreover have "count_cell h (live ss ip') (L ip')" using inv by (simp add: count_inv_def)
      ultimately show ?thesis
        using others [OF False] False e(1) by (auto simp: count_cell_def split: if_splits)
    qed
    moreover have "inj_on (L(ip := None)) (dom (L(ip := None)))"
      using inv by (auto simp: count_inv_def inj_on_def)
    ultimately show ?thesis using True len by (simp add: count_inv_def)
  qed
qed

section \<open>The contexts of a user\<close>

text \<open>
  An entry of the map is a live context whose count is the number of handlers that relay under
  it; every other context is cancelled; a relaying handler's context is cancelled or is the
  entry of its key.
\<close>

definition user_cell :: "connContext list \<Rightarrow> sess list \<Rightarrow> ptr option \<Rightarrow> bool" where
  "user_cell h ss v \<longleftrightarrow> (case v of None \<Rightarrow> True | Some None \<Rightarrow> False
     | Some (Some p) \<Rightarrow> p < length h \<and> \<not> ctx_cancelled (h ! p) \<and>
         conn_count (h ! p) = of_nat (holders ss p) \<and> 0 < holders ss p)"

definition sess_ok :: "(string \<rightharpoonup> ptr) \<Rightarrow> connContext list \<Rightarrow> sess \<Rightarrow> bool" where
  "sess_ok L h s \<longleftrightarrow> (case s of
     Relaying ip k p \<Rightarrow> p < length h \<and> (ctx_cancelled (h ! p) \<or> L k = Some (Some p)) | _ \<Rightarrow> True)"

definition user_inv :: "(string \<rightharpoonup> ptr) \<Rightarrow> connContext list \<Rightarrow> sess list \<Rightarrow> bool" where
  "user_inv L h ss \<longleftrightarrow> int (length ss) < 2 ^ 63 \<and> (\<forall>k. user_cell h ss (L k)) \<and>
     (\<forall>s\<in>set ss. sess_ok L h s) \<and>
     (\<forall>p<length h. ctx_cancelled (h ! p) \<or> Some (Some p) \<in> range L) \<and> inj_on L (dom L)"

lemma user_cell_simps [simp]:
  "user_cell h ss None"
  "\<not> user_cell h ss (Some None)"
  "user_cell h ss (Some (Some p)) \<longleftrightarrow> p < length h \<and> \<not> ctx_cancelled (h ! p) \<and>
     conn_count (h ! p) = of_nat (holders ss p) \<and> 0 < holders ss p"
  by (simp_all add: user_cell_def)

lemma sess_ok_simps [simp]:
  "sess_ok L h (Relaying ip k p) \<longleftrightarrow>
     p < length h \<and> (ctx_cancelled (h ! p) \<or> L k = Some (Some p))"
  "sess_ok L h Refused" "sess_ok L h (Counted ip)" "sess_ok L h Finished"
  by (simp_all add: sess_ok_def)

lemma user_inv_cell:
  assumes "user_inv L h ss" and "L k = Some v"
  obtains p where "v = Some p" and "p < length h" and "\<not> ctx_cancelled (h ! p)"
    and "conn_count (h ! p) = of_nat (holders ss p)" and "0 < holders ss p"
proof -
  have "user_cell h ss (Some v)" using assms by (metis user_inv_def)
  then show thesis using that by (cases v) auto
qed

lemma user_inv_inj:
  "user_inv L h ss \<Longrightarrow> L k = Some v \<Longrightarrow> L k' = Some v \<Longrightarrow> k = k'"
  by (auto simp: user_inv_def inj_on_def dom_def)

text \<open>A holder of an entry's context has the entry's key.\<close>

lemma user_inv_holder:
  assumes "user_inv L h ss" and "L k = Some (Some p)" and "Relaying ip k' p \<in> set ss"
  shows "k' = k"
proof -
  have "\<not> ctx_cancelled (h ! p)" using assms(1,2) by (auto elim: user_inv_cell)
  moreover have "sess_ok L h (Relaying ip k' p)" using assms(1,3) by (auto simp: user_inv_def)
  ultimately have "L k' = Some (Some p)" by simp
  with assms(1,2) show ?thesis by (auto dest: user_inv_inj)
qed

lemma user_inv_sessions:
  assumes "user_inv L h ss" and "int (length ss') < 2 ^ 63"
    and "\<And>p. \<not> ctx_cancelled (h ! p) \<Longrightarrow> holders ss' p = holders ss p" and "\<And>s. s \<in> set ss' \<Longrightarrow> s \<in> set ss \<or> sess_ctx s = None"
  shows "user_inv L h ss'"
proof -
  have c: "user_cell h ss' v = user_cell h ss v" for v
    using assms(3) by (auto simp: user_cell_def split: option.split)
  have "sess_ok L h s" if "s \<in> set ss'" for s
    using assms(1) assms(4) [OF that] by (cases s) (auto simp: user_inv_def)
  then show ?thesis using assms(1,2) by (simp add: user_inv_def c)
qed

lemma user_inv_heap:
  assumes "user_inv L h ss" and "length h' = length h"
    and "\<And>p. p < length h \<Longrightarrow> ctx_cancelled (h' ! p) = ctx_cancelled (h ! p) \<and>
      conn_count (h' ! p) = conn_count (h ! p)"
  shows "user_inv L h' ss"
proof -
  have "user_cell h' ss v = user_cell h ss v" for v
    using assms(2,3) by (auto simp: user_cell_def split: option.split)
  moreover have "sess_ok L h' s = sess_ok L h s" for s
    using assms(2,3) by (auto simp: sess_ok_def split: sess.split)
  ultimately show ?thesis using assms by (simp add: user_inv_def)
qed

text \<open>Changing the cell of an entry together with the handlers that hold it.\<close>

lemma user_inv_update:
  assumes inv: "user_inv L h ss" and k: "L k = Some (Some p)" and len: "int (length ss') < 2 ^ 63"
    and c: "\<not> ctx_cancelled x" "conn_count x = of_nat (holders ss' p)" "0 < holders ss' p"
    and other: "\<And>q. q \<noteq> p \<Longrightarrow> holders ss' q = holders ss q"
    and ses: "\<And>s. s \<in> set ss' \<Longrightarrow> s \<in> set ss \<or> sess_ctx s = None \<or> (\<exists>ip. s = Relaying ip k p)"
  shows "user_inv L (h[p := x]) ss'"
proof -
  have p: "p < length h" using inv k by (auto elim: user_inv_cell)
  have "user_cell (h[p := x]) ss' (L k')" for k'
  proof (cases "k' = k")
    case True
    then show ?thesis using k p c by simp
  next
    case False
    show ?thesis
    proof (cases "L k'")
      case (Some v)
      obtain q where q: "v = Some q" "q < length h" "\<not> ctx_cancelled (h ! q)"
          "conn_count (h ! q) = of_nat (holders ss q)" "0 < holders ss q"
        using user_inv_cell [OF inv Some] .
      have "q \<noteq> p" using Some q(1) k False user_inv_inj [OF inv, of k "Some p" k'] by auto
      with q Some show ?thesis by (simp add: other)
    qed simp
  qed
  moreover have "sess_ok L (h[p := x]) s" if s: "s \<in> set ss'" for s
  proof (cases s)
    case (Relaying ip k' q)
    consider "q = p" "k' = k" | "Relaying ip k' q \<in> set ss" using ses [OF s] Relaying by auto
    then show ?thesis
    proof cases
      case 1
      then show ?thesis using Relaying p k by simp
    next
      case 2
      then have "sess_ok L h (Relaying ip k' q)" using inv by (auto simp: user_inv_def)
      moreover have "k' = k" if "q = p" using user_inv_holder [OF inv k] 2 that by simp
      ultimately show ?thesis using Relaying p k by (auto simp: nth_list_update)
    qed
  qed simp_all
  moreover have "ctx_cancelled (h[p := x] ! q) \<or> Some (Some q) \<in> range L" if "q < length h" for q
    using inv that k by (cases "q = p") (auto simp: user_inv_def intro: rangeI [of L k, unfolded k])
  ultimately show ?thesis using inv len by (simp add: user_inv_def)
qed

text \<open>Removing an entry and cancelling its context.\<close>

lemma user_inv_remove:
  assumes inv: "user_inv L h ss" and k: "L k = Some (Some p)" and len: "int (length ss') < 2 ^ 63"
    and c: "ctx_cancelled x"
    and other: "\<And>q. q \<noteq> p \<Longrightarrow> holders ss' q = holders ss q"
    and ses: "\<And>s. s \<in> set ss' \<Longrightarrow> s \<in> set ss \<or> sess_ctx s = None"
  shows "user_inv (L(k := None)) (h[p := x]) ss'"
proof -
  have p: "p < length h" using inv k by (auto elim: user_inv_cell)
  have ne: "L k' \<noteq> Some (Some p)" if "k' \<noteq> k" for k'
    using user_inv_inj [OF inv k] that by blast
  have "user_cell (h[p := x]) ss' ((L(k := None)) k')" for k'
  proof (cases "k' = k \<or> L k' = None")
    case False
    then obtain v where v: "L k' = Some v" by auto
    obtain q where q: "v = Some q" "q < length h" "\<not> ctx_cancelled (h ! q)"
        "conn_count (h ! q) = of_nat (holders ss q)" "0 < holders ss q"
      using user_inv_cell [OF inv v] .
    have "q \<noteq> p" using ne [of k'] v q(1) False by auto
    with q v show ?thesis by (simp add: other)
  qed auto
  moreover have "sess_ok (L(k := None)) (h[p := x]) s" if "s \<in> set ss'" for s
  proof (cases s)
    case (Relaying ip k' q)
    then have "s \<in> set ss" using ses [OF that] by auto
    then have "sess_ok L h (Relaying ip k' q)" using inv Relaying by (auto simp: user_inv_def)
    then show ?thesis using Relaying p c k by (auto simp: nth_list_update)
  qed simp_all
  moreover have "ctx_cancelled (h[p := x] ! q) \<or> Some (Some q) \<in> range (L(k := None))"
    if q: "q < length h" for q
  proof (cases "q = p \<or> ctx_cancelled (h ! q)")
    case True
    then show ?thesis using p c by (auto simp: nth_list_update)
  next
    case False
    then obtain k' where "L k' = Some (Some q)" using inv q by (auto simp: user_inv_def image_iff)
    then have "(L(k := None)) k' = Some (Some q)" using k False by auto
    then show ?thesis by (metis rangeI)
  qed
  moreover have "inj_on (L(k := None)) (dom (L(k := None)))"
    using inv by (auto simp: user_inv_def inj_on_def)
  ultimately show ?thesis using len by (simp add: user_inv_def)
qed

lemma add_context_inv:
  assumes inv: "user_inv L h ss" and i: "i < length ss" "ss ! i = Counted ip"
    and r: "add_context now conf (L k \<noteq> None) (old_value None L k) None h = (v, h')"
  shows "\<exists>p. v = Some p \<and> p < length h' \<and> \<not> ctx_cancelled (h' ! p) \<and>
    user_inv (L(k \<mapsto> v)) h' (ss[i := Relaying ip k p])"
proof (cases "L k")
  case (Some v0)
  obtain p where p: "v0 = Some p" "p < length h" "\<not> ctx_cancelled (h ! p)"
      "conn_count (h ! p) = of_nat (holders ss p)" "0 < holders ss p"
    using user_inv_cell [OF inv Some] .
  let ?x = "(h ! p)\<lparr>conn_count := conn_count (h ! p) + 1\<rparr>" and ?ss = "ss[i := Relaying ip k p]"
  have e: "v = Some p" "h' = h[p := ?x]" using r Some p(1) by (auto simp: add_context_def Let_def)
  have hl: "int (holders ?ss q) = int (holders ss q) + (if q = p then 1 else 0)" for q
    using holders_update [OF i(1), of "Relaying ip k p" q] i(2) by auto
  have "holders ?ss p = Suc (holders ss p)" using hl [of p] by simp
  moreover have "holders ?ss q = holders ss q" if "q \<noteq> p" for q using hl [of q] that by simp
  moreover have "int (length ?ss) < 2 ^ 63" using inv by (simp add: user_inv_def)
  ultimately have "user_inv L (h[p := ?x]) ?ss"
    using p Some set_update_subset_insert [of ss i "Relaying ip k p"]
    by (intro user_inv_update [OF inv]) auto
  moreover have "L(k \<mapsto> Some p) = L" using Some p(1) by auto
  ultimately show ?thesis using e p(2,3) by auto
next
  case None
  let ?p = "length h" and ?x = "\<lparr>ctx_cancelled = False, conn_count = 1, conn_action =
    NewLimitedReaderAction now (LimitedReader_ReadRate conf) (LimitedReader_ReadBurst conf)\<rparr>"
  let ?ss = "ss[i := Relaying ip k ?p]" and ?L = "L(k \<mapsto> Some ?p)"
  have e: "v = Some ?p" "h' = h @ [?x]" using r None by (auto simp: add_context_def)
  have hl: "int (holders ?ss q) = int (holders ss q) + (if q = ?p then 1 else 0)" for q
    using holders_update [OF i(1), of "Relaying ip k ?p" q] i(2) by auto
  have z: "holders ss ?p = 0"
  proof (rule ccontr)
    assume "holders ss ?p \<noteq> 0"
    then obtain s where "s \<in> set ss" "sess_ctx s = Some ?p" using holders_zero [of ss ?p] by auto
    moreover have "sess_ok L h s" using inv \<open>s \<in> set ss\<close> by (simp add: user_inv_def)
    ultimately show False by (cases s rule: sess.exhaust) auto
  qed
  have one: "holders ?ss ?p = 1" using hl [of ?p] z by simp
  have other: "holders ?ss q = holders ss q" if "q \<noteq> ?p" for q using hl [of q] that by simp
  have fresh: "L k' \<noteq> Some (Some ?p)" for k'
    using inv by (auto elim: user_inv_cell)
  have "user_cell h' ?ss (?L k')" for k'
  proof (cases "k' = k \<or> L k' = None")
    case True
    then show ?thesis using one e(2) by auto
  next
    case False
    then obtain v' where v': "L k' = Some v'" by auto
    obtain q where q: "v' = Some q" "q < length h" "\<not> ctx_cancelled (h ! q)"
        "conn_count (h ! q) = of_nat (holders ss q)" "0 < holders ss q"
      using user_inv_cell [OF inv v'] .
    then show ?thesis using False v' e(2) other [of q] by (simp add: nth_append)
  qed
  moreover have "sess_ok ?L h' s" if s: "s \<in> set ?ss" for s
  proof (cases "s = Relaying ip k ?p")
    case False
    then have "s \<in> set ss" using s set_update_subset_insert [of ss i "Relaying ip k ?p"] by auto
    then have "sess_ok L h s" using inv by (simp add: user_inv_def)
    then show ?thesis using e(2) None by (cases s) (auto simp: nth_append)
  qed (simp add: e(2))
  moreover have "ctx_cancelled (h' ! q) \<or> Some (Some q) \<in> range ?L" if q: "q < length h'" for q
  proof (cases "q = ?p")
    case True
    have "?L k = Some (Some q)" by (simp add: True)
    then show ?thesis by (metis rangeI)
  next
    case False
    then have "q < length h" using q e(2) by simp
    then have "ctx_cancelled (h ! q) \<or> Some (Some q) \<in> range L" using inv by (simp add: user_inv_def)
    then show ?thesis
    proof
      assume "Some (Some q) \<in> range L"
      then obtain k' where "L k' = Some (Some q)" by (auto simp: image_iff)
      then have "?L k' = Some (Some q)" using None by auto
      then show ?thesis by (metis rangeI)
    qed (use e(2) \<open>q < length h\<close> in \<open>simp add: nth_append\<close>)
  qed
  moreover have "inj_on ?L (dom ?L)"
    using inv fresh by (auto simp: user_inv_def inj_on_def dom_def split: if_splits)
  moreover have "int (length ?ss) < 2 ^ 63" using inv by (simp add: user_inv_def)
  ultimately have "user_inv ?L h' ?ss" by (simp only: user_inv_def) blast
  with e show ?thesis by auto
qed

lemma delete_context_inv:
  assumes inv: "user_inv L h ss" and i: "i < length ss" "ss ! i = Relaying ip k p"
    and r: "delete_context (Some p) k (old_value None L k) (L k \<noteq> None) h = (rm, h')"
  shows "user_inv (if rm then L(k := None) else L) h' (ss[i := Counted ip])"
proof -
  let ?ss = "ss[i := Counted ip]"
  have hl: "int (holders ?ss q) = int (holders ss q) - (if q = p then 1 else 0)" for q
    using holders_update [OF i(1), of "Counted ip" q] i(2) by auto
  have other: "holders ?ss q = holders ss q" if "q \<noteq> p" for q using hl [of q] that by simp
  have len: "int (length ?ss) < 2 ^ 63" using inv by (simp add: user_inv_def)
  have ses: "s \<in> set ss \<or> sess_ctx s = None" if "s \<in> set ?ss" for s
    using that set_update_subset_insert [of ss i "Counted ip"] by auto
  show ?thesis
  proof (cases "L k = Some (Some p)")
    case True
    let ?y = "(h ! p)\<lparr>conn_count := conn_count (h ! p) - 1\<rparr>"
    have p: "p < length h" "\<not> ctx_cancelled (h ! p)" "conn_count (h ! p) = of_nat (holders ss p)"
        "0 < holders ss p" using inv True by (auto elim: user_inv_cell)
    have n: "conn_count ?y = of_nat (holders ?ss p)"
    proof -
      have "holders ss p = Suc (holders ?ss p)" using hl [of p] p(4) by simp
      then show ?thesis by (simp add: p(3))
    qed
    have z: "conn_count ?y = 0 \<longleftrightarrow> holders ?ss p = 0"
    proof -
      have "holders ?ss p \<le> length ?ss" by (simp only: holders_def length_filter_le)
      then have "holders ?ss p < 2 ^ 64" using len by simp
      then have "\<not> 2 ^ 64 dvd holders ?ss p \<or> holders ?ss p = 0" by (auto dest: dvd_imp_le)
      then show ?thesis unfolding n by (auto simp: word_of_nat_eq_0_iff)
    qed
    show ?thesis
    proof (cases "holders ?ss p = 0")
      case zero: True
      with r True p(1) z have "rm" "h' = h[p := ?y\<lparr>ctx_cancelled := True\<rparr>]"
        by (auto simp: delete_context_def cancel_ctx_def Let_def)
      then show ?thesis
        using user_inv_remove [OF inv True len _ other ses] by simp
    next
      case False
      with r True p(1) z have "\<not> rm" "h' = h[p := ?y]"
        by (auto simp: delete_context_def Let_def)
      then show ?thesis
        using user_inv_update [OF inv True len _ n _ other] ses False p(2) by auto
    qed
  next
    case False
    have "sess_ok L h (Relaying ip k p)" using inv i by (metis nth_mem user_inv_def)
    then have "ctx_cancelled (h ! p)" using False by simp
    then have "user_inv L h ?ss"
      using user_inv_sessions [OF inv len _ ses] other by (metis (no_types))
    moreover have "h' = h" "rm \<longrightarrow> L k = None"
      using r False by (auto simp: delete_context_def old_value_def split: if_splits option.splits)
    moreover have "L(k := None) = L" if "L k = None" using that by auto
    ultimately show ?thesis by auto
  qed
qed

lemma pop_context_inv:
  assumes inv: "user_inv L h ss" and k: "L k = Some (Some p)"
  shows "user_inv (L(k := None)) (cancel_ctx p h) ss"
proof -
  have len: "int (length ss) < 2 ^ 63" using inv by (simp add: user_inv_def)
  show ?thesis unfolding cancel_ctx_def by (rule user_inv_remove [OF inv k len]) simp_all
qed

lemma nth_upd: "p < length h \<Longrightarrow> h[q := x] ! p = (if p = q then x else h ! p)"
  by (cases "q < length h") (auto simp: nth_list_update)

lemma update_actions_same:
  "length (update_actions conf its h) = length h \<and>
   (\<forall>p<length h. ctx_cancelled (update_actions conf its h ! p) = ctx_cancelled (h ! p) \<and>
      conn_count (update_actions conf its h ! p) = conn_count (h ! p))"
proof (induction its arbitrary: h)
  case (Cons it its)
  define h1 where "h1 = h[the (snd it) := update_context conf (h ! the (snd it))]"
  have "update_actions conf (it # its) h = update_actions conf its h1" by (simp add: h1_def Let_def)
  moreover have "length h1 = length h" by (simp add: h1_def)
  moreover have "ctx_cancelled (h1 ! p) = ctx_cancelled (h ! p) \<and> conn_count (h1 ! p) = conn_count (h ! p)"
    if "p < length h" for p
    using that by (simp add: h1_def nth_upd update_context_def)
  ultimately show ?case using Cons.IH [of h1] by simp
qed simp

lemma update_actions_nth:
  assumes "distinct (map snd its)" and "\<And>it. it \<in> set its \<Longrightarrow> snd it \<noteq> None" and "p < length h"
  shows "update_actions conf its h ! p =
    (if Some p \<in> snd ` set its then update_context conf (h ! p) else h ! p)"
  using assms
proof (induction its arbitrary: h)
  case (Cons it its)
  obtain q where q: "snd it = Some q" using Cons.prems(2) [of it] by auto
  have "Some q \<notin> snd ` set its" using Cons.prems(1) q by auto
  with Cons q show ?case by (cases "p = q") (auto simp: nth_upd)
qed simp

section \<open>The invariant of the server\<close>

text \<open>The two maps of the manager, each with the contract of a concurrent map.\<close>

locale session_maps =
  ips: concurrent_map "api_Upsert A" "api_RemoveCb A" "api_Pop A" "api_Iter A" None invA lookA +
  users: concurrent_map "api_Upsert B" "api_RemoveCb B" "api_Pop B" "api_Iter B" None invB lookB
  for A :: "('m, count_vars) cmap_api" and invA :: "'m \<Rightarrow> bool" and lookA :: "'m \<Rightarrow> string \<rightharpoonup> ptr"
    and B :: "('n, connContext list) cmap_api" and invB :: "'n \<Rightarrow> bool" and lookB :: "'n \<Rightarrow> string \<rightharpoonup> ptr"

definition sys_inv :: "('m \<Rightarrow> bool) \<Rightarrow> ('m \<Rightarrow> string \<rightharpoonup> ptr) \<Rightarrow> ('n \<Rightarrow> bool) \<Rightarrow>
    ('n \<Rightarrow> string \<rightharpoonup> ptr) \<Rightarrow> ('m, 'n) sys \<Rightarrow> bool" where
  "sys_inv invA lookA invB lookB s \<longleftrightarrow> invA (ipConnCountMap (mgr s)) \<and> invB (userCtxMap (mgr s)) \<and>
     count_inv (lookA (ipConnCountMap (mgr s))) (counters (mgr s)) (sessions s) \<and>
     user_inv (lookB (userCtxMap (mgr s))) (contexts (mgr s)) (sessions s)"

text \<open>The server before its first connection.\<close>

definition sys_start :: "('m \<Rightarrow> bool) \<Rightarrow> ('m \<Rightarrow> string \<rightharpoonup> ptr) \<Rightarrow> ('n \<Rightarrow> bool) \<Rightarrow>
    ('n \<Rightarrow> string \<rightharpoonup> ptr) \<Rightarrow> ('m, 'n) sys \<Rightarrow> bool" where
  "sys_start invA lookA invB lookB s \<longleftrightarrow>
     invA (ipConnCountMap (mgr s)) \<and> lookA (ipConnCountMap (mgr s)) = Map.empty \<and>
     invB (userCtxMap (mgr s)) \<and> lookB (userCtxMap (mgr s)) = Map.empty \<and>
     counters (mgr s) = [] \<and> contexts (mgr s) = [] \<and> sessions s = []"

lemma sys_start_inv: "sys_start invA lookA invB lookB s \<Longrightarrow> sys_inv invA lookA invB lookB s"
  by (auto simp: sys_start_def sys_inv_def count_inv_def count_cell_def user_inv_def live_def)

lemma sys_invD:
  assumes "sys_inv invA lookA invB lookB s"
  shows "invA (ipConnCountMap (mgr s))" "invB (userCtxMap (mgr s))"
    "count_inv (lookA (ipConnCountMap (mgr s))) (counters (mgr s)) (sessions s)"
    "user_inv (lookB (userCtxMap (mgr s))) (contexts (mgr s)) (sessions s)"
  using assms by (simp_all add: sys_inv_def)

lemma count_inv_same:
  assumes "count_inv L h ss" and "i < length ss" and "sess_ip s = sess_ip (ss ! i)"
  shows "count_inv L h (ss[i := s])"
proof -
  have "live (ss[i := s]) ip = live ss ip" for ip
    using live_update [OF assms(2), of s ip] assms(3) by auto
  with assms(1) show ?thesis by (simp add: count_inv_def)
qed

lemma user_inv_counted:
  assumes "user_inv L h ss" and "i < length ss" and "sess_ctx (ss ! i) = None" and "sess_ctx s = None"
  shows "user_inv L h (ss[i := s])"
proof (rule user_inv_sessions [OF assms(1)])
  show "int (length (ss[i := s])) < 2 ^ 63" using assms(1) by (simp add: user_inv_def)
  show "holders (ss[i := s]) p = holders ss p" for p
    using holders_update [OF assms(2), of s p] assms(3,4) by auto
  show "s' \<in> set ss \<or> sess_ctx s' = None" if "s' \<in> set (ss[i := s])" for s'
    using that set_update_subset_insert [of ss i s] assms(4) by auto
qed

context session_maps
begin

abbreviation "good \<equiv> sys_inv invA lookA invB lookB"

lemma AddIpConnCount_ok:
  assumes g: "good s" and len: "int (length (sessions s)) < 2 ^ 63 - 1"
  shows "\<exists>ok n m'. AddIpConnCount A ip (mgr s) = Some ((ok, n), m') \<and>
    good (s\<lparr>mgr := m', sessions := sessions s @ [if ok then Counted ip else Refused]\<rparr>) \<and>
    (ok \<longleftrightarrow> live (sessions s) ip = 0 \<or> OneIpMaxConn (nacosConfig (mgr s)) = 0 \<or>
       int (live (sessions s) ip) < OneIpMaxConn (nacosConfig (mgr s))) \<and>
    n = int (live (sessions s @ [if ok then Counted ip else Refused]) ip) \<and>
    nacosConfig m' = nacosConfig (mgr s)"
proof -
  note d = sys_invD [OF g]
  let ?L = "lookA (ipConnCountMap (mgr s))"
  obtain v h ok n where
    r: "add_count (nacosConfig (mgr s)) (?L ip \<noteq> None) (old_value None ?L ip) None
      (counters (mgr s), False, 0) = (v, h, ok, n)"
    by (metis prod.exhaust)
  obtain ips where u: "api_Upsert A (ipConnCountMap (mgr s)) ip None (add_count (nacosConfig (mgr s)))
      (counters (mgr s), False, 0) = Some ((v, h, ok, n), ips)" "invA ips" "lookA ips = ?L(ip \<mapsto> v)"
    using ips.upsert [OF d(1), of ip None "add_count (nacosConfig (mgr s))" "(counters (mgr s), False, 0)"]
    unfolding r by auto
  note c = add_count_inv [OF d(3) len r]
  have "user_inv (lookB (userCtxMap (mgr s))) (contexts (mgr s))
      (sessions s @ [if ok then Counted ip else Refused])"
    by (rule user_inv_sessions [OF d(4)]) (use len in auto)
  moreover have "AddIpConnCount A ip (mgr s) =
      Some ((ok, n), (mgr s)\<lparr>ipConnCountMap := ips, counters := h\<rparr>)"
    using u(1) by (simp add: AddIpConnCount_def getNacosConf_def)
  moreover have "good (s\<lparr>mgr := (mgr s)\<lparr>ipConnCountMap := ips, counters := h\<rparr>,
      sessions := sessions s @ [if ok then Counted ip else Refused]\<rparr>)"
    unfolding sys_inv_def using calculation(1) c [THEN conjunct1] d(2) u(2,3) by simp
  ultimately show ?thesis
    using c [THEN conjunct2]
    by (intro exI [of _ ok] exI [of _ n] exI [of _ "(mgr s)\<lparr>ipConnCountMap := ips, counters := h\<rparr>"] conjI)
       (simp_all only: manager.simps manager.select_convs manager.update_convs, simp)
qed

lemma ReduceIpConnCount_ok:
  assumes g: "good s" and i: "i < length (sessions s)" "sessions s ! i = Counted ip"
  shows "\<exists>m'. ReduceIpConnCount A ip (mgr s) = Some m' \<and>
    good (s\<lparr>mgr := m', sessions := (sessions s)[i := Finished]\<rparr>) \<and> nacosConfig m' = nacosConfig (mgr s)"
proof -
  note d = sys_invD [OF g]
  let ?L = "lookA (ipConnCountMap (mgr s))"
  obtain rm h vars where
    r: "reduce_count ip (old_value None ?L ip) (?L ip \<noteq> None) (counters (mgr s), False, 0) = (rm, h, vars)"
    by (metis prod.exhaust)
  obtain ips where u: "api_RemoveCb A (ipConnCountMap (mgr s)) ip reduce_count
      (counters (mgr s), False, 0) = Some ((rm, h, vars), ips)" "invA ips"
      "lookA ips = (if rm then ?L(ip := None) else ?L)"
    using ips.remove_cb [OF d(1), of ip reduce_count "(counters (mgr s), False, 0)"]
    unfolding r by auto
  have "user_inv (lookB (userCtxMap (mgr s))) (contexts (mgr s)) ((sessions s)[i := Finished])"
    by (rule user_inv_counted [OF d(4) i(1)]) (simp_all add: i(2))
  with reduce_count_inv [OF d(3) i r] d u show ?thesis
    by (simp add: ReduceIpConnCount_def sys_inv_def)
qed

lemma addUserConnection_ok:
  assumes g: "good s" and i: "i < length (sessions s)" "sessions s ! i = Counted ip"
  shows "\<exists>p m'. addUserConnection B now k (mgr s) = Some (Some p, m') \<and>
    p < length (contexts m') \<and> \<not> ctx_cancelled (contexts m' ! p) \<and>
    good (s\<lparr>mgr := m', sessions := (sessions s)[i := Relaying ip k p]\<rparr>) \<and>
    nacosConfig m' = nacosConfig (mgr s)"
proof -
  note d = sys_invD [OF g]
  let ?L = "lookB (userCtxMap (mgr s))"
  obtain v h where r: "add_context now (nacosConfig (mgr s)) (?L k \<noteq> None) (old_value None ?L k) None
      (contexts (mgr s)) = (v, h)"
    by (metis prod.exhaust)
  obtain us where u: "api_Upsert B (userCtxMap (mgr s)) k None (add_context now (nacosConfig (mgr s)))
      (contexts (mgr s)) = Some ((v, h), us)" "invB us" "lookB us = ?L(k \<mapsto> v)"
    using users.upsert [OF d(2), of k None "add_context now (nacosConfig (mgr s))" "contexts (mgr s)"]
    unfolding r by auto
  obtain p where p: "v = Some p" "p < length h" "\<not> ctx_cancelled (h ! p)"
      "user_inv (?L(k \<mapsto> v)) h ((sessions s)[i := Relaying ip k p])"
    using add_context_inv [OF d(4) i r] by blast
  have "count_inv (lookA (ipConnCountMap (mgr s))) (counters (mgr s))
      ((sessions s)[i := Relaying ip k p])"
    by (rule count_inv_same [OF d(3) i(1)]) (simp add: i(2))
  with p d u show ?thesis
    by (simp add: addUserConnection_def getNacosConf_def sys_inv_def)
qed

lemma addUserConnection_fresh:
  assumes g: "good s" and k: "lookB (userCtxMap (mgr s)) k = None"
  shows "\<exists>p m'. addUserConnection B now k (mgr s) = Some (Some p, m') \<and>
    \<not> ctx_cancelled (contexts m' ! p) \<and> conn_count (contexts m' ! p) = 1"
  using users.upsert [OF sys_invD(2) [OF g], of k None "add_context now (nacosConfig (mgr s))"
      "contexts (mgr s)"] k
  by (auto simp: addUserConnection_def getNacosConf_def add_context_def)

lemma deleteUserConnection_ok:
  assumes g: "good s" and i: "i < length (sessions s)" "sessions s ! i = Relaying ip k p"
  shows "\<exists>m'. deleteUserConnection B k (Some p) (mgr s) = Some m' \<and>
    good (s\<lparr>mgr := m', sessions := (sessions s)[i := Counted ip]\<rparr>) \<and>
    nacosConfig m' = nacosConfig (mgr s)"
proof -
  note d = sys_invD [OF g]
  let ?L = "lookB (userCtxMap (mgr s))"
  obtain rm h where r: "delete_context (Some p) k (old_value None ?L k) (?L k \<noteq> None)
      (contexts (mgr s)) = (rm, h)"
    by (metis prod.exhaust)
  obtain us where u: "api_RemoveCb B (userCtxMap (mgr s)) k (delete_context (Some p))
      (contexts (mgr s)) = Some ((rm, h), us)" "invB us"
      "lookB us = (if rm then ?L(k := None) else ?L)"
    using users.remove_cb [OF d(2), of k "delete_context (Some p)" "contexts (mgr s)"]
    unfolding r by auto
  have "count_inv (lookA (ipConnCountMap (mgr s))) (counters (mgr s)) ((sessions s)[i := Counted ip])"
    by (rule count_inv_same [OF d(3) i(1)]) (simp add: i(2))
  with delete_context_inv [OF d(4) i r] d u show ?thesis
    by (simp add: deleteUserConnection_def sys_inv_def)
qed

lemma CloseUserConnections_ok:
  assumes g: "good s"
  shows "\<exists>e m'. CloseUserConnections B k (mgr s) = Some (e, m') \<and> good (s\<lparr>mgr := m'\<rparr>) \<and>
    nacosConfig m' = nacosConfig (mgr s) \<and>
    lookB (userCtxMap m') = (lookB (userCtxMap (mgr s)))(k := None) \<and>
    (case lookB (userCtxMap (mgr s)) k of
       Some (Some p) \<Rightarrow> e = None \<and> contexts m' = cancel_ctx p (contexts (mgr s))
     | _ \<Rightarrow> e \<noteq> None \<and> contexts m' = contexts (mgr s))"
proof -
  note d = sys_invD [OF g]
  let ?L = "lookB (userCtxMap (mgr s))"
  obtain us where u: "api_Pop B (userCtxMap (mgr s)) k = Some ((old_value None ?L k, ?L k \<noteq> None), us)"
      "invB us" "lookB us = ?L(k := None)"
    using users.pop [OF d(2), of k] by blast
  show ?thesis
  proof (cases "?L k")
    case None
    then have "?L(k := None) = ?L" by auto
    with None d u show ?thesis by (simp add: CloseUserConnections_def sys_inv_def)
  next
    case (Some v)
    obtain p where p: "v = Some p" using user_inv_cell [OF d(4) Some] by blast
    then show ?thesis
      using Some d u pop_context_inv [OF d(4), of k p] by (simp add: CloseUserConnections_def sys_inv_def)
  qed
qed

lemma updateLimitedReaderAction_ok:
  assumes g: "good s"
  shows "\<exists>m'. updateLimitedReaderAction B sched (mgr s) = Some m' \<and> good (s\<lparr>mgr := m'\<rparr>) \<and>
    nacosConfig m' = nacosConfig (mgr s)"
proof -
  note d = sys_invD [OF g]
  obtain its where its: "api_Iter B sched (userCtxMap (mgr s)) = Some its"
    using users.iter [OF d(2), of sched] by blast
  have "user_inv (lookB (userCtxMap (mgr s)))
      (update_actions (nacosConfig (mgr s)) its (contexts (mgr s))) (sessions s)"
    using update_actions_same [of "nacosConfig (mgr s)" its "contexts (mgr s)"]
    by (intro user_inv_heap [OF d(4)]) auto
  with its d show ?thesis
    by (simp add: updateLimitedReaderAction_def getNacosConf_def sys_inv_def)
qed

lemma setNacosConf_ok: "good s \<Longrightarrow> good (s\<lparr>mgr := setNacosConf conf (mgr s)\<rparr>)"
  by (simp add: sys_inv_def setNacosConf_def)

lemma mstep_inv:
  assumes "mstep A B P s s'" and g: "good s"
  shows "good s'"
  using assms(1)
proof cases
  case (accept ip ok n m')
  then show ?thesis using AddIpConnCount_ok [OF g, of ip] by auto
next
  case (start i ip now k p m')
  then show ?thesis using addUserConnection_ok [OF g, of i ip now k] by auto
next
  case (stop i ip k p m')
  then show ?thesis using deleteUserConnection_ok [OF g, of i ip k p] by auto
next
  case (leave i ip m')
  then show ?thesis using ReduceIpConnCount_ok [OF g, of i ip] by auto
next
  case (kick k e m')
  then show ?thesis using CloseUserConnections_ok [OF g, of k] by auto
next
  case (reconfigure conf)
  then show ?thesis using setNacosConf_ok [OF g] by simp
next
  case (refresh sched m')
  then show ?thesis using updateLimitedReaderAction_ok [OF g, of sched] by auto
qed

lemma mreach_inv: "mreach A B P s0 s \<Longrightarrow> sys_start invA lookA invB lookB s0 \<Longrightarrow> good s"
  by (induction rule: mreach.induct) (auto intro: sys_start_inv mstep_inv)

lemma context_exact:
  assumes g: "good s" and r: "Relaying ip k p \<in> set (sessions s)"
  shows "p < length (contexts (mgr s)) \<and>
    (ctx_cancelled (contexts (mgr s) ! p) \<longleftrightarrow> lookB (userCtxMap (mgr s)) k \<noteq> Some (Some p))"
proof -
  note u = sys_invD(4) [OF g]
  have "sess_ok (lookB (userCtxMap (mgr s))) (contexts (mgr s)) (Relaying ip k p)"
    using u r by (auto simp: user_inv_def)
  then show ?thesis using u by (auto elim: user_inv_cell)
qed

text \<open>What popping a key and cancelling its context does to the relaying handlers.\<close>

lemma pop_effect:
  assumes g: "good s"
    and m': "lookB (userCtxMap m') = (lookB (userCtxMap (mgr s)))(k := None)"
      "contexts m' = (case lookB (userCtxMap (mgr s)) k of
         Some (Some q) \<Rightarrow> cancel_ctx q (contexts (mgr s)) | _ \<Rightarrow> contexts (mgr s))"
    and r: "Relaying ip k' p \<in> set (sessions s)"
  shows "ctx_cancelled (contexts m' ! p) \<longleftrightarrow> k' = k \<or> ctx_cancelled (contexts (mgr s) ! p)"
proof -
  note u = sys_invD(4) [OF g]
  note c = context_exact [OF g r]
  show ?thesis
  proof (cases "lookB (userCtxMap (mgr s)) k")
    case None
    then show ?thesis using m' c by auto
  next
    case (Some v)
    obtain q where q: "v = Some q" "q < length (contexts (mgr s))" using user_inv_cell [OF u Some] by blast
    have h: "contexts m' = cancel_ctx q (contexts (mgr s))" using m'(2) Some q(1) by simp
    show ?thesis
    proof (cases "p = q")
      case True
      then have "k' = k" using user_inv_holder [OF u, of k q ip k'] Some q(1) r by simp
      with True h q(2) show ?thesis by (simp add: cancel_ctx_def)
    next
      case False
      then have "contexts m' ! p = contexts (mgr s) ! p"
        using h by (simp add: cancel_ctx_def)
      moreover have "k' = k \<Longrightarrow> ctx_cancelled (contexts (mgr s) ! p)"
        using c Some q(1) False by auto
      ultimately show ?thesis by auto
    qed
  qed
qed

text \<open>Closing one key after the other, by either consumer.\<close>

lemma close_one:
  assumes g: "good s" and pop: "api_Pop B (userCtxMap (mgr s)) k = Some ((v, exist), us)"
  defines "m' \<equiv> (if exist \<and> v \<noteq> None
      then (mgr s)\<lparr>userCtxMap := us, contexts := cancel_ctx (the v) (contexts (mgr s))\<rparr>
      else (mgr s)\<lparr>userCtxMap := us\<rparr>)"
  shows "good (s\<lparr>mgr := m'\<rparr>) \<and> (\<forall>ip k' p. Relaying ip k' p \<in> set (sessions s) \<longrightarrow>
    ctx_cancelled (contexts m' ! p) = (k' = k \<or> ctx_cancelled (contexts (mgr s) ! p)))"
proof -
  have e: "\<exists>e. CloseUserConnections B k (mgr s) = Some (e, m')"
    using pop by (auto simp: CloseUserConnections_def m'_def)
  then have g': "good (s\<lparr>mgr := m'\<rparr>)"
    and l: "lookB (userCtxMap m') = (lookB (userCtxMap (mgr s)))(k := None)"
    and c: "contexts m' = (case lookB (userCtxMap (mgr s)) k of
         Some (Some q) \<Rightarrow> cancel_ctx q (contexts (mgr s)) | _ \<Rightarrow> contexts (mgr s))"
    using CloseUserConnections_ok [OF g, of k] by (auto split: option.splits)
  show ?thesis using g' pop_effect [OF g l c] by blast
qed

lemma close_matching_ok:
  "good s \<Longrightarrow> \<exists>m'. close_matching B u its (mgr s) = Some m' \<and> good (s\<lparr>mgr := m'\<rparr>) \<and>
    (\<forall>ip k p. Relaying ip k p \<in> set (sessions s) \<longrightarrow> ctx_cancelled (contexts m' ! p) =
      (k \<in> fst ` set its \<and> hd (split_colon k) = u \<or> ctx_cancelled (contexts (mgr s) ! p)))"
proof (induction its arbitrary: s)
  case Nil
  then show ?case by simp
next
  case (Cons it its)
  have ne: "split_colon (fst it) \<noteq> []" by (cases "fst it") auto
  show ?case
  proof (cases "hd (split_colon (fst it)) = u")
    case False
    with ne have "close_matching B u (it # its) (mgr s) = close_matching B u its (mgr s)"
      by (simp add: hd_conv_nth)
    moreover obtain m' where "close_matching B u its (mgr s) = Some m'" "good (s\<lparr>mgr := m'\<rparr>)"
      "\<forall>ip k p. Relaying ip k p \<in> set (sessions s) \<longrightarrow> ctx_cancelled (contexts m' ! p) =
        (k \<in> fst ` set its \<and> hd (split_colon k) = u \<or> ctx_cancelled (contexts (mgr s) ! p))"
      using Cons.IH [OF Cons.prems] by blast
    ultimately show ?thesis using False by (intro exI [of _ m']) auto
  next
    case True
    obtain v exist us where pop: "api_Pop B (userCtxMap (mgr s)) (fst it) = Some ((v, exist), us)"
      using users.pop [OF sys_invD(2) [OF Cons.prems], of "fst it"] by blast
    define m1 where "m1 = (if exist \<and> v \<noteq> None
      then (mgr s)\<lparr>userCtxMap := us, contexts := cancel_ctx (the v) (contexts (mgr s))\<rparr>
      else (mgr s)\<lparr>userCtxMap := us\<rparr>)"
    note one = close_one [OF Cons.prems pop, folded m1_def]
    have st: "close_matching B u (it # its) (mgr s) = close_matching B u its m1"
      using True ne pop by (simp add: hd_conv_nth m1_def)
    from one Cons.IH [of "s\<lparr>mgr := m1\<rparr>"] obtain m' where
      "close_matching B u its m1 = Some m'" "good (s\<lparr>mgr := m'\<rparr>)"
      "\<forall>ip k p. Relaying ip k p \<in> set (sessions s) \<longrightarrow> ctx_cancelled (contexts m' ! p) =
        (k \<in> fst ` set its \<and> hd (split_colon k) = u \<or> ctx_cancelled (contexts m1 ! p))"
      by auto
    with one True st show ?thesis by (intro exI [of _ m']) auto
  qed
qed

lemma close_user_ok:
  assumes g: "good s"
  shows "\<exists>m'. close_user B sched u (mgr s) = Some m' \<and> good (s\<lparr>mgr := m'\<rparr>) \<and>
    (\<forall>ip k p. Relaying ip k p \<in> set (sessions s) \<longrightarrow> ctx_cancelled (contexts m' ! p) =
      (hd (split_colon k) = u \<or> ctx_cancelled (contexts (mgr s) ! p)))"
proof -
  obtain its where its: "api_Iter B sched (userCtxMap (mgr s)) = Some its"
      "map_of its = lookB (userCtxMap (mgr s))"
    using users.iter [OF sys_invD(2) [OF g], of sched] by blast
  have k: "k \<in> fst ` set its" if "Relaying ip k p \<in> set (sessions s)"
    "\<not> ctx_cancelled (contexts (mgr s) ! p)" for ip k p
  proof -
    have "map_of its k = Some (Some p)" using context_exact [OF g that(1)] that(2) its(2) by simp
    then show ?thesis by (force dest: map_of_SomeD)
  qed
  obtain m' where m': "close_matching B u its (mgr s) = Some m'" "good (s\<lparr>mgr := m'\<rparr>)"
      "\<forall>ip k p. Relaying ip k p \<in> set (sessions s) \<longrightarrow> ctx_cancelled (contexts m' ! p) =
        (k \<in> fst ` set its \<and> hd (split_colon k) = u \<or> ctx_cancelled (contexts (mgr s) ! p))"
    using close_matching_ok [OF g] by blast
  have "ctx_cancelled (contexts m' ! p) = (hd (split_colon k) = u \<or> ctx_cancelled (contexts (mgr s) ! p))"
    if r: "Relaying ip k p \<in> set (sessions s)" for ip k p
  proof -
    have "ctx_cancelled (contexts m' ! p) =
        (k \<in> fst ` set its \<and> hd (split_colon k) = u \<or> ctx_cancelled (contexts (mgr s) ! p))"
      using m'(3) r by simp
    with k [OF r] show ?thesis by argo
  qed
  with m'(1,2) its(1) show ?thesis by (simp add: close_user_def)
qed

lemma close_ips_ok:
  "good s \<Longrightarrow> \<exists>m'. close_ips B u ips (mgr s) = Some m' \<and> good (s\<lparr>mgr := m'\<rparr>) \<and>
    (\<forall>ip k p. Relaying ip k p \<in> set (sessions s) \<longrightarrow> ctx_cancelled (contexts m' ! p) =
      (k \<in> user_key u ` set ips \<or> ctx_cancelled (contexts (mgr s) ! p)))"
proof (induction ips arbitrary: s)
  case Nil
  then show ?case by simp
next
  case (Cons a ips)
  obtain v exist us where pop: "api_Pop B (userCtxMap (mgr s)) (user_key u a) = Some ((v, exist), us)"
    using users.pop [OF sys_invD(2) [OF Cons.prems], of "user_key u a"] by blast
  define m1 where "m1 = (if exist \<and> v \<noteq> None
    then (mgr s)\<lparr>userCtxMap := us, contexts := cancel_ctx (the v) (contexts (mgr s))\<rparr>
    else (mgr s)\<lparr>userCtxMap := us\<rparr>)"
  note one = close_one [OF Cons.prems pop, folded m1_def]
  have st: "close_ips B u (a # ips) (mgr s) = close_ips B u ips m1"
    using pop by (cases "exist \<and> v \<noteq> None") (auto simp: CloseUserConnections_def m1_def)
  from one Cons.IH [of "s\<lparr>mgr := m1\<rparr>"] obtain m' where
    "close_ips B u ips m1 = Some m'" "good (s\<lparr>mgr := m'\<rparr>)"
    "\<forall>ip k p. Relaying ip k p \<in> set (sessions s) \<longrightarrow> ctx_cancelled (contexts m' ! p) =
      (k \<in> user_key u ` set ips \<or> ctx_cancelled (contexts m1 ! p))"
    by auto
  with one st show ?case by (intro exI [of _ m']) auto
qed

lemma refresh_effect:
  assumes g: "good s"
  shows "\<exists>m'. updateLimitedReaderAction B sched (mgr s) = Some m' \<and>
    (\<forall>p<length (contexts (mgr s)). contexts m' ! p =
      (if ctx_cancelled (contexts (mgr s) ! p) then contexts (mgr s) ! p
       else update_context (nacosConfig (mgr s)) (contexts (mgr s) ! p)))"
proof -
  note u = sys_invD(4) [OF g]
  obtain its where its: "api_Iter B sched (userCtxMap (mgr s)) = Some its" "distinct (map fst its)"
      "map_of its = lookB (userCtxMap (mgr s))"
    using users.iter [OF sys_invD(2) [OF g], of sched] by blast
  have mem: "(k, v) \<in> set its \<longleftrightarrow> lookB (userCtxMap (mgr s)) k = Some v" for k v
    using its(2,3) by (metis map_of_eq_Some_iff)
  have d: "distinct (map snd its)"
  proof -
    have "inj_on snd (set its)"
      using mem user_inv_inj [OF u] by (auto simp: inj_on_def)
    then show ?thesis using its(2) by (simp add: distinct_map)
  qed
  have nn: "snd it \<noteq> None" if "it \<in> set its" for it
    using that mem [of "fst it" "snd it"] user_inv_cell [OF u, of "fst it" "snd it"] by (metis option.distinct(1) prod.collapse)
  have "Some p \<in> snd ` set its \<longleftrightarrow> \<not> ctx_cancelled (contexts (mgr s) ! p)"
    if p: "p < length (contexts (mgr s))" for p
  proof
    assume "Some p \<in> snd ` set its"
    then obtain k where "lookB (userCtxMap (mgr s)) k = Some (Some p)" using mem by auto
    then show "\<not> ctx_cancelled (contexts (mgr s) ! p)" using u by (auto elim: user_inv_cell)
  next
    assume "\<not> ctx_cancelled (contexts (mgr s) ! p)"
    then obtain k where "lookB (userCtxMap (mgr s)) k = Some (Some p)"
      using u p by (fastforce simp: user_inv_def image_iff)
    then have "(k, Some p) \<in> set its" using mem by simp
    then show "Some p \<in> snd ` set its" by force
  qed
  with update_actions_nth [OF d nn] its(1) show ?thesis
    by (simp add: updateLimitedReaderAction_def getNacosConf_def)
qed

lemma limit_step:
  assumes "mstep A B (\<lambda>c. 1 \<le> OneIpMaxConn c \<and> OneIpMaxConn c \<le> N) s s'" and g: "good s"
    and c: "1 \<le> OneIpMaxConn (nacosConfig (mgr s))" "OneIpMaxConn (nacosConfig (mgr s)) \<le> N"
    and l: "\<forall>ip. int (live (sessions s) ip) \<le> N"
  shows "1 \<le> OneIpMaxConn (nacosConfig (mgr s')) \<and> OneIpMaxConn (nacosConfig (mgr s')) \<le> N \<and>
    (\<forall>ip. int (live (sessions s') ip) \<le> N)"
  using assms(1)
proof cases
  case (accept ip ok n m')
  then have m': "ok \<longleftrightarrow> live (sessions s) ip = 0 \<or> OneIpMaxConn (nacosConfig (mgr s)) = 0 \<or>
      int (live (sessions s) ip) < OneIpMaxConn (nacosConfig (mgr s))"
    "nacosConfig m' = nacosConfig (mgr s)"
    using AddIpConnCount_ok [OF g, of ip] by auto
  have "int (live (sessions s') ip') \<le> N" for ip'
  proof (cases "ok \<and> ip' = ip")
    case True
    then show ?thesis using accept(1) m'(1) c by auto
  next
    case False
    then show ?thesis using accept(1) l by auto
  qed
  then show ?thesis using accept(1) m'(2) c by simp
next
  case (start i ip now k p m')
  moreover have "live ((sessions s)[i := Relaying ip k p]) ip' = live (sessions s) ip'" for ip'
    using live_update [OF start(2), of "Relaying ip k p" ip'] start(3) by auto
  ultimately show ?thesis using addUserConnection_ok [OF g start(2,3), of now k] c l by auto
next
  case (stop i ip k p m')
  moreover have "live ((sessions s)[i := Counted ip]) ip' = live (sessions s) ip'" for ip'
    using live_update [OF stop(2), of "Counted ip" ip'] stop(3) by auto
  ultimately show ?thesis using deleteUserConnection_ok [OF g stop(2,3)] c l by auto
next
  case (leave i ip m')
  have "int (live ((sessions s)[i := Finished]) ip') \<le> int (live (sessions s) ip')" for ip'
    using live_update [OF leave(2), of Finished ip'] leave(3) by auto
  then have "int (live ((sessions s)[i := Finished]) ip') \<le> N" for ip' using l by (meson order_trans)
  then show ?thesis using leave ReduceIpConnCount_ok [OF g leave(2,3)] c by auto
next
  case (kick k e m')
  then show ?thesis using CloseUserConnections_ok [OF g, of k] c l by auto
next
  case (reconfigure conf)
  then show ?thesis using l by (simp add: setNacosConf_def)
next
  case (refresh sched m')
  then show ?thesis using updateLimitedReaderAction_ok [OF g, of sched] c l by auto
qed

lemma limit_reach:
  assumes "mreach A B (\<lambda>c. 1 \<le> OneIpMaxConn c \<and> OneIpMaxConn c \<le> N) s0 s"
    and s0: "sys_start invA lookA invB lookB s0"
    and c: "1 \<le> OneIpMaxConn (nacosConfig (mgr s0))" "OneIpMaxConn (nacosConfig (mgr s0)) \<le> N"
  shows "1 \<le> OneIpMaxConn (nacosConfig (mgr s)) \<and> OneIpMaxConn (nacosConfig (mgr s)) \<le> N \<and>
    (\<forall>ip. int (live (sessions s) ip) \<le> N)"
  using assms(1)
proof (induction rule: mreach.induct)
  case mreach_init
  then show ?case using c s0 by (simp add: sys_start_def live_def)
next
  case (mreach_step s s')
  then show ?case using limit_step [OF mreach_step(2) mreach_inv [OF mreach_step(1) s0]] by blast
qed

end

section \<open>Closing a key in two steps\<close>

text \<open>
  In \<open>mstep\<close> a message that closes a key pops the entry and cancels its context in one step. In the code the
  lock of the map is given back in between, so that other handlers may run before \<open>cancel()\<close>; and every context is
  a child of the context of the task manager, which \<open>Stop\<close> cancels whether they are entries or not. \<open>fstep\<close> is the server at
  this granularity: \<open>f_popped\<close> has the contexts that a goroutine has popped and is about to cancel, \<open>f_done\<close> says that the parent
  context has been cancelled.
\<close>

record ('m, 'n) fsys =
  f_sys :: "('m, 'n) sys"
  f_popped :: "nat list"
  f_done :: bool

definition set_mgr :: "('m, 'n) manager \<Rightarrow> ('m, 'n) fsys \<Rightarrow> ('m, 'n) fsys" where
  "set_mgr m s = s\<lparr>f_sys := f_sys s\<lparr>mgr := m\<rparr>\<rparr>"

inductive fstep :: "('m, count_vars) cmap_api \<Rightarrow> ('n, connContext list) cmap_api \<Rightarrow>
    (NacosConfig \<Rightarrow> bool) \<Rightarrow> ('m, 'n) fsys \<Rightarrow> ('m, 'n) fsys \<Rightarrow> bool"
  for A :: "('m, count_vars) cmap_api" and B :: "('n, connContext list) cmap_api"
    and P :: "NacosConfig \<Rightarrow> bool"
where
  other_op: "mstep A B P (f_sys s) t \<Longrightarrow> fstep A B P s (s\<lparr>f_sys := t\<rparr>)"
| pop_key: "m = mgr (f_sys s) \<Longrightarrow> api_Pop B (userCtxMap m) k = Some ((v, exist), users) \<Longrightarrow>
    fstep A B P s (set_mgr (m\<lparr>userCtxMap := users\<rparr>)
      (s\<lparr>f_popped := (if exist \<and> v \<noteq> None then [the v] else []) @ f_popped s\<rparr>))"
| cancel_popped: "m = mgr (f_sys s) \<Longrightarrow> p \<in> set (f_popped s) \<Longrightarrow>
    fstep A B P s (set_mgr (m\<lparr>contexts := cancel_ctx p (contexts m)\<rparr>) (s\<lparr>f_popped := remove1 p (f_popped s)\<rparr>))"
| stop_parent: "fstep A B P s (s\<lparr>f_done := True\<rparr>)"

inductive freach :: "('m, count_vars) cmap_api \<Rightarrow> ('n, connContext list) cmap_api \<Rightarrow>
    (NacosConfig \<Rightarrow> bool) \<Rightarrow> ('m, 'n) sys \<Rightarrow> ('m, 'n) fsys \<Rightarrow> bool"
  for A :: "('m, count_vars) cmap_api" and B :: "('n, connContext list) cmap_api"
    and P :: "NacosConfig \<Rightarrow> bool" and s0 :: "('m, 'n) sys"
where
  freach_init: "freach A B P s0 \<lparr>f_sys = s0, f_popped = [], f_done = False\<rparr>"
| freach_step: "freach A B P s0 s \<Longrightarrow> fstep A B P s s' \<Longrightarrow> freach A B P s0 s'"

lemma mreach_freach: "mreach A B P s0 t \<Longrightarrow> freach A B P s0 \<lparr>f_sys = t, f_popped = [], f_done = False\<rparr>"
proof (induction rule: mreach.induct)
  case (mreach_step s s')
  then show ?case using freach_step [OF mreach_step.IH other_op] by simp
qed (rule freach_init)

text \<open>\<open>ctx.Done()\<close> is closed.\<close>

definition context_done :: "('m, 'n) fsys \<Rightarrow> nat \<Rightarrow> bool" where
  "context_done s p \<longleftrightarrow> f_done s \<or> ctx_cancelled (contexts (mgr (f_sys s)) ! p)"

text \<open>The contexts with those cancelled that are about to be.\<close>

definition settle :: "nat list \<Rightarrow> connContext list \<Rightarrow> connContext list" where
  "settle ps h = map (\<lambda>p. (h ! p)\<lparr>ctx_cancelled := ctx_cancelled (h ! p) \<or> p \<in> set ps\<rparr>) [0..<length h]"

definition settled :: "('m, 'n) fsys \<Rightarrow> ('m, 'n) sys" where
  "settled s = f_sys s\<lparr>mgr := (mgr (f_sys s))\<lparr>contexts := settle (f_popped s) (contexts (mgr (f_sys s)))\<rparr>\<rparr>"

lemma length_settle [simp]: "length (settle ps h) = length h"
  by (simp add: settle_def)

lemma nth_settle: "p < length h \<Longrightarrow> settle ps h ! p = (h ! p)\<lparr>ctx_cancelled := ctx_cancelled (h ! p) \<or> p \<in> set ps\<rparr>"
  by (simp add: settle_def)

lemma settle_nil [simp]: "settle [] h = h"
  by (simp add: nth_settle list_eq_iff_nth_eq)

lemma settled_simps [simp]:
  "sessions (settled s) = sessions (f_sys s)" "contexts (mgr (settled s)) = settle (f_popped s) (contexts (mgr (f_sys s)))"
  "userCtxMap (mgr (settled s)) = userCtxMap (mgr (f_sys s))" "ipConnCountMap (mgr (settled s)) = ipConnCountMap (mgr (f_sys s))"
  "counters (mgr (settled s)) = counters (mgr (f_sys s))" "nacosConfig (mgr (settled s)) = nacosConfig (mgr (f_sys s))"
  by (simp_all add: settled_def)

text \<open>The callbacks of the map do not look at the flag.\<close>

lemma settle_add_context:
  assumes "ex \<Longrightarrow> \<exists>p. v = Some p \<and> p < length h" and "\<forall>q\<in>set ps. q < length h"
  shows "add_context now conf ex v new (settle ps h) =
    (fst (add_context now conf ex v new h), settle ps (snd (add_context now conf ex v new h)))"
proof (cases ex)
  case True
  then obtain p where "v = Some p" "p < length h" using assms(1) by blast
  then show ?thesis using True
    by (simp add: add_context_def list_eq_iff_nth_eq nth_settle nth_list_update)
next
  case False
  have "length h \<notin> set ps" using assms(2) by auto
  then show ?thesis using False
    by (auto simp: add_context_def list_eq_iff_nth_eq nth_settle nth_append less_Suc_eq)
qed

lemma settle_delete_context:
  assumes "ex \<Longrightarrow> v = ctx \<Longrightarrow> \<exists>p. v = Some p \<and> p < length h"
  shows "delete_context ctx k v ex (settle ps h) =
    (fst (delete_context ctx k v ex h), settle ps (snd (delete_context ctx k v ex h)))"
proof (cases "ex \<and> v = ctx")
  case True
  then obtain p where "v = Some p" "p < length h" using assms by blast
  then show ?thesis using True
    by (simp add: delete_context_def cancel_ctx_def Let_def list_eq_iff_nth_eq nth_settle nth_list_update)
next
  case False
  then show ?thesis by (auto simp: delete_context_def)
qed

lemma settle_pop: "p < length h \<Longrightarrow> settle (p # ps) h = cancel_ctx p (settle ps h)"
  by (simp add: cancel_ctx_def list_eq_iff_nth_eq nth_settle nth_list_update)

lemma settle_cancel: "p \<in> set ps \<Longrightarrow> p < length h \<Longrightarrow> settle (remove1 p ps) (cancel_ctx p h) = settle ps h"
  by (auto simp: cancel_ctx_def list_eq_iff_nth_eq nth_settle nth_list_update in_set_remove1 dest: set_remove1_subset [THEN subsetD])

text \<open>The contexts about to be cancelled exist, are not cancelled, and no two goroutines have the same.\<close>

definition popped_ok :: "nat list \<Rightarrow> connContext list \<Rightarrow> bool" where
  "popped_ok ps h \<longleftrightarrow> distinct ps \<and> (\<forall>p\<in>set ps. p < length h \<and> \<not> ctx_cancelled (h ! p))"

lemma popped_ok_same:
  assumes "popped_ok ps h" "length h \<le> length h'" "\<And>p. p \<in> set ps \<Longrightarrow> p < length h \<Longrightarrow> ctx_cancelled (h' ! p) = ctx_cancelled (h ! p)"
  shows "popped_ok ps h'"
  using assms by (force simp: popped_ok_def)

text \<open>An entry is none of them.\<close>

lemma user_inv_settled:
  assumes "user_inv L (settle ps h) ss" "L k = Some v"
  obtains p where "v = Some p" "p < length h" "\<not> ctx_cancelled (h ! p)" "p \<notin> set ps"
    "conn_count (h ! p) = of_nat (holders ss p)" "0 < holders ss p"
proof -
  obtain p where "v = Some p" "p < length h" "\<not> ctx_cancelled (settle ps h ! p)"
    "conn_count (settle ps h ! p) = of_nat (holders ss p)" "0 < holders ss p"
    using user_inv_cell [OF assms] by (metis length_settle)
  then show thesis using that by (auto simp: nth_settle)
qed

definition fine_inv :: "('m \<Rightarrow> bool) \<Rightarrow> ('m \<Rightarrow> string \<rightharpoonup> ptr) \<Rightarrow> ('n \<Rightarrow> bool) \<Rightarrow>
    ('n \<Rightarrow> string \<rightharpoonup> ptr) \<Rightarrow> ('m, 'n) fsys \<Rightarrow> bool" where
  "fine_inv invA lookA invB lookB s \<longleftrightarrow> sys_inv invA lookA invB lookB (settled s) \<and>
     popped_ok (f_popped s) (contexts (mgr (f_sys s)))"

context session_maps
begin

abbreviation "fine \<equiv> fine_inv invA lookA invB lookB"

lemma fine_start:
  assumes f: "fine s" and i: "i < length (sessions (f_sys s))" "sessions (f_sys s) ! i = Counted ip"
    and a: "addUserConnection B now k (mgr (f_sys s)) = Some (Some p, m')"
  shows "fine (s\<lparr>f_sys := f_sys s\<lparr>mgr := m', sessions := (sessions (f_sys s))[i := Relaying ip k p]\<rparr>\<rparr>)"
proof -
  let ?m = "mgr (f_sys s)" and ?ps = "f_popped s" and ?ss = "sessions (f_sys s)"
  let ?L = "lookB (userCtxMap ?m)" and ?h = "contexts ?m"
  have d: "invA (ipConnCountMap ?m)" "invB (userCtxMap ?m)" "count_inv (lookA (ipConnCountMap ?m)) (counters ?m) ?ss"
    "user_inv ?L (settle ?ps ?h) ?ss" and ok: "popped_ok ?ps ?h"
    using f sys_invD [of invA lookA invB lookB "settled s"] by (simp_all add: fine_inv_def)
  obtain v h where r: "add_context now (nacosConfig ?m) (?L k \<noteq> None) (old_value None ?L k) None ?h = (v, h)"
    by (metis prod.exhaust)
  obtain us where u: "api_Upsert B (userCtxMap ?m) k None (add_context now (nacosConfig ?m)) ?h = Some ((v, h), us)"
    "invB us" "lookB us = ?L(k \<mapsto> v)"
    using users.upsert [OF d(2), of k None "add_context now (nacosConfig ?m)" ?h] unfolding r by auto
  have m': "v = Some p" "m' = ?m\<lparr>userCtxMap := us, contexts := h\<rparr>"
    using a u(1) by (auto simp: addUserConnection_def getNacosConf_def)
  have e: "\<exists>q. old_value None ?L k = Some q \<and> q < length ?h \<and> \<not> ctx_cancelled (?h ! q)" if "?L k \<noteq> None"
    using that user_inv_settled [OF d(4), of k] by (cases "?L k") (auto simp: old_value_def)
  have "add_context now (nacosConfig ?m) (?L k \<noteq> None) (old_value None ?L k) None (settle ?ps ?h) = (v, settle ?ps h)"
    using settle_add_context [of "?L k \<noteq> None" "old_value None ?L k" ?h ?ps now "nacosConfig ?m" None] e ok
    unfolding r popped_ok_def by auto
  from add_context_inv [OF d(4) i this] have "user_inv (?L(k \<mapsto> v)) (settle ?ps h) (?ss[i := Relaying ip k p])"
    using m'(1) by auto
  moreover have "count_inv (lookA (ipConnCountMap ?m)) (counters ?m) (?ss[i := Relaying ip k p])"
    by (rule count_inv_same [OF d(3) i(1)]) (simp add: i(2))
  moreover have "popped_ok ?ps h"
    using r e by (intro popped_ok_same [OF ok]) (auto simp: add_context_def Let_def nth_append nth_list_update split: if_splits)
  ultimately show ?thesis using d(1) u(2,3) m'(2) by (simp add: fine_inv_def sys_inv_def)
qed

lemma fine_stop:
  assumes f: "fine s" and i: "i < length (sessions (f_sys s))" "sessions (f_sys s) ! i = Relaying ip k p"
    and a: "deleteUserConnection B k (Some p) (mgr (f_sys s)) = Some m'"
  shows "fine (s\<lparr>f_sys := f_sys s\<lparr>mgr := m', sessions := (sessions (f_sys s))[i := Counted ip]\<rparr>\<rparr>)"
proof -
  let ?m = "mgr (f_sys s)" and ?ps = "f_popped s" and ?ss = "sessions (f_sys s)"
  let ?L = "lookB (userCtxMap ?m)" and ?h = "contexts ?m"
  have d: "invA (ipConnCountMap ?m)" "invB (userCtxMap ?m)" "count_inv (lookA (ipConnCountMap ?m)) (counters ?m) ?ss"
    "user_inv ?L (settle ?ps ?h) ?ss" and ok: "popped_ok ?ps ?h"
    using f sys_invD [of invA lookA invB lookB "settled s"] by (simp_all add: fine_inv_def)
  obtain rm h where r: "delete_context (Some p) k (old_value None ?L k) (?L k \<noteq> None) ?h = (rm, h)"
    by (metis prod.exhaust)
  obtain us where u: "api_RemoveCb B (userCtxMap ?m) k (delete_context (Some p)) ?h = Some ((rm, h), us)" "invB us"
      "lookB us = (if rm then ?L(k := None) else ?L)"
    using users.remove_cb [OF d(2), of k "delete_context (Some p)" ?h] unfolding r by auto
  have m': "m' = ?m\<lparr>userCtxMap := us, contexts := h\<rparr>" using a u(1) by (auto simp: deleteUserConnection_def)
  have e: "\<exists>q. old_value None ?L k = Some q \<and> q < length ?h \<and> q \<notin> set ?ps" if "?L k \<noteq> None"
    using that user_inv_settled [OF d(4), of k] by (cases "?L k") (auto simp: old_value_def)
  have "delete_context (Some p) k (old_value None ?L k) (?L k \<noteq> None) (settle ?ps ?h) = (rm, settle ?ps h)"
  proof -
    have "delete_context (Some p) k (old_value None ?L k) (?L k \<noteq> None) (settle ?ps ?h) =
        (fst (rm, h), settle ?ps (snd (rm, h)))"
      unfolding r [symmetric] by (rule settle_delete_context) (use e in blast)
    then show ?thesis by simp
  qed
  from delete_context_inv [OF d(4) i this] have "user_inv (lookB us) (settle ?ps h) (?ss[i := Counted ip])" using u(3) by simp
  moreover have "count_inv (lookA (ipConnCountMap ?m)) (counters ?m) (?ss[i := Counted ip])"
    by (rule count_inv_same [OF d(3) i(1)]) (simp add: i(2))
  moreover have "popped_ok ?ps h"
    using r e by (intro popped_ok_same [OF ok])
      (auto simp: delete_context_def cancel_ctx_def Let_def nth_list_update split: if_splits)
  ultimately show ?thesis using d(1) u(2) m' by (simp add: fine_inv_def sys_inv_def)
qed

lemma fine_pop:
  assumes f: "fine s" and a: "api_Pop B (userCtxMap (mgr (f_sys s))) k = Some ((v, exist), users)"
  shows "fine (set_mgr ((mgr (f_sys s))\<lparr>userCtxMap := users\<rparr>)
      (s\<lparr>f_popped := (if exist \<and> v \<noteq> None then [the v] else []) @ f_popped s\<rparr>)) \<and>
    exist = (lookB (userCtxMap (mgr (f_sys s))) k \<noteq> None) \<and> v = old_value None (lookB (userCtxMap (mgr (f_sys s)))) k \<and>
    invB users \<and> lookB users = (lookB (userCtxMap (mgr (f_sys s))))(k := None)"
proof -
  let ?m = "mgr (f_sys s)" and ?ps = "f_popped s" and ?ss = "sessions (f_sys s)"
  let ?L = "lookB (userCtxMap ?m)" and ?h = "contexts ?m"
  have d: "invA (ipConnCountMap ?m)" "invB (userCtxMap ?m)" "count_inv (lookA (ipConnCountMap ?m)) (counters ?m) ?ss"
    "user_inv ?L (settle ?ps ?h) ?ss" and ok: "popped_ok ?ps ?h"
    using f sys_invD [of invA lookA invB lookB "settled s"] by (simp_all add: fine_inv_def)
  have u: "v = old_value None ?L k" "exist = (?L k \<noteq> None)" "invB users" "lookB users = ?L(k := None)"
    using users.pop [OF d(2), of k] a by auto
  show ?thesis
  proof (cases "?L k")
    case None
    then have "?L(k := None) = ?L" by auto
    then show ?thesis using None d u ok by (simp add: fine_inv_def sys_inv_def set_mgr_def)
  next
    case (Some w)
    obtain p where p: "w = Some p" "p < length ?h" "\<not> ctx_cancelled (?h ! p)" "p \<notin> set ?ps"
      using user_inv_settled [OF d(4) Some] by metis
    have "user_inv (?L(k := None)) (settle (p # ?ps) ?h) ?ss"
      using pop_context_inv [OF d(4), of k p] Some p(1,2) by (simp add: settle_pop)
    then show ?thesis using Some p d u ok by (simp add: fine_inv_def sys_inv_def set_mgr_def popped_ok_def old_value_def)
  qed
qed

lemma fine_cancel:
  assumes f: "fine s" and p: "p \<in> set (f_popped s)"
  shows "fine (set_mgr ((mgr (f_sys s))\<lparr>contexts := cancel_ctx p (contexts (mgr (f_sys s)))\<rparr>)
    (s\<lparr>f_popped := remove1 p (f_popped s)\<rparr>))"
proof -
  let ?h = "contexts (mgr (f_sys s))"
  have ok: "popped_ok (f_popped s) ?h" using f by (simp add: fine_inv_def)
  then have "settle (remove1 p (f_popped s)) (cancel_ctx p ?h) = settle (f_popped s) ?h"
    using p by (intro settle_cancel) (auto simp: popped_ok_def)
  moreover have "popped_ok (remove1 p (f_popped s)) (cancel_ctx p ?h)"
    using ok by (auto simp: popped_ok_def cancel_ctx_def nth_list_update)
  ultimately show ?thesis using f by (simp add: fine_inv_def sys_inv_def set_mgr_def)
qed

text \<open>An operation that does not touch the contexts.\<close>

lemma fine_frame:
  assumes "fine s" and "mstep A B P (settled s) t" and "sessions s' = sessions t" and "contexts (mgr s') = contexts (mgr (f_sys s))"
    and "t = s'\<lparr>mgr := (mgr s')\<lparr>contexts := settle (f_popped s) (contexts (mgr (f_sys s)))\<rparr>\<rparr>"
  shows "fine (s\<lparr>f_sys := s'\<rparr>)"
proof -
  have "settled (s\<lparr>f_sys := s'\<rparr>) = t" using assms(4,5) by (simp add: settled_def)
  then show ?thesis using mstep_inv [OF assms(2)] assms(1,4) by (simp add: fine_inv_def)
qed

lemma fine_op:
  assumes "mstep A B P (f_sys s) t" and f: "fine s"
  shows "fine (s\<lparr>f_sys := t\<rparr>)"
  using assms(1)
proof cases
  case (accept ip ok n m')
  let ?h = "settle (f_popped s) (contexts (mgr (f_sys s)))"
  have "AddIpConnCount A ip (mgr (settled s)) = Some ((ok, n), m'\<lparr>contexts := ?h\<rparr>)" "contexts m' = contexts (mgr (f_sys s))"
    using accept(3) by (auto simp: AddIpConnCount_def settled_def getNacosConf_def split: option.splits prod.splits)
  with accept(1,2) show ?thesis
    by (intro fine_frame [OF f, of P "settled s\<lparr>mgr := m'\<lparr>contexts := ?h\<rparr>, sessions := sessions (f_sys s) @ [if ok then Counted ip else Refused]\<rparr>"]
      mstep.accept [of "settled s", simplified]) (simp_all add: settled_def)
next
  case (start i ip now k p m')
  then show ?thesis using fine_start [OF f, of i ip now k p m'] by simp
next
  case (stop i ip k p m')
  then show ?thesis using fine_stop [OF f, of i ip k p m'] by simp
next
  case (leave i ip m')
  let ?h = "settle (f_popped s) (contexts (mgr (f_sys s)))"
  have "ReduceIpConnCount A ip (mgr (settled s)) = Some (m'\<lparr>contexts := ?h\<rparr>)" "contexts m' = contexts (mgr (f_sys s))"
    using leave(4) by (auto simp: ReduceIpConnCount_def settled_def split: option.splits prod.splits)
  with leave(1-3) show ?thesis
    by (intro fine_frame [OF f, of P "settled s\<lparr>mgr := m'\<lparr>contexts := ?h\<rparr>, sessions := (sessions (f_sys s))[i := Finished]\<rparr>"]
      mstep.leave [of _ "settled s", simplified]) (simp_all add: settled_def)
next
  case (kick k e m')
  obtain v exist users where a: "api_Pop B (userCtxMap (mgr (f_sys s))) k = Some ((v, exist), users)"
    using kick(2) by (auto simp: CloseUserConnections_def split: option.splits)
  let ?s1 = "set_mgr ((mgr (f_sys s))\<lparr>userCtxMap := users\<rparr>)
      (s\<lparr>f_popped := (if exist \<and> v \<noteq> None then [the v] else []) @ f_popped s\<rparr>)"
  have s1: "fine ?s1" using fine_pop [OF f a] by blast
  show ?thesis
  proof (cases "exist \<and> v \<noteq> None")
    case True
    have "s\<lparr>f_sys := t\<rparr> = set_mgr ((mgr (f_sys ?s1))\<lparr>contexts := cancel_ctx (the v) (contexts (mgr (f_sys ?s1)))\<rparr>)
        (?s1\<lparr>f_popped := remove1 (the v) (f_popped ?s1)\<rparr>)"
      using True kick(1,2) a by (cases s) (simp add: CloseUserConnections_def set_mgr_def)
    then show ?thesis using fine_cancel [OF s1, of "the v"] True by (simp add: set_mgr_def)
  next
    case False
    have "s\<lparr>f_sys := t\<rparr> = ?s1" using False kick(1,2) a by (cases s) (auto simp: CloseUserConnections_def set_mgr_def)
    then show ?thesis using s1 by simp
  qed
next
  case (reconfigure conf)
  then show ?thesis using f by (simp add: fine_inv_def sys_inv_def setNacosConf_def)
next
  case (refresh sched m')
  let ?m = "mgr (f_sys s)"
  obtain its where m': "m' = ?m\<lparr>contexts := update_actions (nacosConfig ?m) its (contexts ?m)\<rparr>"
    using refresh(2) by (auto simp: updateLimitedReaderAction_def getNacosConf_def split: option.splits)
  note same = update_actions_same [of "nacosConfig ?m" its "contexts ?m"]
  have d: "sys_inv invA lookA invB lookB (settled s)" "popped_ok (f_popped s) (contexts ?m)" using f by (simp_all add: fine_inv_def)
  have "user_inv (lookB (userCtxMap ?m)) (settle (f_popped s) (contexts m')) (sessions (f_sys s))"
    using same m' by (intro user_inv_heap [OF sys_invD(4) [OF d(1), simplified]]) (simp_all add: nth_settle)
  moreover have "popped_ok (f_popped s) (contexts m')" using same m' by (intro popped_ok_same [OF d(2)]) simp_all
  ultimately show ?thesis using refresh(1) d(1) m' by (simp add: fine_inv_def sys_inv_def)
qed

lemma fine_step: "fstep A B P s s' \<Longrightarrow> fine s \<Longrightarrow> fine s'"
proof (induction rule: fstep.induct)
  case (other_op s t)
  then show ?case by (rule fine_op)
next
  case (pop_key m s k v exist users)
  then show ?case unfolding pop_key(1) by (intro fine_pop [THEN conjunct1]) simp_all
next
  case (cancel_popped m s p)
  then show ?case using fine_cancel [of s p] by simp
next
  case (stop_parent s)
  then show ?case by (simp add: fine_inv_def settled_def)
qed

lemma fine_reach: "freach A B P s0 s \<Longrightarrow> sys_start invA lookA invB lookB s0 \<Longrightarrow> fine s"
proof (induction rule: freach.induct)
  case freach_init
  then show ?case by (simp add: fine_inv_def settled_def popped_ok_def sys_start_inv)
qed (auto intro: fine_step)

text \<open>The limit of \<open>conn_limit\<close> holds at this granularity, too.\<close>

lemma op_limit:
  assumes "mstep A B (\<lambda>c. 1 \<le> OneIpMaxConn c \<and> OneIpMaxConn c \<le> N) (f_sys s) t" and f: "fine s"
    and c: "1 \<le> OneIpMaxConn (nacosConfig (mgr (f_sys s)))" "OneIpMaxConn (nacosConfig (mgr (f_sys s))) \<le> N"
    and l: "\<forall>ip. int (live (sessions (f_sys s)) ip) \<le> N"
  shows "1 \<le> OneIpMaxConn (nacosConfig (mgr t)) \<and> OneIpMaxConn (nacosConfig (mgr t)) \<le> N \<and>
    (\<forall>ip. int (live (sessions t) ip) \<le> N)"
  using assms(1)
proof cases
  case (accept ip ok n m')
  have g: "good (settled s)" using f by (simp add: fine_inv_def)
  let ?h = "settle (f_popped s) (contexts (mgr (f_sys s)))"
  have "AddIpConnCount A ip (mgr (settled s)) = Some ((ok, n), m'\<lparr>contexts := ?h\<rparr>)" "nacosConfig m' = nacosConfig (mgr (f_sys s))"
    using accept(3) by (auto simp: AddIpConnCount_def settled_def getNacosConf_def split: option.splits prod.splits)
  with AddIpConnCount_ok [OF g, of ip] accept(2) have m': "ok \<longleftrightarrow> live (sessions (f_sys s)) ip = 0 \<or> OneIpMaxConn (nacosConfig (mgr (f_sys s))) = 0 \<or>
      int (live (sessions (f_sys s)) ip) < OneIpMaxConn (nacosConfig (mgr (f_sys s)))" "nacosConfig m' = nacosConfig (mgr (f_sys s))"
    by auto
  have "int (live (sessions t) ip') \<le> N" for ip'
    using accept(1) m'(1) c l by (cases "ok \<and> ip' = ip") auto
  then show ?thesis using accept(1) m'(2) c by simp
next
  case (start i ip now k p m')
  moreover have "live ((sessions (f_sys s))[i := Relaying ip k p]) ip' = live (sessions (f_sys s)) ip'" for ip'
    using live_update [OF start(2), of "Relaying ip k p" ip'] start(3) by auto
  ultimately show ?thesis using c l by (auto simp: addUserConnection_def split: option.splits prod.splits)
next
  case (stop i ip k p m')
  moreover have "live ((sessions (f_sys s))[i := Counted ip]) ip' = live (sessions (f_sys s)) ip'" for ip'
    using live_update [OF stop(2), of "Counted ip" ip'] stop(3) by auto
  ultimately show ?thesis using c l by (auto simp: deleteUserConnection_def split: option.splits prod.splits)
next
  case (leave i ip m')
  have "int (live ((sessions (f_sys s))[i := Finished]) ip') \<le> int (live (sessions (f_sys s)) ip')" for ip'
    using live_update [OF leave(2), of Finished ip'] leave(3) by auto
  then have "int (live ((sessions (f_sys s))[i := Finished]) ip') \<le> N" for ip' using l by (meson order_trans)
  then show ?thesis using leave c by (auto simp: ReduceIpConnCount_def split: option.splits prod.splits)
qed (use c l in \<open>auto simp: CloseUserConnections_def setNacosConf_def updateLimitedReaderAction_def split: option.splits if_splits\<close>)

lemma fine_limit:
  assumes "freach A B (\<lambda>c. 1 \<le> OneIpMaxConn c \<and> OneIpMaxConn c \<le> N) s0 s"
    and s0: "sys_start invA lookA invB lookB s0"
    and c: "1 \<le> OneIpMaxConn (nacosConfig (mgr s0))" "OneIpMaxConn (nacosConfig (mgr s0)) \<le> N"
  shows "1 \<le> OneIpMaxConn (nacosConfig (mgr (f_sys s))) \<and> OneIpMaxConn (nacosConfig (mgr (f_sys s))) \<le> N \<and>
    (\<forall>ip. int (live (sessions (f_sys s)) ip) \<le> N)"
  using assms(1)
proof (induction rule: freach.induct)
  case freach_init
  then show ?case using c s0 by (simp add: sys_start_def live_def)
next
  case (freach_step s s')
  have f: "fine s" by (rule fine_reach [OF freach_step(1) s0])
  from freach_step(2) show ?case
    by cases (use op_limit [OF _ f] freach_step.IH in \<open>auto simp: set_mgr_def\<close>)
qed

end

section \<open>The repository's own map\<close>

text \<open>
  The concurrent map of \<^verbatim>\<open>utils/Map/concurrentMap\<close> has the interface of the imported one and
  meets its contract.
\<close>

definition repo_api :: "((string, ptr) cmap, 's) cmap_api" where
  "repo_api = \<lparr>api_Upsert = Upsert None, api_RemoveCb = RemoveCb None, api_Pop = Pop None, api_Iter = Iter\<rparr>"

interpretation repo: session_maps repo_api cmap_inv cm_lookup repo_api cmap_inv cm_lookup
  unfolding session_maps_def repo_api_def cmap_api.simps
  by (intro conjI) (rule cm.concurrent_map_axioms)+

definition repo_start :: "NacosConfig \<Rightarrow> ((string, ptr) cmap, (string, ptr) cmap) sys" where
  "repo_start conf = \<lparr>mgr = \<lparr>ipConnCountMap = New, userCtxMap = New, counters = [], contexts = [],
     nacosConfig = conf\<rparr>, sessions = []\<rparr>"

lemma repo_start_ok: "sys_start cmap_inv cm_lookup cmap_inv cm_lookup (repo_start conf)"
  by (simp add: sys_start_def repo_start_def New_def create_empty)

text \<open>A run of two handlers of one user, for the examples below.\<close>

lemma repo_run:
  assumes "OneIpMaxConn conf = 2"
  shows "\<exists>s p q. mreach repo_api repo_api P (repo_start conf) s \<and> nacosConfig (mgr s) = conf \<and>
    sessions s = [Relaying ''10.0.0.1'' ''u:10.0.0.1'' p, Relaying ''10.0.0.1'' ''u:10.0.0.1'' q] \<and>
    cm_lookup (userCtxMap (mgr s)) ''u:10.0.0.1'' \<noteq> None"
proof -
  let ?ip = "''10.0.0.1''" and ?k = "''u:10.0.0.1''"
  let ?R = "mreach repo_api repo_api P (repo_start conf)"
  let ?G = "sys_inv cmap_inv cm_lookup cmap_inv cm_lookup"
  note st = mreach_step [where A = repo_api and B = repo_api and P = P and ?s0.0 = "repo_start conf"]
  have r0: "?R (repo_start conf)" by (rule mreach_init)
  have c0: "sessions (repo_start conf) = []" "nacosConfig (mgr (repo_start conf)) = conf"
    by (simp_all add: repo_start_def)
  obtain s1 where s1: "?R s1" "sessions s1 = [Counted ?ip]" "nacosConfig (mgr s1) = conf"
    using repo.AddIpConnCount_ok [OF sys_start_inv [OF repo_start_ok [of conf]], of ?ip] c0
      st [OF r0 mstep.accept [of "repo_start conf"]]
    by (fastforce simp: live_def)
  have g1: "?G s1" by (rule repo.mreach_inv [OF s1(1) repo_start_ok])
  obtain s2 p where s2: "?R s2" "sessions s2 = [Relaying ?ip ?k p]" "nacosConfig (mgr s2) = conf"
    using repo.addUserConnection_ok [OF g1, of 0 ?ip 0 ?k] s1 st [OF s1(1) mstep.start [of 0 s1 ?ip]]
    by fastforce
  have g2: "?G s2" by (rule repo.mreach_inv [OF s2(1) repo_start_ok])
  obtain s3 where s3: "?R s3" "sessions s3 = [Relaying ?ip ?k p, Counted ?ip]" "nacosConfig (mgr s3) = conf"
    using repo.AddIpConnCount_ok [OF g2, of ?ip] s2 st [OF s2(1) mstep.accept [of s2]] assms
    by (fastforce simp: live_def)
  have g3: "?G s3" by (rule repo.mreach_inv [OF s3(1) repo_start_ok])
  obtain s4 q where s4: "?R s4" "sessions s4 = [Relaying ?ip ?k p, Relaying ?ip ?k q]"
      "nacosConfig (mgr s4) = conf" "\<not> ctx_cancelled (contexts (mgr s4) ! q)"
    using repo.addUserConnection_ok [OF g3, of 1 ?ip 0 ?k] s3 st [OF s3(1) mstep.start [of 1 s3 ?ip]]
    by fastforce
  have g4: "?G s4" by (rule repo.mreach_inv [OF s4(1) repo_start_ok])
  have "cm_lookup (userCtxMap (mgr s4)) ?k \<noteq> None"
    using repo.context_exact [OF g4, of ?ip ?k q] s4(2,4) by simp
  with s4(1-3) show ?thesis by blast
qed

section \<open>Properties\<close>

text \<open>C17: In every reachable state and for every address, the manager has a count exactly
  while the address has a live connection, and the count is their number; the next connection is
  accepted if and only if the address has none, or there is no limit, or the limit is not yet
  reached, it never panics, and it reports the new number.\<close>

theorem conn_count_exact:
  assumes "session_maps A invA lookA B invB lookB"
    and "sys_start invA lookA invB lookB s0"
    and "mreach A B P s0 s"
    and "int (length (sessions s)) < 2 ^ 63 - 1"
  shows "(case lookA (ipConnCountMap (mgr s)) ip of
       None \<Rightarrow> live (sessions s) ip = 0
     | Some v \<Rightarrow> v \<noteq> None \<and> 0 < live (sessions s) ip \<and>
         sint (counters (mgr s) ! the v) = int (live (sessions s) ip)) \<and>
   (\<exists>ok n m'. AddIpConnCount A ip (mgr s) = Some ((ok, n), m') \<and>
     (ok \<longleftrightarrow> live (sessions s) ip = 0 \<or> OneIpMaxConn (nacosConfig (mgr s)) = 0 \<or>
        int (live (sessions s) ip) < OneIpMaxConn (nacosConfig (mgr s))) \<and>
     n = int (live (sessions s) ip) + (if ok then 1 else 0))"
proof -
  note g = session_maps.mreach_inv [OF assms(1,3,2)]
  note c = sys_invD(3) [OF g]
  have "case lookA (ipConnCountMap (mgr s)) ip of
       None \<Rightarrow> live (sessions s) ip = 0
     | Some v \<Rightarrow> v \<noteq> None \<and> 0 < live (sessions s) ip \<and>
         sint (counters (mgr s) ! the v) = int (live (sessions s) ip)"
  proof (cases "lookA (ipConnCountMap (mgr s)) ip")
    case None
    then show ?thesis using count_inv_None [OF c, of ip] by simp
  next
    case (Some v)
    from count_inv_Some [OF c this] obtain p where "v = Some p" "0 < live (sessions s) ip"
      "sint (counters (mgr s) ! p) = int (live (sessions s) ip)" .
    with Some show ?thesis by simp
  qed
  moreover obtain ok n m' where
    a: "AddIpConnCount A ip (mgr s) = Some ((ok, n), m')"
    and b: "ok \<longleftrightarrow> live (sessions s) ip = 0 \<or> OneIpMaxConn (nacosConfig (mgr s)) = 0 \<or>
      int (live (sessions s) ip) < OneIpMaxConn (nacosConfig (mgr s))"
    and n: "n = int (live (sessions s @ [if ok then Counted ip else Refused]) ip)"
    using session_maps.AddIpConnCount_ok [OF assms(1) g assms(4), of ip] by blast
  have "n = int (live (sessions s) ip) + (if ok then 1 else 0)" unfolding n by (cases ok) simp_all
  with a b have "\<exists>ok n m'. AddIpConnCount A ip (mgr s) = Some ((ok, n), m') \<and>
     (ok \<longleftrightarrow> live (sessions s) ip = 0 \<or> OneIpMaxConn (nacosConfig (mgr s)) = 0 \<or>
        int (live (sessions s) ip) < OneIpMaxConn (nacosConfig (mgr s))) \<and>
     n = int (live (sessions s) ip) + (if ok then 1 else 0)" by blast
  ultimately show ?thesis by blast
qed

theorem conn_count_exact_witness:
  "\<exists>(s :: ((string, ptr) cmap, (string, ptr) cmap) sys) n m'.
     live (sessions s) ''10.0.0.1'' = 2 \<and>
     AddIpConnCount repo_api ''10.0.0.1'' (mgr s) = Some ((False, n), m') \<and> n = 2"
proof -
  let ?conf = "\<lparr>LimitedReader_ReadRate = 0, LimitedReader_ReadBurst = 0, OneIpMaxConn = 2\<rparr>"
  obtain s p q where s: "mreach repo_api repo_api (\<lambda>_. True) (repo_start ?conf) s"
      "nacosConfig (mgr s) = ?conf"
      "sessions s = [Relaying ''10.0.0.1'' ''u:10.0.0.1'' p, Relaying ''10.0.0.1'' ''u:10.0.0.1'' q]"
    using repo_run [of ?conf "\<lambda>_. True"] by auto
  then have l: "live (sessions s) ''10.0.0.1'' = 2" by (simp add: live_def)
  obtain ok n m' where "AddIpConnCount repo_api ''10.0.0.1'' (mgr s) = Some ((ok, n), m')"
      "ok \<longleftrightarrow> False" "n = 2 + (if ok then 1 else 0)"
    using conn_count_exact [OF repo.session_maps_axioms repo_start_ok s(1), of "''10.0.0.1''"] s(2,3) l
    by auto
  with l show ?thesis by (intro exI [of _ s] exI [of _ n] exI [of _ m']) simp
qed

text \<open>C1: While every configuration limits an address to between 1 and \<open>N\<close> connections, no
  address ever has more than \<open>N\<close> live connections, in any interleaving of the handlers,
  the messages and the changes of the configuration.\<close>

theorem conn_limit:
  assumes "session_maps A invA lookA B invB lookB"
    and "sys_start invA lookA invB lookB s0"
    and "1 \<le> OneIpMaxConn (nacosConfig (mgr s0))" and "OneIpMaxConn (nacosConfig (mgr s0)) \<le> N"
    and "mreach A B (\<lambda>c. 1 \<le> OneIpMaxConn c \<and> OneIpMaxConn c \<le> N) s0 s"
  shows "int (live (sessions s) ip) \<le> N"
  using session_maps.limit_reach [OF assms(1,5,2,3,4)] by blast

theorem conn_limit_witness:
  "\<exists>s :: ((string, ptr) cmap, (string, ptr) cmap) sys.
     length (sessions s) = 2 \<and> int (live (sessions s) ''10.0.0.1'') \<le> 3"
proof -
  let ?conf = "\<lparr>LimitedReader_ReadRate = 0, LimitedReader_ReadBurst = 0, OneIpMaxConn = 2\<rparr>"
  obtain s p q where s: "mreach repo_api repo_api (\<lambda>c. 1 \<le> OneIpMaxConn c \<and> OneIpMaxConn c \<le> 3)
      (repo_start ?conf) s"
      "sessions s = [Relaying ''10.0.0.1'' ''u:10.0.0.1'' p, Relaying ''10.0.0.1'' ''u:10.0.0.1'' q]"
    using repo_run [of ?conf "\<lambda>c. 1 \<le> OneIpMaxConn c \<and> OneIpMaxConn c \<le> 3"] by auto
  have "nacosConfig (mgr (repo_start ?conf)) = ?conf" by (simp add: repo_start_def)
  then have "int (live (sessions s) ''10.0.0.1'') \<le> 3"
    by (intro conn_limit [OF repo.session_maps_axioms repo_start_ok _ _ s(1)]) simp_all
  with s(2) show ?thesis by (intro exI [of _ s]) simp
qed

text \<open>C6: The life of a context, with a popped entry cancelled only after the lock has been given back, by the goroutine
  that popped it, and with the cancellation of the parent context by \<open>Stop\<close> at any moment. In every reachable state: the
  context of a relaying handler is done exactly when the server has been stopped, or it is no longer the entry of its key and its
  cancellation is not still due; one that is due can be carried out at once, and then the context is done; an entry has
  not been cancelled and is not about to be, and its count is the number of handlers relaying under it; and once every
  handler has returned both maps are empty.\<close>

theorem context_lifetime:
  assumes "session_maps A invA lookA B invB lookB"
    and "sys_start invA lookA invB lookB s0"
    and "freach A B P s0 s"
  shows "(\<forall>ip k p. Relaying ip k p \<in> set (sessions (f_sys s)) \<longrightarrow>
       context_done s p = (f_done s \<or> lookB (userCtxMap (mgr (f_sys s))) k \<noteq> Some (Some p) \<and> p \<notin> set (f_popped s))) \<and>
     (\<forall>p\<in>set (f_popped s). \<exists>s'. fstep A B P s s' \<and> f_popped s' = remove1 p (f_popped s) \<and> context_done s' p) \<and>
     (\<forall>k v. lookB (userCtxMap (mgr (f_sys s))) k = Some v \<longrightarrow>
       (\<exists>p. v = Some p \<and> \<not> ctx_cancelled (contexts (mgr (f_sys s)) ! p) \<and> p \<notin> set (f_popped s) \<and>
          0 < holders (sessions (f_sys s)) p \<and>
          conn_count (contexts (mgr (f_sys s)) ! p) = of_nat (holders (sessions (f_sys s)) p))) \<and>
     (set (sessions (f_sys s)) \<subseteq> {Refused, Finished} \<longrightarrow>
       lookA (ipConnCountMap (mgr (f_sys s))) = Map.empty \<and> lookB (userCtxMap (mgr (f_sys s))) = Map.empty)"
proof (intro conjI allI ballI impI)
  let ?m = "mgr (f_sys s)" and ?ss = "sessions (f_sys s)"
  have f: "sys_inv invA lookA invB lookB (settled s)" "popped_ok (f_popped s) (contexts ?m)"
    using session_maps.fine_reach [OF assms(1,3,2)] by (simp_all add: fine_inv_def)
  note d = sys_invD [OF f(1), simplified]
  show "context_done s p = (f_done s \<or> lookB (userCtxMap ?m) k \<noteq> Some (Some p) \<and> p \<notin> set (f_popped s))"
    if "Relaying ip k p \<in> set ?ss" for ip k p
    using session_maps.context_exact [OF assms(1) f(1), of ip k p] that f(2)
    by (auto simp: nth_settle context_done_def popped_ok_def elim: user_inv_settled [OF d(4)])
  show "\<exists>s'. fstep A B P s s' \<and> f_popped s' = remove1 p (f_popped s) \<and> context_done s' p" if p: "p \<in> set (f_popped s)" for p
    by (rule exI, rule conjI, rule fstep.cancel_popped [OF refl p])
      (use f(2) p in \<open>auto simp: set_mgr_def context_done_def cancel_ctx_def popped_ok_def\<close>)
  show "\<exists>p. v = Some p \<and> \<not> ctx_cancelled (contexts ?m ! p) \<and> p \<notin> set (f_popped s) \<and> 0 < holders ?ss p \<and>
      conn_count (contexts ?m ! p) = of_nat (holders ?ss p)"
    if "lookB (userCtxMap ?m) k = Some v" for k v
    using user_inv_settled [OF d(4) that] by blast
  assume e: "set ?ss \<subseteq> {Refused, Finished}"
  have "live ?ss ip = 0" for ip using e by (auto simp: live_def filter_empty_conv)
  then show "lookA (ipConnCountMap ?m) = Map.empty"
    using count_inv_None [OF d(3)] by auto
  have "holders ?ss p = 0" for p using e by (auto simp: holders_def filter_empty_conv)
  then have "lookB (userCtxMap ?m) k \<noteq> Some v" for k v
    using user_inv_settled [OF d(4), of k v] by auto
  then show "lookB (userCtxMap ?m) = Map.empty" by (metis not_None_eq)
qed

text \<open>Two handlers share a context; its key is popped: the context is not done before \<open>cancel()\<close> is called.\<close>

theorem context_lifetime_witness:
  "\<exists>(s :: ((string, ptr) cmap, (string, ptr) cmap) fsys) s' r.
     length (sessions (f_sys s)) = 2 \<and> Relaying ''10.0.0.1'' ''u:10.0.0.1'' r \<in> set (sessions (f_sys s)) \<and>
     cm_lookup (userCtxMap (mgr (f_sys s))) ''u:10.0.0.1'' = None \<and> \<not> context_done s r \<and>
     fstep repo_api repo_api (\<lambda>_. True) s s' \<and> context_done s' r"
proof -
  let ?conf = "\<lparr>LimitedReader_ReadRate = 0, LimitedReader_ReadBurst = 0, OneIpMaxConn = 2\<rparr>" and ?k = "''u:10.0.0.1''"
  let ?F = "freach repo_api repo_api (\<lambda>_. True) (repo_start ?conf)"
  obtain t p q where t: "mreach repo_api repo_api (\<lambda>_. True) (repo_start ?conf) t"
      "sessions t = [Relaying ''10.0.0.1'' ?k p, Relaying ''10.0.0.1'' ?k q]" "cm_lookup (userCtxMap (mgr t)) ?k \<noteq> None"
    using repo_run [of ?conf "\<lambda>_. True"] by auto
  have g: "sys_inv cmap_inv cm_lookup cmap_inv cm_lookup t" by (rule repo.mreach_inv [OF t(1) repo_start_ok])
  obtain v where v: "cm_lookup (userCtxMap (mgr t)) ?k = Some v" using t(3) by blast
  obtain r where r: "v = Some r" "0 < holders (sessions t) r" by (rule user_inv_cell [OF sys_invD(4) [OF g] v])
  obtain users where pop: "api_Pop (repo_api :: (_, connContext list) cmap_api) (userCtxMap (mgr t)) ?k = Some ((Some r, True), users)"
    "cm_lookup users = (cm_lookup (userCtxMap (mgr t)))(?k := None)"
    using repo.users.pop [OF sys_invD(2) [OF g], of ?k] v r(1) by (auto simp: old_value_def)
  define s0 where "s0 = \<lparr>f_sys = t, f_popped = [], f_done = False\<rparr>"
  define s where "s = set_mgr ((mgr t)\<lparr>userCtxMap := users\<rparr>) (s0\<lparr>f_popped := (if True \<and> Some r \<noteq> None then [the (Some r)] else []) @ f_popped s0\<rparr>)"
  have "fstep repo_api repo_api (\<lambda>_. True) s0 s"
    unfolding s_def by (rule pop_key [where k = ?k]) (simp_all add: s0_def pop)
  then have s: "?F s" using mreach_freach [OF t(1)] by (simp add: s0_def freach_step)
  have e: "sessions (f_sys s) = sessions t" "f_popped s = [r]" "\<not> f_done s" "userCtxMap (mgr (f_sys s)) = users"
    by (simp_all add: s_def s0_def set_mgr_def)
  have rel: "Relaying ''10.0.0.1'' ?k r \<in> set (sessions t)" using holders_zero [OF r(2)] t(2) by auto
  note c = context_lifetime [OF repo.session_maps_axioms repo_start_ok s]
  have "\<not> context_done s r" using c rel e by (metis list.set_intros(1))
  moreover obtain s' where "fstep repo_api repo_api (\<lambda>_. True) s s'" "context_done s' r"
    using c e(2) by (metis list.set_intros(1))
  ultimately show ?thesis using rel e t(2) pop(2) by (intro exI [of _ s] exI [of _ s'] exI [of _ r]) simp
qed

text \<open>C11: Closing a key cancels the contexts of exactly the handlers that relay under that key,
  reports an error exactly when there was no entry, and the next handler of the key gets a new
  context that is not cancelled and that the old handlers, when they return, leave alone.\<close>

theorem kick_exact:
  assumes "session_maps A invA lookA B invB lookB"
    and "sys_start invA lookA invB lookB s0"
    and "mreach A B P s0 s"
  shows "\<exists>e m'. CloseUserConnections B k (mgr s) = Some (e, m') \<and>
     (e = None \<longleftrightarrow> lookB (userCtxMap (mgr s)) k \<noteq> None) \<and>
     (\<forall>ip k' p. Relaying ip k' p \<in> set (sessions s) \<longrightarrow>
        ctx_cancelled (contexts m' ! p) = (k' = k \<or> ctx_cancelled (contexts (mgr s) ! p))) \<and>
     (\<forall>i ip. i < length (sessions s) \<and> sessions s ! i = Counted ip \<longrightarrow>
        (\<exists>p m''. addUserConnection B now k m' = Some (Some p, m'') \<and>
           \<not> ctx_cancelled (contexts m'' ! p) \<and> conn_count (contexts m'' ! p) = 1))"
proof -
  note g = session_maps.mreach_inv [OF assms(1,3,2)]
  obtain e m' where m': "CloseUserConnections B k (mgr s) = Some (e, m')" "sys_inv invA lookA invB lookB (s\<lparr>mgr := m'\<rparr>)"
      "lookB (userCtxMap m') = (lookB (userCtxMap (mgr s)))(k := None)"
    and c: "case lookB (userCtxMap (mgr s)) k of
       Some (Some p) \<Rightarrow> e = None \<and> contexts m' = cancel_ctx p (contexts (mgr s))
     | _ \<Rightarrow> e \<noteq> None \<and> contexts m' = contexts (mgr s)"
    using session_maps.CloseUserConnections_ok [OF assms(1) g, of k] by blast
  have c': "contexts m' = (case lookB (userCtxMap (mgr s)) k of
       Some (Some p) \<Rightarrow> cancel_ctx p (contexts (mgr s)) | _ \<Rightarrow> contexts (mgr s))"
    using c by (auto split: option.splits)
  have e: "e = None \<longleftrightarrow> lookB (userCtxMap (mgr s)) k \<noteq> None"
    using c user_inv_cell [OF sys_invD(4) [OF g], of k] by (auto split: option.splits)
  have f: "\<exists>p m''. addUserConnection B now k m' = Some (Some p, m'') \<and>
      \<not> ctx_cancelled (contexts m'' ! p) \<and> conn_count (contexts m'' ! p) = 1"
    if "i < length (sessions s)" "sessions s ! i = Counted ip" for i ip
    using session_maps.addUserConnection_fresh [OF assms(1) m'(2), of k now] m'(3) by simp
  show ?thesis
    using m'(1) e f session_maps.pop_effect [OF assms(1) g m'(3) c'] by blast
qed

theorem kick_exact_witness:
  "\<exists>(s :: ((string, ptr) cmap, (string, ptr) cmap) sys) p q m'.
     sessions s = [Relaying ''10.0.0.1'' ''u:10.0.0.1'' p, Relaying ''10.0.0.1'' ''u:10.0.0.1'' q] \<and>
     CloseUserConnections repo_api ''u:10.0.0.1'' (mgr s) = Some (None, m') \<and>
     ctx_cancelled (contexts m' ! p) \<and> ctx_cancelled (contexts m' ! q)"
proof -
  let ?conf = "\<lparr>LimitedReader_ReadRate = 0, LimitedReader_ReadBurst = 0, OneIpMaxConn = 2\<rparr>"
  obtain s p q where s: "mreach repo_api repo_api (\<lambda>_. True) (repo_start ?conf) s"
      "sessions s = [Relaying ''10.0.0.1'' ''u:10.0.0.1'' p, Relaying ''10.0.0.1'' ''u:10.0.0.1'' q]"
      "cm_lookup (userCtxMap (mgr s)) ''u:10.0.0.1'' \<noteq> None"
    using repo_run [of ?conf "\<lambda>_. True"] by auto
  obtain e m' where m': "CloseUserConnections repo_api ''u:10.0.0.1'' (mgr s) = Some (e, m')"
      "e = None \<longleftrightarrow> cm_lookup (userCtxMap (mgr s)) ''u:10.0.0.1'' \<noteq> None"
      "\<forall>ip k' p. Relaying ip k' p \<in> set (sessions s) \<longrightarrow> ctx_cancelled (contexts m' ! p) =
        (k' = ''u:10.0.0.1'' \<or> ctx_cancelled (contexts (mgr s) ! p))"
    using kick_exact [OF repo.session_maps_axioms repo_start_ok s(1), of "''u:10.0.0.1''" 0] by blast
  have "ctx_cancelled (contexts m' ! p)" "ctx_cancelled (contexts m' ! q)"
    using m'(3) by (auto simp: s(2))
  with s(2,3) m'(1,2) show ?thesis by blast
qed

text \<open>A disconnect message closes exactly the connections it names: with addresses, those of
  the keys user:address; without, those of every key whose part before the first colon is the
  user (so a user whose name contains a colon is never matched by its own name, and is closed
  by the message for the part before the colon); an unreadable message or an empty user name
  closes nothing.\<close>

theorem disconnect_exact:
  assumes "session_maps A invA lookA B invB lookB"
    and "sys_start invA lookA invB lookB s0"
    and "mreach A B P s0 s"
  shows "\<exists>m'. runRabbitmqDisconnectQueueConsumeAction B unmarshal sched body (mgr s) = Some m' \<and>
     (\<forall>ip k p. Relaying ip k p \<in> set (sessions s) \<longrightarrow> ctx_cancelled (contexts m' ! p) =
        ((case unmarshal body of Inl _ \<Rightarrow> False
          | Inr (username, ips) \<Rightarrow> username \<noteq> [] \<and>
              (if ips = [] then hd (split_colon k) = username else k \<in> user_key username ` set ips))
         \<or> ctx_cancelled (contexts (mgr s) ! p)))"
proof -
  note g = session_maps.mreach_inv [OF assms(1,3,2)]
  show ?thesis
  proof (cases "unmarshal body")
    case (Inr r)
    obtain u ips where r: "r = (u, ips)" by (cases r)
    show ?thesis
      using session_maps.close_user_ok [OF assms(1) g, of sched u]
        session_maps.close_ips_ok [OF assms(1) g, of u ips] Inr r
      by (cases "u = []"; cases "ips = []") (auto simp: runRabbitmqDisconnectQueueConsumeAction_def)
  qed (simp add: runRabbitmqDisconnectQueueConsumeAction_def)
qed

theorem disconnect_exact_witness:
  "\<exists>(s :: ((string, ptr) cmap, (string, ptr) cmap) sys) p q m'.
     sessions s = [Relaying ''10.0.0.1'' ''u:10.0.0.1'' p, Relaying ''10.0.0.1'' ''u:10.0.0.1'' q] \<and>
     runRabbitmqDisconnectQueueConsumeAction repo_api (\<lambda>_. Inr (''u'', [])) [] [] (mgr s) = Some m' \<and>
     ctx_cancelled (contexts m' ! p)"
proof -
  let ?conf = "\<lparr>LimitedReader_ReadRate = 0, LimitedReader_ReadBurst = 0, OneIpMaxConn = 2\<rparr>"
  obtain s p q where s: "mreach repo_api repo_api (\<lambda>_. True) (repo_start ?conf) s"
      "sessions s = [Relaying ''10.0.0.1'' ''u:10.0.0.1'' p, Relaying ''10.0.0.1'' ''u:10.0.0.1'' q]"
    using repo_run [of ?conf "\<lambda>_. True"] by auto
  have "hd (split_colon ''u:10.0.0.1'') = ''u''" by simp
  with disconnect_exact [OF repo.session_maps_axioms repo_start_ok s(1), of "\<lambda>_. Inr (''u'', [])" "[]" "[]"] s(2)
  show ?thesis by fastforce
qed

text \<open>A new configuration reaches exactly the live contexts: every context that is still an
  entry gets its budget's parameters updated once, and one already closed keeps its own.\<close>

theorem refresh_exact:
  assumes "session_maps A invA lookA B invB lookB"
    and "sys_start invA lookA invB lookB s0"
    and "mreach A B P s0 s"
    and "p < length (contexts (mgr s))"
  shows "\<exists>m'. nacos_round B sched (Inr conf) (mgr s) = Some m' \<and> nacosConfig m' = conf \<and>
     conn_action (contexts m' ! p) =
       (if ctx_cancelled (contexts (mgr s) ! p) then conn_action (contexts (mgr s) ! p)
        else UpdateParameter (LimitedReader_ReadRate conf) (LimitedReader_ReadBurst conf)
          (conn_action (contexts (mgr s) ! p)))"
proof -
  note g = session_maps.setNacosConf_ok [OF assms(1) session_maps.mreach_inv [OF assms(1,3,2)], of conf]
  show ?thesis
    using session_maps.refresh_effect [OF assms(1) g, of sched] assms(4)
      session_maps.updateLimitedReaderAction_ok [OF assms(1) g, of sched]
    by (auto simp: nacos_round_def setNacosConf_def update_context_def)
qed

theorem refresh_exact_witness:
  "\<exists>(s :: ((string, ptr) cmap, (string, ptr) cmap) sys) p m'.
     nacos_round repo_api [] (Inr \<lparr>LimitedReader_ReadRate = 5, LimitedReader_ReadBurst = 80,
       OneIpMaxConn = 2\<rparr>) (mgr s) = Some m' \<and> readBurst (conn_action (contexts m' ! p)) = 80"
proof -
  let ?conf = "\<lparr>LimitedReader_ReadRate = 0, LimitedReader_ReadBurst = 0, OneIpMaxConn = 2\<rparr>"
  obtain s p q where s: "mreach repo_api repo_api (\<lambda>_. True) (repo_start ?conf) s"
      "sessions s = [Relaying ''10.0.0.1'' ''u:10.0.0.1'' p, Relaying ''10.0.0.1'' ''u:10.0.0.1'' q]"
      "cm_lookup (userCtxMap (mgr s)) ''u:10.0.0.1'' \<noteq> None"
    using repo_run [of ?conf "\<lambda>_. True"] by auto
  note g = repo.mreach_inv [OF s(1) repo_start_ok]
  obtain r where r: "r < length (contexts (mgr s))" "\<not> ctx_cancelled (contexts (mgr s) ! r)"
    using s(3) user_inv_cell [OF sys_invD(4) [OF g]] by blast
  let ?new = "\<lparr>LimitedReader_ReadRate = 5, LimitedReader_ReadBurst = 80, OneIpMaxConn = 2\<rparr>"
  obtain m' where "nacos_round repo_api [] (Inr ?new) (mgr s) = Some m'"
      "conn_action (contexts m' ! r) = UpdateParameter 5 80 (conn_action (contexts (mgr s) ! r))"
    using refresh_exact [OF repo.session_maps_axioms repo_start_ok s(1) r(1), of "[]" ?new] r(2) by auto
  then show ?thesis
    by (intro exI [of _ s] exI [of _ r] exI [of _ m'])
       (simp add: UpdateParameter_def default_burst_def)
qed

end
