(* ===== verification/ClientHello.thy ===== *)
theory ClientHello
  imports Prelude "HOL-Library.Sublist" "HOL-Library.Monad_Syntax"
begin

text \<open>
  The parser of TLS ClientHello messages in \<^verbatim>\<open>server/sniffing/tls/client_hello.go\<close>, from which
  the proxy learns the server name of an encrypted connection.
\<close>

section \<open>The byte reader\<close>

text \<open>
  The parser reads through the package \<open>cryptobyte\<close>, which is a parameter here: a read returns
  the value and the remaining bytes, or \<open>None\<close> when it reports failure, in which case its output
  is left alone. The contract \<open>cryptobyte\<close> states the package's documentation.
\<close>

record cryptobyte_api =
  cb_Empty :: "byte list \<Rightarrow> bool"
  cb_Skip :: "nat \<Rightarrow> byte list \<Rightarrow> byte list option"
  cb_ReadUint8 :: "byte list \<Rightarrow> (byte \<times> byte list) option"
  cb_ReadUint16 :: "byte list \<Rightarrow> (u16 \<times> byte list) option"
  cb_ReadUint32 :: "byte list \<Rightarrow> (u32 \<times> byte list) option"
  cb_ReadBytes :: "nat \<Rightarrow> byte list \<Rightarrow> (byte list \<times> byte list) option"
  cb_CopyBytes :: "nat \<Rightarrow> byte list \<Rightarrow> (byte list \<times> byte list) option"
  cb_ReadUint8LengthPrefixed :: "byte list \<Rightarrow> (byte list \<times> byte list) option"
  cb_ReadUint16LengthPrefixed :: "byte list \<Rightarrow> (byte list \<times> byte list) option"
  cb_ReadUint24LengthPrefixed :: "byte list \<Rightarrow> (byte list \<times> byte list) option"

definition readUint8LengthPrefixed :: "cryptobyte_api \<Rightarrow> byte list \<Rightarrow> (byte list \<times> byte list) option" where
  "readUint8LengthPrefixed A s = cb_ReadUint8LengthPrefixed A s"

definition readUint16LengthPrefixed :: "cryptobyte_api \<Rightarrow> byte list \<Rightarrow> (byte list \<times> byte list) option" where
  "readUint16LengthPrefixed A s = cb_ReadUint16LengthPrefixed A s"

definition readUint24LengthPrefixed :: "cryptobyte_api \<Rightarrow> byte list \<Rightarrow> (byte list \<times> byte list) option" where
  "readUint24LengthPrefixed A s = cb_ReadUint24LengthPrefixed A s"

section \<open>The message\<close>

record keyShare =
  ks_group :: u16
  ks_data :: "byte list"

record pskIdentity =
  psk_label :: "byte list"
  obfuscatedTicketAge :: u32

record ClientHelloMsg =
  Vers :: u16
  Random :: "byte list"
  SessionId :: "byte list"
  CipherSuites :: "u16 list"
  CompressionMethods :: "byte list"
  ServerName :: string
  OcspStapling :: bool
  SupportedCurves :: "u16 list"
  SupportedPoints :: "byte list"
  TicketSupported :: bool
  SessionTicket :: "byte list"
  SupportedSignatureAlgorithms :: "u16 list"
  SupportedSignatureAlgorithmsCert :: "u16 list"
  SecureRenegotiationSupported :: bool
  SecureRenegotiation :: "byte list"
  ExtendedMasterSecret :: bool
  AlpnProtocols :: "string list"
  Scts :: bool
  SupportedVersions :: "u16 list"
  Cookie :: "byte list"
  KeyShares :: "keyShare list"
  EarlyData :: bool
  PskModes :: "byte list"
  PskIdentities :: "pskIdentity list"
  PskBinders :: "byte list list"
  QuicTransportParameters :: "byte list"
  EncryptedClientHello :: "byte list"

definition empty_msg :: ClientHelloMsg where
  "empty_msg = \<lparr>Vers = 0, Random = [], SessionId = [], CipherSuites = [], CompressionMethods = [],
     ServerName = [], OcspStapling = False, SupportedCurves = [], SupportedPoints = [],
     TicketSupported = False, SessionTicket = [], SupportedSignatureAlgorithms = [],
     SupportedSignatureAlgorithmsCert = [], SecureRenegotiationSupported = False,
     SecureRenegotiation = [], ExtendedMasterSecret = False, AlpnProtocols = [], Scts = False,
     SupportedVersions = [], Cookie = [], KeyShares = [], EarlyData = False, PskModes = [],
     PskIdentities = [], PskBinders = [], QuicTransportParameters = [], EncryptedClientHello = []\<rparr>"

definition scsvRenegotiation :: u16 where "scsvRenegotiation = 0x00ff"

definition statusTypeOCSP :: byte where "statusTypeOCSP = 1"

section \<open>Steps and loops\<close>

text \<open>
  The message is filled in place, so it keeps what was parsed before an error. A step of type
  \<open>step\<close> takes the message and the bytes to read and yields an error or none, the message and
  the bytes left; \<open>None\<close> is a call that does not return.
\<close>

type_synonym 'm result = "(go_error option \<times> 'm \<times> byte list) option"

type_synonym 'm step = "'m \<Rightarrow> byte list \<Rightarrow> 'm result"

definition fails :: "string \<Rightarrow> 'm step" where
  "fails tag m s = Some (Some (Errorf tag), m, s)"

definition go_on :: "'m step" where
  "go_on m s = Some (None, m, s)"

text \<open>\<open>for !s.Empty() { body }\<close>\<close>

partial_function (option) while_bytes :: "(byte list \<Rightarrow> bool) \<Rightarrow> 'm step \<Rightarrow> 'm step" where
  "while_bytes emp body m s =
    (if emp s then go_on m s
     else Option.bind (body m s) (\<lambda>(e, m', s').
       case e of Some _ \<Rightarrow> Some (e, m', s') | None \<Rightarrow> while_bytes emp body m' s'))"

text \<open>A length-prefixed list that is read from the extension and then looped over.\<close>

definition each_in :: "cryptobyte_api \<Rightarrow> 'm step \<Rightarrow> byte list \<Rightarrow> 'm step" where
  "each_in A body list m d = Option.bind (while_bytes (cb_Empty A) body m list)
     (\<lambda>(e, m', _). Some (e, m', d))"

text \<open>One 16-bit element of a list, appended to a field of the message.\<close>

definition u16_entry :: "cryptobyte_api \<Rightarrow> string \<Rightarrow> (u16 \<Rightarrow> 'm \<Rightarrow> 'm) \<Rightarrow> 'm step" where
  "u16_entry A tag put m s = (case cb_ReadUint16 A s of
     None \<Rightarrow> fails tag m s | Some (v, s') \<Rightarrow> go_on (put v m) s')"

section \<open>Extensions\<close>

definition name_entry :: "cryptobyte_api \<Rightarrow> ClientHelloMsg step" where
  "name_entry A m s = (case cb_ReadUint8 A s of
     None \<Rightarrow> fails ''extensionServerName'' m s
   | Some (nameType, s1) \<Rightarrow> (case cb_ReadUint16LengthPrefixed A s1 of
       None \<Rightarrow> fails ''extensionServerName'' m s1
     | Some (serverName, s2) \<Rightarrow>
         if cb_Empty A serverName then fails ''extensionServerName'' m s2
         else if nameType \<noteq> 0 then go_on m s2
         else if length (ServerName m) \<noteq> 0 then fails ''extensionServerName'' m s2
         else let m' = m\<lparr>ServerName := string_of serverName\<rparr> in
           if suffix ''.'' (ServerName m') then fails ''extensionServerName'' m' s2 else go_on m' s2))"

definition ext_ServerName :: "cryptobyte_api \<Rightarrow> ClientHelloMsg step" where
  "ext_ServerName A m d = (case cb_ReadUint16LengthPrefixed A d of
     None \<Rightarrow> fails ''extensionServerName'' m d
   | Some (nameList, d') \<Rightarrow>
       if cb_Empty A nameList then fails ''extensionServerName'' m d'
       else each_in A (name_entry A) nameList m d')"

definition ext_StatusRequest :: "cryptobyte_api \<Rightarrow> ClientHelloMsg step" where
  "ext_StatusRequest A m d = (case cb_ReadUint8 A d of
     None \<Rightarrow> fails ''extensionStatusRequest'' m d
   | Some (statusType, d1) \<Rightarrow> (case cb_ReadUint16LengthPrefixed A d1 of
       None \<Rightarrow> fails ''extensionStatusRequest'' m d1
     | Some (_, d2) \<Rightarrow> (case cb_ReadUint16LengthPrefixed A d2 of
         None \<Rightarrow> fails ''extensionStatusRequest'' m d2
       | Some (_, d3) \<Rightarrow> go_on (m\<lparr>OcspStapling := (statusType = statusTypeOCSP)\<rparr>) d3)))"

definition ext_SupportedCurves :: "cryptobyte_api \<Rightarrow> ClientHelloMsg step" where
  "ext_SupportedCurves A m d = (case cb_ReadUint16LengthPrefixed A d of
     None \<Rightarrow> fails ''extensionSupportedCurves'' m d
   | Some (curves, d') \<Rightarrow>
       if cb_Empty A curves then fails ''extensionSupportedCurves'' m d'
       else each_in A (u16_entry A ''extensionSupportedCurves''
         (\<lambda>v m. m\<lparr>SupportedCurves := SupportedCurves m @ [v]\<rparr>)) curves m d')"

definition ext_SupportedPoints :: "cryptobyte_api \<Rightarrow> ClientHelloMsg step" where
  "ext_SupportedPoints A m d = (case readUint8LengthPrefixed A d of
     None \<Rightarrow> fails ''extensionSupportedPoints'' m d
   | Some (ps, d') \<Rightarrow> let m' = m\<lparr>SupportedPoints := ps\<rparr> in
       if length (SupportedPoints m') = 0 then fails ''extensionSupportedPoints'' m' d' else go_on m' d')"

definition ext_SessionTicket :: "cryptobyte_api \<Rightarrow> ClientHelloMsg step" where
  "ext_SessionTicket A m d = (let m' = m\<lparr>TicketSupported := True\<rparr> in
     case cb_ReadBytes A (length d) d of
       None \<Rightarrow> go_on m' d
     | Some (ticket, d') \<Rightarrow> go_on (m'\<lparr>SessionTicket := ticket\<rparr>) d')"

definition ext_SignatureAlgorithms :: "cryptobyte_api \<Rightarrow> ClientHelloMsg step" where
  "ext_SignatureAlgorithms A m d = (case cb_ReadUint16LengthPrefixed A d of
     None \<Rightarrow> fails ''extensionSignatureAlgorithms'' m d
   | Some (algs, d') \<Rightarrow>
       if cb_Empty A algs then fails ''extensionSignatureAlgorithms'' m d'
       else each_in A (u16_entry A ''extensionSignatureAlgorithms''
         (\<lambda>v m. m\<lparr>SupportedSignatureAlgorithms := SupportedSignatureAlgorithms m @ [v]\<rparr>)) algs m d')"

definition ext_SignatureAlgorithmsCert :: "cryptobyte_api \<Rightarrow> ClientHelloMsg step" where
  "ext_SignatureAlgorithmsCert A m d = (case cb_ReadUint16LengthPrefixed A d of
     None \<Rightarrow> fails ''extensionSignatureAlgorithmsCert'' m d
   | Some (algs, d') \<Rightarrow>
       if cb_Empty A algs then fails ''extensionSignatureAlgorithmsCert'' m d'
       else each_in A (u16_entry A ''extensionSignatureAlgorithmsCert''
         (\<lambda>v m. m\<lparr>SupportedSignatureAlgorithmsCert := SupportedSignatureAlgorithmsCert m @ [v]\<rparr>)) algs m d')"

definition ext_RenegotiationInfo :: "cryptobyte_api \<Rightarrow> ClientHelloMsg step" where
  "ext_RenegotiationInfo A m d = (case readUint8LengthPrefixed A d of
     None \<Rightarrow> fails ''extensionRenegotiationInfo'' m d
   | Some (r, d') \<Rightarrow> go_on (m\<lparr>SecureRenegotiation := r, SecureRenegotiationSupported := True\<rparr>) d')"

definition proto_entry :: "cryptobyte_api \<Rightarrow> ClientHelloMsg step" where
  "proto_entry A m s = (case cb_ReadUint8LengthPrefixed A s of
     None \<Rightarrow> fails ''extensionALPN'' m s
   | Some (proto, s') \<Rightarrow>
       if cb_Empty A proto then fails ''extensionALPN'' m s'
       else go_on (m\<lparr>AlpnProtocols := AlpnProtocols m @ [string_of proto]\<rparr>) s')"

definition ext_ALPN :: "cryptobyte_api \<Rightarrow> ClientHelloMsg step" where
  "ext_ALPN A m d = (case cb_ReadUint16LengthPrefixed A d of
     None \<Rightarrow> fails ''extensionALPN'' m d
   | Some (protoList, d') \<Rightarrow>
       if cb_Empty A protoList then fails ''extensionALPN'' m d'
       else each_in A (proto_entry A) protoList m d')"

definition ext_SupportedVersions :: "cryptobyte_api \<Rightarrow> ClientHelloMsg step" where
  "ext_SupportedVersions A m d = (case cb_ReadUint8LengthPrefixed A d of
     None \<Rightarrow> fails ''extensionSupportedVersions'' m d
   | Some (versList, d') \<Rightarrow>
       if cb_Empty A versList then fails ''extensionSupportedVersions'' m d'
       else each_in A (u16_entry A ''extensionSupportedVersions''
         (\<lambda>v m. m\<lparr>SupportedVersions := SupportedVersions m @ [v]\<rparr>)) versList m d')"

definition ext_Cookie :: "cryptobyte_api \<Rightarrow> ClientHelloMsg step" where
  "ext_Cookie A m d = (case readUint16LengthPrefixed A d of
     None \<Rightarrow> fails ''extensionCookie'' m d
   | Some (c, d') \<Rightarrow> let m' = m\<lparr>Cookie := c\<rparr> in
       if length (Cookie m') = 0 then fails ''extensionCookie'' m' d' else go_on m' d')"

definition share_entry :: "cryptobyte_api \<Rightarrow> ClientHelloMsg step" where
  "share_entry A m s = (case cb_ReadUint16 A s of
     None \<Rightarrow> fails ''extensionKeyShare'' m s
   | Some (g, s1) \<Rightarrow> (case readUint16LengthPrefixed A s1 of
       None \<Rightarrow> fails ''extensionKeyShare'' m s1
     | Some (kd, s2) \<Rightarrow>
         if length kd = 0 then fails ''extensionKeyShare'' m s2
         else go_on (m\<lparr>KeyShares := KeyShares m @ [\<lparr>ks_group = g, ks_data = kd\<rparr>]\<rparr>) s2))"

definition ext_KeyShare :: "cryptobyte_api \<Rightarrow> ClientHelloMsg step" where
  "ext_KeyShare A m d = (case cb_ReadUint16LengthPrefixed A d of
     None \<Rightarrow> fails ''extensionKeyShare'' m d
   | Some (clientShares, d') \<Rightarrow> each_in A (share_entry A) clientShares m d')"

definition ext_PSKModes :: "cryptobyte_api \<Rightarrow> ClientHelloMsg step" where
  "ext_PSKModes A m d = (case readUint8LengthPrefixed A d of
     None \<Rightarrow> fails ''extensionPSKModes'' m d
   | Some (modes, d') \<Rightarrow> go_on (m\<lparr>PskModes := modes\<rparr>) d')"

definition ext_QUICTransportParameters :: "cryptobyte_api \<Rightarrow> ClientHelloMsg step" where
  "ext_QUICTransportParameters A m d =
    (let m' = m\<lparr>QuicTransportParameters := replicate (length d) 0\<rparr> in
     case cb_CopyBytes A (length d) d of
       None \<Rightarrow> fails ''extensionQUICTransportParameters'' m' d
     | Some (ps, d') \<Rightarrow> go_on (m'\<lparr>QuicTransportParameters := ps\<rparr>) d')"

definition identity_entry :: "cryptobyte_api \<Rightarrow> ClientHelloMsg step" where
  "identity_entry A m s = (case readUint16LengthPrefixed A s of
     None \<Rightarrow> fails ''extensionPreSharedKey'' m s
   | Some (label, s1) \<Rightarrow> (case cb_ReadUint32 A s1 of
       None \<Rightarrow> fails ''extensionPreSharedKey'' m s1
     | Some (age, s2) \<Rightarrow>
         if length label = 0 then fails ''extensionPreSharedKey'' m s2
         else go_on (m\<lparr>PskIdentities := PskIdentities m @
           [\<lparr>psk_label = label, obfuscatedTicketAge = age\<rparr>]\<rparr>) s2))"

definition binder_entry :: "cryptobyte_api \<Rightarrow> ClientHelloMsg step" where
  "binder_entry A m s = (case readUint8LengthPrefixed A s of
     None \<Rightarrow> fails ''extensionPreSharedKey'' m s
   | Some (binder, s') \<Rightarrow>
       if length binder = 0 then fails ''extensionPreSharedKey'' m s'
       else go_on (m\<lparr>PskBinders := PskBinders m @ [binder]\<rparr>) s')"

text \<open>\<open>final\<close>: no extension follows this one.\<close>

definition psk_binders :: "cryptobyte_api \<Rightarrow> ClientHelloMsg step" where
  "psk_binders A m d = (case cb_ReadUint16LengthPrefixed A d of
     None \<Rightarrow> fails ''extensionPreSharedKey'' m d
   | Some (binders, d') \<Rightarrow>
       if cb_Empty A binders then fails ''extensionPreSharedKey'' m d'
       else each_in A (binder_entry A) binders m d')"

definition ext_PreSharedKey :: "cryptobyte_api \<Rightarrow> bool \<Rightarrow> ClientHelloMsg step" where
  "ext_PreSharedKey A final m d =
    (if \<not> final then fails ''extensionPreSharedKey'' m d
     else case cb_ReadUint16LengthPrefixed A d of
       None \<Rightarrow> fails ''extensionPreSharedKey'' m d
     | Some (identities, d') \<Rightarrow>
         if cb_Empty A identities then fails ''extensionPreSharedKey'' m d'
         else Option.bind (each_in A (identity_entry A) identities m d')
           (\<lambda>(e, m', d''). if e \<noteq> None then Some (e, m', d'') else psk_binders A m' d''))"

section \<open>The message\<close>

text \<open>
  The switch over the extensions. An unknown extension skips the check that its data has been
  consumed.
\<close>

definition switch_extension :: "cryptobyte_api \<Rightarrow> u16 \<Rightarrow> bool \<Rightarrow> ClientHelloMsg step option" where
  "switch_extension A x final =
    (if x = 0 then Some (ext_ServerName A)
     else if x = 5 then Some (ext_StatusRequest A)
     else if x = 10 then Some (ext_SupportedCurves A)
     else if x = 11 then Some (ext_SupportedPoints A)
     else if x = 35 then Some (ext_SessionTicket A)
     else if x = 13 then Some (ext_SignatureAlgorithms A)
     else if x = 50 then Some (ext_SignatureAlgorithmsCert A)
     else if x = 0xff01 then Some (ext_RenegotiationInfo A)
     else if x = 23 then Some (\<lambda>m. go_on (m\<lparr>ExtendedMasterSecret := True\<rparr>))
     else if x = 16 then Some (ext_ALPN A)
     else if x = 18 then Some (\<lambda>m. go_on (m\<lparr>Scts := True\<rparr>))
     else if x = 43 then Some (ext_SupportedVersions A)
     else if x = 44 then Some (ext_Cookie A)
     else if x = 51 then Some (ext_KeyShare A)
     else if x = 42 then Some (\<lambda>m. go_on (m\<lparr>EarlyData := True\<rparr>))
     else if x = 45 then Some (ext_PSKModes A)
     else if x = 57 then Some (ext_QUICTransportParameters A)
     else if x = 41 then Some (ext_PreSharedKey A final)
     else None)"

text \<open>One round of the loop over the extensions, with the set of the extensions seen.\<close>

definition extension_entry :: "cryptobyte_api \<Rightarrow> (ClientHelloMsg \<times> u16 list) step" where
  "extension_entry A ms s = (case ms of (m, seen) \<Rightarrow>
    (case cb_ReadUint16 A s of
       None \<Rightarrow> fails ''extData'' (m, seen) s
     | Some (x, s1) \<Rightarrow> (case cb_ReadUint16LengthPrefixed A s1 of
         None \<Rightarrow> fails ''extData'' (m, seen) s1
       | Some (extData, s2) \<Rightarrow>
           if x \<in> set seen then fails ''seenExts'' (m, seen) s2
           else case switch_extension A x (cb_Empty A s2) of
             None \<Rightarrow> go_on (m, x # seen) s2
           | Some ext \<Rightarrow> Option.bind (ext m extData) (\<lambda>(e, m', d').
               if e \<noteq> None then Some (e, (m', x # seen), s2)
               else if \<not> cb_Empty A d' then fails ''extData.Empty'' (m', x # seen) s2
               else go_on (m', x # seen) s2))))"

definition suite_entry :: "cryptobyte_api \<Rightarrow> ClientHelloMsg step" where
  "suite_entry A m s = (case cb_ReadUint16 A s of
     None \<Rightarrow> fails ''cipherSuites ReadUint16'' m s
   | Some (suite, s') \<Rightarrow>
       let m' = (if suite = scsvRenegotiation then m\<lparr>SecureRenegotiationSupported := True\<rparr> else m)
       in go_on (m'\<lparr>CipherSuites := CipherSuites m' @ [suite]\<rparr>) s')"

text \<open>The extension list, after the fixed part of the message.\<close>

definition unmarshal_extensions :: "cryptobyte_api \<Rightarrow> ClientHelloMsg step" where
  "unmarshal_extensions A m s =
    (if cb_Empty A s then fails ''s Empty'' m s
     else case cb_ReadUint16LengthPrefixed A s of
       None \<Rightarrow> fails ''extensions'' m s
     | Some (extensions, s') \<Rightarrow>
         if \<not> cb_Empty A s' then fails ''extensions'' m s'
         else Option.bind (while_bytes (cb_Empty A) (extension_entry A) (m, []) extensions)
           (\<lambda>(e, (m', _), _). Some (e, m', s')))"

definition unmarshal_suites :: "cryptobyte_api \<Rightarrow> ClientHelloMsg step" where
  "unmarshal_suites A m s = (case cb_ReadUint16LengthPrefixed A s of
     None \<Rightarrow> fails ''cipherSuites'' m s
   | Some (cipherSuites, s') \<Rightarrow>
       Option.bind (while_bytes (cb_Empty A) (suite_entry A)
           (m\<lparr>CipherSuites := [], SecureRenegotiationSupported := False\<rparr>) cipherSuites)
         (\<lambda>(e, m', _). if e \<noteq> None then Some (e, m', s')
            else case readUint8LengthPrefixed A s' of
              None \<Rightarrow> fails ''CompressionMethods'' m' s'
            | Some (cm, s'') \<Rightarrow> unmarshal_extensions A (m'\<lparr>CompressionMethods := cm\<rparr>) s''))"

definition unmarshal_head :: "cryptobyte_api \<Rightarrow> ClientHelloMsg step" where
  "unmarshal_head A m s = (case cb_Skip A 4 s of
     None \<Rightarrow> fails ''Skip'' m s
   | Some s1 \<Rightarrow> (case cb_ReadUint16 A s1 of
       None \<Rightarrow> fails ''Skip'' m s1
     | Some (v, s2) \<Rightarrow> (case cb_ReadBytes A 32 s2 of
         None \<Rightarrow> fails ''Skip'' (m\<lparr>Vers := v\<rparr>) s2
       | Some (r, s3) \<Rightarrow> (case readUint8LengthPrefixed A s3 of
           None \<Rightarrow> fails ''Skip'' (m\<lparr>Vers := v, Random := r\<rparr>) s3
         | Some (sid, s4) \<Rightarrow>
             unmarshal_suites A (m\<lparr>Vers := v, Random := r, SessionId := sid\<rparr>) s4))))"

definition unmarshal :: "cryptobyte_api \<Rightarrow> byte list \<Rightarrow> (go_error option \<times> ClientHelloMsg) option" where
  "unmarshal A data = map_option (\<lambda>(e, m, _). (e, m)) (unmarshal_head A empty_msg data)"

text \<open>\<open>buf[5:]\<close> panics on fewer than five bytes.\<close>

definition UnmarshalByByte :: "cryptobyte_api \<Rightarrow> byte list \<Rightarrow> ClientHelloMsg \<Rightarrow>
    (go_error option \<times> ClientHelloMsg) option" where
  "UnmarshalByByte A buf m =
    (if length buf = 0 then Some (Some (Errorf ''len(buf) == 0''), m)
     else if buf ! 0 \<noteq> 0x16 then Some (Some (Errorf ''!=0x16''), m)
     else if length buf < 5 then None
     else unmarshal A (drop 5 buf))"

section \<open>The contract of the byte reader\<close>

definition take_bytes :: "nat \<Rightarrow> byte list \<Rightarrow> (byte list \<times> byte list) option" where
  "take_bytes n s = (if n \<le> length s then Some (take n s, drop n s) else None)"

text \<open>The number that bytes in network order stand for.\<close>

definition be_nat :: "byte list \<Rightarrow> nat" where
  "be_nat bs = foldl (\<lambda>a b. a * 256 + unat b) 0 bs"

definition take_prefixed :: "nat \<Rightarrow> byte list \<Rightarrow> (byte list \<times> byte list) option" where
  "take_prefixed k s = Option.bind (take_bytes k s) (\<lambda>(n, r). take_bytes (be_nat n) r)"

locale cryptobyte =
  fixes A :: cryptobyte_api
  assumes Empty: "cb_Empty A s \<longleftrightarrow> s = []"
    and Skip: "cb_Skip A n s = map_option snd (take_bytes n s)"
    and ReadUint8: "cb_ReadUint8 A s = map_option (\<lambda>(b, r). (hd b, r)) (take_bytes 1 s)"
    and ReadUint16: "cb_ReadUint16 A s = map_option (\<lambda>(b, r). (word_of_nat (be_nat b), r)) (take_bytes 2 s)"
    and ReadUint32: "cb_ReadUint32 A s = map_option (\<lambda>(b, r). (word_of_nat (be_nat b), r)) (take_bytes 4 s)"
    and ReadBytes: "cb_ReadBytes A n s = take_bytes n s"
    and CopyBytes: "cb_CopyBytes A n s = take_bytes n s"
    and LP8: "cb_ReadUint8LengthPrefixed A s = take_prefixed 1 s"
    and LP16: "cb_ReadUint16LengthPrefixed A s = take_prefixed 2 s"
    and LP24: "cb_ReadUint24LengthPrefixed A s = take_prefixed 3 s"

definition documented_cryptobyte :: cryptobyte_api where
  "documented_cryptobyte = \<lparr>cb_Empty = (\<lambda>s. s = []), cb_Skip = (\<lambda>n s. map_option snd (take_bytes n s)),
     cb_ReadUint8 = (\<lambda>s. map_option (\<lambda>(b, r). (hd b, r)) (take_bytes 1 s)),
     cb_ReadUint16 = (\<lambda>s. map_option (\<lambda>(b, r). (word_of_nat (be_nat b), r)) (take_bytes 2 s)),
     cb_ReadUint32 = (\<lambda>s. map_option (\<lambda>(b, r). (word_of_nat (be_nat b), r)) (take_bytes 4 s)),
     cb_ReadBytes = take_bytes, cb_CopyBytes = take_bytes,
     cb_ReadUint8LengthPrefixed = take_prefixed 1, cb_ReadUint16LengthPrefixed = take_prefixed 2,
     cb_ReadUint24LengthPrefixed = take_prefixed 3\<rparr>"

interpretation doc: cryptobyte documented_cryptobyte
  by unfold_locales (simp_all add: documented_cryptobyte_def)

lemma take_bytes_Some:
  "take_bytes n s = Some (b, r) \<longleftrightarrow> s = b @ r \<and> length b = n"
  by (auto simp: take_bytes_def)

lemma take_bytes_append [simp]: "length b = n \<Longrightarrow> take_bytes n (b @ r) = Some (b, r)"
  by (simp add: take_bytes_Some)

lemma take_prefixed_Some:
  assumes "take_prefixed k s = Some (b, r)"
  shows "\<exists>n. s = n @ b @ r \<and> length n = k \<and> be_nat n = length b"
  using assms by (auto simp: take_prefixed_def bind_eq_Some_conv take_bytes_Some)

lemma take_prefixed_append:
  "length n = k \<Longrightarrow> be_nat n = length b \<Longrightarrow> take_prefixed k (n @ b @ r) = Some (b, r)"
  by (simp add: take_prefixed_def)

text \<open>What a read leaves is a proper suffix, and what it yields is a part of what was read.\<close>

lemma take_prefixed_parts:
  assumes "take_prefixed k s = Some (b, r)" and "0 < k"
  shows "sublist b s" and "sublist r s" and "length r < length s"
proof -
  obtain n where n: "s = n @ b @ r" "length n = k" using take_prefixed_Some [OF assms(1)] by blast
  show "sublist b s" unfolding n by (rule sublist_appendI)
  show "sublist r s" unfolding n using sublist_appendI [of r "n @ b" "[]"] by simp
  show "length r < length s" using n assms(2) by simp
qed

lemma take_bytes_parts:
  assumes "take_bytes k s = Some (b, r)" and "0 < k"
  shows "sublist r s" and "length r < length s"
  using assms by (auto simp: take_bytes_Some)

section \<open>Loops end\<close>

lemma while_bytes_rule:
  assumes emp: "\<And>s. emp s \<longleftrightarrow> s = []"
    and body: "\<And>m s. I m s \<Longrightarrow> s \<noteq> [] \<Longrightarrow>
      \<exists>e m' s'. body m s = Some (e, m', s') \<and> (e = None \<longrightarrow> I m' s' \<and> length s' < length s) \<and>
        (e \<noteq> None \<longrightarrow> Q m')"
    and fin: "\<And>m. I m [] \<Longrightarrow> Q m"
  shows "I m s \<Longrightarrow> \<exists>e m' s'. while_bytes emp body m s = Some (e, m', s') \<and> Q m'"
proof (induction "length s" arbitrary: m s rule: less_induct)
  case less
  show ?case
  proof (cases "s = []")
    case True
    then show ?thesis using fin [of m] less.prems
      by (subst while_bytes.simps) (simp add: emp go_on_def)
  next
    case False
    obtain e m' s' where b: "body m s = Some (e, m', s')"
        "e = None \<longrightarrow> I m' s' \<and> length s' < length s" "e \<noteq> None \<longrightarrow> Q m'"
      using body [OF less.prems False] by blast
    show ?thesis
    proof (cases e)
      case None
      then obtain e1 m1 s1 where "while_bytes emp body m' s' = Some (e1, m1, s1)" "Q m1"
        using less.hyps [of s' m'] b(2) by blast
      then show ?thesis using False b(1) None by (subst while_bytes.simps) (simp add: emp)
    next
      case (Some x)
      then show ?thesis using False b(1,3) by (subst while_bytes.simps) (simp add: emp)
    qed
  qed
qed

text \<open>Steps that return and leave the server name alone.\<close>

definition name_kept :: "ClientHelloMsg step \<Rightarrow> bool" where
  "name_kept st \<longleftrightarrow> (\<forall>m s. \<exists>e m' s'. st m s = Some (e, m', s') \<and> ServerName m' = ServerName m)"

definition entry_kept :: "ClientHelloMsg step \<Rightarrow> bool" where
  "entry_kept st \<longleftrightarrow> (\<forall>m s. \<exists>e m' s'. st m s = Some (e, m', s') \<and> ServerName m' = ServerName m \<and>
     (e = None \<longrightarrow> length s' < length s))"

lemmas step_defs = fails_def go_on_def readUint8LengthPrefixed_def readUint16LengthPrefixed_def

context cryptobyte
begin

lemmas reads = Empty Skip ReadUint8 ReadUint16 ReadUint32 ReadBytes CopyBytes LP8 LP16 LP24

lemma each_in_kept: "entry_kept body \<Longrightarrow> \<exists>e m'. each_in A body list m d = Some (e, m', d) \<and>
    ServerName m' = ServerName m"
  using while_bytes_rule [of "cb_Empty A" "\<lambda>m' s. ServerName m' = ServerName m" body
      "\<lambda>m'. ServerName m' = ServerName m" m list]
  unfolding entry_kept_def each_in_def by (fastforce simp: Empty)

lemma u16_entry_kept:
  "(\<And>v m. ServerName (put v m) = ServerName m) \<Longrightarrow> entry_kept (u16_entry A tag put)"
  unfolding entry_kept_def
  by (auto simp: u16_entry_def step_defs reads split: option.split prod.split dest: take_bytes_parts)

lemma proto_entry_kept: "entry_kept (proto_entry A)"
  unfolding entry_kept_def
  by (auto simp: proto_entry_def step_defs reads split: option.split prod.split dest: take_prefixed_parts)

lemma share_entry_kept: "entry_kept (share_entry A)"
  unfolding entry_kept_def
  by (auto simp: share_entry_def step_defs reads split: option.split prod.split
      dest!: take_bytes_parts take_prefixed_parts)

lemma identity_entry_kept: "entry_kept (identity_entry A)"
  unfolding entry_kept_def
  by (auto simp: identity_entry_def step_defs reads split: option.split prod.split
      dest!: take_bytes_parts take_prefixed_parts)

lemma binder_entry_kept: "entry_kept (binder_entry A)"
  unfolding entry_kept_def
  by (auto simp: binder_entry_def step_defs reads split: option.split prod.split dest: take_prefixed_parts)

lemma suite_entry_kept: "entry_kept (suite_entry A)"
  unfolding entry_kept_def
  by (auto simp: suite_entry_def step_defs reads Let_def split: option.split prod.split dest: take_bytes_parts)

lemma name_kept_each: "entry_kept body \<Longrightarrow> \<exists>e m'. (\<exists>d'. each_in A body list m d = Some (e, m', d')) \<and>
    ServerName m' = ServerName m"
  using each_in_kept [of body list m d] by blast

lemma ext_kept:
  "name_kept (ext_StatusRequest A)" "name_kept (ext_SupportedCurves A)"
  "name_kept (ext_SupportedPoints A)" "name_kept (ext_SessionTicket A)"
  "name_kept (ext_SignatureAlgorithms A)" "name_kept (ext_SignatureAlgorithmsCert A)"
  "name_kept (ext_RenegotiationInfo A)" "name_kept (ext_ALPN A)" "name_kept (ext_SupportedVersions A)"
  "name_kept (ext_Cookie A)" "name_kept (ext_KeyShare A)" "name_kept (ext_PSKModes A)"
  "name_kept (ext_QUICTransportParameters A)"
  unfolding name_kept_def
  by (auto simp: ext_StatusRequest_def ext_SupportedCurves_def ext_SupportedPoints_def
      ext_SessionTicket_def ext_SignatureAlgorithms_def ext_SignatureAlgorithmsCert_def
      ext_RenegotiationInfo_def ext_ALPN_def ext_SupportedVersions_def ext_Cookie_def
      ext_KeyShare_def ext_PSKModes_def ext_QUICTransportParameters_def step_defs Let_def
      split: option.split prod.split
      intro!: name_kept_each u16_entry_kept proto_entry_kept share_entry_kept)

lemma psk_binders_kept: "name_kept (psk_binders A)"
  unfolding name_kept_def
  by (auto simp: psk_binders_def step_defs split: option.split prod.split
      intro!: name_kept_each binder_entry_kept)

lemma psk_kept: "name_kept (ext_PreSharedKey A final)"
  unfolding name_kept_def
proof (intro allI)
  fix m d
  show "\<exists>e m' s'. ext_PreSharedKey A final m d = Some (e, m', s') \<and> ServerName m' = ServerName m"
  proof (cases "final \<and> (\<exists>ids d'. cb_ReadUint16LengthPrefixed A d = Some (ids, d') \<and> ids \<noteq> [])")
    case False
    then show ?thesis
      by (auto simp: ext_PreSharedKey_def step_defs Empty split: option.split prod.split)
  next
    case True
    then obtain ids d' where r: "cb_ReadUint16LengthPrefixed A d = Some (ids, d')" "ids \<noteq> []" final
      by blast
    obtain e m' where e: "each_in A (identity_entry A) ids m d' = Some (e, m', d')" "ServerName m' = ServerName m"
      using each_in_kept [OF identity_entry_kept] by blast
    obtain e2 m2 d2 where "psk_binders A m' d' = Some (e2, m2, d2)" "ServerName m2 = ServerName m'"
      using psk_binders_kept unfolding name_kept_def by blast
    then show ?thesis using r e by (auto simp: ext_PreSharedKey_def Empty)
  qed
qed

lemma switch_kept:
  assumes "switch_extension A x final = Some ext" and "x \<noteq> 0"
  shows "name_kept ext"
proof -
  have f: "name_kept (\<lambda>m. go_on (m\<lparr>ExtendedMasterSecret := True\<rparr>))" "name_kept (\<lambda>m. go_on (m\<lparr>Scts := True\<rparr>))"
    "name_kept (\<lambda>m. go_on (m\<lparr>EarlyData := True\<rparr>))"
    by (simp_all add: name_kept_def go_on_def)
  show ?thesis
    using assms ext_kept psk_kept [of final] f
    by (simp only: switch_extension_def split: if_splits) simp_all
qed

text \<open>The server name extension: a name is set once, and is a part of the data.\<close>

lemma name_entry_steps:
  assumes "s \<noteq> []"
  shows "\<exists>e m' s'. name_entry A m s = Some (e, m', s') \<and>
    (e = None \<longrightarrow> length s' < length s \<and> sublist s' s) \<and>
    (ServerName m' = ServerName m \<or> sublist (bytes_of (ServerName m')) s)"
proof -
  obtain t s1 where s: "s = t # s1" using assms by (cases s) auto
  have r: "cb_ReadUint8 A s = Some (t, s1)" by (simp add: ReadUint8 s take_bytes_def)
  show ?thesis
  proof (cases "take_prefixed 2 s1")
    case None
    then show ?thesis by (simp add: name_entry_def r LP16 fails_def)
  next
    case (Some nr)
    obtain n s2 where n: "take_prefixed 2 s1 = Some (n, s2)" using Some by (cases nr) auto
    note p = take_prefixed_parts [OF n]
    have "sublist n s" "sublist s2 s" "length s2 < length s"
      using p by (auto simp: s sublist_Cons_right)
    then show ?thesis
      by (simp add: name_entry_def r LP16 n fails_def go_on_def Let_def)
  qed
qed

lemma ext_ServerName_steps:
  "\<exists>e m' d'. ext_ServerName A m d = Some (e, m', d') \<and>
    (ServerName m' = ServerName m \<or> sublist (bytes_of (ServerName m')) d)"
proof (cases "take_prefixed 2 d")
  case None
  then show ?thesis by (simp add: ext_ServerName_def LP16 fails_def)
next
  case (Some r)
  obtain l d' where l: "take_prefixed 2 d = Some (l, d')" using Some by (cases r) auto
  have ld: "sublist l d" by (rule take_prefixed_parts [OF l]) simp
  have "\<exists>e m' s'. while_bytes (cb_Empty A) (name_entry A) m l = Some (e, m', s') \<and>
      (ServerName m' = ServerName m \<or> sublist (bytes_of (ServerName m')) l)"
  proof (rule while_bytes_rule [where I = "\<lambda>m' s. sublist s l \<and>
        (ServerName m' = ServerName m \<or> sublist (bytes_of (ServerName m')) l)"])
    fix m1 :: ClientHelloMsg and s :: "byte list"
    assume i: "sublist s l \<and> (ServerName m1 = ServerName m \<or> sublist (bytes_of (ServerName m1)) l)"
      and "s \<noteq> []"
    obtain e m' s' where n: "name_entry A m1 s = Some (e, m', s')"
        "e = None \<longrightarrow> length s' < length s \<and> sublist s' s"
        "ServerName m' = ServerName m1 \<or> sublist (bytes_of (ServerName m')) s"
      using name_entry_steps [OF \<open>s \<noteq> []\<close>, of m1] by blast
    have "sublist s' l" if "e = None" using n(2) i that sublist_order.order_trans by blast
    moreover have "ServerName m' = ServerName m \<or> sublist (bytes_of (ServerName m')) l"
      using n(3) i sublist_order.order_trans by auto
    ultimately show "\<exists>e m' s'. name_entry A m1 s = Some (e, m', s') \<and>
        (e = None \<longrightarrow> (sublist s' l \<and> (ServerName m' = ServerName m \<or>
          sublist (bytes_of (ServerName m')) l)) \<and> length s' < length s) \<and>
        (e \<noteq> None \<longrightarrow> ServerName m' = ServerName m \<or> sublist (bytes_of (ServerName m')) l)"
      using n(1,2) by (intro exI [of _ e] exI [of _ m'] exI [of _ s']) simp
  qed (auto simp: Empty)
  then obtain e m' s' where "while_bytes (cb_Empty A) (name_entry A) m l = Some (e, m', s')"
      "ServerName m' = ServerName m \<or> sublist (bytes_of (ServerName m')) d"
    using ld sublist_order.order_trans by blast
  then show ?thesis
    by (simp add: ext_ServerName_def LP16 l fails_def each_in_def)
qed

lemma extension_entry_steps:
  assumes "s \<noteq> []"
  shows "\<exists>e m' seen' s'. extension_entry A (m, seen) s = Some (e, (m', seen'), s') \<and>
    set seen \<subseteq> set seen' \<and> (e = None \<longrightarrow> length s' < length s \<and> sublist s' s) \<and>
    (ServerName m' = ServerName m \<or> 0 \<notin> set seen \<and> sublist (bytes_of (ServerName m')) s)"
proof (cases "take_bytes 2 s")
  case None
  then show ?thesis by (simp add: extension_entry_def ReadUint16 fails_def)
next
  case (Some r)
  obtain b s1 where b: "take_bytes 2 s = Some (b, s1)" using Some by (cases r) auto
  define x :: u16 where "x = word_of_nat (be_nat b)"
  have rx: "cb_ReadUint16 A s = Some (x, s1)" by (simp add: ReadUint16 b x_def)
  show ?thesis
  proof (cases "take_prefixed 2 s1")
    case None
    then show ?thesis by (simp add: extension_entry_def rx LP16 fails_def)
  next
    case (Some r2)
    obtain d s2 where d: "take_prefixed 2 s1 = Some (d, s2)" using Some by (cases r2) auto
    have sub: "sublist d s" "sublist s2 s" "length s2 < length s"
      using take_prefixed_parts [OF d] take_bytes_parts [OF b] sublist_order.order_trans by auto
    show ?thesis
    proof (cases "x \<in> set seen")
      case True
      then show ?thesis by (auto simp: extension_entry_def rx LP16 d fails_def)
    next
      case False
      show ?thesis
      proof (cases "switch_extension A x (cb_Empty A s2)")
        case None
        then show ?thesis using False sub by (auto simp: extension_entry_def rx LP16 d go_on_def)
      next
        case (Some ext)
        have "\<exists>e m' d'. ext m d = Some (e, m', d') \<and>
          (ServerName m' = ServerName m \<or> 0 \<notin> set seen \<and> sublist (bytes_of (ServerName m')) d)"
        proof (cases "x = 0")
          case True
          then have "ext = ext_ServerName A" using Some by (simp add: switch_extension_def)
          then show ?thesis using ext_ServerName_steps [of m d] True False by auto
        next
          case False
          then show ?thesis using switch_kept [OF Some] unfolding name_kept_def by blast
        qed
        then obtain e m' d' where e: "ext m d = Some (e, m', d')"
          "ServerName m' = ServerName m \<or> 0 \<notin> set seen \<and> sublist (bytes_of (ServerName m')) s"
          using sub(1) sublist_order.order_trans by blast
        show ?thesis using False Some sub e
          by (auto simp: extension_entry_def rx LP16 d go_on_def fails_def)
      qed
    qed
  qed
qed

text \<open>Once the extension has been seen, the name stays.\<close>

lemma extensions_keep_name:
  assumes "0 \<in> set seen"
  shows "\<exists>e m' seen' s'. while_bytes (cb_Empty A) (extension_entry A) (m, seen) s = Some (e, (m', seen'), s') \<and>
    ServerName m' = ServerName m"
proof -
  have "\<exists>e ms s'. while_bytes (cb_Empty A) (extension_entry A) (m, seen) s = Some (e, ms, s') \<and>
      ServerName (fst ms) = ServerName m"
  proof (rule while_bytes_rule [where I = "\<lambda>ms _. 0 \<in> set (snd ms) \<and> ServerName (fst ms) = ServerName m"])
    fix ms :: "ClientHelloMsg \<times> u16 list" and s :: "byte list"
    assume i: "0 \<in> set (snd ms) \<and> ServerName (fst ms) = ServerName m" and s: "s \<noteq> []"
    obtain m1 sn where ms: "ms = (m1, sn)" by (cases ms)
    obtain e m' seen' s' where "extension_entry A (m1, sn) s = Some (e, (m', seen'), s')"
        "set sn \<subseteq> set seen'" "e = None \<longrightarrow> length s' < length s"
        "ServerName m' = ServerName m1 \<or> 0 \<notin> set sn"
      using extension_entry_steps [OF s, of m1 sn] by blast
    then show "\<exists>e ms' s'. extension_entry A ms s = Some (e, ms', s') \<and>
        (e = None \<longrightarrow> (0 \<in> set (snd ms') \<and> ServerName (fst ms') = ServerName m) \<and> length s' < length s) \<and>
        (e \<noteq> None \<longrightarrow> ServerName (fst ms') = ServerName m)"
      using i ms by (intro exI [of _ e] exI [of _ "(m', seen')"] exI [of _ s']) auto
  qed (use assms in \<open>auto simp: Empty\<close>)
  then show ?thesis by (metis prod.collapse)
qed

text \<open>The whole loop returns, and a name it finds is a part of the extensions.\<close>

lemma extensions_return:
  assumes "ServerName m = []"
  shows "\<exists>e m' seen' s'. while_bytes (cb_Empty A) (extension_entry A) (m, []) s = Some (e, (m', seen'), s') \<and>
    (ServerName m' = [] \<or> sublist (bytes_of (ServerName m')) s)"
proof -
  have "\<exists>e ms s'. while_bytes (cb_Empty A) (extension_entry A) (m, []) s = Some (e, ms, s') \<and>
      (ServerName (fst ms) = [] \<or> sublist (bytes_of (ServerName (fst ms))) s)"
  proof (rule while_bytes_rule [where I = "\<lambda>ms s1. sublist s1 s \<and>
        (ServerName (fst ms) = [] \<or> sublist (bytes_of (ServerName (fst ms))) s)"])
    fix ms :: "ClientHelloMsg \<times> u16 list" and s1 :: "byte list"
    assume i: "sublist s1 s \<and> (ServerName (fst ms) = [] \<or> sublist (bytes_of (ServerName (fst ms))) s)"
      and s: "s1 \<noteq> []"
    obtain m1 sn where ms: "ms = (m1, sn)" by (cases ms)
    obtain e m' seen' s' where "extension_entry A (m1, sn) s1 = Some (e, (m', seen'), s')"
        "e = None \<longrightarrow> length s' < length s1 \<and> sublist s' s1"
        "ServerName m' = ServerName m1 \<or> sublist (bytes_of (ServerName m')) s1"
      using extension_entry_steps [OF s, of m1 sn] by blast
    moreover from this i have "e = None \<longrightarrow> sublist s' s"
        "ServerName m' = [] \<or> sublist (bytes_of (ServerName m')) s"
      using sublist_order.order_trans ms by auto
    ultimately show "\<exists>e ms' s'. extension_entry A ms s1 = Some (e, ms', s') \<and>
        (e = None \<longrightarrow> (sublist s' s \<and> (ServerName (fst ms') = [] \<or>
          sublist (bytes_of (ServerName (fst ms'))) s)) \<and> length s' < length s1) \<and>
        (e \<noteq> None \<longrightarrow> ServerName (fst ms') = [] \<or> sublist (bytes_of (ServerName (fst ms'))) s)"
      using ms by (intro exI [of _ e] exI [of _ "(m', seen')"] exI [of _ s']) auto
  qed (use assms in \<open>auto simp: Empty\<close>)
  then show ?thesis by (metis prod.collapse)
qed

lemma suites_return:
  "\<exists>e m' s'. while_bytes (cb_Empty A) (suite_entry A) m s = Some (e, m', s') \<and> ServerName m' = ServerName m"
proof (rule while_bytes_rule [where I = "\<lambda>m' _. ServerName m' = ServerName m"])
  fix m1 :: ClientHelloMsg and s :: "byte list"
  assume "ServerName m1 = ServerName m" and "s \<noteq> []"
  then show "\<exists>e m' s'. suite_entry A m1 s = Some (e, m', s') \<and>
      (e = None \<longrightarrow> ServerName m' = ServerName m \<and> length s' < length s) \<and>
      (e \<noteq> None \<longrightarrow> ServerName m' = ServerName m)"
    using suite_entry_kept unfolding entry_kept_def by fastforce
qed (simp_all add: Empty)

lemma unmarshal_extensions_return:
  assumes "ServerName m = []"
  shows "\<exists>e m' s'. unmarshal_extensions A m s = Some (e, m', s') \<and>
    (ServerName m' = [] \<or> sublist (bytes_of (ServerName m')) s)"
proof (cases "s = [] \<or> take_prefixed 2 s = None")
  case True
  then show ?thesis using assms by (auto simp: unmarshal_extensions_def reads fails_def)
next
  case False
  then obtain x r where x: "s \<noteq> []" "take_prefixed 2 s = Some (x, r)" by auto
  have "sublist x s" by (rule take_prefixed_parts [OF x(2)]) simp
  moreover obtain e m' seen' s' where
    "while_bytes (cb_Empty A) (extension_entry A) (m, []) x = Some (e, (m', seen'), s')"
    "ServerName m' = [] \<or> sublist (bytes_of (ServerName m')) x"
    using extensions_return [OF assms] by blast
  ultimately show ?thesis
    using x assms sublist_order.order_trans by (auto simp: unmarshal_extensions_def reads fails_def)
qed

lemma unmarshal_suites_return:
  assumes "ServerName m = []"
  shows "\<exists>e m' s'. unmarshal_suites A m s = Some (e, m', s') \<and>
    (ServerName m' = [] \<or> sublist (bytes_of (ServerName m')) s)"
proof (cases "take_prefixed 2 s")
  case None
  then show ?thesis using assms by (simp add: unmarshal_suites_def reads fails_def)
next
  case (Some cr)
  obtain c r where c: "take_prefixed 2 s = Some (c, r)" using Some by (cases cr) auto
  have r: "sublist r s" by (rule take_prefixed_parts [OF c]) simp
  obtain e m1 s1 where l: "while_bytes (cb_Empty A) (suite_entry A)
      (m\<lparr>CipherSuites := [], SecureRenegotiationSupported := False\<rparr>) c = Some (e, m1, s1)"
      "ServerName m1 = []"
    using suites_return [of "m\<lparr>CipherSuites := [], SecureRenegotiationSupported := False\<rparr>" c] assms by auto
  show ?thesis
  proof (cases "e \<noteq> None \<or> take_prefixed 1 r = None")
    case True
    then show ?thesis using c l by (auto simp: unmarshal_suites_def reads step_defs)
  next
    case False
    then obtain q r2 where q: "take_prefixed 1 r = Some (q, r2)" "e = None" by auto
    have r2: "sublist r2 s"
      using take_prefixed_parts(2) [OF q(1)] r sublist_order.order_trans by simp
    obtain e2 m2 s2 where "unmarshal_extensions A (m1\<lparr>CompressionMethods := q\<rparr>) r2 = Some (e2, m2, s2)"
        "ServerName m2 = [] \<or> sublist (bytes_of (ServerName m2)) r2"
      using unmarshal_extensions_return [of "m1\<lparr>CompressionMethods := q\<rparr>" r2] l(2) by auto
    with r2 show ?thesis
      using c l q sublist_order.order_trans by (auto simp: unmarshal_suites_def reads step_defs)
  qed
qed

lemma unmarshal_head_return:
  assumes "ServerName m = []"
  shows "\<exists>e m' s'. unmarshal_head A m s = Some (e, m', s') \<and>
    (ServerName m' = [] \<or> sublist (bytes_of (ServerName m')) s)"
proof (cases "\<exists>h s1 v s2 r s3 sid s4. take_bytes 4 s = Some (h, s1) \<and> take_bytes 2 s1 = Some (v, s2) \<and>
    take_bytes 32 s2 = Some (r, s3) \<and> take_prefixed 1 s3 = Some (sid, s4)")
  case False
  then show ?thesis using assms
    by (auto simp: unmarshal_head_def reads step_defs split: option.split)
next
  case True
  then obtain h s1 v s2 r s3 sid s4 where t: "take_bytes 4 s = Some (h, s1)" "take_bytes 2 s1 = Some (v, s2)"
    "take_bytes 32 s2 = Some (r, s3)" "take_prefixed 1 s3 = Some (sid, s4)" by blast
  have sub: "sublist s4 s"
    using take_prefixed_parts(2) [OF t(4)] t(1-3) take_bytes_parts(1) sublist_order.order_trans
    by (metis zero_less_numeral zero_less_one)
  obtain e m' s' where
    "unmarshal_suites A (m\<lparr>Vers := word_of_nat (be_nat v), Random := r, SessionId := sid\<rparr>) s4 = Some (e, m', s')"
    "ServerName m' = [] \<or> sublist (bytes_of (ServerName m')) s4"
    using unmarshal_suites_return [of "m\<lparr>Vers := word_of_nat (be_nat v), Random := r, SessionId := sid\<rparr>" s4]
      assms by auto
  then show ?thesis
    using t sub sublist_order.order_trans by (auto simp: unmarshal_head_def reads step_defs)
qed

lemma UnmarshalByByte_return:
  assumes "buf \<noteq> []" and "buf ! 0 = 0x16 \<longrightarrow> 5 \<le> length buf" and "ServerName m = []"
  shows "\<exists>e m'. UnmarshalByByte A buf m = Some (e, m') \<and>
    (ServerName m' = [] \<or> sublist (bytes_of (ServerName m')) buf)"
proof (cases "buf ! 0 = 0x16")
  case False
  then show ?thesis using assms by (simp add: UnmarshalByByte_def)
next
  case True
  have sub: "sublist (drop 5 buf) buf" by simp
  have "ServerName empty_msg = []" by (simp add: empty_msg_def)
  from unmarshal_head_return [OF this, of "drop 5 buf"] obtain e m' s' where
    "unmarshal_head A empty_msg (drop 5 buf) = Some (e, m', s')"
    "ServerName m' = [] \<or> sublist (bytes_of (ServerName m')) (drop 5 buf)" by blast
  then show ?thesis
    using True assms(1,2) sub sublist_order.order_trans
    by (auto simp: UnmarshalByByte_def unmarshal_def)
qed

end

section \<open>Messages of a client\<close>

definition be16 :: "nat \<Rightarrow> byte list" where
  "be16 n = [word_of_nat (n div 256), word_of_nat (n mod 256)]"

definition prefix8 :: "byte list \<Rightarrow> byte list" where
  "prefix8 b = word_of_nat (length b) # b"

definition prefix16 :: "byte list \<Rightarrow> byte list" where
  "prefix16 b = be16 (length b) @ b"

definition ext_bytes :: "u16 \<times> byte list \<Rightarrow> byte list" where
  "ext_bytes td = be16 (unat (fst td)) @ prefix16 (snd td)"

definition sni_data :: "string \<Rightarrow> byte list" where
  "sni_data host = prefix16 (0 # prefix16 (bytes_of host))"

text \<open>A record with a ClientHello; the two headers, which the parser skips, are arbitrary bytes.\<close>

definition client_hello :: "byte list \<Rightarrow> byte list \<Rightarrow> byte list \<Rightarrow> byte list \<Rightarrow> byte list \<Rightarrow> byte list \<Rightarrow>
    byte list \<Rightarrow> byte list" where
  "client_hello hdr vers random sid suites compression exts = 0x16 # hdr @ vers @ random @
     prefix8 sid @ prefix16 suites @ prefix8 compression @ prefix16 exts"

lemma prefix8_ne [simp]: "prefix8 b \<noteq> []"
  by (simp add: prefix8_def)

lemma be_nat_be16: "n < 65536 \<Longrightarrow> be_nat (be16 n) = n"
  by (simp add: be_nat_def be16_def unat_of_nat)

lemma length_be16 [simp]: "length (be16 n) = 2"
  by (simp add: be16_def)

lemma take_prefix16: "length b < 65536 \<Longrightarrow> take_prefixed 2 (prefix16 b @ r) = Some (b, r)"
  using take_prefixed_append [of "be16 (length b)" 2 b r] by (simp add: prefix16_def be_nat_be16)

lemma take_prefix8: "length b < 256 \<Longrightarrow> take_prefixed 1 (prefix8 b @ r) = Some (b, r)"
  using take_prefixed_append [of "[word_of_nat (length b)]" 1 b r]
  by (simp add: prefix8_def be_nat_def unat_of_nat)

text \<open>
  The data the RFCs prescribe for the extensions a client may send before another one (5 to 7 of RFC 8446, RFC 6066,
  7301, 7627, 8422, 5746, 9001): every extension the parser knows except the server name itself and the pre-shared key,
  which has to be the last, and any data for a type it does not know.
\<close>

definition u16_vector :: "byte list \<Rightarrow> bool" where
  "u16_vector b \<longleftrightarrow> b \<noteq> [] \<and> even (length b)"

definition known_exts :: "u16 list" where
  "known_exts = [0, 5, 10, 11, 13, 16, 18, 23, 35, 41, 42, 43, 44, 45, 50, 51, 57, 0xff01]"

inductive legal_ext :: "u16 \<Rightarrow> byte list \<Rightarrow> bool" where
  status_request: "length ids < 65536 \<Longrightarrow> length exts < 65536 \<Longrightarrow> legal_ext 5 (ty # prefix16 ids @ prefix16 exts)"
| supported_groups: "u16_vector b \<Longrightarrow> length b < 65536 \<Longrightarrow> legal_ext 10 (prefix16 b)"
| point_formats: "ps \<noteq> [] \<Longrightarrow> length ps < 256 \<Longrightarrow> legal_ext 11 (prefix8 ps)"
| signature_algorithms: "u16_vector b \<Longrightarrow> length b < 65536 \<Longrightarrow> legal_ext 13 (prefix16 b)"
| alpn: "ps \<noteq> [] \<Longrightarrow> \<forall>p\<in>set ps. p \<noteq> [] \<and> length p < 256 \<Longrightarrow> length (concat (map prefix8 ps)) < 65536 \<Longrightarrow>
    legal_ext 16 (prefix16 (concat (map prefix8 ps)))"
| certificate_timestamp: "legal_ext 18 []"
| extended_master_secret: "legal_ext 23 []"
| session_ticket: "legal_ext 35 ticket"
| early_data: "legal_ext 42 []"
| supported_versions: "u16_vector b \<Longrightarrow> length b < 256 \<Longrightarrow> legal_ext 43 (prefix8 b)"
| cookie: "c \<noteq> [] \<Longrightarrow> length c < 65536 \<Longrightarrow> legal_ext 44 (prefix16 c)"
| psk_modes: "length modes < 256 \<Longrightarrow> legal_ext 45 (prefix8 modes)"
| signature_algorithms_cert: "u16_vector b \<Longrightarrow> length b < 65536 \<Longrightarrow> legal_ext 50 (prefix16 b)"
| key_share: "\<forall>gk\<in>set shares. snd gk \<noteq> [] \<and> length (snd gk) < 65536 \<Longrightarrow>
    length (concat (map ext_bytes shares)) < 65536 \<Longrightarrow> legal_ext 51 (prefix16 (concat (map ext_bytes shares)))"
| quic_parameters: "legal_ext 57 ps"
| renegotiation_info: "length r < 256 \<Longrightarrow> legal_ext 0xff01 (prefix8 r)"
| unknown: "t \<notin> set known_exts \<Longrightarrow> legal_ext t d"

text \<open>What the parser does with them: it takes the data in and goes on.\<close>

definition ext_accepted :: "cryptobyte_api \<Rightarrow> u16 \<times> byte list \<Rightarrow> bool" where
  "ext_accepted A td \<longleftrightarrow> (case switch_extension A (fst td) False of None \<Rightarrow> True
     | Some ext \<Rightarrow> \<forall>m. \<exists>m'. ext m (snd td) = Some (None, m', []))"

context cryptobyte
begin

lemma while_stop [simp]: "while_bytes (cb_Empty A) body m [] = Some (None, m, [])"
  by (subst while_bytes.simps) (simp add: Empty go_on_def)

lemma while_go: "s \<noteq> [] \<Longrightarrow> body m s = Some (None, m', s') \<Longrightarrow>
    while_bytes (cb_Empty A) body m s = while_bytes (cb_Empty A) body m' s'"
  by (subst while_bytes.simps) (simp add: Empty)

lemma suites_even:
  "even (length s) \<Longrightarrow> \<exists>m'. while_bytes (cb_Empty A) (suite_entry A) m s = Some (None, m', []) \<and>
    ServerName m' = ServerName m"
proof (induction "length s" arbitrary: s m rule: less_induct)
  case less
  show ?case
  proof (cases "s = []")
    case False
    then have "2 \<le> length s" using less.prems by (cases s; cases "tl s") auto
    then obtain b r where b: "take_bytes 2 s = Some (b, r)" by (simp add: take_bytes_def)
    then have r: "length r < length s" "even (length r)"
      using less.prems by (auto simp: take_bytes_Some)
    obtain m1 where m1: "suite_entry A m s = Some (None, m1, r)" "ServerName m1 = ServerName m"
      by (simp add: suite_entry_def ReadUint16 b go_on_def Let_def)
    with less.hyps [OF r(1,2), of m1] while_go [where body = "suite_entry A", OF False m1(1)] show ?thesis
      by auto
  qed simp
qed

lemma u16_loop:
  "even (length s) \<Longrightarrow> \<exists>m'. while_bytes (cb_Empty A) (u16_entry A tag put) m s = Some (None, m', [])"
proof (induction "length s" arbitrary: s m rule: less_induct)
  case less
  show ?case
  proof (cases "s = []")
    case False
    then have "2 \<le> length s" using less.prems by (cases s; cases "tl s") auto
    then obtain b r where b: "take_bytes 2 s = Some (b, r)" by (simp add: take_bytes_def)
    then have r: "length r < length s" "even (length r)" using less.prems by (auto simp: take_bytes_Some)
    obtain m1 where m1: "u16_entry A tag put m s = Some (None, m1, r)"
      by (simp add: u16_entry_def ReadUint16 b go_on_def)
    with less.hyps [OF r(1,2), of m1] while_go [where body = "u16_entry A tag put", OF False m1] show ?thesis
      by auto
  qed simp
qed

text \<open>A loop over items each of which one round takes in.\<close>

lemma items_loop:
  assumes "\<And>x m r. x \<in> set xs \<Longrightarrow> enc x \<noteq> [] \<and> (\<exists>m'. body m (enc x @ r) = Some (None, m', r))"
  shows "\<exists>m'. while_bytes (cb_Empty A) body m (concat (map enc xs)) = Some (None, m', [])"
  using assms
proof (induction xs arbitrary: m)
  case (Cons x xs)
  let ?r = "concat (map enc xs)"
  obtain m1 where m1: "body m (enc x @ ?r) = Some (None, m1, ?r)" "enc x @ ?r \<noteq> []"
    using Cons.prems [of x m ?r] by auto
  obtain m' where "while_bytes (cb_Empty A) body m1 ?r = Some (None, m', [])"
    using Cons.IH Cons.prems by (metis list.set_intros(2))
  then show ?case using while_go [where body = body and m = m, OF m1(2) m1(1)] by simp
qed simp

lemma read_ext_bytes:
  assumes "length d < 65536"
  shows "cb_ReadUint16 A (ext_bytes (t, d) @ r) = Some (t, prefix16 d @ r)"
    and "cb_ReadUint16LengthPrefixed A (prefix16 d @ r) = Some (d, r)"
proof -
  have "unat t < 65536" using unsigned_less [of t, where ?'a = nat] by simp
  then show "cb_ReadUint16 A (ext_bytes (t, d) @ r) = Some (t, prefix16 d @ r)"
    by (simp add: ReadUint16 ext_bytes_def be_nat_be16)
  show "cb_ReadUint16LengthPrefixed A (prefix16 d @ r) = Some (d, r)"
    by (simp add: LP16 take_prefix16 assms)
qed

text \<open>The parser takes in all that is legal.\<close>

lemma legal_vectors:
  assumes "u16_vector b"
  shows "length b < 65536 \<Longrightarrow> ext_accepted A (10, prefix16 b)"
    and "length b < 65536 \<Longrightarrow> ext_accepted A (13, prefix16 b)"
    and "length b < 65536 \<Longrightarrow> ext_accepted A (50, prefix16 b)"
    and "length b < 256 \<Longrightarrow> ext_accepted A (43, prefix8 b)"
proof -
  have b: "b \<noteq> []" "even (length b)" using assms by (simp_all add: u16_vector_def)
  have w: "\<exists>m'. each_in A (u16_entry A tag put) b m [] = Some (None, m', [])" for tag and put :: "u16 \<Rightarrow> ClientHelloMsg \<Rightarrow> ClientHelloMsg" and m
    using u16_loop [OF b(2), where tag = tag and put = put and m = m] by (auto simp: each_in_def)
  have p: "length b < 65536 \<Longrightarrow> take_prefixed 2 (prefix16 b) = Some (b, [])"
    "length b < 256 \<Longrightarrow> take_prefixed 1 (prefix8 b) = Some (b, [])"
    using take_prefix16 [of b "[]"] take_prefix8 [of b "[]"] by simp_all
  note defs = ext_accepted_def switch_extension_def ext_SupportedCurves_def ext_SignatureAlgorithms_def
    ext_SignatureAlgorithmsCert_def ext_SupportedVersions_def reads
  show "length b < 65536 \<Longrightarrow> ext_accepted A (10, prefix16 b)" using p by (simp add: defs b(1) w)
  show "length b < 65536 \<Longrightarrow> ext_accepted A (13, prefix16 b)" using p by (simp add: defs b(1) w)
  show "length b < 65536 \<Longrightarrow> ext_accepted A (50, prefix16 b)" using p by (simp add: defs b(1) w)
  show "length b < 256 \<Longrightarrow> ext_accepted A (43, prefix8 b)" using p by (simp add: defs b(1) w)
qed

lemma legal_alpn:
  assumes "ps \<noteq> []" and "\<forall>p\<in>set ps. p \<noteq> [] \<and> length p < 256" and "length (concat (map prefix8 ps)) < 65536"
  shows "ext_accepted A (16, prefix16 (concat (map prefix8 ps)))"
proof -
  let ?l = "concat (map prefix8 ps)"
  have "\<exists>m'. proto_entry A m (prefix8 p @ r) = Some (None, m', r)" if "p \<in> set ps" for p m r
    using assms(2) that take_prefix8 [of p r] by (simp add: proto_entry_def reads go_on_def)
  then have w: "\<exists>m'. while_bytes (cb_Empty A) (proto_entry A) m ?l = Some (None, m', [])" for m
    by (intro items_loop) (simp add: prefix8_def)
  have e: "\<exists>m'. each_in A (proto_entry A) ?l m [] = Some (None, m', [])" for m
    using w [of m] by (auto simp: each_in_def)
  have "?l \<noteq> []" using assms(1) by (cases ps) simp_all
  then show ?thesis
    using take_prefix16 [OF assms(3), of "[]"]
    by (simp add: ext_accepted_def switch_extension_def ext_ALPN_def reads e)
qed

lemma legal_shares:
  assumes "\<forall>gk\<in>set shares. snd gk \<noteq> [] \<and> length (snd gk) < 65536" and "length (concat (map ext_bytes shares)) < 65536"
  shows "ext_accepted A (51, prefix16 (concat (map ext_bytes shares)))"
proof -
  let ?l = "concat (map ext_bytes shares)"
  have "\<exists>m'. share_entry A m (ext_bytes gk @ r) = Some (None, m', r)" if "gk \<in> set shares" for gk m r
    using assms(1) that read_ext_bytes(1) [of "snd gk" "fst gk" r] read_ext_bytes(2) [of "snd gk" r]
    by (auto simp: share_entry_def readUint16LengthPrefixed_def go_on_def)
  then have w: "\<exists>m'. while_bytes (cb_Empty A) (share_entry A) m ?l = Some (None, m', [])" for m
    by (intro items_loop) (simp add: ext_bytes_def be16_def)
  have e: "\<exists>m'. each_in A (share_entry A) ?l m [] = Some (None, m', [])" for m
    using w [of m] by (auto simp: each_in_def)
  show ?thesis
    using take_prefix16 [OF assms(2), of "[]"]
    by (simp add: ext_accepted_def switch_extension_def ext_KeyShare_def reads e)
qed

lemma legal_accepted: "legal_ext t d \<Longrightarrow> ext_accepted A (t, d)"
proof (induction rule: legal_ext.induct)
  case (status_request ids exts ty)
  then show ?case
    using take_prefix16 [of ids "prefix16 exts"] take_prefix16 [of exts "[]"]
    by (simp add: ext_accepted_def switch_extension_def ext_StatusRequest_def reads take_bytes_def go_on_def)
next
  case (point_formats ps)
  then show ?case using take_prefix8 [of ps "[]"]
    by (simp add: ext_accepted_def switch_extension_def ext_SupportedPoints_def step_defs reads)
next
  case (session_ticket ticket)
  then show ?case by (simp add: ext_accepted_def switch_extension_def ext_SessionTicket_def reads take_bytes_def go_on_def)
next
  case (cookie c)
  then show ?case using take_prefix16 [of c "[]"]
    by (simp add: ext_accepted_def switch_extension_def ext_Cookie_def step_defs reads)
next
  case (psk_modes modes)
  then show ?case using take_prefix8 [of modes "[]"]
    by (simp add: ext_accepted_def switch_extension_def ext_PSKModes_def step_defs reads)
next
  case (quic_parameters ps)
  then show ?case
    by (simp add: ext_accepted_def switch_extension_def ext_QUICTransportParameters_def reads take_bytes_def go_on_def)
next
  case (renegotiation_info r)
  then show ?case using take_prefix8 [of r "[]"]
    by (simp add: ext_accepted_def switch_extension_def ext_RenegotiationInfo_def step_defs reads)
next
  case (unknown t d)
  then show ?case by (simp add: ext_accepted_def switch_extension_def known_exts_def)
qed (blast intro: legal_vectors legal_alpn legal_shares
  | simp add: ext_accepted_def switch_extension_def go_on_def)+

lemma accepted_entry:
  assumes "length d < 65536" and "t \<notin> set seen" and "r \<noteq> []" and "t \<noteq> 0" and "ext_accepted A (t, d)"
  shows "\<exists>m'. extension_entry A (m, seen) (ext_bytes (t, d) @ r) = Some (None, (m', t # seen), r) \<and>
    ServerName m' = ServerName m"
proof (cases "switch_extension A t False")
  case None
  then show ?thesis
    using assms by (simp add: extension_entry_def read_ext_bytes Empty go_on_def)
next
  case (Some ext)
  then obtain m' where m': "ext m d = Some (None, m', [])"
    using assms(5) by (auto simp: ext_accepted_def)
  have "ServerName m' = ServerName m"
    using switch_kept [OF Some assms(4)] m' unfolding name_kept_def by (metis option.inject prod.inject)
  then show ?thesis
    using assms Some m' by (simp add: extension_entry_def read_ext_bytes Empty go_on_def)
qed

lemma accepted_entries:
  assumes "distinct (map fst pre)" and "0 \<notin> fst ` set pre" and "set (map fst pre) \<inter> set seen = {}"
    and "\<And>td. td \<in> set pre \<Longrightarrow> length (snd td) < 65536 \<and> ext_accepted A td" and "r \<noteq> []"
  shows "\<exists>m' seen'. while_bytes (cb_Empty A) (extension_entry A) (m, seen) (concat (map ext_bytes pre) @ r) =
      while_bytes (cb_Empty A) (extension_entry A) (m', seen') r \<and>
    ServerName m' = ServerName m \<and> set seen' = fst ` set pre \<union> set seen"
  using assms
proof (induction pre arbitrary: m seen)
  case Nil
  then show ?case by auto
next
  case (Cons td pre)
  obtain t d where td: "td = (t, d)" by (cases td)
  let ?r = "concat (map ext_bytes pre) @ r"
  have "?r \<noteq> []" using Cons.prems(5) by simp
  moreover have "length d < 65536" "ext_accepted A (t, d)" using Cons.prems(4) [of td] td by simp_all
  ultimately obtain m1 where
    m1: "extension_entry A (m, seen) (ext_bytes (t, d) @ ?r) = Some (None, (m1, t # seen), ?r)"
      "ServerName m1 = ServerName m"
    using accepted_entry [of d t seen ?r m] Cons.prems(1-3) td by auto
  have ne: "ext_bytes (t, d) @ ?r \<noteq> []" by (simp add: ext_bytes_def be16_def)
  have p: "distinct (map fst pre)" "0 \<notin> fst ` set pre" "set (map fst pre) \<inter> set (t # seen) = {}"
      "\<And>td. td \<in> set pre \<Longrightarrow> length (snd td) < 65536 \<and> ext_accepted A td"
    using Cons.prems td by auto
  obtain m' seen' where m': "while_bytes (cb_Empty A) (extension_entry A) (m1, t # seen) ?r =
      while_bytes (cb_Empty A) (extension_entry A) (m', seen') r"
      "ServerName m' = ServerName m1" "set seen' = fst ` set pre \<union> set (t # seen)"
    using Cons.IH [OF p Cons.prems(5)] by blast
  then have "while_bytes (cb_Empty A) (extension_entry A) (m, seen) (concat (map ext_bytes (td # pre)) @ r) =
      while_bytes (cb_Empty A) (extension_entry A) (m', seen') r"
    using while_go [where body = "extension_entry A", OF ne m1(1)] td by simp
  with m'(2,3) m1(2) td show ?case by (intro exI [of _ m'] exI [of _ seen']) auto
qed

lemma sni_parsed:
  assumes "host \<noteq> []" and "\<not> suffix ''.'' host" and "length host < 65000" and "ServerName m = []"
  shows "ext_ServerName A m (sni_data host) = Some (None, m\<lparr>ServerName := host\<rparr>, [])"
proof -
  have p: "take_prefixed 2 (prefix16 (bytes_of host)) = Some (bytes_of host, [])"
    using take_prefix16 [of "bytes_of host" "[]"] assms(3) by simp
  have "name_entry A m (0 # prefix16 (bytes_of host)) = Some (None, m\<lparr>ServerName := host\<rparr>, [])"
    using assms p by (simp add: name_entry_def ReadUint8 take_bytes_def LP16 Empty go_on_def)
  then have w: "while_bytes (cb_Empty A) (name_entry A) m (0 # prefix16 (bytes_of host)) =
      Some (None, m\<lparr>ServerName := host\<rparr>, [])"
    using while_go [where body = "name_entry A" and s = "0 # prefix16 (bytes_of host)"] by simp
  have "take_prefixed 2 (sni_data host) = Some (0 # prefix16 (bytes_of host), [])"
    using take_prefix16 [of "0 # prefix16 (bytes_of host)" "[]"] assms(3)
    by (simp add: sni_data_def prefix16_def)
  then show ?thesis using w by (simp add: ext_ServerName_def LP16 Empty each_in_def)
qed

lemma sni_found:
  assumes pre: "distinct (map fst pre)" "0 \<notin> fst ` set pre"
      "\<And>td. td \<in> set pre \<Longrightarrow> length (snd td) < 65536 \<and> ext_accepted A td"
    and host: "host \<noteq> []" "\<not> suffix ''.'' host" "length host < 65000" and m: "ServerName m = []"
  shows "\<exists>e m' seen' s'. while_bytes (cb_Empty A) (extension_entry A) (m, [])
      (concat (map ext_bytes pre) @ ext_bytes (0, sni_data host) @ post) = Some (e, (m', seen'), s') \<and>
    ServerName m' = host"
proof -
  let ?x = "ext_bytes (0, sni_data host)"
  have ne: "?x @ post \<noteq> []" by (simp add: ext_bytes_def be16_def)
  obtain m1 seen1 where l: "while_bytes (cb_Empty A) (extension_entry A) (m, []) (concat (map ext_bytes pre) @ ?x @ post) =
      while_bytes (cb_Empty A) (extension_entry A) (m1, seen1) (?x @ post)"
      "ServerName m1 = []" "set seen1 = fst ` set pre"
    using accepted_entries [OF pre(1,2) _ pre(3) ne, of "[]" m] m by auto
  have len: "length (sni_data host) < 65536" using host(3) by (simp add: sni_data_def prefix16_def)
  have "extension_entry A (m1, seen1) (?x @ post) = Some (None, (m1\<lparr>ServerName := host\<rparr>, 0 # seen1), post)"
    using sni_parsed [OF host l(2)] l(3) pre(2)
    by (simp add: extension_entry_def read_ext_bytes [OF len] switch_extension_def Empty go_on_def)
  from while_go [where body = "extension_entry A", OF ne this]
  show ?thesis using extensions_keep_name [of "0 # seen1" "m1\<lparr>ServerName := host\<rparr>" post] l(1) by auto
qed

lemma client_hello_name:
  assumes hdr: "length hdr = 8" "length vers = 2" "length random = 32" "length sid < 256"
    and su: "even (length suites)" "length suites < 65536" "length compression < 256"
    and pre: "distinct (map fst pre)" "0 \<notin> fst ` set pre"
      "\<And>td. td \<in> set pre \<Longrightarrow> length (snd td) < 65536 \<and> ext_accepted A td"
    and host: "host \<noteq> []" "\<not> suffix ''.'' host" "length host < 65000"
    and len: "length (concat (map ext_bytes pre) @ ext_bytes (0, sni_data host) @ post) < 65536"
  shows "\<exists>e m'. UnmarshalByByte A (client_hello hdr vers random sid suites compression
      (concat (map ext_bytes pre) @ ext_bytes (0, sni_data host) @ post)) m = Some (e, m') \<and>
    ServerName m' = host"
proof -
  let ?X = "concat (map ext_bytes pre) @ ext_bytes (0, sni_data host) @ post"
  let ?P = "prefix8 compression @ prefix16 ?X"
  have "\<exists>h1 h2. hdr = h1 @ h2 \<and> length h1 = 4 \<and> length h2 = 4"
    using hdr(1) by (intro exI [of _ "take 4 hdr"] exI [of _ "drop 4 hdr"]) simp
  then obtain h1 h2 where hd: "hdr = h1 @ h2" "length h1 = 4" "length h2 = 4" by blast
  define m1 where "m1 = empty_msg\<lparr>Vers := word_of_nat (be_nat vers), Random := random, SessionId := sid\<rparr>"
  have n1: "ServerName m1 = []" by (simp add: m1_def empty_msg_def)
  obtain m2 where m2: "while_bytes (cb_Empty A) (suite_entry A)
      (m1\<lparr>CipherSuites := [], SecureRenegotiationSupported := False\<rparr>) suites = Some (None, m2, [])"
      "ServerName m2 = []"
    using suites_even [OF su(1), of "m1\<lparr>CipherSuites := [], SecureRenegotiationSupported := False\<rparr>"] n1 by auto
  obtain e m3 seen s3 where m3: "while_bytes (cb_Empty A) (extension_entry A)
      (m2\<lparr>CompressionMethods := compression\<rparr>, []) ?X = Some (e, (m3, seen), s3)" "ServerName m3 = host"
    using sni_found [OF pre host, of "m2\<lparr>CompressionMethods := compression\<rparr>" post] m2(2) by auto
  have x: "take_prefixed 2 (prefix16 ?X) = Some (?X, [])" using take_prefix16 [OF len, of "[]"] by simp
  have "prefix16 ?X \<noteq> []" by (simp add: prefix16_def be16_def)
  then have "unmarshal_extensions A (m2\<lparr>CompressionMethods := compression\<rparr>) (prefix16 ?X) = Some (e, m3, [])"
    using x m3 by (simp add: unmarshal_extensions_def reads)
  then have "unmarshal_suites A m1 (prefix16 suites @ ?P) = Some (e, m3, [])"
    using take_prefix16 [OF su(2), of ?P] take_prefix8 [OF su(3), of "prefix16 ?X"] m2
    by (simp add: unmarshal_suites_def reads step_defs)
  then have "unmarshal_head A empty_msg (h2 @ vers @ random @ prefix8 sid @ prefix16 suites @ ?P) = Some (e, m3, [])"
    using take_prefix8 [OF hdr(4), of "prefix16 suites @ ?P"] hd(3) hdr(2,3)
    by (simp add: unmarshal_head_def reads step_defs m1_def)
  then show ?thesis
    using m3(2) hd by (simp add: UnmarshalByByte_def unmarshal_def client_hello_def)
qed

end

section \<open>Properties\<close>

text \<open>C20: The parser finds the server name of every well-formed ClientHello: if the extensions before the
  server name extension are distinct and each carries the data the RFCs prescribe for its type (any data for a type
  the parser does not know), and the name is a host name without a final dot, then that host name is the result,
  whatever bytes follow it in the extension list, even if they make the parser report an error.\<close>

theorem hello_server_name:
  assumes "cryptobyte A"
    and "length hdr = 8" and "length vers = 2" and "length random = 32" and "length sid < 256"
    and "even (length suites)" and "length suites < 65536" and "length compression < 256"
    and "distinct (map fst pre)" and "0 \<notin> fst ` set pre"
    and "\<forall>td\<in>set pre. length (snd td) < 65536 \<and> legal_ext (fst td) (snd td)"
    and "host \<noteq> []" and "\<not> suffix ''.'' host" and "length host < 65000"
    and "length (concat (map ext_bytes pre) @ ext_bytes (0, sni_data host) @ post) < 65536"
  shows "\<exists>e m'. UnmarshalByByte A (client_hello hdr vers random sid suites compression
      (concat (map ext_bytes pre) @ ext_bytes (0, sni_data host) @ post)) m = Some (e, m') \<and>
    ServerName m' = host"
proof -
  have "length (snd td) < 65536 \<and> ext_accepted A td" if "td \<in> set pre" for td
    using assms(11) that cryptobyte.legal_accepted [OF assms(1), of "fst td" "snd td"] by simp
  then show ?thesis by (rule cryptobyte.client_hello_name [OF assms(1-10) _ assms(12-15)])
qed

theorem hello_server_name_witness:
  "\<exists>e m'. UnmarshalByByte documented_cryptobyte
     (client_hello (replicate 8 0) [3, 3] (replicate 32 7) [] [19, 1] [0]
       (ext_bytes (0x0a0a, [1]) @ ext_bytes (43, [2, 3, 4]) @ ext_bytes (0, sni_data ''a.io'') @ [255]))
     empty_msg = Some (e, m') \<and> ServerName m' = ''a.io''"
proof -
  have "legal_ext 43 [2, 3, 4]"
    using supported_versions [of "[3, 4]"] by (simp add: u16_vector_def prefix8_def)
  moreover have "legal_ext 0x0a0a [1]" by (rule unknown) (simp add: known_exts_def)
  ultimately show ?thesis
    using hello_server_name [OF doc.cryptobyte_axioms, of "replicate 8 0" "[3, 3]" "replicate 32 7" "[]"
        "[19, 1]" "[0]" "[(0x0a0a, [1]), (43, [2, 3, 4])]" "''a.io''" "[255]" empty_msg]
    by (simp add: suffix_def ext_bytes_def prefix16_def sni_data_def)
qed

text \<open>C21: On any bytes the parser returns, except that a buffer of one to four bytes that starts
  with the handshake type makes it slice out of range; and a name it yields is a contiguous part
  of the buffer it was given.\<close>

theorem hello_safe:
  assumes "cryptobyte A" and "ServerName m = []"
  shows "(UnmarshalByByte A buf m = None \<longleftrightarrow> buf \<noteq> [] \<and> buf ! 0 = 0x16 \<and> length buf < 5) \<and>
    (case UnmarshalByByte A buf m of None \<Rightarrow> True
     | Some (e, m') \<Rightarrow> ServerName m' = [] \<or> sublist (bytes_of (ServerName m')) buf)"
proof (cases "buf \<noteq> [] \<and> (buf ! 0 = 0x16 \<longrightarrow> 5 \<le> length buf)")
  case True
  then show ?thesis using cryptobyte.UnmarshalByByte_return [OF assms(1) _ _ assms(2), of buf] by auto
next
  case False
  then show ?thesis using assms(2) by (auto simp: UnmarshalByByte_def)
qed

theorem hello_safe_witness:
  "UnmarshalByByte documented_cryptobyte [0x16, 3, 1] empty_msg = None"
  using hello_safe [OF doc.cryptobyte_axioms, of empty_msg "[0x16, 3, 1]"] by (simp add: empty_msg_def)

end
