(* ===== verification/Auth.thy ===== *)
theory Auth
  imports Manager
begin

text \<open>
  Authentication: the check of user, password and address in \<^verbatim>\<open>server/auth.go\<close>, the scripts of
  \<^verbatim>\<open>server/lua\<close> and the consumers that set, add and delete a user's data
  (\<^verbatim>\<open>server/rabbitmq_setUserData_consume.go\<close>, \<^verbatim>\<open>server/rabbitmq_addUserData_consume.go\<close>,
  \<^verbatim>\<open>server/rabbitmq_delUserData_consume.go\<close>).
\<close>

section \<open>Redis\<close>

text \<open>
  The commands of the Redis server are a parameter. A command answers with a value or an
  error; \<open>redis_Nil\<close> is the error of a key that does not exist.
\<close>

definition redis_Nil :: go_error where
  "redis_Nil = Errorf ''redis: nil''"

record 's redis_api =
  rd_GET :: "string \<Rightarrow> 's \<Rightarrow> go_error + string"
  rd_SISMEMBER :: "string \<Rightarrow> string \<Rightarrow> 's \<Rightarrow> go_error + bool"
  rd_SET :: "string \<Rightarrow> string \<Rightarrow> 's \<Rightarrow> go_error + 's"
  rd_DEL :: "string list \<Rightarrow> 's \<Rightarrow> go_error + 's"
  rd_SADD :: "string \<Rightarrow> string list \<Rightarrow> 's \<Rightarrow> go_error + 's"

section \<open>User data\<close>

text \<open>The fields of the message \<open>AuthInfo\<close>; \<open>Ips\<close> holds the keys of its map.\<close>

record AuthInfo =
  Username :: string
  Password :: string
  ProxyUsername :: string
  ProxyPassword :: string
  S5Addr :: string
  HttpAddr :: string
  UpdateUnix :: int
  Ips :: "string list"

definition strKey :: "string \<Rightarrow> string" where
  "strKey username = ''auth_user_data_'' @ username"

definition setKey :: "string \<Rightarrow> string" where
  "setKey username = ''user_ip_set_'' @ username"

definition sum_error :: "go_error + 'a \<Rightarrow> go_error option" where
  "sum_error r = (case r of Inl e \<Rightarrow> Some e | Inr _ \<Rightarrow> None)"

text \<open>
  \<open>net\<close> is the error of the connection, if it fails; \<open>Exec\<close> returns the first error among the
  commands. \<open>json\<close> is \<open>json.Unmarshal\<close>.
\<close>

definition pipe_Exec :: "go_error option \<Rightarrow> go_error option list \<Rightarrow> go_error option" where
  "pipe_Exec net errs = (case net of Some e \<Rightarrow> Some e
     | None \<Rightarrow> (case find (\<lambda>e. e \<noteq> None) errs of Some e \<Rightarrow> e | None \<Rightarrow> None))"

definition Valid :: "'s redis_api \<Rightarrow> (string \<Rightarrow> go_error + AuthInfo) \<Rightarrow> go_error option \<Rightarrow>
    string \<Rightarrow> string \<Rightarrow> string \<Rightarrow> 's \<Rightarrow> go_error + AuthInfo" where
  "Valid R json net username password ip s =
    (let getOp = rd_GET R (strKey username) s;
         sismemberOp = rd_SISMEMBER R (setKey username) ip s
     in if pipe_Exec net [sum_error getOp, sum_error sismemberOp] \<noteq> None
        then Inl (Errorf ''pipe.Exec'')
        else case getOp of
          Inl e \<Rightarrow> Inl (if e = redis_Nil then Errorf ''no such user'' else Errorf ''getOp.Result'')
        | Inr strVal \<Rightarrow> (case json strVal of
            Inl _ \<Rightarrow> Inl (Errorf ''json.Unmarshal'')
          | Inr authInfo \<Rightarrow>
              if Username authInfo \<noteq> username \<or> Password authInfo \<noteq> password
              then Inl (Errorf ''wrong password'')
              else case sismemberOp of
                Inl _ \<Rightarrow> Inl (Errorf ''sismemberOp.Result'')
              | Inr exists \<Rightarrow> if \<not> exists then Inl (Errorf ''no such ip'') else Inr authInfo))"

section \<open>The scripts\<close>

text \<open>
  A script runs its commands one after the other and stops at the first that fails; what the
  earlier ones did stays. \<open>KEYS\<close> are two keys, \<open>ARGV\<close> a value and the members.
\<close>

definition SetUserDataLuaScript :: "'s redis_api \<Rightarrow> string \<Rightarrow> string \<Rightarrow> string \<Rightarrow> string list \<Rightarrow> 's \<Rightarrow>
    go_error option \<times> 's" where
  "SetUserDataLuaScript R stringKey ipsKey stringValue setMembers s =
    (case rd_SET R stringKey stringValue s of
       Inl e \<Rightarrow> (Some e, s)
     | Inr s1 \<Rightarrow> (case rd_DEL R [ipsKey] s1 of
         Inl e \<Rightarrow> (Some e, s1)
       | Inr s2 \<Rightarrow> (case rd_SADD R ipsKey setMembers s2 of
           Inl e \<Rightarrow> (Some e, s2)
         | Inr s3 \<Rightarrow> (None, s3))))"

definition AddUserDataLuaScript :: "'s redis_api \<Rightarrow> string \<Rightarrow> string \<Rightarrow> string \<Rightarrow> string list \<Rightarrow> 's \<Rightarrow>
    go_error option \<times> 's" where
  "AddUserDataLuaScript R stringKey ipsKey stringValue setMembers s =
    (case rd_SET R stringKey stringValue s of
       Inl e \<Rightarrow> (Some e, s)
     | Inr s1 \<Rightarrow> (case rd_SADD R ipsKey setMembers s1 of
         Inl e \<Rightarrow> (Some e, s1)
       | Inr s2 \<Rightarrow> (None, s2)))"

section \<open>The consumers\<close>

datatype acknowledgement = Ack bool | Nack bool bool

text \<open>
  \<open>proto\<close> is \<open>proto.Unmarshal\<close>, \<open>marshal\<close> is \<open>json.Marshal\<close>, \<open>now\<close> the time; \<open>net\<close> is the error of
  \<open>EvalSha\<close> when the script is not run. The consumer answers the broker once.
\<close>

definition user_data_action :: "('s redis_api \<Rightarrow> string \<Rightarrow> string \<Rightarrow> string \<Rightarrow> string list \<Rightarrow> 's \<Rightarrow>
      go_error option \<times> 's) \<Rightarrow> 's redis_api \<Rightarrow> (byte list \<Rightarrow> go_error + AuthInfo) \<Rightarrow>
    (AuthInfo \<Rightarrow> go_error + string) \<Rightarrow> int \<Rightarrow> go_error option \<Rightarrow> byte list \<Rightarrow> 's \<Rightarrow>
    acknowledgement \<times> 's" where
  "user_data_action script R proto marshal now net body s = (case proto body of
     Inl _ \<Rightarrow> (Nack False False, s)
   | Inr info0 \<Rightarrow>
       let setMembers = Ips info0;
           info = info0\<lparr>Ips := [], UpdateUnix := now\<rparr>
       in case marshal info of
            Inl _ \<Rightarrow> (Nack False False, s)
          | Inr data \<Rightarrow>
              (let (err, s') = (case net of Some e \<Rightarrow> (Some e, s)
                 | None \<Rightarrow> script R (strKey (Username info)) (setKey (Username info)) data setMembers s)
               in if err \<noteq> None then (Nack False True, s') else (Ack False, s')))"

definition runRabbitmqSetUserDataQueueConsumeAction :: "'s redis_api \<Rightarrow>
    (byte list \<Rightarrow> go_error + AuthInfo) \<Rightarrow> (AuthInfo \<Rightarrow> go_error + string) \<Rightarrow> int \<Rightarrow> go_error option \<Rightarrow>
    byte list \<Rightarrow> 's \<Rightarrow> acknowledgement \<times> 's" where
  "runRabbitmqSetUserDataQueueConsumeAction = user_data_action SetUserDataLuaScript"

definition runRabbitmqAddUserDataQueueConsumeAction :: "'s redis_api \<Rightarrow>
    (byte list \<Rightarrow> go_error + AuthInfo) \<Rightarrow> (AuthInfo \<Rightarrow> go_error + string) \<Rightarrow> int \<Rightarrow> go_error option \<Rightarrow>
    byte list \<Rightarrow> 's \<Rightarrow> acknowledgement \<times> 's" where
  "runRabbitmqAddUserDataQueueConsumeAction = user_data_action AddUserDataLuaScript"

text \<open>
  The deletion of a user also closes its connections. \<open>net\<close> is the error of the connection to
  Redis; the outer option is a panic, as in \<open>close_user\<close>.
\<close>

definition runRabbitmqDeleteUserDataQueueConsumeAction :: "'s redis_api \<Rightarrow>
    ('n, connContext list) cmap_api \<Rightarrow> (byte list \<Rightarrow> go_error + AuthInfo) \<Rightarrow> nat list \<Rightarrow>
    go_error option \<Rightarrow> byte list \<Rightarrow> ('m, 'n) manager \<Rightarrow> 's \<Rightarrow> (('m, 'n) manager \<times> 's) option" where
  "runRabbitmqDeleteUserDataQueueConsumeAction R B proto sched net body m s = (case proto body of
     Inl _ \<Rightarrow> Some (m, s)
   | Inr info \<Rightarrow>
       (case (case net of Some e \<Rightarrow> Inl e
          | None \<Rightarrow> rd_DEL R [strKey (Username info), setKey (Username info)] s) of
          Inl _ \<Rightarrow> Some (m, s)
        | Inr s' \<Rightarrow> map_option (\<lambda>m'. (m', s')) (close_user B sched (Username info) m)))"

section \<open>The contract of Redis\<close>

datatype redis_value = RString string | RSet "string set"

locale redis =
  fixes R :: "'s redis_api" and kv :: "'s \<Rightarrow> string \<rightharpoonup> redis_value"
  assumes GET: "rd_GET R k s = (case kv s k of Some (RString v) \<Rightarrow> Inr v
      | Some (RSet _) \<Rightarrow> Inl (Errorf ''WRONGTYPE'') | None \<Rightarrow> Inl redis_Nil)"
    and SISMEMBER: "rd_SISMEMBER R k x s = (case kv s k of Some (RSet S) \<Rightarrow> Inr (x \<in> S)
      | Some (RString _) \<Rightarrow> Inl (Errorf ''WRONGTYPE'') | None \<Rightarrow> Inr False)"
    and SET: "\<exists>s'. rd_SET R k v s = Inr s' \<and> kv s' = (kv s)(k \<mapsto> RString v)"
    and DEL: "\<exists>s'. rd_DEL R ks s = Inr s' \<and> kv s' = kv s |` (- set ks)"
    and SADD: "xs \<noteq> [] \<Longrightarrow> (case kv s k of Some (RString _) \<Rightarrow> \<exists>e. rd_SADD R k xs s = Inl e
      | None \<Rightarrow> \<exists>s'. rd_SADD R k xs s = Inr s' \<and> kv s' = (kv s)(k \<mapsto> RSet (set xs))
      | Some (RSet S) \<Rightarrow> \<exists>s'. rd_SADD R k xs s = Inr s' \<and> kv s' = (kv s)(k \<mapsto> RSet (S \<union> set xs)))"
    and SADD_Nil: "\<exists>e. rd_SADD R k [] s = Inl e"

text \<open>An instance: the key space itself.\<close>

definition redis_store :: "(string \<rightharpoonup> redis_value) redis_api" where
  "redis_store = \<lparr>
     rd_GET = (\<lambda>k s. case s k of Some (RString v) \<Rightarrow> Inr v
       | Some (RSet _) \<Rightarrow> Inl (Errorf ''WRONGTYPE'') | None \<Rightarrow> Inl redis_Nil),
     rd_SISMEMBER = (\<lambda>k x s. case s k of Some (RSet S) \<Rightarrow> Inr (x \<in> S)
       | Some (RString _) \<Rightarrow> Inl (Errorf ''WRONGTYPE'') | None \<Rightarrow> Inr False),
     rd_SET = (\<lambda>k v s. Inr (s(k \<mapsto> RString v))),
     rd_DEL = (\<lambda>ks s. Inr (s |` (- set ks))),
     rd_SADD = (\<lambda>k xs s. if xs = [] then Inl (Errorf ''wrong number of arguments'') else
       case s k of Some (RString _) \<Rightarrow> Inl (Errorf ''WRONGTYPE'')
       | None \<Rightarrow> Inr (s(k \<mapsto> RSet (set xs))) | Some (RSet S) \<Rightarrow> Inr (s(k \<mapsto> RSet (S \<union> set xs))))\<rparr>"

interpretation store: redis redis_store "\<lambda>s. s"
  by unfold_locales (auto simp: redis_store_def split: option.split redis_value.split)

lemma keys_differ [simp]:
  "strKey u \<noteq> setKey v" "setKey v \<noteq> strKey u" "strKey u = strKey v \<longleftrightarrow> u = v" "setKey u = setKey v \<longleftrightarrow> u = v"
  by (simp_all add: strKey_def setKey_def)

text \<open>What the key space says of a user.\<close>

definition admitted :: "(string \<Rightarrow> go_error + AuthInfo) \<Rightarrow> (string \<rightharpoonup> redis_value) \<Rightarrow> string \<Rightarrow> string \<Rightarrow>
    string \<Rightarrow> AuthInfo \<Rightarrow> bool" where
  "admitted json K u p ip info \<longleftrightarrow> (\<exists>d S. K (strKey u) = Some (RString d) \<and> json d = Inr info \<and>
     Username info = u \<and> Password info = p \<and> K (setKey u) = Some (RSet S) \<and> ip \<in> S)"

context redis
begin

lemma Valid_Inr: "Valid R json net u p ip s = Inr info \<longleftrightarrow> net = None \<and> admitted json (kv s) u p ip info"
  by (auto simp: Valid_def Let_def pipe_Exec_def sum_error_def GET SISMEMBER admitted_def
      split: option.splits redis_value.splits sum.splits if_splits)

lemma SetUserData_keys:
  "\<exists>err s'. SetUserDataLuaScript R (strKey u) (setKey u) d xs s = (err, s') \<and>
    (err = None \<longleftrightarrow> xs \<noteq> []) \<and>
    kv s' = (kv s)(strKey u \<mapsto> RString d, setKey u := (if xs = [] then None else Some (RSet (set xs))))"
proof -
  obtain s1 where s1: "rd_SET R (strKey u) d s = Inr s1" "kv s1 = (kv s)(strKey u \<mapsto> RString d)"
    using SET by blast
  obtain s2 where s2: "rd_DEL R [setKey u] s1 = Inr s2" "kv s2 = kv s1 |` (- set [setKey u])"
    using DEL by blast
  have k2: "kv s2 = (kv s)(strKey u \<mapsto> RString d, setKey u := None)"
    by (auto simp: s2(2) s1(2) restrict_map_def fun_eq_iff)
  show ?thesis
  proof (cases "xs = []")
    case True
    obtain e where "rd_SADD R (setKey u) [] s2 = Inl e" using SADD_Nil by blast
    with True s1(1) s2(1) k2 show ?thesis by (simp add: SetUserDataLuaScript_def)
  next
    case False
    then obtain s3 where "rd_SADD R (setKey u) xs s2 = Inr s3" "kv s3 = (kv s2)(setKey u \<mapsto> RSet (set xs))"
      using SADD [where xs = xs and s = s2 and k = "setKey u"] k2 by auto
    with False s1(1) s2(1) k2 show ?thesis by (simp add: SetUserDataLuaScript_def)
  qed
qed

lemma AddUserData_keys:
  assumes "xs \<noteq> []" and "kv s (setKey u) = Some (RSet S)"
  shows "\<exists>s'. AddUserDataLuaScript R (strKey u) (setKey u) d xs s = (None, s') \<and>
    kv s' = (kv s)(strKey u \<mapsto> RString d, setKey u \<mapsto> RSet (S \<union> set xs))"
proof -
  obtain s1 where s1: "rd_SET R (strKey u) d s = Inr s1" "kv s1 = (kv s)(strKey u \<mapsto> RString d)"
    using SET by blast
  then obtain s2 where "rd_SADD R (setKey u) xs s1 = Inr s2" "kv s2 = (kv s1)(setKey u \<mapsto> RSet (S \<union> set xs))"
    using SADD [OF assms(1), where s = s1 and k = "setKey u"] assms(2) by auto
  with s1 show ?thesis by (simp add: AddUserDataLuaScript_def)
qed

end

section \<open>Properties\<close>

text \<open>C14: \<open>Valid\<close> lets a client in exactly when the connection to Redis works, the stored data of
  the user parses to that user and password, and the address is in the user's set.\<close>

theorem valid_exact:
  assumes "redis R kv"
  shows "Valid R json net u p ip s = Inr info \<longleftrightarrow> net = None \<and> admitted json (kv s) u p ip info"
  by (rule redis.Valid_Inr [OF assms])

theorem valid_exact_witness:
  "\<exists>info. Valid redis_store (\<lambda>_. Inr \<lparr>Username = ''u'', Password = ''p'', ProxyUsername = [],
       ProxyPassword = [], S5Addr = [], HttpAddr = [], UpdateUnix = 0, Ips = []\<rparr>) None ''u'' ''p'' ''10.0.0.1''
     [strKey ''u'' \<mapsto> RString ''{}'', setKey ''u'' \<mapsto> RSet {''10.0.0.1''}] = Inr info"
  by (subst valid_exact [OF store.redis_axioms]) (simp add: admitted_def)

text \<open>After a set message has been acknowledged, exactly the listed addresses of the user are let
  in, with exactly the new password, whatever was stored before, and every other user is let in as
  before. A message without addresses is requeued although the password has been stored and the
  addresses removed, so that it comes back for ever and the user is locked out.\<close>

theorem set_user_exact:
  assumes "redis R kv" and "proto body = Inr info"
    and "marshal (info\<lparr>Ips := [], UpdateUnix := now\<rparr>) = Inr data"
    and "json data = Inr (info\<lparr>Ips := [], UpdateUnix := now\<rparr>)"
  shows "\<exists>s'. runRabbitmqSetUserDataQueueConsumeAction R proto marshal now None body s =
      (if Ips info = [] then Nack False True else Ack False, s') \<and>
    (\<forall>u p ip. (\<exists>r. Valid R json None u p ip s' = Inr r) \<longleftrightarrow>
       (if u = Username info then p = Password info \<and> ip \<in> set (Ips info)
        else \<exists>r. Valid R json None u p ip s = Inr r))"
proof -
  obtain err s' where s': "SetUserDataLuaScript R (strKey (Username info)) (setKey (Username info)) data (Ips info) s =
      (err, s')" "err = None \<longleftrightarrow> Ips info \<noteq> []"
    "kv s' = (kv s)(strKey (Username info) \<mapsto> RString data,
       setKey (Username info) := (if Ips info = [] then None else Some (RSet (set (Ips info)))))"
    using redis.SetUserData_keys [OF assms(1)] by blast
  have "runRabbitmqSetUserDataQueueConsumeAction R proto marshal now None body s =
      (if Ips info = [] then Nack False True else Ack False, s')"
    using s'(1,2) assms(2,3)
    by (auto simp: runRabbitmqSetUserDataQueueConsumeAction_def user_data_action_def)
  moreover have "(\<exists>r. admitted json (kv s') u p ip r) \<longleftrightarrow>
      (if u = Username info then p = Password info \<and> ip \<in> set (Ips info)
       else \<exists>r. admitted json (kv s) u p ip r)" for u p ip
    using assms(4) by (auto simp: s'(3) admitted_def)
  ultimately show ?thesis by (simp add: redis.Valid_Inr [OF assms(1)])
qed

theorem set_user_exact_witness:
  "\<exists>s'. runRabbitmqSetUserDataQueueConsumeAction redis_store
      (\<lambda>_. Inr \<lparr>Username = ''u'', Password = ''p'', ProxyUsername = [], ProxyPassword = [], S5Addr = [],
        HttpAddr = [], UpdateUnix = 0, Ips = [''10.0.0.1'']\<rparr>) (\<lambda>_. Inr ''d'') 7 None [] Map.empty =
      (Ack False, s') \<and>
    (\<exists>r. Valid redis_store (\<lambda>_. Inr \<lparr>Username = ''u'', Password = ''p'', ProxyUsername = [],
       ProxyPassword = [], S5Addr = [], HttpAddr = [], UpdateUnix = 7, Ips = []\<rparr>) None ''u'' ''p'' ''10.0.0.1'' s' =
       Inr r)"
proof -
  let ?i = "\<lparr>Username = ''u'', Password = ''p'', ProxyUsername = [], ProxyPassword = [], S5Addr = [],
      HttpAddr = [], UpdateUnix = 0, Ips = [''10.0.0.1'']\<rparr>"
  show ?thesis
    using set_user_exact [OF store.redis_axioms, of "\<lambda>_. Inr ?i" "[]" ?i "\<lambda>_. Inr ''d''" 7 "''d''"
        "\<lambda>_. Inr (?i\<lparr>Ips := [], UpdateUnix := 7\<rparr>)" Map.empty]
    by auto
qed

text \<open>Deleting a user keeps out that user and no other, and cancels the contexts of exactly the
  relaying handlers of its keys; if Redis cannot be reached nothing changes.\<close>

theorem delete_user_exact:
  assumes "redis R kv" and "session_maps A invA lookA B invB lookB"
    and "sys_start invA lookA invB lookB s0" and "mreach A B P s0 s"
    and "proto body = Inr info"
  shows "\<exists>m' t'. runRabbitmqDeleteUserDataQueueConsumeAction R B proto sched None body (mgr s) t = Some (m', t') \<and>
    (\<forall>u p ip. (\<exists>r. Valid R json None u p ip t' = Inr r) \<longleftrightarrow>
       u \<noteq> Username info \<and> (\<exists>r. Valid R json None u p ip t = Inr r)) \<and>
    (\<forall>ip k p. Relaying ip k p \<in> set (sessions s) \<longrightarrow> ctx_cancelled (contexts m' ! p) =
       (hd (split_colon k) = Username info \<or> ctx_cancelled (contexts (mgr s) ! p))) \<and>
    runRabbitmqDeleteUserDataQueueConsumeAction R B proto sched (Some e) body (mgr s) t = Some (mgr s, t)"
proof -
  note g = session_maps.mreach_inv [OF assms(2,4,3)]
  obtain m' where m': "close_user B sched (Username info) (mgr s) = Some m'"
    "\<forall>ip k p. Relaying ip k p \<in> set (sessions s) \<longrightarrow> ctx_cancelled (contexts m' ! p) =
       (hd (split_colon k) = Username info \<or> ctx_cancelled (contexts (mgr s) ! p))"
    using session_maps.close_user_ok [OF assms(2) g] by blast
  obtain t' where t': "rd_DEL R [strKey (Username info), setKey (Username info)] t = Inr t'"
    "kv t' = kv t |` (- {strKey (Username info), setKey (Username info)})"
    using redis.DEL [OF assms(1), of "[strKey (Username info), setKey (Username info)]" t] by auto
  have "(\<exists>r. admitted json (kv t') u p ip r) \<longleftrightarrow> u \<noteq> Username info \<and> (\<exists>r. admitted json (kv t) u p ip r)"
    for u p ip
    by (auto simp: t'(2) admitted_def restrict_map_def)
  with m' t'(1) show ?thesis
    by (simp add: runRabbitmqDeleteUserDataQueueConsumeAction_def assms(5) redis.Valid_Inr [OF assms(1)])
qed

theorem delete_user_exact_witness:
  "\<exists>(s :: ((string, ptr) cmap, (string, ptr) cmap) sys) p q m' t'.
     sessions s = [Relaying ''10.0.0.1'' ''u:10.0.0.1'' p, Relaying ''10.0.0.1'' ''u:10.0.0.1'' q] \<and>
     runRabbitmqDeleteUserDataQueueConsumeAction redis_store repo_api
       (\<lambda>_. Inr \<lparr>Username = ''u'', Password = [], ProxyUsername = [], ProxyPassword = [], S5Addr = [],
          HttpAddr = [], UpdateUnix = 0, Ips = []\<rparr>) [] None [] (mgr s) Map.empty = Some (m', t') \<and>
     ctx_cancelled (contexts m' ! p)"
proof -
  let ?conf = "\<lparr>LimitedReader_ReadRate = 0, LimitedReader_ReadBurst = 0, OneIpMaxConn = 2\<rparr>"
  let ?i = "\<lparr>Username = ''u'', Password = [], ProxyUsername = [], ProxyPassword = [], S5Addr = [],
      HttpAddr = [], UpdateUnix = 0, Ips = []\<rparr>"
  obtain s p q where s: "mreach repo_api repo_api (\<lambda>_. True) (repo_start ?conf) s"
      "sessions s = [Relaying ''10.0.0.1'' ''u:10.0.0.1'' p, Relaying ''10.0.0.1'' ''u:10.0.0.1'' q]"
    using repo_run [of ?conf "\<lambda>_. True"] by auto
  obtain m' t' where m': "runRabbitmqDeleteUserDataQueueConsumeAction redis_store repo_api (\<lambda>_. Inr ?i) [] None []
      (mgr s) Map.empty = Some (m', t')"
    "\<forall>ip k p. Relaying ip k p \<in> set (sessions s) \<longrightarrow> ctx_cancelled (contexts m' ! p) =
       (hd (split_colon k) = Username ?i \<or> ctx_cancelled (contexts (mgr s) ! p))"
    using delete_user_exact [OF store.redis_axioms repo.session_maps_axioms repo_start_ok s(1),
      of "\<lambda>_. Inr ?i" "[]" ?i "[]" Map.empty] by blast
  have "ctx_cancelled (contexts m' ! p)" using m'(2) by (auto simp: s(2))
  with s(2) m'(1) show ?thesis by blast
qed

end
