(* ===== verification/RabbitPool.thy ===== *)
theory RabbitPool
  imports Prelude "HOL-Library.Monad_Syntax"
begin

unbundle bit_operations_syntax

text \<open>
  The message client of \<^verbatim>\<open>utils/rabbitMQ\<close>: the pool of connections and cached channels behind
  \<open>Push\<close>, the retries of a publication, the declarations of a consumer and the retry of a
  message that a consumer has refused (\<^verbatim>\<open>rabbitMQPool.go\<close>), the round robin
  (\<^verbatim>\<open>rabbitLoadBalance.go\<close>) and the message format (\<^verbatim>\<open>rabbitMQData.go\<close>).
\<close>

section \<open>The AMQP client\<close>

text \<open>
  The package \<open>amqp\<close> and the broker behind it are a parameter: connections and channels are
  numbers, and every call may change the state \<open>'e\<close> of the outside world.
\<close>

datatype header_value = HInt32 int | HOther string

type_synonym headers = "(string, header_value) gomap"

datatype table_value = TString string | TInt int

record publishing =
  pub_exchange :: string
  pub_key :: string
  pub_body :: "byte list"
  pub_expiration :: string
  pub_headers :: headers
  pub_messageId :: string

record 'e amqp_api =
  am_Dial :: "string \<Rightarrow> 'e \<Rightarrow> (go_error + nat) \<times> 'e"
  am_IsClosed :: "nat \<Rightarrow> 'e \<Rightarrow> bool \<times> 'e"
  am_Channel :: "nat \<Rightarrow> 'e \<Rightarrow> (go_error + nat) \<times> 'e"
  am_Publish :: "nat \<Rightarrow> publishing \<Rightarrow> 'e \<Rightarrow> go_error option \<times> 'e"
  am_ExchangeDeclare :: "nat \<Rightarrow> string \<Rightarrow> string \<Rightarrow> 'e \<Rightarrow> go_error option \<times> 'e"
  am_QueueDeclare :: "nat \<Rightarrow> string \<Rightarrow> (string, table_value) gomap \<Rightarrow> 'e \<Rightarrow> (go_error + string) \<times> 'e"
  am_QueueBind :: "nat \<Rightarrow> string \<Rightarrow> string \<Rightarrow> string \<Rightarrow> 'e \<Rightarrow> go_error option \<times> 'e"

section \<open>Messages\<close>

record RabbitMqData =
  ExchangeName :: string
  ExchangeType :: string
  QueueName :: string
  Route :: string
  Data :: "byte list"
  MessageId :: string

definition GetRabbitMqDataFormat :: "string \<Rightarrow> string \<Rightarrow> string \<Rightarrow> string \<Rightarrow> byte list \<Rightarrow> string \<Rightarrow>
    RabbitMqData" where
  "GetRabbitMqDataFormat exChangeName exChangeType queueName route data messageId =
     \<lparr>ExchangeName = exChangeName, ExchangeType = exChangeType, QueueName = queueName,
      Route = route, Data = data, MessageId = messageId\<rparr>"

definition GetRabbitMqDataFormatExpire :: "string \<Rightarrow> string \<Rightarrow> string \<Rightarrow> string \<Rightarrow> byte list \<Rightarrow>
    RabbitMqData" where
  "GetRabbitMqDataFormatExpire exChangeName exChangeType queueName route data =
     \<lparr>ExchangeName = exChangeName, ExchangeType = exChangeType, QueueName = queueName,
      Route = route, Data = data, MessageId = []\<rparr>"

text \<open>Error codes and client types.\<close>

definition RCODE_PUSH_MAX_ERROR :: int where "RCODE_PUSH_MAX_ERROR = 501"

definition RCODE_GET_CHANNEL_ERROR :: int where "RCODE_GET_CHANNEL_ERROR = 502"

definition RCODE_RETRY_MAX_ERROR :: int where "RCODE_RETRY_MAX_ERROR = 507"

definition RABBITMQ_TYPE_PUBLISH :: int where "RABBITMQ_TYPE_PUBLISH = 1"

definition RABBITMQ_TYPE_CONSUME :: int where "RABBITMQ_TYPE_CONSUME = 2"

section \<open>The pool\<close>

record rConn =
  rc_conn :: "nat option"
  rc_index :: int

text \<open>A cached \<open>rChannel\<close> is the number of its channel; its field \<open>index\<close> is 0 and never read.\<close>

record RabbitPool =
  minRandomRetryTime :: int
  maxRandomRetryTime :: int
  maxConnection :: int
  pushMaxTime :: int
  connectionBalance :: int
  connectionIndex :: int
  channelPool :: "(int, nat) gomap"
  connections :: "(int, rConn list) gomap"
  consumeMaxChannel :: int
  productCurrentRetry :: int
  clientType :: int
  host :: string
  port :: int
  user :: string
  password :: string
  virtualHost :: string

definition newRabbitPool :: "int \<Rightarrow> RabbitPool" where
  "newRabbitPool ct = \<lparr>minRandomRetryTime = 5000, maxRandomRetryTime = 15000, maxConnection = 5,
     pushMaxTime = 99, connectionBalance = 1, connectionIndex = 0, channelPool = [], connections = [],
     consumeMaxChannel = 25, productCurrentRetry = 0, clientType = ct, host = [], port = 0, user = [], password = [],
     virtualHost = []\<rparr>"

definition NewProductPool :: RabbitPool where
  "NewProductPool = newRabbitPool RABBITMQ_TYPE_PUBLISH"

definition NewConsumePool :: RabbitPool where
  "NewConsumePool = newRabbitPool RABBITMQ_TYPE_CONSUME"

definition SetMaxConnection :: "int \<Rightarrow> RabbitPool \<Rightarrow> RabbitPool" where
  "SetMaxConnection n r = r\<lparr>maxConnection := n\<rparr>"

definition SetRandomRetryTime :: "int \<Rightarrow> int \<Rightarrow> RabbitPool \<Rightarrow> RabbitPool" where
  "SetRandomRetryTime lo hi r = r\<lparr>minRandomRetryTime := lo, maxRandomRetryTime := hi\<rparr>"

definition SetMaxConsumeChannel :: "int \<Rightarrow> RabbitPool \<Rightarrow> RabbitPool" where
  "SetMaxConsumeChannel maxConsume r = r\<lparr>consumeMaxChannel := maxConsume\<rparr>"

text \<open>The field is never read: \<open>getConnection\<close> always takes the next connection.\<close>

definition SetConnectionBalance :: "int \<Rightarrow> RabbitPool \<Rightarrow> RabbitPool" where
  "SetConnectionBalance balance r = r\<lparr>connectionBalance := balance\<rparr>"

definition GetHost :: "RabbitPool \<Rightarrow> string" where
  "GetHost r = host r"

definition GetPort :: "RabbitPool \<Rightarrow> int" where
  "GetPort r = port r"

section \<open>Numbers\<close>

definition int32 :: "int \<Rightarrow> int" where
  "int32 i = signed_take_bit 31 i"

definition go_rem :: "int \<Rightarrow> int \<Rightarrow> int" where
  "go_rem a b = sgn a * (\<bar>a\<bar> mod \<bar>b\<bar>)"

definition RoundRobin :: "int \<Rightarrow> int \<Rightarrow> int" where
  "RoundRobin cIndex limit = (if limit = 0 then 0 else go_rem (int32 (cIndex + 1)) limit)"

text \<open>\<open>crc32.ChecksumIEEE\<close>: the reflected polynomial, bit by bit.\<close>

definition crc_bit :: "u32 \<Rightarrow> u32" where
  "crc_bit c = (if bit c 0 then drop_bit 1 c XOR 0xEDB88320 else drop_bit 1 c)"

definition crc_byte :: "u32 \<Rightarrow> byte \<Rightarrow> u32" where
  "crc_byte c b = (crc_bit ^^ 8) (c XOR ucast b)"

definition ChecksumIEEE :: "byte list \<Rightarrow> u32" where
  "ChecksumIEEE bs = NOT (foldl crc_byte (NOT 0) bs)"

definition hashCode :: "string \<Rightarrow> int" where
  "hashCode s = (let v = uint (ChecksumIEEE (bytes_of s)) in
     if 0 \<le> v then v else if 0 \<le> - v then - v else - 1)"

definition channelHashCode :: "int \<Rightarrow> int \<Rightarrow> string \<Rightarrow> string \<Rightarrow> string \<Rightarrow> string \<Rightarrow> int" where
  "channelHashCode ct connIndex exChangeName exChangeType queueName route =
     hashCode (Itoa ct @ ''-'' @ Itoa connIndex @ ''-'' @ exChangeName @ ''-'' @ exChangeType @ ''-'' @
       queueName @ ''-'' @ route)"

text \<open>\<open>strings.TrimSpace\<close> on ASCII text.\<close>

definition is_space :: "char \<Rightarrow> bool" where
  "is_space c \<longleftrightarrow> c = CHR '' '' \<or> (9 \<le> (of_char c :: nat) \<and> (of_char c :: nat) \<le> 13)"

definition TrimSpace :: "string \<Rightarrow> string" where
  "TrimSpace s = rev (dropWhile is_space (rev (dropWhile is_space s)))"

section \<open>Connections\<close>

definition connection :: "'e amqp_api \<Rightarrow> RabbitPool \<Rightarrow> string \<Rightarrow> 'e \<Rightarrow> (go_error + nat) \<times> 'e" where
  "connection A r vHost e =
    (let vh = (if 0 < length (TrimSpace vHost) then vHost else ''/'')
     in am_Dial A (''amqp://'' @ user r @ '':'' @ password r @ ''@'' @ host r @ '':'' @ Itoa (port r) @ vh) e)"

definition rConnect :: "'e amqp_api \<Rightarrow> RabbitPool \<Rightarrow> 'e \<Rightarrow> (go_error + nat) \<times> 'e" where
  "rConnect A r e =
    connection A r (if 0 < length (TrimSpace (virtualHost r)) then virtualHost r else ''/'') e"

text \<open>The connections of the pool's own type.\<close>

definition pool_conns :: "RabbitPool \<Rightarrow> rConn list" where
  "pool_conns r = fst (gomap_get [] (connections r) (clientType r))"

definition set_conns :: "rConn list \<Rightarrow> RabbitPool \<Rightarrow> RabbitPool" where
  "set_conns cs r = r\<lparr>connections := gomap_set (connections r) (clientType r) cs\<rparr>"

fun dial_all :: "'e amqp_api \<Rightarrow> int list \<Rightarrow> RabbitPool \<Rightarrow> 'e \<Rightarrow> go_error option \<times> RabbitPool \<times> 'e" where
  "dial_all A [] r e = (None, r, e)"
| "dial_all A (i # js) r e = (case rConnect A r e of
     (Inl err, e') \<Rightarrow> (Some err, r, e')
   | (Inr c, e') \<Rightarrow> dial_all A js (set_conns (pool_conns r @ [\<lparr>rc_conn = Some c, rc_index = i\<rparr>]) r) e')"

definition initConnections :: "'e amqp_api \<Rightarrow> RabbitPool \<Rightarrow> 'e \<Rightarrow> go_error option \<times> RabbitPool \<times> 'e" where
  "initConnections A r e = dial_all A (map int [0..<nat (maxConnection r)]) (set_conns [] r) e"

definition Connect :: "'e amqp_api \<Rightarrow> string \<Rightarrow> int \<Rightarrow> string \<Rightarrow> string \<Rightarrow> RabbitPool \<Rightarrow> 'e \<Rightarrow>
    go_error option \<times> RabbitPool \<times> 'e" where
  "Connect A h p u pw r e = initConnections A
     (r\<lparr>host := h, port := p, user := u, password := pw, virtualHost := ''/''\<rparr>) e"

definition ConnectVirtualHost :: "'e amqp_api \<Rightarrow> string \<Rightarrow> int \<Rightarrow> string \<Rightarrow> string \<Rightarrow> string \<Rightarrow> RabbitPool \<Rightarrow>
    'e \<Rightarrow> go_error option \<times> RabbitPool \<times> 'e" where
  "ConnectVirtualHost A h p u pw vh r e = initConnections A
     (r\<lparr>host := h, port := p, user := u, password := pw, virtualHost := vh\<rparr>) e"

text \<open>
  \<open>getConnection\<close> yields the position of a connection in the slice, which stands for the pointer;
  \<open>None\<close> is the index panic.
\<close>

definition getConnection :: "RabbitPool \<Rightarrow> (nat \<times> RabbitPool) option" where
  "getConnection r =
    (let changeConnectionIndex = connectionIndex r;
         currentIndex = RoundRobin changeConnectionIndex (maxConnection r);
         currentNum = int32 (currentIndex - changeConnectionIndex);
         r' = r\<lparr>connectionIndex := int32 (connectionIndex r + currentNum)\<rparr>
     in if 0 \<le> connectionIndex r' \<and> nat (connectionIndex r') < length (pool_conns r')
        then Some (nat (connectionIndex r'), r') else None)"

section \<open>Channels\<close>

definition rCreateChannel :: "'e amqp_api \<Rightarrow> rConn \<Rightarrow> 'e \<Rightarrow> (go_error + nat) \<times> 'e" where
  "rCreateChannel A rc e = (case am_Channel A (the (rc_conn rc)) e of
     (Inl _, e') \<Rightarrow> (Inl (Errorf ''Create Connect Channel Error''), e')
   | (Inr ch, e') \<Rightarrow> (Inr ch, e'))"

definition initChannels :: "'e amqp_api \<Rightarrow> rConn \<Rightarrow> 'e \<Rightarrow> (go_error + nat) \<times> 'e" where
  "initChannels A rc e = rCreateChannel A rc e"

definition data_hash :: "RabbitPool \<Rightarrow> rConn \<Rightarrow> RabbitMqData \<Rightarrow> int" where
  "data_hash r rc d =
     channelHashCode (clientType r) (rc_index rc) (ExchangeName d) (ExchangeType d) (QueueName d) (Route d)"

definition deleteChannel :: "rConn \<Rightarrow> RabbitMqData \<Rightarrow> RabbitPool \<Rightarrow> RabbitPool" where
  "deleteChannel rc d r = (let h = data_hash r rc d in
     if map_of (channelPool r) h \<noteq> None then r\<lparr>channelPool := gomap_delete (channelPool r) h\<rparr> else r)"

definition getChannelQueueReset :: "'e amqp_api \<Rightarrow> rConn \<Rightarrow> RabbitMqData \<Rightarrow> bool \<Rightarrow> RabbitPool \<Rightarrow> 'e \<Rightarrow>
    (go_error + nat) \<times> RabbitPool \<times> 'e" where
  "getChannelQueueReset A rc d isReset r e =
    (let h = data_hash r rc d;
         r1 = (if isReset \<and> map_of (channelPool r) h \<noteq> None
               then r\<lparr>channelPool := gomap_delete (channelPool r) h\<rparr> else r)
     in case map_of (channelPool r1) h of
          Some ch \<Rightarrow> (Inr ch, r1, e)
        | None \<Rightarrow> (case initChannels A rc e of
            (Inl err, e') \<Rightarrow> (Inl err, r1, e')
          | (Inr ch, e') \<Rightarrow> (Inr ch, r1\<lparr>channelPool := gomap_set (channelPool r1) h ch\<rparr>, e')))"

definition getChannelQueue :: "'e amqp_api \<Rightarrow> rConn \<Rightarrow> RabbitMqData \<Rightarrow> RabbitPool \<Rightarrow> 'e \<Rightarrow>
    (go_error + nat) \<times> RabbitPool \<times> 'e" where
  "getChannelQueue A rc d r e = getChannelQueueReset A rc d False r e"

section \<open>Publishing\<close>

definition rc_at :: "RabbitPool \<Rightarrow> nat \<Rightarrow> rConn" where
  "rc_at r i = pool_conns r ! i"

definition set_conn :: "nat \<Rightarrow> nat option \<Rightarrow> RabbitPool \<Rightarrow> RabbitPool" where
  "set_conn i c r = set_conns ((pool_conns r)[i := (rc_at r i)\<lparr>rc_conn := c\<rparr>]) r"

definition is_open :: "'e amqp_api \<Rightarrow> rConn \<Rightarrow> 'e \<Rightarrow> bool \<times> 'e" where
  "is_open A rc e = (case rc_conn rc of None \<Rightarrow> (False, e)
     | Some c \<Rightarrow> (case am_IsClosed A c e of (cl, e') \<Rightarrow> (\<not> cl, e')))"

text \<open>
  \<open>tryConn\<close> dials until it succeeds: its recursion has no bound, so it is a partial function and
  \<open>None\<close> is a call that does not return. The result of the recursive call is ignored; the
  connection it has made is in the shared \<open>rConn\<close>.
\<close>

partial_function (option) tryConn :: "'e amqp_api \<Rightarrow> nat \<Rightarrow> bool \<Rightarrow> RabbitMqData \<Rightarrow> RabbitPool \<Rightarrow> 'e \<Rightarrow>
    (bool \<times> RabbitPool \<times> 'e) option" where
  "tryConn A i isRetry d r e =
    (let r0 = (if isRetry then r\<lparr>productCurrentRetry := int32 (productCurrentRetry r + 1)\<rparr> else r) in
     case is_open A (rc_at r0 i) e of (opn, e0) \<Rightarrow>
     if opn then Some (isRetry, r0, e0)
     else let r1 = deleteChannel (rc_at r0 i) d r0 in
       case connection A r1 (virtualHost r1) e0 of (res, e1) \<Rightarrow>
       (case res of
          Inr c \<Rightarrow> Some (isRetry, set_conn i (Some c) r1, e1)
        | Inl _ \<Rightarrow> Option.bind (tryConn A i True d (set_conn i None r1) e1)
            (\<lambda>(_, r2, e2). Some (isRetry, r2, e2))))"

text \<open>The first half of \<open>rPush\<close>: a connection and a channel.\<close>

definition push_channel :: "'e amqp_api \<Rightarrow> RabbitMqData \<Rightarrow> RabbitPool \<Rightarrow> 'e \<Rightarrow>
    ((go_error + nat) \<times> RabbitPool \<times> 'e) option" where
  "push_channel A d r e = Option.bind (getConnection r) (\<lambda>(i, r1).
     Option.bind (tryConn A i False d r1 e) (\<lambda>(isTry, r2, e2).
       Some (getChannelQueueReset A (rc_at r2 i) d isTry r2 e2)))"

definition push_message :: "RabbitMqData \<Rightarrow> publishing" where
  "push_message d = \<lparr>pub_exchange = ExchangeName d, pub_key = QueueName d, pub_body = Data d,
     pub_expiration = [], pub_headers = [], pub_messageId = MessageId d\<rparr>"

partial_function (option) rPush :: "'e amqp_api \<Rightarrow> RabbitMqData \<Rightarrow> int \<Rightarrow> RabbitPool \<Rightarrow> 'e \<Rightarrow>
    (int option \<times> RabbitPool \<times> 'e) option" where
  "rPush A d sendTime r e =
    (if pushMaxTime r \<le> sendTime then Some (Some RCODE_PUSH_MAX_ERROR, r, e)
     else Option.bind (push_channel A d r e) (\<lambda>(res, r1, e1).
       case res of
         Inl _ \<Rightarrow> Some (Some RCODE_GET_CHANNEL_ERROR, r1, e1)
       | Inr ch \<Rightarrow> (case am_Publish A ch (push_message d) e1 of (err, e2) \<Rightarrow>
           (case err of None \<Rightarrow> Some (None, r1, e2)
            | Some _ \<Rightarrow> rPush A d (sendTime + 1) r1 e2))))"

definition Push :: "'e amqp_api \<Rightarrow> RabbitMqData \<Rightarrow> RabbitPool \<Rightarrow> 'e \<Rightarrow>
    (int option \<times> RabbitPool \<times> 'e) option" where
  "Push A d r e = rPush A d 0 r e"

section \<open>Consumers\<close>

record ConsumeReceive =
  cr_ExchangeName :: string
  cr_ExchangeType :: string
  cr_Route :: string
  cr_QueueName :: string
  IsTry :: bool
  MaxReTry :: int
  IsAutoAck :: bool

text \<open>
  \<open>rDeclare\<close> declares the exchange and, for a consumer, its queue; \<open>is_dead\<close> is a dead letter
  queue whose messages go back to the old exchange.
\<close>

definition queue_args :: "bool \<Rightarrow> string \<Rightarrow> string \<Rightarrow> (string, table_value) gomap" where
  "queue_args isDeadQueue oldExChangeName oldRoute =
    (let args = (if isDeadQueue then
         let a1 = gomap_set [] ''x-dead-letter-exchange'' (TString oldExChangeName)
         in if 0 < length (TrimSpace oldRoute)
            then gomap_set a1 ''x-dead-letter-routing-key'' (TString (TrimSpace oldRoute)) else a1
       else [])
     in gomap_set args ''x-message-ttl'' (TInt 5000))"

definition rDeclare :: "'e amqp_api \<Rightarrow> int \<Rightarrow> nat \<Rightarrow> string \<Rightarrow> string \<Rightarrow> string \<Rightarrow> string \<Rightarrow> bool \<Rightarrow> string \<Rightarrow>
    string \<Rightarrow> 'e \<Rightarrow> go_error option \<times> 'e" where
  "rDeclare A ct ch exName exType qName route isDeadQueue oldExName oldRoute e =
    (if ct = RABBITMQ_TYPE_PUBLISH \<and>
        (length exType = 0 \<or> (exType \<noteq> ''direct'' \<and> exType \<noteq> ''fanout'' \<and> exType \<noteq> ''topic''))
     then (Some (Errorf ''exchange type''), e)
     else case am_ExchangeDeclare A ch exName exType e of
       (Some _, e1) \<Rightarrow> (Some (Errorf ''exchange''), e1)
     | (None, e1) \<Rightarrow>
         if (ct \<noteq> RABBITMQ_TYPE_PUBLISH \<and> exType \<noteq> ''fanout'') \<or>
            (ct = RABBITMQ_TYPE_CONSUME \<and> (exType = ''fanout'' \<or> exType = ''direct''))
         then (case am_QueueDeclare A ch qName (queue_args isDeadQueue oldExName oldRoute) e1 of
             (Inl _, e2) \<Rightarrow> (Some (Errorf ''queue''), e2)
           | (Inr q, e2) \<Rightarrow> (case am_QueueBind A ch q route exName e2 of
               (Some _, e3) \<Rightarrow> (Some (Errorf ''bind''), e3)
             | (None, e3) \<Rightarrow> (None, e3)))
         else (None, e1))"

text \<open>
  The names of the dead letter exchange, queue and route.
\<close>

definition dead_name :: "string \<Rightarrow> string" where
  "dead_name s = s @ ''-dead''"

definition dead_route :: "string \<Rightarrow> string" where
  "dead_route route = (if 0 < length route then dead_name route else [])"

text \<open>
  The retry count of a delivery; \<open>None\<close> is the panic of the type assertion on a value that is not
  an \<open>int32\<close>.
\<close>

definition retry_nums :: "headers \<Rightarrow> int option" where
  "retry_nums hs = (case map_of hs ''retry_nums'' of
     None \<Rightarrow> Some 0 | Some (HInt32 n) \<Rightarrow> Some n | Some (HOther _) \<Rightarrow> None)"

text \<open>
  \<open>RandomAround\<close>: \<open>rnd n\<close> is a random number below \<open>n\<close>, for which \<open>n\<close> must be positive. The
  absolute value of the lower bound goes through \<open>float64\<close>, exactly for less than 53 bits.
\<close>

definition int64 :: "int \<Rightarrow> int" where
  "int64 i = signed_take_bit 63 i"

definition RandomAround :: "(int \<Rightarrow> int) \<Rightarrow> int \<Rightarrow> int \<Rightarrow> (go_error + int) option" where
  "RandomAround rnd lo hi =
    (if lo > hi then Some (Inl (Errorf ''the min is greater than max!''))
     else let n = (if lo < 0 then int64 (hi + 1 + \<bar>lo\<bar>) else int64 (hi - lo + 1)) in
       if n \<le> 0 then None else Some (Inr (rnd n + lo)))"

text \<open>What becomes of a message that is to be retried.\<close>

datatype retry_outcome =
    EventFail int
  | Publish publishing

definition retry_message :: "(int \<Rightarrow> int) \<Rightarrow> RabbitPool \<Rightarrow> ConsumeReceive \<Rightarrow> headers \<Rightarrow> byte list \<Rightarrow>
    publishing option" where
  "retry_message rnd r rec hs body = map_option (\<lambda>res.
     \<lparr>pub_exchange = dead_name (cr_ExchangeName rec), pub_key = dead_route (cr_Route rec),
      pub_body = body, pub_expiration = Itoa (case res of Inl _ \<Rightarrow> 5000 | Inr t \<Rightarrow> t),
      pub_headers = hs, pub_messageId = []\<rparr>)
     (RandomAround rnd (minRandomRetryTime r) (maxRandomRetryTime r))"

text \<open>The retry that \<open>consumeTask\<close> does itself: a new header with the count increased.\<close>

definition consume_retry :: "(int \<Rightarrow> int) \<Rightarrow> RabbitPool \<Rightarrow> ConsumeReceive \<Rightarrow> headers \<Rightarrow> byte list \<Rightarrow>
    retry_outcome option" where
  "consume_retry rnd r rec hs body = Option.bind (retry_nums hs) (\<lambda>n.
     let retryNums = int32 (n + 1) in
     if MaxReTry rec \<le> retryNums then Some (EventFail RCODE_RETRY_MAX_ERROR)
     else map_option Publish
       (retry_message rnd r rec (gomap_set [] ''retry_nums'' (HInt32 retryNums)) body))"

text \<open>The retry through \<open>retryClient.Push\<close>: a new header is made, but the old one is published.\<close>

definition retryClient_Push :: "(int \<Rightarrow> int) \<Rightarrow> RabbitPool \<Rightarrow> ConsumeReceive \<Rightarrow> headers \<Rightarrow> byte list \<Rightarrow>
    retry_outcome option" where
  "retryClient_Push rnd r rec hs body = Option.bind (retry_nums hs) (\<lambda>n.
     let retryNums = int32 (n + 1) in
     if MaxReTry rec \<le> retryNums then Some (EventFail RCODE_RETRY_MAX_ERROR)
     else map_option Publish (retry_message rnd r rec hs body))"

text \<open>
  One delivery of \<open>consumeTask\<close>: \<open>ok\<close> is the answer of \<open>EventSuccess\<close>. The result says whether the
  message was acknowledged by the loop and what was done to retry it.
\<close>

definition consume_delivery :: "(int \<Rightarrow> int) \<Rightarrow> RabbitPool \<Rightarrow> ConsumeReceive \<Rightarrow> bool \<Rightarrow> headers \<Rightarrow>
    byte list \<Rightarrow> (bool \<times> retry_outcome option) option" where
  "consume_delivery rnd r rec ok hs body =
    (if \<not> ok \<and> IsTry rec
     then map_option (\<lambda>out. (IsAutoAck rec, Some out)) (consume_retry rnd r rec hs body)
     else Some (IsAutoAck rec, None))"

section \<open>Round robin\<close>

text \<open>A pool whose connections have been made, and its next position in range.\<close>

definition pool_ok :: "RabbitPool \<Rightarrow> bool" where
  "pool_ok r \<longleftrightarrow> 0 < maxConnection r \<and> maxConnection r < 2 ^ 31 \<and> 0 \<le> connectionIndex r \<and>
     connectionIndex r < maxConnection r \<and> int (length (pool_conns r)) = maxConnection r"

lemma int32_id: "- (2 ^ 31) \<le> i \<Longrightarrow> i < 2 ^ 31 \<Longrightarrow> int32 i = i"
  by (simp add: int32_def signed_take_bit_int_eq_self)

lemma pool_conns_index [simp]: "pool_conns (r\<lparr>connectionIndex := i\<rparr>) = pool_conns r"
  by (simp add: pool_conns_def)

lemma getConnection_ok:
  assumes "pool_ok r"
  shows "getConnection r = Some (nat ((connectionIndex r + 1) mod maxConnection r),
    r\<lparr>connectionIndex := (connectionIndex r + 1) mod maxConnection r\<rparr>)"
proof -
  let ?c = "connectionIndex r" and ?n = "maxConnection r"
  note ok = assms [unfolded pool_ok_def]
  have i: "int32 (?c + 1) = ?c + 1" using ok by (intro int32_id) simp_all
  have rr: "RoundRobin ?c ?n = (?c + 1) mod ?n"
    using ok by (simp add: RoundRobin_def i go_rem_def sgn_if)
  let ?k = "(?c + 1) mod ?n"
  have k: "0 \<le> ?k" "?k < ?n" using ok by simp_all
  have "int32 (?k - ?c) = ?k - ?c" using ok k by (intro int32_id) linarith+
  moreover have "int32 ?k = ?k" using ok k by (intro int32_id) linarith+
  moreover have "nat ?k < length (pool_conns r)" using k ok by (simp add: nat_less_iff)
  ultimately show ?thesis
    using k ok by (simp add: getConnection_def Let_def rr)
qed

lemma pool_ok_next: "pool_ok r \<Longrightarrow> pool_ok (r\<lparr>connectionIndex := (connectionIndex r + 1) mod maxConnection r\<rparr>)"
  by (simp add: pool_ok_def)

fun get_many :: "nat \<Rightarrow> RabbitPool \<Rightarrow> nat list option" where
  "get_many 0 r = Some []"
| "get_many (Suc k) r = (case getConnection r of None \<Rightarrow> None
     | Some (i, r') \<Rightarrow> map_option ((#) i) (get_many k r'))"

lemma get_many_ok:
  "pool_ok r \<Longrightarrow> get_many k r =
     Some (map (\<lambda>j. nat ((connectionIndex r + 1 + int j) mod maxConnection r)) [0..<k])"
proof (induction k arbitrary: r)
  case (Suc k)
  let ?i = "(connectionIndex r + 1) mod maxConnection r"
  have "(?i + 1 + int j) mod maxConnection r = (connectionIndex r + 1 + int (Suc j)) mod maxConnection r" for j
    by (metis (no_types, opaque_lifting) add.assoc mod_add_left_eq of_nat_Suc)
  then have e: "map (\<lambda>j. nat ((?i + 1 + int j) mod maxConnection r)) [0..<k] =
      map (\<lambda>j. nat ((connectionIndex r + 1 + int j) mod maxConnection r)) (map Suc [0..<k])"
    by (simp add: comp_def)
  show ?case
    using Suc.IH [OF pool_ok_next [OF Suc.prems]] e
    by (simp add: getConnection_ok [OF Suc.prems] upt_conv_Cons map_Suc_upt del: upt_Suc)
qed simp

section \<open>What a push keeps\<close>

definition same_pool :: "RabbitPool \<Rightarrow> RabbitPool \<Rightarrow> bool" where
  "same_pool r r' \<longleftrightarrow> pushMaxTime r' = pushMaxTime r \<and> maxConnection r' = maxConnection r \<and>
     length (pool_conns r') = length (pool_conns r) \<and> clientType r' = clientType r"

lemma same_pool_refl [simp]: "same_pool r r"
  by (simp add: same_pool_def)

lemma same_pool_trans: "same_pool r r' \<Longrightarrow> same_pool r' r'' \<Longrightarrow> same_pool r r''"
  by (simp add: same_pool_def)

lemma pool_conns_set_conns [simp]: "pool_conns (set_conns cs r) = cs"
  by (simp add: pool_conns_def set_conns_def)

lemma pool_conns_fields [simp]:
  "pool_conns (r\<lparr>channelPool := p\<rparr>) = pool_conns r" "pool_conns (r\<lparr>productCurrentRetry := n\<rparr>) = pool_conns r"
  by (simp_all add: pool_conns_def)

lemma set_conn_keeps:
  "same_pool r (set_conn i c r)" "connectionIndex (set_conn i c r) = connectionIndex r"
  by (simp_all add: same_pool_def set_conn_def) (simp_all add: set_conns_def)

lemma deleteChannel_keeps:
  "same_pool r (deleteChannel rc d r)" "connectionIndex (deleteChannel rc d r) = connectionIndex r"
  by (simp_all add: same_pool_def deleteChannel_def Let_def)

lemma reset_keeps:
  assumes "getChannelQueueReset A rc d isReset r e = (res, r', e')"
  shows "same_pool r r' \<and> connectionIndex r' = connectionIndex r"
  using assms
  by (auto simp: getChannelQueueReset_def Let_def same_pool_def split: option.splits prod.splits sum.splits if_splits)

lemma tryConn_keeps:
  assumes "tryConn A i isRetry d r e = Some y"
  shows "same_pool r (fst (snd y)) \<and> connectionIndex (fst (snd y)) = connectionIndex r \<and> fst y = isRetry"
proof (rule tryConn.raw_induct [where P = "\<lambda>A i isRetry d r e y. same_pool r (fst (snd y)) \<and>
    connectionIndex (fst (snd y)) = connectionIndex r \<and> fst y = isRetry", OF _ assms])
  fix tc :: "'a amqp_api \<Rightarrow> nat \<Rightarrow> bool \<Rightarrow> RabbitMqData \<Rightarrow> RabbitPool \<Rightarrow> 'a \<Rightarrow> (bool \<times> RabbitPool \<times> 'a) option"
    and A i isRetry d r e and y :: "bool \<times> RabbitPool \<times> 'a"
  assume ih: "\<And>A i isRetry d r e y. tc A i isRetry d r e = Some y \<Longrightarrow> same_pool r (fst (snd y)) \<and>
      connectionIndex (fst (snd y)) = connectionIndex r \<and> fst y = isRetry"
    and y: "(let r0 = (if isRetry then r\<lparr>productCurrentRetry := int32 (productCurrentRetry r + 1)\<rparr> else r) in
       case is_open A (rc_at r0 i) e of (opn, e0) \<Rightarrow>
       if opn then Some (isRetry, r0, e0)
       else let r1 = deleteChannel (rc_at r0 i) d r0 in
         case connection A r1 (virtualHost r1) e0 of (res, e1) \<Rightarrow>
         (case res of
            Inr c \<Rightarrow> Some (isRetry, set_conn i (Some c) r1, e1)
          | Inl _ \<Rightarrow> Option.bind (tc A i True d (set_conn i None r1) e1)
              (\<lambda>(_, r2, e2). Some (isRetry, r2, e2)))) = Some y"
  define r0 where "r0 = (if isRetry then r\<lparr>productCurrentRetry := int32 (productCurrentRetry r + 1)\<rparr> else r)"
  define r1 where "r1 = deleteChannel (rc_at r0 i) d r0"
  have k0: "same_pool r r0" "connectionIndex r0 = connectionIndex r"
    by (simp_all add: r0_def same_pool_def)
  have k1: "same_pool r r1" "connectionIndex r1 = connectionIndex r"
    using k0 deleteChannel_keeps(1) [of r0 "rc_at r0 i" d] deleteChannel_keeps(2) [of "rc_at r0 i" d r0]
      same_pool_trans [of r r0] by (simp_all add: r1_def)
  have k2: "same_pool r (set_conn i c r1)" "connectionIndex (set_conn i c r1) = connectionIndex r" for c
    using k1 set_conn_keeps(1) [of r1 i c] set_conn_keeps(2) [of i c r1] same_pool_trans [of r r1] by simp_all
  show "same_pool r (fst (snd y)) \<and> connectionIndex (fst (snd y)) = connectionIndex r \<and> fst y = isRetry"
  proof -
    obtain opn e0 where o: "is_open A (rc_at r0 i) e = (opn, e0)" by (cases "is_open A (rc_at r0 i) e")
    obtain res e1 where c: "connection A r1 (virtualHost r1) e0 = (res, e1)"
      by (cases "connection A r1 (virtualHost r1) e0")
    note y' = y [unfolded r0_def [symmetric] Let_def r1_def [symmetric] o c prod.case]
    show ?thesis
    proof (cases "opn \<or> (\<exists>c. res = Inr c)")
      case True
      then show ?thesis using y' k0 k2 by (cases opn) auto
    next
      case False
      then obtain x where "\<not> opn" "res = Inl x" by (cases res) auto
      then obtain b r2 e2 where t: "tc A i True d (set_conn i None r1) e1 = Some (b, r2, e2)"
        and "y = (isRetry, r2, e2)"
        using y' by (auto simp: bind_eq_Some_conv)
      then show ?thesis using ih [OF t] k2 [of None] same_pool_trans by simp
    qed
  qed
qed

lemma push_channel_keeps:
  assumes "push_channel A d r e = Some (res, r', e')" and "pool_ok r"
  shows "same_pool r r' \<and> pool_ok r'"
proof -
  let ?i = "nat ((connectionIndex r + 1) mod maxConnection r)"
  let ?r1 = "r\<lparr>connectionIndex := (connectionIndex r + 1) mod maxConnection r\<rparr>"
  obtain b r2 e2 where t: "tryConn A ?i False d ?r1 e = Some (b, r2, e2)"
    and c: "getChannelQueueReset A (rc_at r2 ?i) d b r2 e2 = (res, r', e')"
    using assms(1) by (auto simp: push_channel_def getConnection_ok [OF assms(2)] bind_eq_Some_conv)
  have "same_pool ?r1 r'" "connectionIndex r' = connectionIndex ?r1"
    using tryConn_keeps [OF t] reset_keeps [OF c] same_pool_trans by auto
  then show ?thesis using pool_ok_next [OF assms(2)] by (simp add: same_pool_def pool_ok_def)
qed

section \<open>Attempts\<close>

text \<open>
  The publications of a push with \<open>n\<close> attempts left: refused ones, then at most one that is
  accepted. \<open>l\<close> and \<open>l'\<close> are the log of the broker before and after.
\<close>

definition push_trace :: "RabbitMqData \<Rightarrow> int \<Rightarrow> (publishing \<times> bool) list \<Rightarrow> (publishing \<times> bool) list \<Rightarrow>
    int option \<Rightarrow> bool" where
  "push_trace d n l l' res \<longleftrightarrow> (\<exists>k. int k \<le> max 0 n \<and>
     l' = l @ replicate k (push_message d, False) @ (if res = None then [(push_message d, True)] else []) \<and>
     (res = Some RCODE_PUSH_MAX_ERROR \<longrightarrow> int k = max 0 n) \<and> (res = None \<longrightarrow> int k < n) \<and>
     res \<in> {None, Some RCODE_PUSH_MAX_ERROR, Some RCODE_GET_CHANNEL_ERROR})"

lemma push_trace_max: "n \<le> 0 \<Longrightarrow> push_trace d n l l (Some RCODE_PUSH_MAX_ERROR)"
  unfolding push_trace_def by (intro exI [of _ 0]) simp

lemma push_trace_channel: "push_trace d n l l (Some RCODE_GET_CHANNEL_ERROR)"
  unfolding push_trace_def
  by (intro exI [of _ 0]) (simp add: RCODE_GET_CHANNEL_ERROR_def RCODE_PUSH_MAX_ERROR_def)

lemma push_trace_sent: "0 < n \<Longrightarrow> push_trace d n l (l @ [(push_message d, True)]) None"
  unfolding push_trace_def by (intro exI [of _ 0]) simp

lemma push_trace_again:
  assumes "push_trace d (n - 1) (l @ [(push_message d, False)]) l' res" and "0 < n"
  shows "push_trace d n l l' res"
proof -
  obtain k where k: "int k \<le> max 0 (n - 1)"
    "l' = l @ [(push_message d, False)] @ replicate k (push_message d, False) @
       (if res = None then [(push_message d, True)] else [])"
    "res = Some RCODE_PUSH_MAX_ERROR \<longrightarrow> int k = max 0 (n - 1)" "res = None \<longrightarrow> int k < n - 1"
    "res \<in> {None, Some RCODE_PUSH_MAX_ERROR, Some RCODE_GET_CHANNEL_ERROR}"
    using assms(1) by (auto simp: push_trace_def)
  show ?thesis unfolding push_trace_def
    using k assms(2) by (intro exI [of _ "Suc k"] conjI) (simp, simp, simp, linarith, simp)
qed

text \<open>
  \<open>log\<close> is what the broker has been sent: every publication, with whether it was accepted. Only
  \<open>Publish\<close> adds to it.
\<close>

locale amqp =
  fixes A :: "'e amqp_api" and log :: "'e \<Rightarrow> (publishing \<times> bool) list"
  assumes log_Publish: "am_Publish A ch p e = (err, e') \<Longrightarrow> log e' = log e @ [(p, err = None)]"
    and log_Dial: "log (snd (am_Dial A url e)) = log e"
    and log_IsClosed: "log (snd (am_IsClosed A c e)) = log e"
    and log_Channel: "log (snd (am_Channel A c e)) = log e"

context amqp
begin

lemma log_connection: "log (snd (connection A r v e)) = log e"
  by (simp add: connection_def Let_def log_Dial)

lemma log_is_open: "log (snd (is_open A rc e)) = log e"
  using log_IsClosed by (auto simp: is_open_def split: option.split prod.split) (metis snd_conv)

lemma log_reset: "log (snd (snd (getChannelQueueReset A rc d b r e))) = log e"
  using log_Channel
  by (auto simp: getChannelQueueReset_def Let_def initChannels_def rCreateChannel_def
      split: option.split prod.split sum.split) (metis snd_conv)+

lemma log_tryConn:
  assumes "tryConn A i isRetry d r e = Some y"
  shows "log (snd (snd y)) = log e"
proof -
  have "A = A \<longrightarrow> log (snd (snd y)) = log e"
  proof (rule tryConn.raw_induct [where P = "\<lambda>B i isRetry d r e y. B = A \<longrightarrow> log (snd (snd y)) = log e", OF _ assms], intro impI)
  fix tc and B i isRetry d r e and y :: "bool \<times> RabbitPool \<times> 'e"
  assume ih: "\<And>B i isRetry d r e y. tc B i isRetry d r e = Some y \<Longrightarrow> B = A \<longrightarrow> log (snd (snd y)) = log e"
    and y: "(let r0 = (if isRetry then r\<lparr>productCurrentRetry := int32 (productCurrentRetry r + 1)\<rparr> else r) in
       case is_open B (rc_at r0 i) e of (opn, e0) \<Rightarrow>
       if opn then Some (isRetry, r0, e0)
       else let r1 = deleteChannel (rc_at r0 i) d r0 in
         case connection B r1 (virtualHost r1) e0 of (res, e1) \<Rightarrow>
         (case res of
            Inr c \<Rightarrow> Some (isRetry, set_conn i (Some c) r1, e1)
          | Inl _ \<Rightarrow> Option.bind (tc B i True d (set_conn i None r1) e1)
              (\<lambda>(_, r2, e2). Some (isRetry, r2, e2)))) = Some y" and B: "B = A"
  define r0 where "r0 = (if isRetry then r\<lparr>productCurrentRetry := int32 (productCurrentRetry r + 1)\<rparr> else r)"
  define r1 where "r1 = deleteChannel (rc_at r0 i) d r0"
  obtain opn e0 where o: "is_open A (rc_at r0 i) e = (opn, e0)" by (metis prod.exhaust)
  obtain res e1 where c: "connection A r1 (virtualHost r1) e0 = (res, e1)" by (metis prod.exhaust)
  have "log e0 = log e" "log e1 = log e0"
    using log_is_open [of "rc_at r0 i" e] log_connection [of r1 "virtualHost r1" e0] by (simp_all add: o c)
  then show "log (snd (snd y)) = log e"
    using y [unfolded r0_def [symmetric] Let_def r1_def [symmetric] B o c prod.case]
      ih [of A i True d "set_conn i None r1" e1]
    by (auto split: sum.splits if_splits simp: bind_eq_Some_conv)
  qed
  then show ?thesis by simp
qed

lemma log_push_channel:
  assumes "push_channel A d r e = Some (res, r', e')"
  shows "log e' = log e"
proof -
  obtain i r1 b r2 e2 where t: "tryConn A i False d r1 e = Some (b, r2, e2)"
    and c: "getChannelQueueReset A (rc_at r2 i) d b r2 e2 = (res, r', e')"
    using assms by (auto simp: push_channel_def bind_eq_Some_conv)
  show ?thesis using log_tryConn [OF t] log_reset [of "rc_at r2 i" d b r2 e2] c by simp
qed

lemma rPush_trace:
  assumes "rPush A d st r e = Some y" and "pool_ok r"
  shows "push_trace d (pushMaxTime r - st) (log e) (log (snd (snd y))) (fst y)"
proof -
  have "A = A \<longrightarrow> pool_ok r \<longrightarrow> push_trace d (pushMaxTime r - st) (log e) (log (snd (snd y))) (fst y)"
  proof (rule rPush.raw_induct [where P = "\<lambda>B d st r e y. B = A \<longrightarrow> pool_ok r \<longrightarrow>
      push_trace d (pushMaxTime r - st) (log e) (log (snd (snd y))) (fst y)", OF _ assms(1)], intro impI)
    fix push :: "'e amqp_api \<Rightarrow> RabbitMqData \<Rightarrow> int \<Rightarrow> RabbitPool \<Rightarrow> 'e \<Rightarrow> (int option \<times> RabbitPool \<times> 'e) option"
      and B d st r e and y :: "int option \<times> RabbitPool \<times> 'e"
    assume ih: "\<And>B d st r e y. push B d st r e = Some y \<Longrightarrow> B = A \<longrightarrow> pool_ok r \<longrightarrow>
        push_trace d (pushMaxTime r - st) (log e) (log (snd (snd y))) (fst y)"
      and y: "(if pushMaxTime r \<le> st then Some (Some RCODE_PUSH_MAX_ERROR, r, e)
         else Option.bind (push_channel B d r e) (\<lambda>(res, r1, e1).
           case res of
             Inl _ \<Rightarrow> Some (Some RCODE_GET_CHANNEL_ERROR, r1, e1)
           | Inr ch \<Rightarrow> (case am_Publish B ch (push_message d) e1 of (err, e2) \<Rightarrow>
               (case err of None \<Rightarrow> Some (None, r1, e2)
                | Some _ \<Rightarrow> push B d (st + 1) r1 e2)))) = Some y"
      and B: "B = A" and ok: "pool_ok r"
    show "push_trace d (pushMaxTime r - st) (log e) (log (snd (snd y))) (fst y)"
    proof (cases "pushMaxTime r \<le> st")
      case True
      then show ?thesis using y push_trace_max by auto
    next
      case False
      obtain res r1 e1 where p: "push_channel A d r e = Some (res, r1, e1)"
        using y B False by (cases "push_channel A d r e") auto
      note keep = push_channel_keeps [OF p ok] and l1 = log_push_channel [OF p]
      show ?thesis
      proof (cases res)
        case (Inl x)
        then have "y = (Some RCODE_GET_CHANNEL_ERROR, r1, e1)" using y B False p by simp
        then show ?thesis using l1 push_trace_channel by simp
      next
        case (Inr ch)
        obtain err e2 where a: "am_Publish A ch (push_message d) e1 = (err, e2)" by (cases "am_Publish A ch (push_message d) e1")
        have l2: "log e2 = log e @ [(push_message d, err = None)]" using log_Publish [OF a] l1 by simp
        show ?thesis
        proof (cases err)
          case None
          then have "y = (None, r1, e2)" using y B False p Inr a by simp
          then show ?thesis using l2 None False push_trace_sent by simp
        next
          case (Some x)
          then have r: "push A d (st + 1) r1 e2 = Some y" using y B False p Inr a by simp
          have m: "pushMaxTime r1 - (st + 1) = (pushMaxTime r - st) - 1" and ok1: "pool_ok r1"
            using keep by (simp_all add: same_pool_def)
          show ?thesis
          proof (rule push_trace_again)
            show "push_trace d (pushMaxTime r - st - 1) (log e @ [(push_message d, False)]) (log (snd (snd y))) (fst y)"
              using ih [OF r] ok1 m l2 Some by simp
            show "0 < pushMaxTime r - st" using False by simp
          qed
        qed
      qed
    qed
  qed
  then show ?thesis using assms(2) by simp
qed

end

section \<open>When a push returns\<close>

lemma tryConn_dialled:
  assumes "\<And>url e. \<exists>c e'. am_Dial A url e = (Inr c, e')"
  shows "\<exists>r' e'. tryConn A i b d r e = Some (b, r', e')"
proof -
  have c: "\<exists>c e'. connection A r v e = (Inr c, e')" for r v e
    using assms by (simp add: connection_def Let_def)
  let ?r0 = "if b then r\<lparr>productCurrentRetry := int32 (productCurrentRetry r + 1)\<rparr> else r"
  obtain opn e0 where o: "is_open A (rc_at ?r0 i) e = (opn, e0)" by (cases "is_open A (rc_at ?r0 i) e")
  obtain x e1 where "connection A (deleteChannel (rc_at ?r0 i) d ?r0)
      (virtualHost (deleteChannel (rc_at ?r0 i) d ?r0)) e0 = (Inr x, e1)" using c by blast
  then show ?thesis using o by (subst tryConn.simps) (simp add: Let_def)
qed

lemma push_channel_dialled:
  assumes "\<And>url e. \<exists>c e'. am_Dial A url e = (Inr c, e')" and "pool_ok r"
  obtains res r' e' where "push_channel A d r e = Some (res, r', e')"
proof -
  let ?i = "nat ((connectionIndex r + 1) mod maxConnection r)"
  let ?r1 = "r\<lparr>connectionIndex := (connectionIndex r + 1) mod maxConnection r\<rparr>"
  obtain r2 e2 where t: "tryConn A ?i False d ?r1 e = Some (False, r2, e2)"
    using tryConn_dialled [OF assms(1)] by blast
  obtain res r' e' where "getChannelQueueReset A (rc_at r2 ?i) d False r2 e2 = (res, r', e')"
    by (cases "getChannelQueueReset A (rc_at r2 ?i) d False r2 e2")
  then show ?thesis using that t by (simp add: push_channel_def getConnection_ok [OF assms(2)])
qed

lemma rPush_returns:
  assumes dial: "\<And>url e. \<exists>c e'. am_Dial A url e = (Inr c, e')" and "pool_ok r"
  shows "\<exists>y. rPush A d st r e = Some y"
  using assms(2)
proof (induction "nat (pushMaxTime r - st)" arbitrary: st r e)
  case 0
  then show ?case by (subst rPush.simps) simp
next
  case (Suc n)
  obtain res r1 e1 where p: "push_channel A d r e = Some (res, r1, e1)"
    using push_channel_dialled [OF dial Suc.prems] .
  have m: "n = nat (pushMaxTime r1 - (st + 1))" and ok: "pool_ok r1"
    using push_channel_keeps [OF p Suc.prems] Suc.hyps(2) by (simp_all add: same_pool_def)
  show ?case
  proof (cases res)
    case (Inr ch)
    obtain err e2 where "am_Publish A ch (push_message d) e1 = (err, e2)"
      by (cases "am_Publish A ch (push_message d) e1")
    then show ?thesis
      using Suc.hyps(1) [OF m ok, of e2] p Inr by (subst rPush.simps) (simp split: option.split)
  qed (use p in \<open>subst rPush.simps, simp\<close>)
qed

text \<open>Without a connection that can be made, \<open>tryConn\<close> does not return.\<close>

lemma tryConn_hangs:
  assumes dial: "\<And>url e. \<exists>x e'. am_Dial A url e = (Inl x, e')"
    and closed: "\<And>c e. fst (am_IsClosed A c e)"
  shows "tryConn A i b d r e = None"
proof -
  have o: "\<not> fst (is_open A rc e)" for rc e
    using closed by (simp add: is_open_def split: option.split prod.split) (metis fst_conv)
  have c: "\<exists>x e'. connection A r v e = (Inl x, e')" for r v e
    using dial by (simp add: connection_def Let_def)
  have False if "tryConn A i b d r e = Some y" for y
  proof -
    have "A = A \<longrightarrow> False"
    proof (rule tryConn.raw_induct [where P = "\<lambda>B i b d r e y. B = A \<longrightarrow> False", OF _ that], intro impI)
      fix tc and B i isRetry d r e and y :: "bool \<times> RabbitPool \<times> 'a"
      assume ih: "\<And>B i isRetry d r e y. tc B i isRetry d r e = Some y \<Longrightarrow> B = A \<longrightarrow> False"
        and y: "(let r0 = (if isRetry then r\<lparr>productCurrentRetry := int32 (productCurrentRetry r + 1)\<rparr> else r) in
           case is_open B (rc_at r0 i) e of (opn, e0) \<Rightarrow>
           if opn then Some (isRetry, r0, e0)
           else let r1 = deleteChannel (rc_at r0 i) d r0 in
             case connection B r1 (virtualHost r1) e0 of (res, e1) \<Rightarrow>
             (case res of
                Inr c \<Rightarrow> Some (isRetry, set_conn i (Some c) r1, e1)
              | Inl _ \<Rightarrow> Option.bind (tc B i True d (set_conn i None r1) e1)
                  (\<lambda>(_, r2, e2). Some (isRetry, r2, e2)))) = Some y" and B: "B = A"
      define r0 where "r0 = (if isRetry then r\<lparr>productCurrentRetry := int32 (productCurrentRetry r + 1)\<rparr> else r)"
      define r1 where "r1 = deleteChannel (rc_at r0 i) d r0"
      obtain e0 where o: "is_open A (rc_at r0 i) e = (False, e0)"
        using o [of "rc_at r0 i" e] by (cases "is_open A (rc_at r0 i) e") simp
      obtain x e1 where c: "connection A r1 (virtualHost r1) e0 = (Inl x, e1)" using c by blast
      show False
        using y [unfolded r0_def [symmetric] Let_def r1_def [symmetric] B o prod.case c] ih [of A]
        by (auto simp: bind_eq_Some_conv)
    qed
    then show False by simp
  qed
  then show ?thesis by (cases "tryConn A i b d r e") auto
qed

section \<open>Connecting\<close>

lemma pool_conns_creds [simp]:
  "pool_conns (r\<lparr>host := h, port := p, user := u, password := pw, virtualHost := v\<rparr>) = pool_conns r"
  by (simp add: pool_conns_def)

lemma set_conns_fields [simp]:
  "maxConnection (set_conns cs r) = maxConnection r" "connectionIndex (set_conns cs r) = connectionIndex r"
  "pushMaxTime (set_conns cs r) = pushMaxTime r" "clientType (set_conns cs r) = clientType r"
  by (simp_all add: set_conns_def)

lemma dial_all_ok:
  assumes "\<And>url e. \<exists>c e'. am_Dial A url e = (Inr c, e')"
  shows "\<exists>r' e'. dial_all A js r e = (None, r', e') \<and>
    map rc_index (pool_conns r') = map rc_index (pool_conns r) @ js \<and>
    (\<forall>rc\<in>set (pool_conns r'). rc \<in> set (pool_conns r) \<or> rc_conn rc \<noteq> None) \<and>
    maxConnection r' = maxConnection r \<and> connectionIndex r' = connectionIndex r \<and>
    pushMaxTime r' = pushMaxTime r"
proof (induction js arbitrary: r e)
  case (Cons j js)
  obtain c e1 where c: "rConnect A r e = (Inr c, e1)"
    using assms by (simp add: rConnect_def connection_def Let_def) meson
  let ?r1 = "set_conns (pool_conns r @ [\<lparr>rc_conn = Some c, rc_index = j\<rparr>]) r"
  obtain r' e' where "dial_all A js ?r1 e1 = (None, r', e')"
    "map rc_index (pool_conns r') = map rc_index (pool_conns ?r1) @ js"
    "\<forall>rc\<in>set (pool_conns r'). rc \<in> set (pool_conns ?r1) \<or> rc_conn rc \<noteq> None"
    "maxConnection r' = maxConnection ?r1" "connectionIndex r' = connectionIndex ?r1"
    "pushMaxTime r' = pushMaxTime ?r1"
    using Cons.IH [of ?r1 e1] by blast
  then show ?case using c by (intro exI [of _ r'] exI [of _ e']) auto
qed auto

lemma initConnections_ok:
  assumes "\<And>url e. \<exists>c e'. am_Dial A url e = (Inr c, e')"
    and "0 < maxConnection r" "maxConnection r < 2 ^ 31" "0 \<le> connectionIndex r"
      "connectionIndex r < maxConnection r"
  shows "\<exists>r' e'. initConnections A r e = (None, r', e') \<and> pool_ok r' \<and>
    map rc_index (pool_conns r') = map int [0..<nat (maxConnection r)] \<and>
    (\<forall>rc\<in>set (pool_conns r'). rc_conn rc \<noteq> None)"
proof -
  obtain r' e' where *: "dial_all A (map int [0..<nat (maxConnection r)]) (set_conns [] r) e = (None, r', e')"
    "map rc_index (pool_conns r') = map int [0..<nat (maxConnection r)]"
    "\<forall>rc\<in>set (pool_conns r'). rc_conn rc \<noteq> None"
    "maxConnection r' = maxConnection r" "connectionIndex r' = connectionIndex r"
    using dial_all_ok [OF assms(1), of "map int [0..<nat (maxConnection r)]" "set_conns [] r" e] by auto
  have "length (pool_conns r') = nat (maxConnection r)" using arg_cong [OF *(2), of length] by simp
  then show ?thesis using * assms by (simp add: initConnections_def pool_ok_def)
qed

section \<open>Stale channels\<close>

text \<open>
  Every connection is open and has a cached channel for the message, but none of these channels
  accepts a publication.
\<close>

definition stale :: "'e amqp_api \<Rightarrow> RabbitMqData \<Rightarrow> RabbitPool \<Rightarrow> bool" where
  "stale A d r \<longleftrightarrow> (\<forall>rc\<in>set (pool_conns r).
     (\<exists>c. rc_conn rc = Some c \<and> (\<forall>e. \<not> fst (am_IsClosed A c e))) \<and>
     (\<exists>ch. map_of (channelPool r) (data_hash r rc d) = Some ch \<and>
        (\<forall>e. fst (am_Publish A ch (push_message d) e) \<noteq> None)))"

lemma stale_index: "stale A d r \<Longrightarrow> stale A d (r\<lparr>connectionIndex := k\<rparr>)"
  by (simp add: stale_def data_hash_def)

lemma stale_channel:
  assumes "stale A d r" and "pool_ok r"
  shows "\<exists>ch e'. push_channel A d r e = Some (Inr ch,
      r\<lparr>connectionIndex := (connectionIndex r + 1) mod maxConnection r\<rparr>, e') \<and>
    (\<forall>e. fst (am_Publish A ch (push_message d) e) \<noteq> None)"
proof -
  let ?k = "(connectionIndex r + 1) mod maxConnection r"
  let ?r1 = "r\<lparr>connectionIndex := ?k\<rparr>"
  let ?rc = "rc_at ?r1 (nat ?k)"
  have len: "nat ?k < length (pool_conns r)"
    using assms(2) by (simp add: pool_ok_def nat_less_iff)
  then have "?rc \<in> set (pool_conns ?r1)" by (simp add: rc_at_def)
  then obtain c ch where c: "rc_conn ?rc = Some c" "\<And>e. \<not> fst (am_IsClosed A c e)"
    and ch: "map_of (channelPool ?r1) (data_hash ?r1 ?rc d) = Some ch"
      "\<forall>e. fst (am_Publish A ch (push_message d) e) \<noteq> None"
    using stale_index [OF assms(1), of ?k] unfolding stale_def by blast
  obtain e1 where o: "is_open A ?rc e = (True, e1)"
    using c(2) [of e] by (cases "am_IsClosed A c e") (simp add: is_open_def c(1))
  have "tryConn A (nat ?k) False d ?r1 e = Some (False, ?r1, e1)"
    by (subst tryConn.simps) (simp add: Let_def o)
  then have "push_channel A d r e = Some (Inr ch, ?r1, e1)"
    using ch(1) by (simp add: push_channel_def getConnection_ok [OF assms(2)] getChannelQueueReset_def)
  then show ?thesis using ch(2) by blast
qed

lemma stale_push:
  assumes "stale A d r" and "pool_ok r"
  shows "\<exists>k e'. rPush A d st r e = Some (Some RCODE_PUSH_MAX_ERROR, r\<lparr>connectionIndex := k\<rparr>, e')"
  using assms
proof (induction "nat (pushMaxTime r - st)" arbitrary: st r e)
  case 0
  then have "rPush A d st r e = Some (Some RCODE_PUSH_MAX_ERROR, r\<lparr>connectionIndex := connectionIndex r\<rparr>, e)"
    by (subst rPush.simps) simp
  then show ?case by blast
next
  case (Suc n)
  let ?r1 = "r\<lparr>connectionIndex := (connectionIndex r + 1) mod maxConnection r\<rparr>"
  obtain ch e1 where p: "push_channel A d r e = Some (Inr ch, ?r1, e1)"
    and "fst (am_Publish A ch (push_message d) e1) \<noteq> None"
    using stale_channel [OF Suc.prems, of e] by auto
  then obtain x e2 where a: "am_Publish A ch (push_message d) e1 = (Some x, e2)"
    by (cases "am_Publish A ch (push_message d) e1") auto
  have "n = nat (pushMaxTime ?r1 - (st + 1))" using Suc.hyps(2) by simp
  from Suc.hyps(1) [OF this stale_index [OF Suc.prems(1)] pool_ok_next [OF Suc.prems(2)]]
  obtain k e' where "rPush A d (st + 1) ?r1 e2 = Some (Some RCODE_PUSH_MAX_ERROR, ?r1\<lparr>connectionIndex := k\<rparr>, e')"
    by blast
  moreover have "rPush A d st r e = rPush A d (st + 1) ?r1 e2"
    using Suc.hyps(2) p a by (subst rPush.simps) auto
  ultimately show ?case by auto
qed

text \<open>Making a connection anew drops the channel of the message that is being sent, and no other.\<close>

lemma set_conns_channelPool [simp]: "channelPool (set_conns cs r) = channelPool r"
  by (simp add: set_conns_def)

lemma deleteChannel_other:
  "h \<noteq> data_hash r rc d \<Longrightarrow> map_of (channelPool (deleteChannel rc d r)) h = map_of (channelPool r) h"
  by (simp add: deleteChannel_def Let_def map_of_gomap_delete)

section \<open>Retries of a delivery\<close>

lemma int32_range: "- (2 ^ 31) \<le> int32 i" "int32 i < 2 ^ 31"
  using signed_take_bit_int_greater_eq_minus_exp [of 31 i] signed_take_bit_int_less_exp [of 31 i]
  by (simp_all add: int32_def)

text \<open>The header of a retried delivery, when the dead letter queue hands the message back.\<close>

definition retry_header :: "int \<Rightarrow> headers" where
  "retry_header n = gomap_set [] ''retry_nums'' (HInt32 n)"

lemma retry_nums_header [simp]: "retry_nums (retry_header n) = Some n" "retry_nums [] = Some 0"
  by (simp_all add: retry_nums_def retry_header_def)

lemma RandomAround_bounds:
  assumes "lo \<le> hi" "- (2 ^ 53) \<le> lo" "hi < 2 ^ 62" and "\<And>n. 0 < n \<Longrightarrow> 0 \<le> rnd n \<and> rnd n < n"
  shows "\<exists>v. RandomAround rnd lo hi = Some (Inr v) \<and> lo \<le> v \<and> v \<le> hi"
proof -
  have i: "int64 j = j" if "- (2 ^ 63) \<le> j" "j < 2 ^ 63" for j
    using that by (simp add: int64_def signed_take_bit_int_eq_self)
  have "(if lo < 0 then int64 (hi + 1 + \<bar>lo\<bar>) else int64 (hi - lo + 1)) = hi - lo + 1"
    using assms by (simp add: i)
  then have "RandomAround rnd lo hi = Some (Inr (rnd (hi - lo + 1) + lo))"
    using assms by (simp add: RandomAround_def)
  moreover have "0 \<le> rnd (hi - lo + 1)" "rnd (hi - lo + 1) < hi - lo + 1"
    using assms(1) assms(4) [of "hi - lo + 1"] by simp_all
  ultimately show ?thesis by simp
qed

definition delay_ok :: "(int \<Rightarrow> int) \<Rightarrow> RabbitPool \<Rightarrow> bool" where
  "delay_ok rnd r \<longleftrightarrow> - (2 ^ 53) \<le> minRandomRetryTime r \<and> maxRandomRetryTime r < 2 ^ 62 \<and>
     (\<forall>n>0. 0 \<le> rnd n \<and> rnd n < n)"

lemma retry_message_some:
  assumes "delay_ok rnd r"
  shows "\<exists>t. retry_message rnd r rec hs body = Some
    \<lparr>pub_exchange = dead_name (cr_ExchangeName rec), pub_key = dead_route (cr_Route rec), pub_body = body,
     pub_expiration = Itoa t, pub_headers = hs, pub_messageId = []\<rparr> \<and>
    (minRandomRetryTime r \<le> maxRandomRetryTime r \<longrightarrow> minRandomRetryTime r \<le> t \<and> t \<le> maxRandomRetryTime r) \<and>
    (maxRandomRetryTime r < minRandomRetryTime r \<longrightarrow> t = 5000)"
proof (cases "minRandomRetryTime r \<le> maxRandomRetryTime r")
  case True
  then show ?thesis
    using RandomAround_bounds [of "minRandomRetryTime r" "maxRandomRetryTime r" rnd] assms
    by (auto simp: delay_ok_def retry_message_def)
qed (simp add: retry_message_def RandomAround_def)

text \<open>
  The life of a message that is refused every time: the dead letter queue hands it back with the
  headers it was published with.
\<close>

fun retry_run :: "(headers \<Rightarrow> retry_outcome option) \<Rightarrow> nat \<Rightarrow> headers \<Rightarrow> retry_outcome list" where
  "retry_run f 0 hs = []"
| "retry_run f (Suc k) hs = (case f hs of None \<Rightarrow> []
     | Some (EventFail c) \<Rightarrow> [EventFail c]
     | Some (Publish p) \<Rightarrow> Publish p # retry_run f k (pub_headers p))"

lemma consume_retry_header:
  assumes "delay_ok rnd r" "retry_nums hs = Some n" "0 \<le> n" "n < 2 ^ 31 - 1"
  shows "consume_retry rnd r rec hs body = (if MaxReTry rec \<le> n + 1 then Some (EventFail RCODE_RETRY_MAX_ERROR)
    else map_option Publish (retry_message rnd r rec (retry_header (n + 1)) body))"
  using assms by (simp add: consume_retry_def int32_id Let_def retry_header_def)

lemma retry_run_consume:
  assumes d: "delay_ok rnd r" and "retry_nums hs = Some n" "0 \<le> n" "n < MaxReTry rec" "MaxReTry rec < 2 ^ 31"
    and "MaxReTry rec - n \<le> int k"
  shows "retry_run (\<lambda>hs. consume_retry rnd r rec hs body) k hs =
    map (\<lambda>i. Publish (the (retry_message rnd r rec (retry_header i) body))) [n + 1..MaxReTry rec - 1] @
    [EventFail RCODE_RETRY_MAX_ERROR]"
  using assms(2-)
proof (induction k arbitrary: hs n)
  case (Suc k)
  have h: "consume_retry rnd r rec hs body = (if MaxReTry rec \<le> n + 1 then Some (EventFail RCODE_RETRY_MAX_ERROR)
    else map_option Publish (retry_message rnd r rec (retry_header (n + 1)) body))"
    using consume_retry_header [OF d Suc.prems(1)] Suc.prems by simp
  show ?case
  proof (cases "MaxReTry rec \<le> n + 1")
    case True
    then show ?thesis using h by simp
  next
    case False
    obtain p where p: "retry_message rnd r rec (retry_header (n + 1)) body = Some p"
      and ph: "pub_headers p = retry_header (n + 1)"
      using retry_message_some [OF d, of rec "retry_header (n + 1)" body] by auto
    have "[n + 1..MaxReTry rec - 1] = (n + 1) # [n + 1 + 1..MaxReTry rec - 1]"
      using False by (intro upto_rec1) simp
    then show ?thesis
      using Suc.IH [of "retry_header (n + 1)" "n + 1"] Suc.prems False h p ph by simp
  qed
qed simp

lemma retry_run_client:
  assumes d: "delay_ok rnd r" and "retry_nums hs = Some n" "0 \<le> n" "n + 1 < MaxReTry rec" "MaxReTry rec < 2 ^ 31"
  shows "retry_run (\<lambda>hs. retryClient_Push rnd r rec hs body) k hs =
    replicate k (Publish (the (retry_message rnd r rec hs body)))"
proof (induction k)
  case (Suc k)
  obtain p where p: "retry_message rnd r rec hs body = Some p" and ph: "pub_headers p = hs"
    using retry_message_some [OF d, of rec hs body] by auto
  then have "retryClient_Push rnd r rec hs body = Some (Publish p)"
    using assms by (simp add: retryClient_Push_def int32_id Let_def)
  then show ?case using Suc p ph by simp
qed simp

section \<open>A reference broker\<close>

text \<open>
  A broker that accepts every publication, except on the channels of \<open>br_bad\<close>; \<open>br_closed\<close> are
  the connections that have been lost. Numbers of connections and channels are not used twice.
\<close>

record broker =
  br_next :: nat
  br_closed :: "nat list"
  br_bad :: "nat list"
  br_log :: "(publishing \<times> bool) list"

definition ref_amqp :: "broker amqp_api" where
  "ref_amqp = \<lparr>
     am_Dial = (\<lambda>url b. (Inr (br_next b), b\<lparr>br_next := br_next b + 1\<rparr>)),
     am_IsClosed = (\<lambda>c b. (c \<in> set (br_closed b), b)),
     am_Channel = (\<lambda>c b. if c \<in> set (br_closed b) then (Inl (Errorf ''closed''), b)
        else (Inr (br_next b), b\<lparr>br_next := br_next b + 1\<rparr>)),
     am_Publish = (\<lambda>ch p b. if ch \<in> set (br_bad b)
        then (Some (Errorf ''closed''), b\<lparr>br_log := br_log b @ [(p, False)]\<rparr>)
        else (None, b\<lparr>br_log := br_log b @ [(p, True)]\<rparr>)),
     am_ExchangeDeclare = (\<lambda>ch n t b. (None, b)),
     am_QueueDeclare = (\<lambda>ch n args b. (Inr n, b)),
     am_QueueBind = (\<lambda>ch q rt x b. (None, b))\<rparr>"

interpretation broker: amqp ref_amqp br_log
  by unfold_locales (auto simp: ref_amqp_def split: if_splits)

lemma ref_amqp_dials: "\<exists>c e'. am_Dial ref_amqp url e = (Inr c, e')"
  by (simp add: ref_amqp_def)

definition empty_broker :: broker where
  "empty_broker = \<lparr>br_next = 0, br_closed = [], br_bad = [], br_log = []\<rparr>"

text \<open>A broker whose connections cannot be made and are all lost.\<close>

definition dead_amqp :: "broker amqp_api" where
  "dead_amqp = ref_amqp\<lparr>am_Dial := (\<lambda>url b. (Inl (Errorf ''refused''), b)),
     am_IsClosed := (\<lambda>c b. (True, b))\<rparr>"

text \<open>A broker whose connections are open and whose channels refuse every publication.\<close>

definition deaf_amqp :: "broker amqp_api" where
  "deaf_amqp = ref_amqp\<lparr>am_IsClosed := (\<lambda>c b. (False, b)),
     am_Publish := (\<lambda>ch p b. (Some (Errorf ''closed''), b))\<rparr>"

definition demo_data :: RabbitMqData where
  "demo_data = GetRabbitMqDataFormat ''ex'' ''direct'' ''q'' ''r'' [1, 2] []"

definition demo_pool :: RabbitPool where
  "demo_pool = fst (snd (initConnections ref_amqp (SetMaxConnection 2 NewProductPool) empty_broker))"

lemma demo_pool_eq:
  "demo_pool = NewProductPool\<lparr>maxConnection := 2, connections := [(1,
     [\<lparr>rc_conn = Some 0, rc_index = 0\<rparr>, \<lparr>rc_conn = Some 1, rc_index = 1\<rparr>])]\<rparr>"
  by (simp add: demo_pool_def initConnections_def SetMaxConnection_def NewProductPool_def newRabbitPool_def
      upt_rec rConnect_def connection_def ref_amqp_def empty_broker_def set_conns_def pool_conns_def
      RABBITMQ_TYPE_PUBLISH_def Let_def gomap_get_def)

lemma demo_pool_ok: "pool_ok demo_pool"
  by (simp add: demo_pool_eq pool_ok_def NewProductPool_def newRabbitPool_def pool_conns_def
      RABBITMQ_TYPE_PUBLISH_def gomap_get_def)

section \<open>Properties\<close>

text \<open>\<open>Connect\<close> makes the connections of the pool, numbered in order and none of them nil, and
  \<open>getConnection\<close> then hands them out in turn: after \<open>i\<close> come \<open>i + 1\<close>, \<open>i + 2\<close> and so on, modulo
  the number of connections.
\<close>

theorem round_robin:
  assumes "\<forall>url e. \<exists>c e'. am_Dial A url e = (Inr c, e')"
    and "0 < maxConnection r" "maxConnection r < 2 ^ 31" "0 \<le> connectionIndex r"
      "connectionIndex r < maxConnection r"
  shows "\<exists>r' e'. Connect A h p u pw r e = (None, r', e') \<and>
    map rc_index (pool_conns r') = map int [0..<nat (maxConnection r)] \<and>
    (\<forall>rc\<in>set (pool_conns r'). rc_conn rc \<noteq> None) \<and>
    get_many k r' = Some (map (\<lambda>j. nat ((connectionIndex r' + 1 + int j) mod maxConnection r')) [0..<k])"
proof -
  let ?r = "r\<lparr>host := h, port := p, user := u, password := pw, virtualHost := ''/''\<rparr>"
  obtain r' e' where "initConnections A ?r e = (None, r', e')" "pool_ok r'"
    "map rc_index (pool_conns r') = map int [0..<nat (maxConnection ?r)]"
    "\<forall>rc\<in>set (pool_conns r'). rc_conn rc \<noteq> None"
    using initConnections_ok [of A ?r e] assms by (auto simp del: pool_conns_creds)
  then show ?thesis by (simp add: Connect_def get_many_ok)
qed

theorem round_robin_witness:
  "\<exists>r' e'. Connect ref_amqp ''h'' 5672 ''u'' ''p'' NewProductPool empty_broker = (None, r', e') \<and>
    map rc_index (pool_conns r') = map int [0..<5] \<and> (\<forall>rc\<in>set (pool_conns r'). rc_conn rc \<noteq> None) \<and>
    get_many 7 r' = Some (map (\<lambda>j. nat ((connectionIndex r' + 1 + int j) mod maxConnection r')) [0..<7])"
  using round_robin [of ref_amqp NewProductPool "''h''" 5672 "''u''" "''p''" empty_broker 7] ref_amqp_dials
  by (simp add: NewProductPool_def newRabbitPool_def)

text \<open>A push sends the message at most \<open>pushMaxTime\<close> times, always the same publication: refused
  attempts, then at most one that is accepted. It reports success exactly with that last one, and
  the error 501 only after all \<open>pushMaxTime\<close> attempts were refused; so a message is never
  published twice by one push.
\<close>

theorem push_attempts:
  assumes "amqp A log" and "pool_ok r" and "Push A d r e = Some (res, r', e')"
  shows "push_trace d (pushMaxTime r) (log e) (log e') res"
  using amqp.rPush_trace [OF assms(1) assms(3) [unfolded Push_def] assms(2)] by simp

theorem push_attempts_witness:
  "\<exists>res r' e'. Push ref_amqp demo_data demo_pool empty_broker = Some (res, r', e') \<and>
    push_trace demo_data 99 [] (br_log e') res"
proof -
  obtain res r' e' where p: "Push ref_amqp demo_data demo_pool empty_broker = Some (res, r', e')"
    using rPush_returns [OF ref_amqp_dials demo_pool_ok] by (fastforce simp: Push_def)
  then show ?thesis
    using push_attempts [OF broker.amqp_axioms demo_pool_ok p]
    by (simp add: demo_pool_eq NewProductPool_def newRabbitPool_def empty_broker_def)
qed

text \<open>C24: A push returns if every connection can be made anew. If the connections are lost and none can
  be made it never returns, whatever the number of attempts: \<open>tryConn\<close> has no bound, and it runs
  with the lock of the pool held.
\<close>

theorem push_returns:
  assumes "pool_ok r"
  shows "((\<forall>url e. \<exists>c e'. am_Dial A url e = (Inr c, e')) \<longrightarrow> (\<exists>y. Push A d r e = Some y)) \<and>
    ((\<forall>url e. \<exists>x e'. am_Dial A url e = (Inl x, e')) \<and> (\<forall>c e. fst (am_IsClosed A c e)) \<and> 0 < pushMaxTime r \<longrightarrow>
       Push A d r e = None)"
proof (intro conjI impI)
  show "\<exists>y. Push A d r e = Some y" if "\<forall>url e. \<exists>c e'. am_Dial A url e = (Inr c, e')"
    using rPush_returns [of A r d 0 e, OF _ assms] that unfolding Push_def by blast
  show "Push A d r e = None"
    if "(\<forall>url e. \<exists>x e'. am_Dial A url e = (Inl x, e')) \<and> (\<forall>c e. fst (am_IsClosed A c e)) \<and> 0 < pushMaxTime r"
    using that tryConn_hangs [of A] unfolding Push_def
    by (subst rPush.simps) (simp add: push_channel_def getConnection_ok [OF assms])
qed

theorem push_returns_witness:
  "(\<exists>y. Push ref_amqp demo_data demo_pool empty_broker = Some y) \<and>
   Push dead_amqp demo_data demo_pool empty_broker = None"
  using push_returns [OF demo_pool_ok, of ref_amqp demo_data empty_broker] ref_amqp_dials
    push_returns [OF demo_pool_ok, of dead_amqp demo_data empty_broker]
  by (simp add: dead_amqp_def demo_pool_eq NewProductPool_def newRabbitPool_def)

text \<open>A cached channel is never replaced while its connection is open: if the channels of a message
  refuse every publication, each push of it fails with 501 and leaves the same channels in the
  pool, so the next push fails in the same way.
\<close>

theorem stale_channels_stay:
  assumes "stale A d r" and "pool_ok r"
  shows "\<exists>r' e'. Push A d r e = Some (Some RCODE_PUSH_MAX_ERROR, r', e') \<and>
    channelPool r' = channelPool r \<and> stale A d r' "
proof -
  obtain k e' where "rPush A d 0 r e = Some (Some RCODE_PUSH_MAX_ERROR, r\<lparr>connectionIndex := k\<rparr>, e')"
    using stale_push [OF assms] by blast
  then show ?thesis using stale_index [OF assms(1)] by (simp add: Push_def)
qed

definition stale_pool :: RabbitPool where
  "stale_pool = demo_pool\<lparr>channelPool :=
     [(data_hash demo_pool \<lparr>rc_conn = Some 0, rc_index = 0\<rparr> demo_data, 7),
      (data_hash demo_pool \<lparr>rc_conn = Some 1, rc_index = 1\<rparr> demo_data, 8)]\<rparr>"

theorem stale_channels_stay_witness:
  "\<exists>r' e'. Push deaf_amqp demo_data stale_pool empty_broker = Some (Some RCODE_PUSH_MAX_ERROR, r', e') \<and>
    channelPool r' = channelPool stale_pool \<and> stale deaf_amqp demo_data r'"
proof (rule stale_channels_stay)
  have h: "data_hash stale_pool = data_hash demo_pool"
    by (simp add: fun_eq_iff data_hash_def stale_pool_def)
  have c: "pool_conns stale_pool = [\<lparr>rc_conn = Some 0, rc_index = 0\<rparr>, \<lparr>rc_conn = Some 1, rc_index = 1\<rparr>]"
    by (simp add: stale_pool_def demo_pool_eq pool_conns_def gomap_get_def NewProductPool_def
        newRabbitPool_def RABBITMQ_TYPE_PUBLISH_def)
  show "stale deaf_amqp demo_data stale_pool"
    unfolding stale_def h c by (simp add: stale_pool_def deaf_amqp_def)
  show "pool_ok stale_pool" using demo_pool_ok c by (simp add: pool_ok_def stale_pool_def)
qed

text \<open>C34: The retry of a refused delivery ends: with the loop of \<open>consumeTask\<close> the message is published
  to the dead letter exchange with the counts 1, 2, \<open>\<dots>\<close> below \<open>MaxReTry\<close> and then given to
  \<open>EventFail\<close> with 507. Through \<open>retryClient.Push\<close> the count in the header never changes, so it is
  published again without end.
\<close>

theorem retry_bounded:
  assumes "delay_ok rnd r" "1 < MaxReTry rec" "MaxReTry rec < 2 ^ 31" "MaxReTry rec \<le> int k"
  shows "retry_run (\<lambda>hs. consume_retry rnd r rec hs body) k [] =
      map (\<lambda>i. Publish (the (retry_message rnd r rec (retry_header i) body))) [1..MaxReTry rec - 1] @
        [EventFail RCODE_RETRY_MAX_ERROR] \<and>
    retry_run (\<lambda>hs. retryClient_Push rnd r rec hs body) k [] =
      replicate k (Publish (the (retry_message rnd r rec [] body)))"
  using retry_run_consume [of rnd r "[]" 0 rec k body] retry_run_client [of rnd r "[]" 0 rec body k] assms
  by simp

definition demo_receive :: ConsumeReceive where
  "demo_receive = \<lparr>cr_ExchangeName = ''ex'', cr_ExchangeType = ''direct'', cr_Route = ''r'', cr_QueueName = ''q'',
     IsTry = True, MaxReTry = 3, IsAutoAck = True\<rparr>"

theorem retry_bounded_witness:
  "retry_run (\<lambda>hs. consume_retry (\<lambda>n. 0) NewConsumePool demo_receive hs [9]) 5 [] =
      map (\<lambda>i. Publish (the (retry_message (\<lambda>n. 0) NewConsumePool demo_receive (retry_header i) [9]))) [1..2] @
        [EventFail 507] \<and>
    retry_run (\<lambda>hs. retryClient_Push (\<lambda>n. 0) NewConsumePool demo_receive hs [9]) 5 [] =
      replicate 5 (Publish (the (retry_message (\<lambda>n. 0) NewConsumePool demo_receive [] [9])))"
  using retry_bounded [of "\<lambda>n. 0" NewConsumePool demo_receive 5 "[9]"]
  by (simp add: delay_ok_def NewConsumePool_def newRabbitPool_def demo_receive_def RCODE_RETRY_MAX_ERROR_def)

text \<open>A retried delivery waits for a time between the bounds of the pool, or for 5000 ms when the
  bounds are in the wrong order, and carries the body unchanged to the dead letter exchange.
\<close>

theorem retry_delay:
  assumes "delay_ok rnd r"
  shows "\<exists>t. retry_message rnd r rec hs body = Some
    \<lparr>pub_exchange = dead_name (cr_ExchangeName rec), pub_key = dead_route (cr_Route rec), pub_body = body,
     pub_expiration = Itoa t, pub_headers = hs, pub_messageId = []\<rparr> \<and>
    (minRandomRetryTime r \<le> maxRandomRetryTime r \<longrightarrow> minRandomRetryTime r \<le> t \<and> t \<le> maxRandomRetryTime r) \<and>
    (maxRandomRetryTime r < minRandomRetryTime r \<longrightarrow> t = 5000)"
  by (rule retry_message_some [OF assms])

theorem retry_delay_witness:
  "\<exists>t. retry_message (\<lambda>n. n - 1) NewConsumePool demo_receive [] [9] = Some
    \<lparr>pub_exchange = ''ex-dead'', pub_key = ''r-dead'', pub_body = [9],
     pub_expiration = Itoa t, pub_headers = [], pub_messageId = []\<rparr> \<and> 5000 \<le> t \<and> t \<le> 15000"
  using retry_delay [of "\<lambda>n. n - 1" NewConsumePool demo_receive "[]" "[9]"]
  by (simp add: delay_ok_def NewConsumePool_def newRabbitPool_def demo_receive_def dead_name_def dead_route_def)

lemma hashCode_range: "0 \<le> hashCode s \<and> hashCode s < 2 ^ 32"
  using uint_lt2p [of "ChecksumIEEE (bytes_of s)"] by (simp add: hashCode_def Let_def)

end
