(* ===== verification/SendQueue.thy ===== *)
theory SendQueue
  imports MQueue RabbitPool
begin

text \<open>
  The messages the proxy reports (\<^verbatim>\<open>server/rabbitmq_product.go\<close>): eight queues filled in turn, the
  access log and blacklist log messages, and the 32 goroutines that push the messages to the broker, in every interleaving
  with those that report and with the closing of the queues.
\<close>

section \<open>The eight queues\<close>

definition RabbitmqSendQueueSlicesShareSize :: nat where
  "RabbitmqSendQueueSlicesShareSize = 8"

text \<open>The queues hold pointers; nil is their zero value.\<close>

type_synonym slice = "RabbitMqData option mqueue"

record sendq =
  rabbitmqSendQueueSlices :: "slice list"
  rabbitmqSendQueueSlicesCounter :: u64

definition initRabbitmqSendQueueSlices :: sendq where
  "initRabbitmqSendQueueSlices = \<lparr>
     rabbitmqSendQueueSlices = map (\<lambda>i. NewMQueue None) [0..<RabbitmqSendQueueSlicesShareSize],
     rabbitmqSendQueueSlicesCounter = 0\<rparr>"

definition closeRabbitmqSendQueueSlices :: "sendq \<Rightarrow> sendq" where
  "closeRabbitmqSendQueueSlices sq = sq\<lparr>rabbitmqSendQueueSlices := map Close (rabbitmqSendQueueSlices sq)\<rparr>"

text \<open>The error of \<open>Enqueue\<close> is dropped. \<open>pick\<close> is the choice of the node pool.\<close>

definition pushRabbitmqSendQueue :: "ptr \<Rightarrow> RabbitMqData \<Rightarrow> sendq \<Rightarrow> sendq option" where
  "pushRabbitmqSendQueue pick data sq =
    (let c = rabbitmqSendQueueSlicesCounter sq + 1;
         i = unat (c mod of_nat RabbitmqSendQueueSlicesShareSize)
     in if i < length (rabbitmqSendQueueSlices sq)
        then map_option (\<lambda>(_, q'). sq\<lparr>rabbitmqSendQueueSlicesCounter := c,
               rabbitmqSendQueueSlices := (rabbitmqSendQueueSlices sq)[i := q']\<rparr>)
             (Enqueue pick (Some data) (rabbitmqSendQueueSlices sq ! i))
        else None)"

section \<open>The messages\<close>

text \<open>The names of the queues in the configuration, and the two messages.\<close>

record send_conf =
  AccesslogToInfluxDBQueue :: string
  BlacklistAccesslogQueue :: string

record BlackListAccessLog =
  Site :: string
  AccountType :: int
  Account :: string
  ExitIp :: string

record AccessRecordsToInfluxDB =
  UserName :: string
  Domain :: string
  Ip :: string
  ProxyType :: string

text \<open>
  \<open>unique\<close> is the message id, made of the time and eight random letters; \<open>marshal\<close> is
  \<open>proto.Marshal\<close>.
\<close>

definition SendAccessLogMessageToInfluxDB :: "send_conf \<Rightarrow> string \<Rightarrow> ptr \<Rightarrow> byte list \<Rightarrow> sendq \<Rightarrow> sendq option" where
  "SendAccessLogMessageToInfluxDB conf unique pick body =
     pushRabbitmqSendQueue pick (GetRabbitMqDataFormat [] [] (AccesslogToInfluxDBQueue conf) [] body unique)"

definition SendBlackListAccessLogMessage :: "send_conf \<Rightarrow> string \<Rightarrow> ptr \<Rightarrow> byte list \<Rightarrow> sendq \<Rightarrow> sendq option" where
  "SendBlackListAccessLogMessage conf unique pick body =
     pushRabbitmqSendQueue pick (GetRabbitMqDataFormat [] [] (BlacklistAccesslogQueue conf) [] body unique)"

definition SendBlackListAccessLogMessageData :: "send_conf \<Rightarrow> (BlackListAccessLog \<Rightarrow> go_error + byte list) \<Rightarrow>
    string \<Rightarrow> ptr \<Rightarrow> string \<Rightarrow> string \<Rightarrow> string \<Rightarrow> int \<Rightarrow> string \<Rightarrow> string \<Rightarrow> sendq \<Rightarrow>
    (go_error option \<times> sendq) option" where
  "SendBlackListAccessLogMessageData conf marshal unique pick proxyUserName proxyServerIpStr black aType
     account exitIp sq =
    (let blackListAccessLog = \<lparr>Site = black, AccountType = aType, Account = proxyUserName,
           ExitIp = proxyServerIpStr\<rparr>
     in case marshal blackListAccessLog of
          Inr sendByte \<Rightarrow> map_option (Pair None) (SendBlackListAccessLogMessage conf unique pick sendByte sq)
        | Inl _ \<Rightarrow> Some (Some (Errorf ''marshal''), sq))"

definition ReportAccessLogToInfluxDB :: "send_conf \<Rightarrow> (AccessRecordsToInfluxDB \<Rightarrow> go_error + byte list) \<Rightarrow>
    string \<Rightarrow> ptr \<Rightarrow> string \<Rightarrow> string \<Rightarrow> string \<Rightarrow> sendq \<Rightarrow> sendq option" where
  "ReportAccessLogToInfluxDB conf marshal unique pick username domain ip =
    (let accessLog = \<lparr>UserName = username, Domain = domain, Ip = ip, ProxyType = ''ipv4''\<rparr>;
         sendBytes = (case marshal accessLog of Inr bs \<Rightarrow> bs | Inl _ \<Rightarrow> [])
     in SendAccessLogMessageToInfluxDB conf unique pick sendBytes)"

section \<open>The handlers\<close>

text \<open>
  Each queue is served by four goroutines that call \<open>DequeueFunc\<close>: such a goroutine is at the queue, in \<open>Push\<close>
  with a message, or over. It takes message after message, whatever \<open>Push\<close> returns, until the queue is closed and empty.
\<close>

datatype sender = AtQueue | Pushing RabbitMqData | SenderOver

definition RabbitmqSendQueueSlicesHandlerCount :: nat where
  "RabbitmqSendQueueSlicesHandlerCount = 4"

definition handleRabbitmqSendQueue :: "nat \<Rightarrow> sender list" where
  "handleRabbitmqSendQueue share = replicate RabbitmqSendQueueSlicesHandlerCount AtQueue"

definition runhandleRabbitmqSendQueue :: "sender list" where
  "runhandleRabbitmqSendQueue = concat (map handleRabbitmqSendQueue [0..<RabbitmqSendQueueSlicesShareSize])"

text \<open>The queue of a goroutine, and a queue put back.\<close>

definition queue_of :: "nat \<Rightarrow> nat" where
  "queue_of w = w div RabbitmqSendQueueSlicesHandlerCount"

definition set_queue :: "nat \<Rightarrow> slice \<Rightarrow> sendq \<Rightarrow> sendq" where
  "set_queue i q sq = sq\<lparr>rabbitmqSendQueueSlices := (rabbitmqSendQueueSlices sq)[i := q]\<rparr>"

text \<open>
  The goroutines of the handlers together with those that report messages. A reporter draws a number from the counter,
  and its message enters the queue of that number later: \<open>ss_drawn\<close> has the messages in between. The queues are
  closed one after the other, at any moment, and \<open>ss_closing\<close> counts them; then the call waits for the handlers. The history of
  a run is the messages in the order of the counter, those that entered each queue, those taken from each queue,
  those whose \<open>Push\<close> has returned, and those \<open>Enqueue\<close> refused.
\<close>

record sends =
  ss_queue :: sendq
  ss_drawn :: "(nat \<times> RabbitMqData) list"
  ss_closing :: nat
  ss_senders :: "sender list"
  ss_returned :: bool
  ss_reported :: "RabbitMqData list"
  ss_entered :: "nat \<Rightarrow> RabbitMqData list"
  ss_taken :: "nat \<Rightarrow> RabbitMqData list"
  ss_pushed :: "RabbitMqData list"
  ss_refused :: "(nat \<times> RabbitMqData) list"

definition sends_start :: sends where
  "sends_start = \<lparr>ss_queue = initRabbitmqSendQueueSlices, ss_drawn = [], ss_closing = 0,
     ss_senders = runhandleRabbitmqSendQueue, ss_returned = False, ss_reported = [], ss_entered = (\<lambda>_. []),
     ss_taken = (\<lambda>_. []), ss_pushed = [], ss_refused = []\<rparr>"

abbreviation queue_at :: "sends \<Rightarrow> nat \<Rightarrow> slice" where
  "queue_at s j \<equiv> rabbitmqSendQueueSlices (ss_queue s) ! j"

inductive sends_step :: "sends \<Rightarrow> sends \<Rightarrow> bool" where
  draw: "c = rabbitmqSendQueueSlicesCounter (ss_queue s) + 1 \<Longrightarrow>
     sends_step s (s\<lparr>ss_queue := ss_queue s\<lparr>rabbitmqSendQueueSlicesCounter := c\<rparr>,
       ss_drawn := (unat (c mod of_nat RabbitmqSendQueueSlicesShareSize), d) # ss_drawn s, ss_reported := ss_reported s @ [d]\<rparr>)"
| enter: "(j, d) \<in> set (ss_drawn s) \<Longrightarrow> Enqueue pick (Some d) (queue_at s j) = Some (None, q) \<Longrightarrow>
     sends_step s (s\<lparr>ss_queue := set_queue j q (ss_queue s), ss_drawn := remove1 (j, d) (ss_drawn s),
       ss_entered := (ss_entered s)(j := ss_entered s j @ [d])\<rparr>)"
| refuse: "(j, d) \<in> set (ss_drawn s) \<Longrightarrow> Enqueue pick (Some d) (queue_at s j) = Some (Some err, q) \<Longrightarrow>
     sends_step s (s\<lparr>ss_queue := set_queue j q (ss_queue s), ss_drawn := remove1 (j, d) (ss_drawn s),
       ss_refused := (j, d) # ss_refused s\<rparr>)"
| take: "w < length (ss_senders s) \<Longrightarrow> ss_senders s ! w = AtQueue \<Longrightarrow> j = queue_of w \<Longrightarrow>
     dequeue (queue_at s j) = Some ((Some d, True, isClose), q) \<Longrightarrow>
     sends_step s (s\<lparr>ss_queue := set_queue j q (ss_queue s), ss_senders := (ss_senders s)[w := Pushing d],
       ss_taken := (ss_taken s)(j := ss_taken s j @ [d])\<rparr>)"
| pushed: "w < length (ss_senders s) \<Longrightarrow> ss_senders s ! w = Pushing d \<Longrightarrow>
     sends_step s (s\<lparr>ss_pushed := ss_pushed s @ [d], ss_senders := (ss_senders s)[w := AtQueue]\<rparr>)"
| sender_ends: "w < length (ss_senders s) \<Longrightarrow> ss_senders s ! w = AtQueue \<Longrightarrow>
     dequeue (queue_at s (queue_of w)) = Some ((v, False, True), q) \<Longrightarrow>
     sends_step s (s\<lparr>ss_senders := (ss_senders s)[w := SenderOver]\<rparr>)"
| close: "ss_closing s < RabbitmqSendQueueSlicesShareSize \<Longrightarrow>
     sends_step s (s\<lparr>ss_queue := set_queue (ss_closing s) (Close (queue_at s (ss_closing s))) (ss_queue s),
       ss_closing := ss_closing s + 1\<rparr>)"
| close_returns: "ss_closing s = RabbitmqSendQueueSlicesShareSize \<Longrightarrow> \<forall>x\<in>set (ss_senders s). x = SenderOver \<Longrightarrow>
     sends_step s (s\<lparr>ss_returned := True\<rparr>)"

inductive sends_reach :: "sends \<Rightarrow> bool" where
  start: "sends_reach sends_start"
| move: "sends_reach s \<Longrightarrow> sends_step s s' \<Longrightarrow> sends_reach s'"

section \<open>Filling in turn\<close>

definition sendq_ok :: "sendq \<Rightarrow> bool" where
  "sendq_ok sq \<longleftrightarrow> length (rabbitmqSendQueueSlices sq) = 8 \<and>
     (\<forall>q\<in>set (rabbitmqSendQueueSlices sq). mq_inv q \<and> q_status q)"

text \<open>The messages of a queue, and of all queues one after the other.\<close>

definition slice_msgs :: "sendq \<Rightarrow> RabbitMqData list list" where
  "slice_msgs sq = map (\<lambda>q. map the (mq_list q)) (rabbitmqSendQueueSlices sq)"

definition slice_index :: "u64 \<Rightarrow> nat" where
  "slice_index c = unat c mod 8"

lemma slice_index_less [simp]: "slice_index c < 8"
  by (simp add: slice_index_def)

lemma sendq_init: "sendq_ok initRabbitmqSendQueueSlices" "slice_msgs initRabbitmqSendQueueSlices = replicate 8 []"
  by (auto simp: sendq_ok_def slice_msgs_def initRabbitmqSendQueueSlices_def
      RabbitmqSendQueueSlicesShareSize_def NewMQueue_empty map_replicate_const)

lemma slice_index_mod: "unat (c mod of_nat RabbitmqSendQueueSlicesShareSize) = slice_index c"
  by (simp add: slice_index_def RabbitmqSendQueueSlicesShareSize_def unat_mod)

lemma push_slice:
  assumes "sendq_ok sq"
  shows "\<exists>sq'. pushRabbitmqSendQueue pick d sq = Some sq' \<and> sendq_ok sq' \<and>
    rabbitmqSendQueueSlicesCounter sq' = rabbitmqSendQueueSlicesCounter sq + 1 \<and>
    slice_msgs sq' = (slice_msgs sq)[slice_index (rabbitmqSendQueueSlicesCounter sq + 1) :=
      slice_msgs sq ! slice_index (rabbitmqSendQueueSlicesCounter sq + 1) @ [d]]"
proof -
  let ?c = "rabbitmqSendQueueSlicesCounter sq + 1"
  let ?i = "slice_index ?c" and ?qs = "rabbitmqSendQueueSlices sq"
  have l: "length ?qs = 8" and i: "?i < length ?qs" using assms by (simp_all add: sendq_ok_def)
  then have "mq_inv (?qs ! ?i)" "Status (?qs ! ?i)" using assms by (auto simp: sendq_ok_def Status_def)
  from mq.enq_open [OF this, of pick "Some d"] obtain q' where
    e: "Enqueue pick (Some d) (?qs ! ?i) = Some (None, q')" "mq_inv q'" "mq_list q' = mq_list (?qs ! ?i) @ [Some d]"
      "q_status q'"
    by (auto simp: Status_def)
  let ?sq = "sq\<lparr>rabbitmqSendQueueSlicesCounter := ?c, rabbitmqSendQueueSlices := ?qs[?i := q']\<rparr>"
  have "pushRabbitmqSendQueue pick d sq = Some ?sq"
    using i e(1) by (simp add: pushRabbitmqSendQueue_def slice_index_mod Let_def)
  moreover have "sendq_ok ?sq"
    using assms e(2,4) set_update_subset_insert [of ?qs ?i q'] by (auto simp: sendq_ok_def)
  moreover have "slice_msgs ?sq = (slice_msgs sq)[?i := slice_msgs sq ! ?i @ [d]]"
    using i e(3) by (simp add: slice_msgs_def map_update)
  ultimately show ?thesis by simp
qed

text \<open>The messages that belong into queue \<open>j\<close> when the counter stands at \<open>c\<close>.\<close>

fun dealt :: "nat \<Rightarrow> u64 \<Rightarrow> RabbitMqData list \<Rightarrow> RabbitMqData list" where
  "dealt j c [] = []"
| "dealt j c (d # ds) = (if slice_index (c + 1) = j then d # dealt j (c + 1) ds else dealt j (c + 1) ds)"

lemma dealt_snoc:
  "dealt j c (ds @ [d]) = dealt j c ds @ (if slice_index (c + of_nat (length ds) + 1) = j then [d] else [])"
  by (induction ds arbitrary: c) (simp_all add: ac_simps)

lemma dealt_mset: "(\<Sum>j<8. mset (dealt j c ds)) = mset ds"
proof (induction ds arbitrary: c)
  case (Cons d ds)
  have "(\<Sum>j<8. mset (dealt j c (d # ds))) =
      (\<Sum>j<8. (if slice_index (c + 1) = j then {#d#} else {#}) + mset (dealt j (c + 1) ds))"
    by (rule sum.cong) simp_all
  also have "\<dots> = {#d#} + mset ds"
    by (simp add: sum.distrib Cons.IH sum.delta)
  finally show ?case by simp
qed simp

section \<open>A broker that accepts everything\<close>

lemma reset_accepted:
  assumes "\<And>c e. \<exists>ch e'. am_Channel A c e = (Inr ch, e')"
  shows "\<exists>ch r' e'. getChannelQueueReset A rc d b r e = (Inr ch, r', e')"
proof -
  obtain ch e' where "am_Channel A (the (rc_conn rc)) e = (Inr ch, e')" using assms by blast
  then show ?thesis
    by (auto simp: getChannelQueueReset_def Let_def initChannels_def rCreateChannel_def split: option.split)
qed

lemma push_channel_accepted:
  assumes dial: "\<And>url e. \<exists>c e'. am_Dial A url e = (Inr c, e')"
    and chan: "\<And>c e. \<exists>ch e'. am_Channel A c e = (Inr ch, e')" and ok: "pool_ok r"
  shows "\<exists>ch r' e'. push_channel A d r e = Some (Inr ch, r', e')"
proof -
  let ?i = "nat ((connectionIndex r + 1) mod maxConnection r)"
  let ?r1 = "r\<lparr>connectionIndex := (connectionIndex r + 1) mod maxConnection r\<rparr>"
  obtain r2 e2 where t: "tryConn A ?i False d ?r1 e = Some (False, r2, e2)"
    using tryConn_dialled [OF dial] by blast
  obtain ch r' e' where "getChannelQueueReset A (rc_at r2 ?i) d False r2 e2 = (Inr ch, r', e')"
    using reset_accepted [OF chan] by blast
  then show ?thesis using t by (simp add: push_channel_def getConnection_ok [OF ok])
qed

context amqp
begin

text \<open>With a broker that accepts everything, a push publishes its message once.\<close>

lemma Push_accepted:
  assumes dial: "\<And>url e. \<exists>c e'. am_Dial A url e = (Inr c, e')"
    and chan: "\<And>c e. \<exists>ch e'. am_Channel A c e = (Inr ch, e')"
    and publ: "\<And>ch p e. \<exists>e'. am_Publish A ch p e = (None, e')"
    and ok: "pool_ok r" "0 < pushMaxTime r"
  shows "\<exists>r' e'. Push A d r e = Some (None, r', e') \<and> pool_ok r' \<and> pushMaxTime r' = pushMaxTime r \<and>
    log e' = log e @ [(push_message d, True)]"
proof -
  obtain ch r1 e1 where p: "push_channel A d r e = Some (Inr ch, r1, e1)"
    using push_channel_accepted [OF dial chan ok(1)] by blast
  obtain e2 where a: "am_Publish A ch (push_message d) e1 = (None, e2)" using publ by blast
  have "Push A d r e = Some (None, r1, e2)"
    unfolding Push_def using ok(2) p a by (subst rPush.simps) simp
  then show ?thesis
    using push_channel_keeps [OF p ok(1)] log_push_channel [OF p] log_Publish [OF a]
    by (simp add: same_pool_def)
qed

end

section \<open>Every interleaving\<close>

definition in_flight :: "sender \<Rightarrow> RabbitMqData list" where
  "in_flight x = (case x of Pushing d \<Rightarrow> [d] | _ \<Rightarrow> [])"

lemma in_flight_simps [simp]: "in_flight AtQueue = []" "in_flight SenderOver = []" "in_flight (Pushing d) = [d]"
  by (simp_all add: in_flight_def)

lemma in_flight_update:
  "w < length xs \<Longrightarrow> mset (concat (map in_flight (xs[w := x]))) + mset (in_flight (xs ! w)) =
     mset (concat (map in_flight xs)) + mset (in_flight x)"
proof (induction xs arbitrary: w)
  case (Cons y xs)
  then show ?case by (cases w) (auto simp: ac_simps)
qed simp

lemma queue_of_less: "w < 32 \<Longrightarrow> queue_of w < 8"
  by (simp add: queue_of_def RabbitmqSendQueueSlicesHandlerCount_def)

lemma queue_of_set [simp]: "i \<noteq> j \<Longrightarrow> rabbitmqSendQueueSlices (set_queue i q sq) ! j = rabbitmqSendQueueSlices sq ! j"
  by (simp add: set_queue_def)

lemma set_queue_simps [simp]:
  "length (rabbitmqSendQueueSlices (set_queue i q sq)) = length (rabbitmqSendQueueSlices sq)"
  "rabbitmqSendQueueSlicesCounter (set_queue i q sq) = rabbitmqSendQueueSlicesCounter sq"
  "i < length (rabbitmqSendQueueSlices sq) \<Longrightarrow> rabbitmqSendQueueSlices (set_queue i q sq) ! i = q"
  by (simp_all add: set_queue_def)

lemma runhandle_senders [simp]: "runhandleRabbitmqSendQueue = replicate 32 AtQueue"
  by code_simp

text \<open>The messages of a list of draws that belong to one queue.\<close>

definition for_queue :: "nat \<Rightarrow> (nat \<times> RabbitMqData) list \<Rightarrow> RabbitMqData list" where
  "for_queue j ps = map snd (filter (\<lambda>p. fst p = j) ps)"

lemma for_queue_simps [simp]:
  "for_queue j [] = []" "for_queue j ((i, d) # ps) = (if i = j then [d] else []) @ for_queue j ps"
  by (simp_all add: for_queue_def)

lemma for_queue_remove:
  "(i, d) \<in> set ps \<Longrightarrow>
     mset (for_queue j ps) = mset (for_queue j (remove1 (i, d) ps)) + (if i = j then {#d#} else {#})"
  by (induction ps) auto

lemma for_queue_all:
  assumes "\<forall>p\<in>set ps. fst p < n"
  shows "(\<Sum>j<n. mset (for_queue j ps)) = mset (map snd ps)"
  using assms
proof (induction ps)
  case (Cons p ps)
  have "(\<Sum>j<n. mset (for_queue j (p # ps))) =
      (\<Sum>j<n. (if fst p = j then {#snd p#} else {#}) + mset (for_queue j ps))"
    by (rule sum.cong) (cases p; simp)+
  then show ?case using Cons by (simp add: sum.distrib sum.delta)
qed simp

text \<open>One queue of a state: what has entered it has been taken from it, in the same order, or is still in it.\<close>

definition queue_ok :: "sends \<Rightarrow> nat \<Rightarrow> bool" where
  "queue_ok s j \<longleftrightarrow> mq_inv (queue_at s j) \<and> q_status (queue_at s j) = (ss_closing s \<le> j) \<and>
     None \<notin> set (mq_list (queue_at s j)) \<and> ss_entered s j = ss_taken s j @ map the (mq_list (queue_at s j)) \<and>
     mset (dealt j 0 (ss_reported s)) =
       mset (ss_entered s j) + mset (for_queue j (ss_drawn s)) + mset (for_queue j (ss_refused s))"

definition sends_inv :: "sends \<Rightarrow> bool" where
  "sends_inv s \<longleftrightarrow> length (rabbitmqSendQueueSlices (ss_queue s)) = 8 \<and> length (ss_senders s) = 32 \<and> ss_closing s \<le> 8 \<and>
     rabbitmqSendQueueSlicesCounter (ss_queue s) = of_nat (length (ss_reported s)) \<and>
     (\<forall>p\<in>set (ss_drawn s). fst p < 8) \<and> (\<forall>p\<in>set (ss_refused s). fst p < ss_closing s) \<and>
     (\<forall>j<8. queue_ok s j) \<and>
     (\<Sum>j<8. mset (ss_taken s j)) = mset (ss_pushed s) + mset (concat (map in_flight (ss_senders s))) \<and>
     (\<forall>w<32. ss_senders s ! w = SenderOver \<longrightarrow>
        queue_of w < ss_closing s \<and> mq_list (queue_at s (queue_of w)) = []) \<and>
     (ss_returned s \<longrightarrow> ss_closing s = 8 \<and> (\<forall>x\<in>set (ss_senders s). x = SenderOver))"

lemma sends_inv_start: "sends_inv sends_start"
proof -
  have q: "rabbitmqSendQueueSlices (ss_queue sends_start) ! j = NewMQueue None" if "j < 8" for j
    using that by (simp add: sends_start_def initRabbitmqSendQueueSlices_def RabbitmqSendQueueSlicesShareSize_def)
  then have "queue_ok sends_start j" if "j < 8" for j
    using that by (simp add: queue_ok_def NewMQueue_empty) (simp add: sends_start_def)
  then show ?thesis
    by (simp add: sends_inv_def sends_start_def initRabbitmqSendQueueSlices_def RabbitmqSendQueueSlicesShareSize_def)
qed

lemma sum_at:
  fixes f :: "nat \<Rightarrow> RabbitMqData multiset"
  assumes "j < n" and "g j = f j + x" and "\<And>i. i \<noteq> j \<Longrightarrow> g i = f i"
  shows "(\<Sum>i<n. g i) = (\<Sum>i<n. f i) + x"
proof -
  have "(\<Sum>i<n. g i) = (\<Sum>i<n. f i + (if i = j then x else {#}))"
    by (rule sum.cong) (use assms in auto)
  then show ?thesis using assms(1) by (simp add: sum.distrib sum.delta)
qed

lemma sends_inv_step:
  assumes "sends_step s s'" "sends_inv s"
  shows "sends_inv s'"
  using assms
proof (induction rule: sends_step.induct)
  case (draw c s d)
  have c: "c = of_nat (length (ss_reported s)) + 1" using draw by (simp add: sends_inv_def)
  have i: "unat (c mod of_nat RabbitmqSendQueueSlicesShareSize) = slice_index c" by (rule slice_index_mod)
  show ?case using draw(2) unfolding i
    by (auto simp: sends_inv_def queue_ok_def dealt_snoc c)
next
  case (enter j d s pick q)
  then have j: "j < 8" "queue_ok s j" "length (rabbitmqSendQueueSlices (ss_queue s)) = 8" by (auto simp: sends_inv_def)
  then have "mq_inv (queue_at s j)" by (simp add: queue_ok_def)
  then have "q_status (queue_at s j)" "mq_inv q" "mq_list q = mq_list (queue_at s j) @ [Some d]" "q_status q"
    using enter(2) Enqueue_open [of "queue_at s j" pick "Some d"] Enqueue_closed [of "queue_at s j" pick "Some d"]
    by (cases "q_status (queue_at s j)"; auto)+
  moreover have "fst p < 8" if "p \<in> set (remove1 (j, d) (ss_drawn s))" for p
    using enter(3) that set_remove1_subset [of "(j, d)" "ss_drawn s"] by (auto simp: sends_inv_def)
  moreover have "queue_ok (s\<lparr>ss_queue := set_queue j q (ss_queue s), ss_drawn := remove1 (j, d) (ss_drawn s),
       ss_entered := (ss_entered s)(j := ss_entered s j @ [d])\<rparr>) i" if "i < 8" for i
  proof (cases "i = j")
    case True
    then show ?thesis using calculation j for_queue_remove [OF enter(1), of j] by (auto simp: queue_ok_def)
  next
    case False
    then show ?thesis using that enter(3) for_queue_remove [OF enter(1), of i] by (auto simp: queue_ok_def sends_inv_def)
  qed
  moreover have "queue_of w < ss_closing s \<and> mq_list (rabbitmqSendQueueSlices (set_queue j q (ss_queue s)) ! queue_of w) = []"
    if "w < 32" "ss_senders s ! w = SenderOver" for w
  proof -
    have "queue_of w < ss_closing s \<and> mq_list (queue_at s (queue_of w)) = []" using enter(3) that by (simp add: sends_inv_def)
    moreover have "ss_closing s \<le> j" using j(2) \<open>q_status (queue_at s j)\<close> by (simp add: queue_ok_def)
    ultimately show ?thesis by simp
  qed
  ultimately show ?case using enter(3) by (simp add: sends_inv_def)
next
  case (refuse j d s pick err q)
  then have j: "j < 8" "queue_ok s j" "length (rabbitmqSendQueueSlices (ss_queue s)) = 8" by (auto simp: sends_inv_def)
  then have "mq_inv (queue_at s j)" by (simp add: queue_ok_def)
  then have c: "\<not> q_status (queue_at s j)" "q = queue_at s j"
    using refuse(2) Enqueue_open [of "queue_at s j" pick "Some d"] Enqueue_closed [of "queue_at s j" pick "Some d"]
    by (cases "q_status (queue_at s j)"; auto)+
  have q: "set_queue j q (ss_queue s) = ss_queue s" by (simp add: c(2) set_queue_def)
  have "j < ss_closing s" using c(1) j(2) by (simp add: queue_ok_def)
  moreover have "fst p < 8" if "p \<in> set (remove1 (j, d) (ss_drawn s))" for p
    using refuse(3) that set_remove1_subset [of "(j, d)" "ss_drawn s"] by (auto simp: sends_inv_def)
  moreover have "queue_ok (s\<lparr>ss_drawn := remove1 (j, d) (ss_drawn s), ss_refused := (j, d) # ss_refused s\<rparr>) i" if "i < 8" for i
    using that refuse(3) for_queue_remove [OF refuse(1), of i] by (auto simp: queue_ok_def sends_inv_def)
  ultimately show ?case using refuse(3) unfolding q by (simp add: sends_inv_def)
next
  case (take w s j d isClose q)
  then have j: "j < 8" "queue_ok s j" "length (rabbitmqSendQueueSlices (ss_queue s)) = 8" "w < 32"
    using queue_of_less by (auto simp: sends_inv_def)
  then have m: "mq_inv (queue_at s j)" by (simp add: queue_ok_def)
  obtain xs where q: "mq_list (queue_at s j) = Some d # xs" "mq_inv q" "mq_list q = xs" "q_status q = q_status (queue_at s j)"
  proof (cases "mq_list (queue_at s j)")
    case Nil
    then show ?thesis using dequeue_empty [OF m] take(4) by simp
  next
    case (Cons x xs)
    then show ?thesis using dequeue_nonempty [OF m Cons] take(4) that by auto
  qed
  let ?t = "(ss_taken s)(j := ss_taken s j @ [d])"
  have "queue_ok (s\<lparr>ss_queue := set_queue j q (ss_queue s), ss_senders := (ss_senders s)[w := Pushing d], ss_taken := ?t\<rparr>) i"
    if "i < 8" for i
    using that j q take(5) by (cases "i = j") (auto simp: queue_ok_def sends_inv_def)
  moreover have "(\<Sum>i<8. mset (?t i)) = mset (ss_pushed s) + mset (concat (map in_flight ((ss_senders s)[w := Pushing d])))"
    using sum_at [OF j(1), of "\<lambda>i. mset (?t i)" "\<lambda>i. mset (ss_taken s i)" "{#d#}"] take(2,5) in_flight_update [OF take(1), of "Pushing d"]
    by (simp add: sends_inv_def)
  moreover have "queue_of w' < ss_closing s \<and> mq_list (rabbitmqSendQueueSlices (set_queue j q (ss_queue s)) ! queue_of w') = []"
    if "w' < 32" "w' \<noteq> w" "ss_senders s ! w' = SenderOver" for w'
    using that take(5) q j(3) by (cases "queue_of w' = j") (auto simp: sends_inv_def)
  ultimately show ?case using take(1,5) nth_mem [OF take(1)] take(2) by (auto simp: sends_inv_def nth_list_update)
next
  case (pushed w s d)
  then show ?case using in_flight_update [OF pushed(1), of AtQueue] nth_mem [OF pushed(1)]
    by (auto simp: sends_inv_def nth_list_update queue_ok_def)
next
  case (sender_ends w s v q)
  then have j: "queue_of w < 8" "queue_ok s (queue_of w)" "w < 32" using queue_of_less by (auto simp: sends_inv_def)
  then have m: "mq_inv (queue_at s (queue_of w))" by (simp add: queue_ok_def)
  have "mq_list (queue_at s (queue_of w)) = [] \<and> \<not> q_status (queue_at s (queue_of w))"
    using sender_ends(3) dequeue_empty [OF m] dequeue_nonempty [OF m] by (cases "mq_list (queue_at s (queue_of w))") auto
  then show ?case
    using sender_ends j in_flight_update [OF sender_ends(1), of SenderOver] nth_mem [OF sender_ends(1)]
    by (auto simp: sends_inv_def nth_list_update queue_ok_def)
next
  case (close s)
  let ?k = "ss_closing s"
  let ?s' = "s\<lparr>ss_queue := set_queue ?k (Close (queue_at s ?k)) (ss_queue s), ss_closing := ?k + 1\<rparr>"
  have k: "?k < 8" using close(1) by (simp add: RabbitmqSendQueueSlicesShareSize_def)
  have len: "length (rabbitmqSendQueueSlices (ss_queue s)) = 8" using close(2) by (simp add: sends_inv_def)
  have same: "mq_list (queue_at ?s' i) = mq_list (queue_at s i)" "mq_inv (queue_at ?s' i) = mq_inv (queue_at s i)" for i
    using len k by (cases "i = ?k"; simp add: Close_same)+
  have "q_status (queue_at ?s' i) = (?k + 1 \<le> i)" if "i < 8" for i
    using close(2) k that len by (cases "i = ?k") (auto simp: sends_inv_def queue_ok_def Close_same)
  then have "queue_ok ?s' i" if "i < 8" for i
    using close(2) that same by (auto simp: sends_inv_def queue_ok_def)
  then show ?case using close(2) k same by (force simp: sends_inv_def)
next
  case (close_returns s)
  then show ?case by (auto simp: sends_inv_def queue_ok_def RabbitmqSendQueueSlicesShareSize_def)
qed

lemma sends_reach_inv: "sends_reach s \<Longrightarrow> sends_inv s"
  by (induction rule: sends_reach.induct) (auto intro: sends_inv_start sends_inv_step)

text \<open>\<open>pushRabbitmqSendQueue\<close> is a draw and the entry that follows it.\<close>

lemma push_two_steps:
  assumes "pushRabbitmqSendQueue pick d (ss_queue s) = Some sq" "length (rabbitmqSendQueueSlices (ss_queue s)) = 8"
  shows "\<exists>s'. sends_step\<^sup>*\<^sup>* s s' \<and> ss_queue s' = sq \<and> ss_drawn s' = ss_drawn s \<and> ss_reported s' = ss_reported s @ [d]"
proof -
  let ?c = "rabbitmqSendQueueSlicesCounter (ss_queue s) + 1"
  let ?i = "unat (?c mod of_nat RabbitmqSendQueueSlicesShareSize)"
  let ?s1 = "s\<lparr>ss_queue := ss_queue s\<lparr>rabbitmqSendQueueSlicesCounter := ?c\<rparr>, ss_drawn := (?i, d) # ss_drawn s,
    ss_reported := ss_reported s @ [d]\<rparr>"
  obtain err q where q: "Enqueue pick (Some d) (queue_at ?s1 ?i) = Some (err, q)" and sq: "sq = set_queue ?i q (ss_queue ?s1)"
    using assms(1) by (auto simp: pushRabbitmqSendQueue_def Let_def set_queue_def split: if_splits)
  have 1: "sends_step s ?s1" by (rule draw) simp
  have m: "(?i, d) \<in> set (ss_drawn ?s1)" by simp
  have "\<exists>s2. sends_step ?s1 s2 \<and> ss_queue s2 = sq \<and> ss_drawn s2 = ss_drawn s \<and> ss_reported s2 = ss_reported s @ [d]"
  proof (cases err)
    case None
    show ?thesis unfolding sq by (rule exI, rule conjI, rule enter [OF m q [unfolded None]]) simp
  next
    case (Some e)
    show ?thesis unfolding sq by (rule exI, rule conjI, rule refuse [OF m q [unfolded Some]]) simp
  qed
  then obtain s2 where 2: "sends_step ?s1 s2" "ss_queue s2 = sq" "ss_drawn s2 = ss_drawn s" "ss_reported s2 = ss_reported s @ [d]"
    by blast
  have "sends_step\<^sup>*\<^sup>* s s2" using 1 2(1) by (rule converse_rtranclp_into_rtranclp [OF _ r_into_rtranclp])
  with 2 show ?thesis by blast
qed

text \<open>After the queues have been closed the handlers can empty them and end.\<close>

definition same_reports :: "sends \<Rightarrow> sends \<Rightarrow> bool" where
  "same_reports s s' \<longleftrightarrow> ss_reported s' = ss_reported s \<and> ss_drawn s' = ss_drawn s \<and> ss_refused s' = ss_refused s"

definition left_to_do :: "sends \<Rightarrow> nat" where
  "left_to_do s = (\<Sum>j<8. 3 * length (mq_list (queue_at s j))) +
     (\<Sum>w<32. case ss_senders s ! w of AtQueue \<Rightarrow> 1 | Pushing d \<Rightarrow> 2 | SenderOver \<Rightarrow> 0)"

lemma sum_less_at:
  fixes f :: "nat \<Rightarrow> nat"
  assumes "j < n" and "\<And>i. i \<noteq> j \<Longrightarrow> i < n \<Longrightarrow> g i = f i"
  shows "(\<Sum>i<n. g i) + f j = (\<Sum>i<n. f i) + g j"
proof -
  have r: "(\<Sum>i<n. h i) = h j + (\<Sum>i\<in>{..<n} - {j}. h i)" for h :: "nat \<Rightarrow> nat"
    using assms(1) by (intro sum.remove) simp_all
  have "(\<Sum>i\<in>{..<n} - {j}. g i) = (\<Sum>i\<in>{..<n} - {j}. f i)" using assms(2) by (intro sum.cong) auto
  then show ?thesis using r [of g] r [of f] by simp
qed

lemma sender_step:
  assumes inv: "sends_inv s" and c: "ss_closing s = 8" and w: "w < 32" "ss_senders s ! w \<noteq> SenderOver"
  shows "\<exists>s'. sends_step s s' \<and> ss_closing s' = 8 \<and> same_reports s s' \<and> left_to_do s' < left_to_do s"
proof -
  have l: "length (ss_senders s) = 32" "length (rabbitmqSendQueueSlices (ss_queue s)) = 8" using inv by (simp_all add: sends_inv_def)
  let ?p = "\<lambda>x. case x of AtQueue \<Rightarrow> 1 | Pushing d \<Rightarrow> 2 | SenderOver \<Rightarrow> (0::nat)"
  have sw: "(\<Sum>i<32. ?p ((ss_senders s)[w := x] ! i)) + ?p (ss_senders s ! w) = (\<Sum>i<32. ?p (ss_senders s ! i)) + ?p x" for x
    using sum_less_at [of w 32 "\<lambda>i. ?p ((ss_senders s)[w := x] ! i)" "\<lambda>i. ?p (ss_senders s ! i)"] w(1) l(1)
    by (simp add: nth_list_update)
  show ?thesis
  proof (cases "ss_senders s ! w")
    case AtQueue
    let ?j = "queue_of w"
    have j: "?j < 8" "queue_ok s ?j" using inv w(1) queue_of_less by (simp_all add: sends_inv_def)
    then have m: "mq_inv (queue_at s ?j)" "\<not> q_status (queue_at s ?j)" "None \<notin> set (mq_list (queue_at s ?j))"
      using c by (simp_all add: queue_ok_def)
    show ?thesis
    proof (cases "mq_list (queue_at s ?j)")
      case Nil
      then have "sends_step s (s\<lparr>ss_senders := (ss_senders s)[w := SenderOver]\<rparr>)"
        using dequeue_empty [OF m(1)] m(2) w(1) l(1) AtQueue by (intro sender_ends) auto
      moreover have "left_to_do (s\<lparr>ss_senders := (ss_senders s)[w := SenderOver]\<rparr>) < left_to_do s"
        using sw [of SenderOver] AtQueue by (simp add: left_to_do_def)
      ultimately show ?thesis using c by (intro exI conjI) (simp_all add: same_reports_def)
    next
      case (Cons v xs)
      then obtain d where v: "v = Some d" using m(3) by (cases v) auto
      obtain q where q: "dequeue (queue_at s ?j) = Some ((Some d, True, True), q)" "mq_list q = xs"
        using dequeue_nonempty [OF m(1) Cons] m(2) v by auto
      let ?s' = "s\<lparr>ss_queue := set_queue ?j q (ss_queue s), ss_senders := (ss_senders s)[w := Pushing d],
        ss_taken := (ss_taken s)(?j := ss_taken s ?j @ [d])\<rparr>"
      have "sends_step s ?s'" using w(1) l(1) AtQueue q(1) by (intro take) auto
      moreover have "(\<Sum>i<8. 3 * length (mq_list (queue_at ?s' i))) + 3 * length (mq_list (queue_at s ?j)) =
          (\<Sum>i<8. 3 * length (mq_list (queue_at s i))) + 3 * length (mq_list (queue_at ?s' ?j))"
        by (rule sum_less_at [OF j(1)]) simp
      then have "left_to_do ?s' < left_to_do s"
        using sw [of "Pushing d"] AtQueue q(2) Cons j(1) l(2) by (simp add: left_to_do_def)
      ultimately show ?thesis using c by (intro exI conjI) (simp_all add: same_reports_def)
    qed
  next
    case (Pushing d)
    then have "sends_step s (s\<lparr>ss_pushed := ss_pushed s @ [d], ss_senders := (ss_senders s)[w := AtQueue]\<rparr>)"
      using w(1) l(1) by (intro pushed) auto
    moreover have "left_to_do (s\<lparr>ss_pushed := ss_pushed s @ [d], ss_senders := (ss_senders s)[w := AtQueue]\<rparr>) < left_to_do s"
      using sw [of AtQueue] Pushing by (simp add: left_to_do_def)
    ultimately show ?thesis using c by (intro exI conjI) (simp_all add: same_reports_def)
  qed (use w in simp)
qed

lemma handlers_end:
  assumes "sends_inv s" "ss_closing s = 8"
  shows "\<exists>s'. sends_step\<^sup>*\<^sup>* s s' \<and> ss_returned s' \<and> same_reports s s'"
  using assms
proof (induction "left_to_do s" arbitrary: s rule: less_induct)
  case less
  show ?case
  proof (cases "\<forall>x\<in>set (ss_senders s). x = SenderOver")
    case True
    then have "sends_step s (s\<lparr>ss_returned := True\<rparr>)"
      using less.prems(2) by (intro close_returns) (simp_all add: RabbitmqSendQueueSlicesShareSize_def)
    then show ?thesis by (intro exI conjI, rule r_into_rtranclp) (simp_all add: same_reports_def)
  next
    case False
    then obtain w where "w < 32" "ss_senders s ! w \<noteq> SenderOver"
      using less.prems(1) by (auto simp: sends_inv_def in_set_conv_nth)
    then obtain s1 where s1: "sends_step s s1" "ss_closing s1 = 8" "same_reports s s1" "left_to_do s1 < left_to_do s"
      using sender_step [OF less.prems] by blast
    obtain s' where "sends_step\<^sup>*\<^sup>* s1 s'" "ss_returned s'" "same_reports s1 s'"
      using less.hyps [OF s1(4) sends_inv_step [OF s1(1) less.prems(1)] s1(2)] by blast
    then show ?thesis using s1(1,3) by (intro exI [of _ s'] conjI converse_rtranclp_into_rtranclp [of sends_step s s1])
      (simp_all add: same_reports_def)
  qed
qed

lemma close_all:
  assumes "sends_inv s"
  shows "\<exists>s'. sends_step\<^sup>*\<^sup>* s s' \<and> ss_closing s' = 8 \<and> same_reports s s'"
  using assms
proof (induction "8 - ss_closing s" arbitrary: s)
  case 0
  then have "ss_closing s = 8" by (simp add: sends_inv_def)
  then show ?case by (intro exI [of _ s]) (simp add: same_reports_def)
next
  case (Suc n)
  let ?k = "ss_closing s"
  let ?s1 = "s\<lparr>ss_queue := set_queue ?k (Close (queue_at s ?k)) (ss_queue s), ss_closing := ?k + 1\<rparr>"
  have 1: "sends_step s ?s1" using Suc(2) by (intro close) (simp add: RabbitmqSendQueueSlicesShareSize_def)
  have "n = 8 - ss_closing ?s1" using Suc(2) by simp
  then obtain s' where "sends_step\<^sup>*\<^sup>* ?s1 s'" "ss_closing s' = 8" "same_reports ?s1 s'"
    using Suc(1) [OF _ sends_inv_step [OF 1 Suc(3)]] by blast
  then show ?case using 1 by (intro exI [of _ s'] conjI converse_rtranclp_into_rtranclp [of sends_step s ?s1])
    (simp_all add: same_reports_def)
qed

lemma sends_reach_steps: "sends_step\<^sup>*\<^sup>* s s' \<Longrightarrow> sends_reach s \<Longrightarrow> sends_reach s'"
  by (induction rule: rtranclp_induct) (auto intro: move)

section \<open>Properties\<close>

text \<open>C23: However the goroutines that report messages, the 32 that push them and the closing of the queues
  interleave: the messages are dealt to the eight queues in turn, in the order of the counter; what has entered a queue
  is taken from it once, in the same order, or is still in it; each message taken is in \<open>Push\<close> or has been through it,
  once; and only a message whose queue has been closed between the draw of its number and \<open>Enqueue\<close> is refused.
  After the last queue has been closed the handlers can end, and when \<open>closeRabbitmqSendQueueSlices\<close> has returned, every
  message reported has been pushed exactly once but for the refused ones and those that have not reached \<open>Enqueue\<close> yet.\<close>

theorem sends_exactly_once:
  assumes "sends_reach s"
  shows "(\<forall>j<8. mset (dealt j 0 (ss_reported s)) =
       mset (ss_entered s j) + mset (for_queue j (ss_drawn s)) + mset (for_queue j (ss_refused s))) \<and>
    (\<forall>j<8. ss_entered s j = ss_taken s j @ map the (mq_list (queue_at s j))) \<and>
    (\<Sum>j<8. mset (ss_taken s j)) = mset (ss_pushed s) + mset (concat (map in_flight (ss_senders s))) \<and>
    (\<forall>(j, d)\<in>set (ss_refused s). j < 8 \<and> \<not> Status (queue_at s j)) \<and>
    (ss_closing s = 8 \<longrightarrow> (\<exists>s'. sends_step\<^sup>*\<^sup>* s s' \<and> ss_returned s' \<and> ss_reported s' = ss_reported s \<and>
       ss_drawn s' = ss_drawn s \<and> ss_refused s' = ss_refused s)) \<and>
    (ss_returned s \<longrightarrow>
       mset (ss_reported s) = mset (ss_pushed s) + mset (map snd (ss_refused s)) + mset (map snd (ss_drawn s)))"
proof -
  note inv = sends_reach_inv [OF assms]
  have q: "queue_ok s j" if "j < 8" for j using inv that by (simp add: sends_inv_def)
  have r: "\<forall>p\<in>set (ss_refused s). fst p < 8" using inv by (fastforce simp: sends_inv_def)
  have closed: "j < 8 \<and> \<not> Status (queue_at s j)" if "(j, d) \<in> set (ss_refused s)" for j d
    using that r q [of j] inv by (fastforce simp: sends_inv_def queue_ok_def Status_def)
  have all: "mset (ss_reported s) = mset (ss_pushed s) + mset (map snd (ss_refused s)) + mset (map snd (ss_drawn s))"
    if ret: "ss_returned s"
  proof -
    have over: "\<forall>x\<in>set (ss_senders s). x = SenderOver" using inv ret by (simp add: sends_inv_def)
    have "mq_list (queue_at s j) = []" if "j < 8" for j
    proof -
      have "ss_senders s ! (4 * j) = SenderOver" using over inv that by (simp add: sends_inv_def)
      moreover have "4 * j < 32" "queue_of (4 * j) = j"
        using that by (simp_all add: queue_of_def RabbitmqSendQueueSlicesHandlerCount_def)
      ultimately show ?thesis using inv unfolding sends_inv_def by metis
    qed
    then have e: "ss_entered s j = ss_taken s j" if "j < 8" for j using q [OF that] that by (simp add: queue_ok_def)
    have f: "concat (map in_flight (ss_senders s)) = []" using over by auto
    have "mset (ss_reported s) = (\<Sum>j<8. mset (dealt j 0 (ss_reported s)))" by (simp only: dealt_mset)
    also have "\<dots> = (\<Sum>j<8. mset (ss_taken s j) + mset (for_queue j (ss_drawn s)) + mset (for_queue j (ss_refused s)))"
      by (rule sum.cong) (use q e in \<open>auto simp: queue_ok_def\<close>)
    also have "\<dots> = mset (ss_pushed s) + mset (map snd (ss_drawn s)) + mset (map snd (ss_refused s))"
      using inv f r by (simp add: sum.distrib for_queue_all sends_inv_def del: mset_map)
    finally show ?thesis by simp
  qed
  show ?thesis
    using q closed all handlers_end [OF inv, unfolded same_reports_def] inv by (auto simp: queue_ok_def sends_inv_def simp del: mset_map)
qed

theorem sends_exactly_once_witness:
  "\<exists>s. sends_reach s \<and> ss_returned s \<and> ss_reported s = [demo_data, demo_data] \<and> mset (ss_pushed s) = {#demo_data, demo_data#}"
proof -
  have ok: "length (rabbitmqSendQueueSlices (ss_queue s)) = 8" if "sends_inv s" for s using that by (simp add: sends_inv_def)
  have p: "\<exists>s'. sends_reach s' \<and> ss_drawn s' = [] \<and> ss_refused s' = [] \<and> ss_closing s' = 0 \<and> ss_reported s' = ss_reported s @ [demo_data]"
    if s: "sends_reach s" "ss_drawn s = []" "ss_refused s = []" "ss_closing s = 0" for s
  proof -
    let ?c = "rabbitmqSendQueueSlicesCounter (ss_queue s) + 1" let ?i = "slice_index ?c"
    let ?s1 = "s\<lparr>ss_queue := ss_queue s\<lparr>rabbitmqSendQueueSlicesCounter := ?c\<rparr>, ss_drawn := (?i, demo_data) # ss_drawn s,
      ss_reported := ss_reported s @ [demo_data]\<rparr>"
    have 1: "sends_step s ?s1" using draw [OF refl, of s demo_data] by (simp only: slice_index_mod)
    then have r: "sends_reach ?s1" using s(1) by (rule move [rotated])
    then have "queue_ok ?s1 ?i" using sends_reach_inv [OF r] slice_index_less unfolding sends_inv_def by blast
    then obtain q where "Enqueue None (Some demo_data) (queue_at ?s1 ?i) = Some (None, q)"
      using Enqueue_open [of "queue_at ?s1 ?i" None "Some demo_data"] s(4) unfolding queue_ok_def by auto
    then have 2: "sends_step ?s1 (?s1\<lparr>ss_queue := set_queue ?i q (ss_queue ?s1), ss_drawn := remove1 (?i, demo_data) (ss_drawn ?s1),
       ss_entered := (ss_entered ?s1)(?i := ss_entered ?s1 ?i @ [demo_data])\<rparr>)"
      by (intro enter) simp_all
    show ?thesis by (rule exI, rule conjI, rule move [OF r 2]) (simp add: s)
  qed
  have "ss_drawn sends_start = []" "ss_refused sends_start = []" "ss_closing sends_start = 0" "ss_reported sends_start = []"
    by (simp_all add: sends_start_def)
  then obtain s1 where "sends_reach s1" "ss_drawn s1 = []" "ss_refused s1 = []" "ss_closing s1 = 0" "ss_reported s1 = [demo_data]"
    using p [OF start] by auto
  then obtain s2 where s2: "sends_reach s2" "ss_drawn s2 = []" "ss_refused s2 = []" "ss_reported s2 = [demo_data, demo_data]"
    using p [of s1] by auto
  then obtain s3 where s3: "sends_reach s3" "ss_closing s3 = 8" "ss_drawn s3 = []" "ss_refused s3 = []" "ss_reported s3 = [demo_data, demo_data]"
    using close_all [OF sends_reach_inv [OF s2(1)]] sends_reach_steps unfolding same_reports_def by metis
  then obtain s4 where s4: "sends_step\<^sup>*\<^sup>* s3 s4" "ss_returned s4" "ss_reported s4 = ss_reported s3" "ss_drawn s4 = ss_drawn s3" "ss_refused s4 = ss_refused s3"
    using sends_exactly_once [OF s3(1)] by blast
  have r4: "sends_reach s4" by (rule sends_reach_steps [OF s4(1) s3(1)])
  have "mset (ss_reported s4) = mset (ss_pushed s4) + mset (map snd (ss_refused s4)) + mset (map snd (ss_drawn s4))"
    using sends_exactly_once [OF r4] s4(2) by blast
  then show ?thesis using r4 s4 s3 by (intro exI [of _ s4]) simp
qed

end
