(* ===== verification/Sniffing.thy ===== *)
theory Sniffing
  imports ClientHello Blacklist
begin

text \<open>
  Finding the host name a relayed connection is for: \<^verbatim>\<open>server/sniffing/conn.go\<close>, which hands over
  what a client has sent before it was first answered, and the goroutine of \<open>socksTcpConn\<close> and
  \<open>httpTcpConn\<close> that looks for a name in it.
\<close>

section \<open>The wrapped connection\<close>

text \<open>
  \<open>rw\<close> is the connection below: what a call on it returns is given with the call. \<open>fc\<close> says
  whether there is a callback; \<open>notices\<close> are the buffers it has been called with.
\<close>

record ReadWriterNotice =
  rwn_buf :: "byte list option"
  isNotice :: bool
  isStart :: bool
  fc :: bool
  notices :: "byte list list"
  rw_written :: "byte list list"
  rw_closed :: bool

definition NewReadWriterNotice :: "bool \<Rightarrow> byte list option \<Rightarrow> bool \<Rightarrow> go_error + ReadWriterNotice" where
  "NewReadWriterNotice rw buf f =
    (if \<not> rw then Inl (Errorf ''rw == nil'')
     else Inr \<lparr>rwn_buf = Some (case buf of None \<Rightarrow> [] | Some b \<Rightarrow> b), isNotice = False, isStart = True,
       fc = f, notices = [], rw_written = [], rw_closed = False\<rparr>)"

definition rwn_Close :: "ReadWriterNotice \<Rightarrow> go_error option \<times> ReadWriterNotice" where
  "rwn_Close r =
    (if \<not> isStart r then (Some (Errorf ''not start''), r)
     else (None, r\<lparr>isStart := False, rwn_buf := None, rw_closed := True\<rparr>))"

text \<open>\<open>(bs, err)\<close> is what the read of the connection below returns.\<close>

definition rwn_Read :: "byte list \<times> go_error option \<Rightarrow> ReadWriterNotice \<Rightarrow>
    (byte list \<times> go_error option) \<times> ReadWriterNotice" where
  "rwn_Read res r =
    (if \<not> isStart r then (([], Some EOF), r)
     else (res, if isNotice r then r
       else (case rwn_buf r of None \<Rightarrow> r | Some b \<Rightarrow> r\<lparr>rwn_buf := Some (b @ fst res)\<rparr>)))"

text \<open>\<open>(n, err)\<close> is what the write returns.\<close>

definition rwn_Write :: "byte list \<Rightarrow> nat \<times> go_error option \<Rightarrow> ReadWriterNotice \<Rightarrow>
    (nat \<times> go_error option) \<times> ReadWriterNotice" where
  "rwn_Write p res r =
    (if \<not> isStart r then ((0, Some EOF), r)
     else let r1 = r\<lparr>rw_written := rw_written r @ [p]\<rparr> in
       (res, if isNotice r1 then r1
        else let r2 = r1\<lparr>isNotice := True\<rparr> in
          if \<not> fc r2 then r2
          else (case rwn_buf r2 of None \<Rightarrow> r2
            | Some b \<Rightarrow> r2\<lparr>rwn_buf := None, notices := notices r2 @ [b]\<rparr>)))"

text \<open>The calls of the two relaying goroutines and of the handler, in the order they take effect.\<close>

datatype rwn_op =
    OpRead "byte list" "go_error option"
  | OpWrite "byte list" "nat \<times> go_error option"
  | OpShut

fun rwn_step :: "rwn_op \<Rightarrow> ReadWriterNotice \<Rightarrow> ReadWriterNotice" where
  "rwn_step (OpRead bs e) r = snd (rwn_Read (bs, e) r)"
| "rwn_step (OpWrite p res) r = snd (rwn_Write p res r)"
| "rwn_step OpShut r = snd (rwn_Close r)"

fun rwn_run :: "rwn_op list \<Rightarrow> ReadWriterNotice \<Rightarrow> ReadWriterNotice" where
  "rwn_run [] r = r"
| "rwn_run (op # ops) r = rwn_run ops (rwn_step op r)"

text \<open>What the callback is to get: the bytes read before the first write, if that comes before a close.\<close>

fun first_flight :: "byte list \<Rightarrow> rwn_op list \<Rightarrow> byte list option" where
  "first_flight b [] = None"
| "first_flight b (OpRead bs e # ops) = first_flight (b @ bs) ops"
| "first_flight b (OpWrite p res # ops) = Some b"
| "first_flight b (OpShut # ops) = None"

lemmas rwn_defs [op_defs] = rwn_Read_def rwn_Write_def rwn_Close_def Let_def

lemma rwn_done: "isNotice r \<or> \<not> isStart r \<Longrightarrow> notices (rwn_run ops r) = notices r"
proof (induction ops arbitrary: r)
  case (Cons op ops)
  have "notices (rwn_step op r) = notices r \<and> (isNotice (rwn_step op r) \<or> \<not> isStart (rwn_step op r))"
  proof (cases "isStart r")
    case True
    then have n: "isNotice r" using Cons.prems by simp
    show ?thesis using True n by (cases op) (auto simp: rwn_defs)
  next
    case False
    then show ?thesis by (cases op) (auto simp: rwn_defs)
  qed
  then show ?case using Cons.IH by simp
qed simp

lemma rwn_pending:
  assumes "\<not> isNotice r" "isStart r" "fc r" "rwn_buf r = Some b" "notices r = []"
  shows "notices (rwn_run ops r) = (case first_flight b ops of None \<Rightarrow> [] | Some x \<Rightarrow> [x])"
  using assms
proof (induction ops arbitrary: r b)
  case (Cons op ops)
  show ?case
  proof (cases op)
    case (OpRead bs e)
    then show ?thesis using Cons.prems Cons.IH [of "rwn_step op r" "b @ bs"] by (simp add: rwn_defs)
  next
    case (OpWrite p res)
    then show ?thesis using Cons.prems rwn_done [of "rwn_step op r" ops] by (simp add: rwn_defs)
  next
    case OpShut
    then show ?thesis using Cons.prems rwn_done [of "rwn_step op r" ops] by (simp add: rwn_defs)
  qed
qed simp

section \<open>Finding the name\<close>

text \<open>
  A parsed HTTP request; \<open>http.ReadRequest\<close> is a parameter. \<open>Header\<close> has canonical keys.
\<close>

record http_request =
  Method :: string
  Host :: string
  Header :: "(string \<times> string) list"

definition Header_Get :: "http_request \<Rightarrow> string \<Rightarrow> string" where
  "Header_Get req k = (case map_of (Header req) k of None \<Rightarrow> [] | Some v \<Rightarrow> v)"

text \<open>
  The goroutine: it gets the buffer of the callback and stores a name, or nothing; the outer
  \<open>None\<close> is a panic.
\<close>

definition sniff_domain :: "cryptobyte_api \<Rightarrow> (byte list \<Rightarrow> go_error + http_request) \<Rightarrow> byte list \<Rightarrow>
    string option option" where
  "sniff_domain C ReadRequest buf =
    (if \<not> 0 < length buf then Some None
     else case (if buf ! 0 = 0x16
         then map_option (\<lambda>(err, clientHelloMsg). ServerName clientHelloMsg) (UnmarshalByByte C buf empty_msg)
         else Some []) of
       None \<Rightarrow> None
     | Some name \<Rightarrow>
         if name \<noteq> [] then Some (Some name)
         else let fallback = (let domain = regexpDomain (string_of buf)
                in if domain \<noteq> [] then Some (Some domain) else Some None)
           in case ReadRequest buf of
             Inl err \<Rightarrow> fallback
           | Inr hr \<Rightarrow> if Header_Get hr ''Host'' \<noteq> [] then Some (Some (Header_Get hr ''Host'')) else fallback)"

text \<open>
  \<open>net/http\<close> promotes the \<open>Host\<close> header of a request to the field \<open>Host\<close> and removes it from
  \<open>Header\<close>.
\<close>

definition host_promoted :: "(byte list \<Rightarrow> go_error + http_request) \<Rightarrow> bool" where
  "host_promoted ReadRequest \<longleftrightarrow> (\<forall>bs req. ReadRequest bs = Inr req \<longrightarrow> Header_Get req ''Host'' = [])"

lemma sniff_fallback:
  assumes "host_promoted rr" "buf \<noteq> []" "buf ! 0 \<noteq> 0x16"
  shows "sniff_domain C rr buf = Some (if regexpDomain (string_of buf) = [] then None
    else Some (regexpDomain (string_of buf)))"
  using assms by (auto simp: sniff_domain_def host_promoted_def Let_def split: sum.split)

definition demo_ReadRequest :: "byte list \<Rightarrow> go_error + http_request" where
  "demo_ReadRequest bs = (if take 4 bs = bytes_of ''GET ''
     then Inr \<lparr>Method = ''GET'', Host = ''bank.example'', Header = []\<rparr> else Inl (Errorf ''malformed''))"

lemma demo_host_promoted: "host_promoted demo_ReadRequest"
  by (simp add: host_promoted_def demo_ReadRequest_def Header_Get_def)

section \<open>Properties\<close>

text \<open>The callback is called at most once, and with exactly the bytes the client had sent before
  it was first written to; never after the connection was closed.
\<close>

theorem notice_once:
  assumes "NewReadWriterNotice rw buf True = Inr r"
  shows "notices (rwn_run ops r) =
    (case first_flight (case buf of None \<Rightarrow> [] | Some b \<Rightarrow> b) ops of None \<Rightarrow> [] | Some x \<Rightarrow> [x])"
  using assms by (intro rwn_pending) (auto simp: NewReadWriterNotice_def split: if_splits)

theorem notice_once_witness:
  "\<exists>r. NewReadWriterNotice True None True = Inr r \<and>
    notices (rwn_run [OpRead [1, 2] None, OpRead [3] None, OpWrite [9] (1, None), OpRead [4] None,
      OpWrite [8] (1, None), OpShut] r) = [[1, 2, 3]]"
proof -
  obtain r where r: "NewReadWriterNotice True None True = Inr r" by (simp add: NewReadWriterNotice_def)
  show ?thesis
    using notice_once [OF r, of "[OpRead [1, 2] None, OpRead [3] None, OpWrite [9] (1, None), OpRead [4] None,
      OpWrite [8] (1, None), OpShut]"] r by (simp del: rwn_run.simps)
qed

text \<open>For a TLS connection the name found is the server name of its ClientHello, whatever the
  extensions around it.
\<close>

theorem sniff_tls:
  assumes "cryptobyte C"
    and "length hdr = 8" and "length vers = 2" and "length random = 32" and "length sid < 256"
    and "even (length suites)" and "length suites < 65536" and "length compression < 256"
    and "distinct (map fst pre)" and "0 \<notin> fst ` set pre"
    and "\<forall>td\<in>set pre. length (snd td) < 65536 \<and> ext_accepted C td"
    and "host \<noteq> []" and "\<not> suffix ''.'' host" and "length host < 65000"
    and "length (concat (map ext_bytes pre) @ ext_bytes (0, sni_data host) @ post) < 65536"
  shows "sniff_domain C rr (client_hello hdr vers random sid suites compression
    (concat (map ext_bytes pre) @ ext_bytes (0, sni_data host) @ post)) = Some (Some host)"
proof -
  obtain e m where "UnmarshalByByte C (client_hello hdr vers random sid suites compression
      (concat (map ext_bytes pre) @ ext_bytes (0, sni_data host) @ post)) empty_msg = Some (e, m)"
    "ServerName m = host"
    using cryptobyte.client_hello_name [OF assms(1-10) _ assms(12-15)] assms(11) by blast
  then show ?thesis using assms(12) by (simp add: sniff_domain_def client_hello_def)
qed

theorem sniff_tls_witness:
  "sniff_domain documented_cryptobyte demo_ReadRequest
    (client_hello (replicate 8 0) [3, 3] (replicate 32 7) [] [19, 1] [0]
       (ext_bytes (0x0a0a, [1]) @ ext_bytes (0, sni_data ''a.io'') @ [255])) = Some (Some ''a.io'')"
proof -
  have "ext_accepted documented_cryptobyte (0x0a0a, [1])"
    by (simp add: ext_accepted_def switch_extension_def)
  then show ?thesis
    using sniff_tls [OF doc.cryptobyte_axioms, of "replicate 8 0" "[3, 3]" "replicate 32 7" "[]"
        "[19, 1]" "[0]" "[(0x0a0a, [1])]" "''a.io''" "[255]" demo_ReadRequest]
    by (simp add: suffix_def ext_bytes_def prefix16_def sni_data_def)
qed

text \<open>For any other connection the \<open>Host\<close> header plays no part, because \<open>net/http\<close> removes it from
  \<open>Header\<close>: the name found is the first word of the expression in all the bytes, in the request
  line or anywhere else. A buffer of one to four bytes that starts with \<open>0x16\<close> makes the goroutine
  panic.
\<close>

theorem sniff_plain:
  assumes "cryptobyte C" and "host_promoted rr" and "buf \<noteq> []"
  shows "(buf ! 0 \<noteq> 0x16 \<longrightarrow> sniff_domain C rr buf = Some (if regexpDomain (string_of buf) = [] then None
      else Some (regexpDomain (string_of buf)))) \<and>
    (sniff_domain C rr buf = None \<longleftrightarrow> buf ! 0 = 0x16 \<and> length buf < 5)"
proof (cases "buf ! 0 = 0x16")
  case False
  then show ?thesis using sniff_fallback [OF assms(2,3)] by auto
next
  case True
  show ?thesis
  proof (cases "length buf < 5")
    case True
    then show ?thesis using \<open>buf ! 0 = 0x16\<close> assms(3) by (simp add: sniff_domain_def UnmarshalByByte_def)
  next
    case False
    obtain e m' where "UnmarshalByByte C buf empty_msg = Some (e, m')"
      using cryptobyte.UnmarshalByByte_return [OF assms(1,3), of empty_msg] False by (auto simp: empty_msg_def)
    then show ?thesis using True False assms(3)
      by (auto simp: sniff_domain_def Let_def split: sum.splits)
  qed
qed

theorem sniff_plain_witness:
  "sniff_domain documented_cryptobyte demo_ReadRequest
      (bytes_of ''GET /index.html HTTP/1.1 Host: bank.example '') = Some (Some ''index.html'') \<and>
    sniff_domain documented_cryptobyte demo_ReadRequest [0x16, 3] = None"
proof -
  let ?t = "''GET /index.html HTTP/1.1 Host: bank.example ''"
  have "bytes_of ?t ! 0 \<noteq> 0x16" "bytes_of ?t \<noteq> []" by (simp_all add: bytes_of_def byte_of_char_def)
  moreover have "regexpDomain ?t = ''index.html''" by code_simp
  ultimately have "sniff_domain documented_cryptobyte demo_ReadRequest (bytes_of ?t) = Some (Some ''index.html'')"
    using sniff_plain [OF doc.cryptobyte_axioms demo_host_promoted, of "bytes_of ?t"] by simp
  then show ?thesis
    using sniff_plain [OF doc.cryptobyte_axioms demo_host_promoted, of "[0x16, 3]"] by simp
qed

end
