(* ===== verification/HttpText.thy ===== *)
theory HttpText
  imports Manager Sniffing Socks5
begin

text \<open>
  The text an HTTP client and the proxy exchange: the \<open>Proxy-Authorization\<close> header that
  \<open>httpTcpConn\<close> reads (\<^verbatim>\<open>server/http_proxy_handler.go\<close>) and \<open>ParseURL\<close> writes
  (\<^verbatim>\<open>proto/http/url.go\<close>, \<^verbatim>\<open>proto/socks/url.go\<close>), and the address of the target.
\<close>

section \<open>Base64\<close>

text \<open>\<open>base64.StdEncoding\<close>: the value of a digit, and the digit of a value.\<close>

definition b64_char :: "nat \<Rightarrow> char" where
  "b64_char n = (if n < 26 then char_of (65 + n) else if n < 52 then char_of (71 + n)
     else if n < 62 then char_of (n - 4) else if n = 62 then CHR ''+'' else CHR ''/'')"

definition b64_val :: "char \<Rightarrow> nat option" where
  "b64_val c = (let n = of_char c in
     if 65 \<le> n \<and> n \<le> 90 then Some (n - 65) else if 97 \<le> n \<and> n \<le> 122 then Some (n - 71)
     else if 48 \<le> n \<and> n \<le> 57 then Some (n + 4)
     else if c = CHR ''+'' then Some 62 else if c = CHR ''/'' then Some 63 else None)"

definition byte_of :: "nat \<Rightarrow> byte" where
  "byte_of n = word_of_nat n"

fun EncodeToString :: "byte list \<Rightarrow> string" where
  "EncodeToString [] = []"
| "EncodeToString [a] = [b64_char (unat a div 4), b64_char (unat a mod 4 * 16), CHR ''='', CHR ''='']"
| "EncodeToString [a, b] = [b64_char (unat a div 4), b64_char (unat a mod 4 * 16 + unat b div 16),
     b64_char (unat b mod 16 * 4), CHR ''='']"
| "EncodeToString (a # b # c # bs) = [b64_char (unat a div 4), b64_char (unat a mod 4 * 16 + unat b div 16),
     b64_char (unat b mod 16 * 4 + unat c div 64), b64_char (unat c mod 64)] @ EncodeToString bs"

text \<open>Two, three and four digits of a group; unused bits of the last digit are ignored.\<close>

definition quantum :: "char \<Rightarrow> char \<Rightarrow> char \<Rightarrow> char \<Rightarrow> byte list option" where
  "quantum a b c d = (case (b64_val a, b64_val b, b64_val c, b64_val d) of
     (Some w, Some x, Some y, Some z) \<Rightarrow>
       Some [byte_of (w * 4 + x div 16), byte_of (x mod 16 * 16 + y div 4), byte_of (y mod 4 * 64 + z)]
   | _ \<Rightarrow> None)"

definition last_quantum :: "char \<Rightarrow> char \<Rightarrow> char \<Rightarrow> char \<Rightarrow> byte list option" where
  "last_quantum a b c d =
    (if d \<noteq> CHR ''='' then quantum a b c d
     else if c \<noteq> CHR ''='' then (case (b64_val a, b64_val b, b64_val c) of
         (Some w, Some x, Some y) \<Rightarrow> Some [byte_of (w * 4 + x div 16), byte_of (x mod 16 * 16 + y div 4)]
       | _ \<Rightarrow> None)
     else (case (b64_val a, b64_val b) of
         (Some w, Some x) \<Rightarrow> Some [byte_of (w * 4 + x div 16)]
       | _ \<Rightarrow> None))"

fun decode_quanta :: "string \<Rightarrow> byte list option" where
  "decode_quanta [] = Some []"
| "decode_quanta [a, b, c, d] = last_quantum a b c d"
| "decode_quanta (a # b # c # d # e # s) = (case quantum a b c d of None \<Rightarrow> None
     | Some q \<Rightarrow> map_option ((@) q) (decode_quanta (e # s)))"
| "decode_quanta _ = None"

text \<open>Line breaks are skipped; \<open>None\<close> is the error.\<close>

definition DecodeString :: "string \<Rightarrow> byte list option" where
  "DecodeString s = decode_quanta (filter (\<lambda>c. c \<noteq> CHR 0x0D \<and> c \<noteq> CHR 0x0A) s)"

section \<open>Strings\<close>

text \<open>\<open>strings.Replace(s, old, "", 1)\<close> for an \<open>old\<close> that is not empty.\<close>

fun remove_first :: "string \<Rightarrow> string \<Rightarrow> string" where
  "remove_first old [] = []"
| "remove_first old (c # s) = (if take (length old) (c # s) = old then drop (length old) (c # s)
     else c # remove_first old s)"

text \<open>The index of the last and of the first occurrence of a byte.\<close>

fun IndexByte :: "string \<Rightarrow> char \<Rightarrow> nat option" where
  "IndexByte [] x = None"
| "IndexByte (c # s) x = (if c = x then Some 0 else map_option Suc (IndexByte s x))"

fun LastIndexByte :: "string \<Rightarrow> char \<Rightarrow> nat option" where
  "LastIndexByte [] x = None"
| "LastIndexByte (c # s) x = (case LastIndexByte s x of Some i \<Rightarrow> Some (Suc i)
     | None \<Rightarrow> if c = x then Some 0 else None)"

text \<open>\<open>net.SplitHostPort\<close>; \<open>None\<close> is an error, with which both results are empty.\<close>

definition SplitHostPort :: "string \<Rightarrow> (string \<times> string) option" where
  "SplitHostPort hostport = (case LastIndexByte hostport CHR '':'' of
     None \<Rightarrow> None
   | Some i \<Rightarrow>
       (case (if hostport ! 0 = CHR ''['' then
           (case IndexByte hostport CHR '']'' of
              None \<Rightarrow> None
            | Some e \<Rightarrow> if e + 1 = length hostport \<or> e + 1 \<noteq> i then None
                else Some (drop 1 (take e hostport), 1, e + 1))
         else if IndexByte (take i hostport) CHR '':'' \<noteq> None then None
         else Some (take i hostport, 0, 0)) of
          None \<Rightarrow> None
        | Some (hst, j, k) \<Rightarrow>
            if IndexByte (drop j hostport) CHR ''['' \<noteq> None \<or> IndexByte (drop k hostport) CHR '']'' \<noteq> None
            then None else Some (hst, drop (i + 1) hostport)))"

section \<open>The proxy's side\<close>

text \<open>The user and password of a request; \<open>None\<close> is the answer 407.\<close>

definition proxy_auth :: "http_request \<Rightarrow> (string \<times> string) option" where
  "proxy_auth req =
    (case DecodeString (remove_first ''Basic '' (Header_Get req ''Proxy-Authorization'')) of
       None \<Rightarrow> None
     | Some authData \<Rightarrow>
         (let userPasswdPair = split_colon (string_of authData) in
          if length userPasswdPair \<noteq> 2 then None else Some (userPasswdPair ! 0, userPasswdPair ! 1)))"

definition target_address :: "http_request \<Rightarrow> string" where
  "target_address req =
    (let prt = (case SplitHostPort (Host req) of None \<Rightarrow> [] | Some (_, p) \<Rightarrow> p)
     in if Method req = ''CONNECT'' then (if prt = [] then Host req @ '':'' @ Itoa 443 else Host req)
        else (if prt = [] then Host req @ '':'' @ Itoa 80 else Host req))"

section \<open>The client's side\<close>

text \<open>
  What the code reads of a parsed URL; \<open>url.Parse\<close> is a parameter. \<open>u_User\<close> is nil or a name with
  a password, if there is one.
\<close>

record url =
  u_Scheme :: string
  u_User :: "(string \<times> string option) option"
  u_Hostname :: string
  u_Port :: string
  u_Host :: string
  u_Fragment :: string

record parsed_url =
  pu_auth :: string
  pu_addr :: string
  pu_domain :: string
  pu_scheme :: string

definition http_ParseURL :: "(string \<Rightarrow> go_error + url) \<Rightarrow> string \<Rightarrow> go_error option \<times> parsed_url" where
  "http_ParseURL Parse s =
    (let none = \<lparr>pu_auth = [], pu_addr = [], pu_domain = [], pu_scheme = []\<rparr> in
     case Parse s of
       Inl err \<Rightarrow> (Some err, none)
     | Inr u \<Rightarrow>
         (case (case u_User u of
              None \<Rightarrow> Inr []
            | Some (username, pass) \<Rightarrow> (case pass of
                None \<Rightarrow> Inl (Errorf ''no password'')
              | Some p \<Rightarrow> Inr (''Basic '' @ EncodeToString (bytes_of (username @ '':'' @ p))))) of
            Inl err \<Rightarrow> (Some err, none)
          | Inr auth \<Rightarrow>
              if u_Scheme u = ''http'' then
                (let prt = (if u_Port u = [] then ''80'' else u_Port u);
                     domain = (if u_Fragment u = [] then u_Hostname u else u_Fragment u)
                 in (None, \<lparr>pu_auth = auth, pu_addr = JoinHostPort (u_Hostname u) prt, pu_domain = domain,
                      pu_scheme = ''http''\<rparr>))
              else (Some (Errorf ''scheme''), none\<lparr>pu_auth := auth\<rparr>)))"

text \<open>The SOCKS5 variant: the credentials, if any, and the server.\<close>

definition socks_ParseURL :: "(string \<Rightarrow> go_error + url) \<Rightarrow> string \<Rightarrow>
    go_error option \<times> (string \<times> string) option \<times> string" where
  "socks_ParseURL Parse s = (case Parse s of
     Inl er \<Rightarrow> (Some er, None, [])
   | Inr u \<Rightarrow>
       (case u_User u of
          None \<Rightarrow> (None, None, u_Host u)
        | Some (username, pass) \<Rightarrow> (case pass of
            None \<Rightarrow> (Some (Errorf ''no password''), None, u_Host u)
          | Some p \<Rightarrow> (None, Some (username, p), u_Host u))))"

section \<open>The round trip of Base64\<close>

lemma b64_val_char [simp]: "n < 64 \<Longrightarrow> b64_val (b64_char n) = Some n"
proof -
  assume "n < 64"
  then consider "n < 26" | "26 \<le> n" "n < 52" | "52 \<le> n" "n < 62" | "n = 62" | "n = 63" by linarith
  then show ?thesis
    by cases (auto simp: b64_char_def b64_val_def Let_def)
qed

lemma b64_char_plain:
  assumes "n < 64"
  shows "b64_char n \<noteq> CHR ''=''" "b64_char n \<noteq> CHR 0x0D" "b64_char n \<noteq> CHR 0x0A"
proof -
  have "b64_val (CHR ''='') = None" "b64_val (CHR 0x0D) = None" "b64_val (CHR 0x0A) = None"
    by (simp_all add: b64_val_def Let_def)
  then show "b64_char n \<noteq> CHR ''=''" "b64_char n \<noteq> CHR 0x0D" "b64_char n \<noteq> CHR 0x0A"
    using b64_val_char [OF assms] by (metis option.distinct(1))+
qed

lemma byte_of_unat_id: "byte_of (unat b) = b"
  by (simp add: byte_of_def)

lemma byte_bound: "unat (b :: byte) < 256"
  using unsigned_less [of b, where ?'a = nat] by simp

lemma digit_div: "k < n \<Longrightarrow> (m * n + k) div n = (m :: nat)"
  by (metis add.right_neutral div_less div_mult_self3 less_nat_zero_code)

lemma digit_mod: "k < n \<Longrightarrow> (m * n + k) mod n = (k :: nat)"
  by simp

lemma quantum_nums:
  fixes a b c :: nat
  assumes "a < 256" "b < 256" "c < 256"
  shows "a div 4 < 64" "a mod 4 * 16 < 64" "a mod 4 * 16 + b div 16 < 64" "b mod 16 * 4 < 64" "b mod 16 * 4 + c div 64 < 64"
    "a div 4 * 4 + (a mod 4 * 16 + b div 16) div 16 = a" "a div 4 * 4 + a mod 4 * 16 div 16 = a"
    "(a mod 4 * 16 + b div 16) mod 16 * 16 + (b mod 16 * 4 + c div 64) div 4 = b"
    "(a mod 4 * 16 + b div 16) mod 16 * 16 + b mod 16 * 4 div 4 = b"
    "(b mod 16 * 4 + c div 64) mod 4 * 64 + c mod 64 = c"
proof -
  have k: "b div 16 < 16" "c div 64 < 4" using assms by (simp_all add: less_mult_imp_div_less)
  note d = digit_div [OF k(1), of "a mod 4"] digit_mod [OF k(1), of "a mod 4"]
    digit_div [OF k(2), of "b mod 16"] digit_mod [OF k(2), of "b mod 16"]
  show "a div 4 < 64" using assms by (simp add: less_mult_imp_div_less)
  have m: "a mod 4 \<le> 3" "b mod 16 \<le> 15" using mod_less_divisor [of 4 a] mod_less_divisor [of 16 b] by linarith+
  show "a mod 4 * 16 < 64" "a mod 4 * 16 + b div 16 < 64" "b mod 16 * 4 < 64" "b mod 16 * 4 + c div 64 < 64"
    using m k by linarith+
  show "a div 4 * 4 + (a mod 4 * 16 + b div 16) div 16 = a" "a div 4 * 4 + a mod 4 * 16 div 16 = a"
    "(a mod 4 * 16 + b div 16) mod 16 * 16 + (b mod 16 * 4 + c div 64) div 4 = b"
    "(a mod 4 * 16 + b div 16) mod 16 * 16 + b mod 16 * 4 div 4 = b"
    "(b mod 16 * 4 + c div 64) mod 4 * 64 + c mod 64 = c"
    unfolding d by simp_all
qed

lemma quantum_bytes:
  "quantum (b64_char (unat a div 4)) (b64_char (unat a mod 4 * 16 + unat b div 16))
     (b64_char (unat b mod 16 * 4 + unat c div 64)) (b64_char (unat c mod 64)) = Some [a, b, c]"
proof -
  note q = quantum_nums [OF byte_bound [of a] byte_bound [of b] byte_bound [of c]]
  have c: "unat c mod 64 < 64" by simp
  show ?thesis
    unfolding quantum_def b64_val_char [OF q(1)] b64_val_char [OF q(3)] b64_val_char [OF q(5)] b64_val_char [OF c]
      prod.case option.case q(6,8,10) byte_of_unat_id ..
qed

lemma encode_nonempty: "bs \<noteq> [] \<Longrightarrow> \<exists>e s. EncodeToString bs = e # s"
  by (cases bs rule: EncodeToString.cases) auto

lemma decode_encode: "decode_quanta (EncodeToString bs) = Some bs"
proof (induction bs rule: EncodeToString.induct)
  case (2 a)
  note q = quantum_nums [OF byte_bound [of a] byte_bound [of a] byte_bound [of a]]
  show ?case using q(1,2) q(7) by (simp add: last_quantum_def byte_of_def)
next
  case (3 a b)
  note q = quantum_nums [OF byte_bound [of a] byte_bound [of b] byte_bound [of b]]
  show ?case
    using b64_char_plain(1) [OF q(4)]
    unfolding EncodeToString.simps decode_quanta.simps last_quantum_def b64_val_char [OF q(1)]
      b64_val_char [OF q(3)] b64_val_char [OF q(4)] prod.case option.case q(6,9) byte_of_unat_id
    by simp
next
  case (4 a b c bs)
  have "unat c mod 64 < 64" by simp
  note p = b64_char_plain(1) [OF this]
  show ?case
  proof (cases "bs = []")
    case True
    then show ?thesis using p by (simp add: last_quantum_def quantum_bytes)
  next
    case False
    then obtain e s where "EncodeToString bs = e # s" using encode_nonempty by blast
    then show ?thesis using "4.IH" by (simp add: quantum_bytes)
  qed
qed simp

definition b64_digit :: "char \<Rightarrow> bool" where
  "b64_digit x \<longleftrightarrow> x \<noteq> CHR 0x0D \<and> x \<noteq> CHR 0x0A"

lemma b64_digit_char: "n < 64 \<Longrightarrow> b64_digit (b64_char n)" "b64_digit (CHR ''='')"
  by (simp_all add: b64_digit_def b64_char_plain)

lemma encode_chars: "list_all b64_digit (EncodeToString bs)"
proof (induction bs rule: EncodeToString.induct)
  case (2 a)
  then show ?case
    using quantum_nums [OF byte_bound [of a] byte_bound [of a] byte_bound [of a]] by (simp add: b64_digit_char)
next
  case (3 a b)
  then show ?case
    using quantum_nums [OF byte_bound [of a] byte_bound [of b] byte_bound [of b]] by (simp add: b64_digit_char)
next
  case (4 a b c bs)
  then show ?case
    using quantum_nums [OF byte_bound [of a] byte_bound [of b] byte_bound [of c]] by (simp add: b64_digit_char)
qed simp

lemma base64_roundtrip: "DecodeString (EncodeToString bs) = Some bs"
proof -
  have "filter (\<lambda>c. c \<noteq> CHR 0x0D \<and> c \<noteq> CHR 0x0A) (EncodeToString bs) = EncodeToString bs"
    using encode_chars [of bs] by (intro filter_True) (simp add: list_all_iff b64_digit_def)
  then show ?thesis by (simp add: DecodeString_def decode_encode)
qed

section \<open>Splitting at colons\<close>

lemma split_colon_append: "CHR '':'' \<notin> set u \<Longrightarrow> split_colon (u @ CHR '':'' # p) = u # split_colon p"
  by (induction u) auto

lemma split_colon_plain: "CHR '':'' \<notin> set p \<Longrightarrow> split_colon p = [p]"
  by (induction p) auto

lemma split_colon_length: "length (split_colon s) = Suc (count_list s CHR '':'')"
proof (induction s)
  case (Cons c s)
  then show ?case by (cases "split_colon s") auto
qed simp

section \<open>Properties\<close>

text \<open>C35: The header that \<open>ParseURL\<close> makes for a client is read back by the proxy as that user and
  password, provided neither contains a colon; with any further colon the proxy answers 407.\<close>

theorem proxy_auth_roundtrip:
  assumes "Parse s = Inr u" and "u_User u = Some (username, Some pass)" and "u_Scheme u = ''http''"
  shows "\<exists>r. http_ParseURL Parse s = (None, r) \<and>
    (\<forall>req. Header_Get req ''Proxy-Authorization'' = pu_auth r \<longrightarrow>
       proxy_auth req = (if CHR '':'' \<in> set username \<or> CHR '':'' \<in> set pass then None else Some (username, pass)))"
proof -
  obtain r where r: "http_ParseURL Parse s = (None, r)"
    "pu_auth r = ''Basic '' @ EncodeToString (bytes_of (username @ '':'' @ pass))"
    using assms by (simp add: http_ParseURL_def Let_def)
  have l: "length (split_colon (username @ '':'' @ pass)) = 2 \<longleftrightarrow> CHR '':'' \<notin> set username \<and> CHR '':'' \<notin> set pass"
    by (auto simp: split_colon_length count_list_0_iff)
  have "split_colon (username @ '':'' @ pass) = [username, pass]" if "CHR '':'' \<notin> set username" "CHR '':'' \<notin> set pass"
    using split_colon_append [OF that(1), of pass] split_colon_plain [OF that(2)] by simp
  then have "proxy_auth req = (if CHR '':'' \<in> set username \<or> CHR '':'' \<in> set pass then None else Some (username, pass))"
    if "Header_Get req ''Proxy-Authorization'' = pu_auth r" for req
    using that l by (auto simp: proxy_auth_def r(2) base64_roundtrip Let_def)
  then show ?thesis using r(1) by blast
qed

definition demo_Parse :: "string \<Rightarrow> go_error + url" where
  "demo_Parse s = Inr \<lparr>u_Scheme = ''http'', u_User = Some (''u'', Some ''pw''), u_Hostname = ''h'', u_Port = [],
     u_Host = ''h'', u_Fragment = []\<rparr>"

theorem proxy_auth_roundtrip_witness:
  "\<exists>r. http_ParseURL demo_Parse ''http://u:pw@h'' = (None, r) \<and>
    proxy_auth \<lparr>Method = ''CONNECT'', Host = ''x'', Header = [(''Proxy-Authorization'', pu_auth r)]\<rparr> = Some (''u'', ''pw'')"
proof -
  obtain r where r: "http_ParseURL demo_Parse ''http://u:pw@h'' = (None, r)" and
    "\<forall>req. Header_Get req ''Proxy-Authorization'' = pu_auth r \<longrightarrow> proxy_auth req = Some (''u'', ''pw'')"
    using proxy_auth_roundtrip [of demo_Parse "''http://u:pw@h''" _ "''u''" "''pw''"] by (auto simp: demo_Parse_def)
  then show ?thesis by (simp add: Header_Get_def)
qed

text \<open>The port of the target is never left out: a host without a colon gets 443 for \<open>CONNECT\<close> and 80
  for every other method, and one with a port keeps it.\<close>

theorem target_address_port:
  assumes "CHR '':'' \<notin> set h" "CHR ''['' \<notin> set h" "CHR '']'' \<notin> set h" "h \<noteq> []"
    and "CHR '':'' \<notin> set p" "CHR ''['' \<notin> set p" "CHR '']'' \<notin> set p" "p \<noteq> []"
  shows "target_address (req\<lparr>Host := h\<rparr>) = h @ (if Method req = ''CONNECT'' then '':443'' else '':80'') \<and>
    target_address (req\<lparr>Host := h @ '':'' @ p\<rparr>) = h @ '':'' @ p"
proof -
  have i: "IndexByte s x = None \<longleftrightarrow> x \<notin> set s" for s x by (induction s) auto
  have l: "LastIndexByte s x = None \<longleftrightarrow> x \<notin> set s" for s x by (induction s) (auto split: option.splits)
  have la: "LastIndexByte (s @ CHR '':'' # q) CHR '':'' = Some (length s)" if "CHR '':'' \<notin> set q" for s q
  proof -
    have "LastIndexByte q CHR '':'' = None" using that l by blast
    then show ?thesis by (induction s) auto
  qed
  have "LastIndexByte h CHR '':'' = None" using assms(1) l by blast
  then have "SplitHostPort h = None" by (simp add: SplitHostPort_def)
  moreover have "SplitHostPort (h @ '':'' @ p) = Some (h, p)"
  proof -
    have "(h @ '':'' @ p) ! 0 \<noteq> CHR ''[''" using assms(2,4) by (cases h) auto
    moreover have "IndexByte h CHR '':'' = None" "IndexByte (h @ '':'' @ p) CHR ''['' = None"
      "IndexByte (h @ '':'' @ p) CHR '']'' = None"
      using assms i by auto
    moreover have "LastIndexByte (h @ '':'' @ p) CHR '':'' = Some (length h)" using la [OF assms(5)] by simp
    ultimately show ?thesis by (simp add: SplitHostPort_def)
  qed
  moreover have "Itoa 443 = ''443''" "Itoa 80 = ''80''" by code_simp+
  ultimately show ?thesis using assms(8) by (simp add: target_address_def Let_def)
qed

theorem target_address_port_witness:
  "target_address \<lparr>Method = ''GET'', Host = ''a.io'', Header = []\<rparr> = ''a.io:80'' \<and>
   target_address \<lparr>Method = ''GET'', Host = ''a.io:8080'', Header = []\<rparr> = ''a.io:8080''"
  using target_address_port [of "''a.io''" "''8080''" "\<lparr>Method = ''GET'', Host = [], Header = []\<rparr>"] by simp

end
