(* ===== verification/Handlers.thy ===== *)
theory Handlers
  imports Auth SendQueue HttpText
begin

text \<open>
  The connection handlers: \<open>handlerTcpConn\<close> (\<^verbatim>\<open>server/tcp_conn_handler.go\<close>), \<open>socksTcpConn\<close>
  (\<^verbatim>\<open>server/socks_proxy_handler.go\<close>) and \<open>httpTcpConn\<close> (\<^verbatim>\<open>server/http_proxy_handler.go\<close>). A handler is
  three phases: the set-up, which ends with a reply to the client or with a relayed connection;
  the loop that waits while two goroutines copy; and the deferred calls.
\<close>

section \<open>The world of a handler\<close>

text \<open>
  What is outside the repository or the process: the concurrent maps, Redis, the network and the
  clock, the encoders of messages, the parser and the printer of \<open>net/http\<close>. \<open>sv_dial\<close> gets the
  address and the local IP, and answers with the text of an error or the local address of the
  new connection.
\<close>

record ('m, 'n, 's, 'w) services =
  sv_counts :: "('m, count_vars) cmap_api"
  sv_users :: "('n, connContext list) cmap_api"
  sv_redis :: "'s redis_api"
  sv_json :: "string \<Rightarrow> go_error + AuthInfo"
  sv_dial :: "string \<Rightarrow> byte list \<Rightarrow> 'w \<Rightarrow> (string + AddrSpec) \<times> 'w"
  sv_unique :: "'w \<Rightarrow> (string \<times> ptr) \<times> 'w"
  sv_now :: "'w \<Rightarrow> int"
  sv_conf :: send_conf
  sv_black_marshal :: "BlackListAccessLog \<Rightarrow> go_error + byte list"
  sv_access_marshal :: "AccessRecordsToInfluxDB \<Rightarrow> go_error + byte list"
  sv_hello :: cryptobyte_api
  sv_ReadRequest :: "byte list \<Rightarrow> go_error + http_request"
  sv_req_Write :: "http_request \<Rightarrow> go_error + byte list"

text \<open>
  The state a handler works on: its client, the target it has dialled (whether it is open, what
  was written to it before the copying starts), the shared state of the server, and the
  addresses dialled so far.
\<close>

record ('m, 'n, 's, 'w) world =
  w_mgr :: "('m, 'n) manager"
  w_redis :: 's
  w_redis_err :: "go_error option"
  w_black :: black_map
  w_send :: sendq
  w_conn :: conn
  w_env :: 'w
  w_dials :: "(string \<times> byte list) list"
  w_open :: bool
  w_target :: "byte list list"
  w_target_err :: "go_error option"

definition op_write :: "byte list \<Rightarrow> ('m, 'n, 's, 'w) world \<Rightarrow> go_error option \<times> ('m, 'n, 's, 'w) world" where
  "op_write msg w = (case conn_Write msg (w_conn w) of (e, c) \<Rightarrow> (e, w\<lparr>w_conn := c\<rparr>))"

definition op_reply :: "byte \<Rightarrow> AddrSpec option \<Rightarrow> ('m, 'n, 's, 'w) world \<Rightarrow>
    go_error option \<times> ('m, 'n, 's, 'w) world" where
  "op_reply resp addr w = (case SendReply resp addr (w_conn w) of (e, c) \<Rightarrow> (e, w\<lparr>w_conn := c\<rparr>))"

definition op_valid :: "('m, 'n, 's, 'w) services \<Rightarrow> string \<Rightarrow> string \<Rightarrow> string \<Rightarrow> ('m, 'n, 's, 'w) world \<Rightarrow>
    go_error + AuthInfo" where
  "op_valid S u p ip w = Valid (sv_redis S) (sv_json S) (w_redis_err w) u p ip (w_redis w)"

definition op_add_count :: "('m, 'n, 's, 'w) services \<Rightarrow> string \<Rightarrow> ('m, 'n, 's, 'w) world \<Rightarrow>
    ((bool \<times> int) \<times> ('m, 'n, 's, 'w) world) option" where
  "op_add_count S ip w = map_option (\<lambda>(r, m). (r, w\<lparr>w_mgr := m\<rparr>)) (AddIpConnCount (sv_counts S) ip (w_mgr w))"

definition op_reduce_count :: "('m, 'n, 's, 'w) services \<Rightarrow> string \<Rightarrow> ('m, 'n, 's, 'w) world \<Rightarrow>
    ('m, 'n, 's, 'w) world option" where
  "op_reduce_count S ip w = map_option (\<lambda>m. w\<lparr>w_mgr := m\<rparr>) (ReduceIpConnCount (sv_counts S) ip (w_mgr w))"

definition op_add_user :: "('m, 'n, 's, 'w) services \<Rightarrow> string \<Rightarrow> ('m, 'n, 's, 'w) world \<Rightarrow>
    (ptr \<times> ('m, 'n, 's, 'w) world) option" where
  "op_add_user S k w = map_option (\<lambda>(p, m). (p, w\<lparr>w_mgr := m\<rparr>))
     (addUserConnection (sv_users S) (sv_now S (w_env w)) k (w_mgr w))"

definition op_delete_user :: "('m, 'n, 's, 'w) services \<Rightarrow> string \<Rightarrow> ptr \<Rightarrow> ('m, 'n, 's, 'w) world \<Rightarrow>
    ('m, 'n, 's, 'w) world option" where
  "op_delete_user S k p w = map_option (\<lambda>m. w\<lparr>w_mgr := m\<rparr>) (deleteUserConnection (sv_users S) k p (w_mgr w))"

text \<open>The call of \<open>SendBlackListAccessLogMessageData\<close>, with the arguments both handlers give.\<close>

definition op_black_log :: "('m, 'n, 's, 'w) services \<Rightarrow> string \<Rightarrow> string \<Rightarrow> string \<Rightarrow> string \<Rightarrow>
    ('m, 'n, 's, 'w) world \<Rightarrow> ('m, 'n, 's, 'w) world option" where
  "op_black_log S u p black ip w = (case sv_unique S (w_env w) of ((unique, pick), e) \<Rightarrow>
     map_option (\<lambda>(err, sq). w\<lparr>w_env := e, w_send := sq\<rparr>)
       (SendBlackListAccessLogMessageData (sv_conf S) (sv_black_marshal S) unique pick u p black 1 u ip (w_send w)))"

definition op_access_log :: "('m, 'n, 's, 'w) services \<Rightarrow> string \<Rightarrow> string \<Rightarrow> string \<Rightarrow>
    ('m, 'n, 's, 'w) world \<Rightarrow> ('m, 'n, 's, 'w) world option" where
  "op_access_log S u domain ip w = (case sv_unique S (w_env w) of ((unique, pick), e) \<Rightarrow>
     map_option (\<lambda>sq. w\<lparr>w_env := e, w_send := sq\<rparr>)
       (ReportAccessLogToInfluxDB (sv_conf S) (sv_access_marshal S) unique pick u domain ip (w_send w)))"

text \<open>\<open>DialContext\<close> of \<^verbatim>\<open>server/func.go\<close>: the local address of the connection is the given IP.\<close>

definition op_dial :: "('m, 'n, 's, 'w) services \<Rightarrow> string \<Rightarrow> byte list \<Rightarrow> ('m, 'n, 's, 'w) world \<Rightarrow>
    (string + AddrSpec) \<times> ('m, 'n, 's, 'w) world" where
  "op_dial S addr localIP w = (case sv_dial S addr localIP (w_env w) of (r, e) \<Rightarrow>
     (r, w\<lparr>w_env := e, w_dials := w_dials w @ [(addr, localIP)],
           w_open := (case r of Inr _ \<Rightarrow> True | Inl _ \<Rightarrow> w_open w)\<rparr>))"

definition op_close_target :: "('m, 'n, 's, 'w) world \<Rightarrow> ('m, 'n, 's, 'w) world" where
  "op_close_target w = w\<lparr>w_open := False\<rparr>"

section \<open>Set-up\<close>

text \<open>What a relayed connection remembers.\<close>

record relay =
  rl_user :: string
  rl_pwd :: string
  rl_ip :: string
  rl_laddr :: string
  rl_key :: string
  rl_ctx :: nat
  rl_addr :: string
  rl_domain :: string
  rl_sniff :: bool

datatype outcome = Returned | Relay relay

text \<open>A \<open>defer\<close> that runs if the set-up returns; if it does not, the end of the handler runs it.\<close>

definition defer_count :: "('m, 'n, 's, 'w) services \<Rightarrow> string \<Rightarrow> (outcome \<times> ('m, 'n, 's, 'w) world) option \<Rightarrow>
    (outcome \<times> ('m, 'n, 's, 'w) world) option" where
  "defer_count S ip res = Option.bind res (\<lambda>(s, w). case s of
     Returned \<Rightarrow> map_option (Pair Returned) (op_reduce_count S ip w) | Relay r \<Rightarrow> Some (Relay r, w))"

definition defer_close :: "(outcome \<times> ('m, 'n, 's, 'w) world) option \<Rightarrow>
    (outcome \<times> ('m, 'n, 's, 'w) world) option" where
  "defer_close res = map_option (\<lambda>(s, w). case s of
     Returned \<Rightarrow> (Returned, op_close_target w) | Relay r \<Rightarrow> (Relay r, w)) res"

definition TCPAddr_String :: "AddrSpec \<Rightarrow> string" where
  "TCPAddr_String a = JoinHostPort (if IP a = [] then [] else IP_String (IP a)) (Itoa (Port a))"

text \<open>\<open>addUserConnection\<close> and what follows; \<open>connCtx.a\<close> of a nil context is a panic.\<close>

definition start_relay :: "('m, 'n, 's, 'w) services \<Rightarrow> AddrSpec \<Rightarrow> string \<Rightarrow> string \<Rightarrow> string \<Rightarrow> string \<Rightarrow> bool \<Rightarrow>
    ('m, 'n, 's, 'w) world \<Rightarrow> (outcome \<times> ('m, 'n, 's, 'w) world) option" where
  "start_relay S L u p addr domain sniff w =
    (let ip = IP_String (IP L); k = user_key u ip in
     Option.bind (op_add_user S k w) (\<lambda>(ctx, w'). case ctx of
       None \<Rightarrow> None
     | Some c \<Rightarrow> Some (Relay \<lparr>rl_user = u, rl_pwd = p, rl_ip = ip, rl_laddr = TCPAddr_String L, rl_key = k,
         rl_ctx = c, rl_addr = addr, rl_domain = domain, rl_sniff = sniff\<rparr>, w')))"

subsection \<open>SOCKS5\<close>

definition dial_error_reply :: "string \<Rightarrow> byte" where
  "dial_error_reply msg = (if go_Contains msg ''refused'' then ConnectionRefused
     else if go_Contains msg ''network is unreachable'' then NetworkUnreachable else HostUnreachable)"

text \<open>The dialling of a numeric target, and the reply with the address it is bound to.\<close>

definition socks_dial :: "('m, 'n, 's, 'w) services \<Rightarrow> AddrSpec \<Rightarrow> string \<Rightarrow> string \<Rightarrow> string \<Rightarrow>
    ('m, 'n, 's, 'w) world \<Rightarrow> (outcome \<times> ('m, 'n, 's, 'w) world) option" where
  "socks_dial S L u p addr w =
    (case op_dial S addr (case To4 (IP L) of None \<Rightarrow> [] | Some ip4 \<Rightarrow> ip4) w of
       (Inl msg, w1) \<Rightarrow> Some (Returned, snd (op_reply (dial_error_reply msg) None w1))
     | (Inr loc, w1) \<Rightarrow> defer_close
         (case op_reply SuccessReply (Some \<lparr>FQDN = [], IP = IP loc, Port = Port loc\<rparr>) w1 of
            (Some err, w2) \<Rightarrow> Some (Returned, w2)
          | (None, w2) \<Rightarrow> start_relay S L u p addr [] True w2))"

definition socks_connect :: "('m, 'n, 's, 'w) services \<Rightarrow> AddrSpec \<Rightarrow> string \<Rightarrow> string \<Rightarrow>
    ('m, 'n, 's, 'w) world \<Rightarrow> (outcome \<times> ('m, 'n, 's, 'w) world) option" where
  "socks_connect S L u p w =
    (case op_write [UserAuthVersion, AuthSuccess] w of
       (Some err, w1) \<Rightarrow> Some (Returned, w1)
     | (None, w1) \<Rightarrow> (case ReadDestAddr (w_conn w1) of
         (Inl err, c) \<Rightarrow> let w2 = w1\<lparr>w_conn := c\<rparr> in
           Some (Returned, if err = UnrecognizedAddrType then snd (op_reply AddrTypeNotSupported None w2) else w2)
       | (Inr destAddr, c) \<Rightarrow>
           let w2 = w1\<lparr>w_conn := c\<rparr>; addr = AddrSpec_Address destAddr; domain = regexpDomain addr in
           if domain \<noteq> [] then
             (case IsInBlacklist (w_black w2) domain of (black, isIn) \<Rightarrow>
                if isIn then map_option (\<lambda>w3. (Returned, snd (op_reply HostUnreachable None w3)))
                  (op_black_log S u p black (IP_String (IP L)) w2)
                else Some (Returned, w2))
           else socks_dial S L u p addr w2))"

definition socks_setup :: "('m, 'n, 's, 'w) services \<Rightarrow> AddrSpec \<Rightarrow> ('m, 'n, 's, 'w) world \<Rightarrow>
    (outcome \<times> ('m, 'n, 's, 'w) world) option" where
  "socks_setup S L w = (case GetUserPassword (w_conn w) of
     (Inl err, c) \<Rightarrow> Some (Returned, snd (op_write [UserAuthVersion, AuthFailure] (w\<lparr>w_conn := c\<rparr>)))
   | (Inr (u, p), c) \<Rightarrow>
       let w1 = w\<lparr>w_conn := c\<rparr>; ip = IP_String (IP L) in
       (case op_valid S u p ip w1 of
          Inl err \<Rightarrow> Some (Returned, snd (op_write [UserAuthVersion, AuthFailure] w1))
        | Inr info \<Rightarrow> Option.bind (op_add_count S ip w1) (\<lambda>((ok, ipCount), w2).
            if ok then defer_count S ip (socks_connect S L u p w2)
            else Some (Returned, snd (op_reply ConnectionRefused None w2)))))"

subsection \<open>HTTP\<close>

definition crlf :: string where
  "crlf = [CHR 0x0D, CHR 0x0A]"

definition reply_407 :: "byte list" where
  "reply_407 = bytes_of (''HTTP/1.1 407 Proxy Authorization Required'' @ crlf @
     ''Proxy-Authenticate: Basic realm='' @ [CHR 0x22] @ ''Secure Proxys'' @ [CHR 0x22] @ crlf @ crlf)"

definition reply_503 :: "byte list" where
  "reply_503 = bytes_of (''HTTP/1.1 503 Service Unavailable'' @ crlf @ crlf)"

definition reply_200 :: "byte list" where
  "reply_200 = bytes_of (''HTTP/1.1 200 Connection Established'' @ crlf @ crlf)"

text \<open>
  The first message: an answer to \<open>CONNECT\<close>, or the request, without the credentials, to the
  target. The goroutine that closes the target when the server stops makes that write fail.
\<close>

definition http_forward :: "('m, 'n, 's, 'w) services \<Rightarrow> AddrSpec \<Rightarrow> http_request \<Rightarrow> string \<Rightarrow> string \<Rightarrow> string \<Rightarrow>
    string \<Rightarrow> ('m, 'n, 's, 'w) world \<Rightarrow> (outcome \<times> ('m, 'n, 's, 'w) world) option" where
  "http_forward S L req u p addr domain w =
    (if Method req = ''CONNECT'' then
       (case op_write reply_200 w of
          (Some err, w1) \<Rightarrow> Some (Returned, w1)
        | (None, w1) \<Rightarrow> start_relay S L u p addr domain (domain = []) w1)
     else (case sv_req_Write S (req\<lparr>Header := AList.delete ''Proxy-Authorization'' (Header req)\<rparr>) of
         Inl err \<Rightarrow> Some (Returned, w)
       | Inr bs \<Rightarrow> (case w_target_err w of
           Some err \<Rightarrow> Some (Returned, w)
         | None \<Rightarrow> start_relay S L u p addr domain False (w\<lparr>w_target := w_target w @ [bs]\<rparr>))))"

definition http_connect :: "('m, 'n, 's, 'w) services \<Rightarrow> AddrSpec \<Rightarrow> http_request \<Rightarrow> string \<Rightarrow> string \<Rightarrow>
    ('m, 'n, 's, 'w) world \<Rightarrow> (outcome \<times> ('m, 'n, 's, 'w) world) option" where
  "http_connect S L req u p w =
    (let addr = target_address req; domain = regexpDomain addr in
     case (if domain \<noteq> [] then IsInBlacklist (w_black w) domain else ([], False)) of (black, isIn) \<Rightarrow>
     if isIn then map_option (\<lambda>w1. (Returned, snd (op_write reply_503 w1)))
       (op_black_log S u p black (IP_String (IP L)) w)
     else (case op_dial S addr (IP L) w of
         (Inl msg, w1) \<Rightarrow> Some (Returned, snd (op_write reply_503 w1))
       | (Inr loc, w1) \<Rightarrow> defer_close (http_forward S L req u p addr domain w1)))"

definition http_setup :: "('m, 'n, 's, 'w) services \<Rightarrow> AddrSpec \<Rightarrow> http_request \<Rightarrow> ('m, 'n, 's, 'w) world \<Rightarrow>
    (outcome \<times> ('m, 'n, 's, 'w) world) option" where
  "http_setup S L req w = (case proxy_auth req of
     None \<Rightarrow> Some (Returned, snd (op_write reply_407 w))
   | Some (u, p) \<Rightarrow>
       let ip = IP_String (IP L) in
       (case op_valid S u p ip w of
          Inl err \<Rightarrow> Some (Returned, snd (op_write reply_407 w))
        | Inr info \<Rightarrow> Option.bind (op_add_count S ip w) (\<lambda>((ok, ipCount), w1).
            if ok then defer_count S ip (http_connect S L req u p w1)
            else Some (Returned, snd (op_write reply_503 w1)))))"

section \<open>Relaying\<close>

text \<open>
  What the loop of a handler waits for, in the order it happens: the ticker, a copying goroutine
  that ends, the end of the server or of the context of the user; beside it the goroutine that
  looks for a name gets its buffer, and a new blacklist arrives. \<open>None\<close> is a panic; the flag says
  whether the loop has returned.
\<close>

datatype relay_event =
    Tick
  | CopyDone "go_error option"
  | ServerDone
  | ContextDone
  | Sniffed "byte list"
  | NewBlackMap "string list"

fun relay_loop :: "('m, 'n, 's, 'w) services \<Rightarrow> relay \<Rightarrow> relay_event list \<Rightarrow> string \<Rightarrow> ('m, 'n, 's, 'w) world \<Rightarrow>
    (bool \<times> string \<times> ('m, 'n, 's, 'w) world) option" where
  "relay_loop S r [] domain w = Some (False, domain, w)"
| "relay_loop S r (Tick # evs) domain w =
    (if domain \<noteq> [] \<and> snd (IsInBlacklist (w_black w) domain)
     then map_option (\<lambda>w'. (True, domain, w'))
       (op_black_log S (rl_user r) (rl_pwd r) (fst (IsInBlacklist (w_black w) domain)) (rl_ip r) w)
     else relay_loop S r evs domain w)"
| "relay_loop S r (CopyDone err # evs) domain w = Some (True, domain, w)"
| "relay_loop S r (ServerDone # evs) domain w = Some (True, domain, w)"
| "relay_loop S r (ContextDone # evs) domain w = Some (True, domain, w)"
| "relay_loop S r (Sniffed buf # evs) domain w =
    (if rl_sniff r then (case sniff_domain (sv_hello S) (sv_ReadRequest S) buf of
         None \<Rightarrow> None
       | Some None \<Rightarrow> relay_loop S r evs domain w
       | Some (Some name) \<Rightarrow> relay_loop S r evs name w)
     else relay_loop S r evs domain w)"
| "relay_loop S r (NewBlackMap keys # evs) domain w =
    relay_loop S r evs domain (w\<lparr>w_black := SetBlackMap keys (w_black w)\<rparr>)"

text \<open>The deferred calls, the last one first.\<close>

definition logged_domain :: "relay \<Rightarrow> string \<Rightarrow> string" where
  "logged_domain r domain = (if domain \<noteq> [] then domain else split_colon (rl_addr r) ! 0)"

definition teardown :: "('m, 'n, 's, 'w) services \<Rightarrow> relay \<Rightarrow> string \<Rightarrow> ('m, 'n, 's, 'w) world \<Rightarrow>
    ('m, 'n, 's, 'w) world option" where
  "teardown S r domain w =
    Option.bind (op_access_log S (rl_user r) (logged_domain r domain) (rl_laddr r) (op_close_target w)) (\<lambda>w1.
    Option.bind (op_delete_user S (rl_key r) (Some (rl_ctx r)) w1) (\<lambda>w2.
    op_reduce_count S (rl_ip r) (op_close_target w2)))"

definition relay_run :: "('m, 'n, 's, 'w) services \<Rightarrow> relay_event list \<Rightarrow> (outcome \<times> ('m, 'n, 's, 'w) world) option \<Rightarrow>
    (bool \<times> ('m, 'n, 's, 'w) world) option" where
  "relay_run S evs res = Option.bind res (\<lambda>(s, w). case s of
     Returned \<Rightarrow> Some (True, w)
   | Relay r \<Rightarrow> Option.bind (relay_loop S r evs (rl_domain r) w) (\<lambda>(ret, domain, w').
       if ret then map_option (Pair True) (teardown S r domain w') else Some (False, w')))"

definition socksTcpConn :: "('m, 'n, 's, 'w) services \<Rightarrow> AddrSpec \<Rightarrow> relay_event list \<Rightarrow> ('m, 'n, 's, 'w) world \<Rightarrow>
    (bool \<times> ('m, 'n, 's, 'w) world) option" where
  "socksTcpConn S L evs w = relay_run S evs (socks_setup S L w)"

definition httpTcpConn :: "('m, 'n, 's, 'w) services \<Rightarrow> AddrSpec \<Rightarrow> http_request \<Rightarrow> relay_event list \<Rightarrow>
    ('m, 'n, 's, 'w) world \<Rightarrow> (bool \<times> ('m, 'n, 's, 'w) world) option" where
  "httpTcpConn S L req evs w = relay_run S evs (http_setup S L req w)"

text \<open>
  \<open>handlerTcpConn\<close>: the first read decides. It returns between one byte and the size of the
  buffer, 2048; how many, \<open>n\<close>, is up to the network.
\<close>

definition first_read :: "nat \<Rightarrow> conn \<Rightarrow> (go_error + byte list) \<times> conn" where
  "first_read n c = (if inbuf c = [] then (Inl (inend c), c)
     else let k = max 1 (min n 2048) in (Inr (take k (inbuf c)), c\<lparr>inbuf := drop k (inbuf c)\<rparr>))"

definition handlerTcpConn :: "('m, 'n, 's, 'w) services \<Rightarrow> AddrSpec \<Rightarrow> nat \<Rightarrow> relay_event list \<Rightarrow>
    ('m, 'n, 's, 'w) world \<Rightarrow> (bool \<times> ('m, 'n, 's, 'w) world) option" where
  "handlerTcpConn S L n evs w = (case first_read n (w_conn w) of
     (Inl err, c) \<Rightarrow> Some (True, w\<lparr>w_conn := c\<rparr>)
   | (Inr buf, c) \<Rightarrow>
       let w1 = w\<lparr>w_conn := c\<rparr> in
       if length buf \<le> 8 then socksTcpConn S L evs w1
       else (case sv_ReadRequest S buf of
           Inl err \<Rightarrow> Some (True, w1)
         | Inr req \<Rightarrow> httpTcpConn S L req evs w1))"

section \<open>Numeric addresses\<close>

definition no_letter :: "string \<Rightarrow> bool" where
  "no_letter s \<longleftrightarrow> (\<forall>c\<in>set s. \<not> is_letter c)"

lemma no_letter_simps [simp]:
  "no_letter []" "no_letter (c # s) \<longleftrightarrow> \<not> is_letter c \<and> no_letter s"
  "no_letter (s @ t) \<longleftrightarrow> no_letter s \<and> no_letter t"
  by (auto simp: no_letter_def)

lemma not_letters [simp]:
  "\<not> is_letter CHR ''.''" "\<not> is_letter CHR '':''" "\<not> is_letter CHR ''[''" "\<not> is_letter CHR '']''"
  "\<not> is_letter CHR ''-''"
  by (simp_all add: is_letter_def in_range_def)

lemma no_domain:
  assumes "CHR ''.'' \<notin> set t \<or> no_letter t"
  shows "regexpDomain t = []"
proof (cases "find_match t")
  case (Some w)
  then obtain a b where w: "sublist w t" "w = a @ CHR ''.'' # b" "2 \<le> length b" "list_all is_letter b"
    using find_match_Some [OF Some] by (auto simp: domain_word_def)
  then have sub: "set w \<subseteq> set t" by (auto simp: sublist_def)
  obtain x where "x \<in> set b" using w(3) by (cases b) auto
  then have "x \<in> set t" "is_letter x" "CHR ''.'' \<in> set t" using w sub by (auto simp: list_all_iff)
  then show ?thesis using assms by (auto simp: no_letter_def)
qed (simp add: regexpDomain_def)

lemma digit_plain: "d < 10 \<Longrightarrow> \<not> is_letter (digit d)" "d < 10 \<Longrightarrow> digit d \<noteq> CHR ''.''"
proof -
  have ne: "(of_char (digit d) :: nat) = 48 + d" if "d < 10" for d using that by (simp add: digit_def)
  show "d < 10 \<Longrightarrow> \<not> is_letter (digit d)" using ne [of d] by (simp add: is_letter_def in_range_def)
  show "digit d \<noteq> CHR ''.''" if "d < 10"
  proof
    assume "digit d = CHR ''.''"
    then have "(of_char (digit d) :: nat) = 46" by simp
    then show False using ne [OF that] by simp
  qed
qed

lemma decimal_plain: "no_letter (decimal n) \<and> CHR ''.'' \<notin> set (decimal n)"
proof (induction n rule: decimal.induct)
  case (1 n)
  show ?case
    using 1 digit_plain [of n] digit_plain [of "n mod 10"]
    by (subst (1 2) decimal.simps) auto
qed

lemma Itoa_plain: "no_letter (Itoa i)" "CHR ''.'' \<notin> set (Itoa i)"
  by (simp_all add: Itoa_def decimal_plain)

lemma hex_digit_no_dot: "d < 16 \<Longrightarrow> hex_digit d \<noteq> CHR ''.''"
proof
  assume d: "d < 16" and e: "hex_digit d = CHR ''.''"
  have "(of_char (hex_digit d) :: nat) = (if d < 10 then 48 + d else 87 + d)" using d by (simp add: hex_digit_def)
  then show False using e by (simp split: if_splits)
qed

lemma byte_digits: "CHR ''.'' \<noteq> hex_digit (unat (b :: byte) div 16)" "CHR ''.'' \<noteq> hex_digit (unat (b :: byte) mod 16)"
  using hex_digit_no_dot [of "unat b div 16"] hex_digit_no_dot [of "unat b mod 16"] byte_bound [of b]
  by (simp_all add: less_mult_imp_div_less eq_commute [of "CHR ''.''"])

lemma hexadecimal_no_dot: "CHR ''.'' \<notin> set (hexadecimal n)"
proof (induction n rule: hexadecimal.induct)
  case (1 n)
  show ?case
  proof (cases "n < 16")
    case True
    then show ?thesis using hex_digit_no_dot [of n] unfolding hexadecimal.simps [of n] by auto
  next
    case False
    then show ?thesis using 1 hex_digit_no_dot [of "n mod 16"] unfolding hexadecimal.simps [of n] by auto
  qed
qed

lemma colon_groups_no_dot: "CHR ''.'' \<notin> set (colon_groups gs)"
  by (induction gs rule: colon_groups.induct) (simp_all add: hexadecimal_no_dot)

lemma join_dots_no_letter: "\<forall>s\<in>set ss. no_letter s \<Longrightarrow> no_letter (join_dots ss)"
  by (induction ss rule: join_dots.induct) simp_all

lemma ip4_no_letter: "no_letter (ip4_string ip)"
  unfolding ip4_string_def by (rule join_dots_no_letter) (simp add: decimal_plain)

lemma ip6_no_dot: "CHR ''.'' \<notin> set (ip6_string ip)"
  by (simp add: ip6_string_def Let_def colon_groups_no_dot split: prod.split)

lemma IP_String_plain: "CHR ''.'' \<notin> set (IP_String ip) \<or> no_letter (IP_String ip)"
proof (cases "ip = []")
  case False
  then show ?thesis
    by (cases "To4 ip")
      (auto simp: IP_String_def ip4_no_letter ip6_no_dot byte_digits)
qed (simp add: IP_String_def)

lemma JoinHostPort_plain:
  assumes "CHR ''.'' \<notin> set h \<or> no_letter h"
  shows "CHR ''.'' \<notin> set (JoinHostPort h (Itoa i)) \<or> no_letter (JoinHostPort h (Itoa i))"
  using assms Itoa_plain [of i] by (auto simp: JoinHostPort_def)

lemma numeric_no_domain: "FQDN a = [] \<Longrightarrow> regexpDomain (AddrSpec_Address a) = []"
  using JoinHostPort_plain [OF IP_String_plain, of "IP a" "Port a"] JoinHostPort_plain [of "[]" "Port a"]
  by (auto simp: AddrSpec_Address_def intro!: no_domain)

section \<open>What the operations keep\<close>

lemma op_write_keeps [simp]:
  "w_mgr (snd (op_write m w)) = w_mgr w" "w_send (snd (op_write m w)) = w_send w"
  "w_open (snd (op_write m w)) = w_open w" "w_dials (snd (op_write m w)) = w_dials w"
  "w_black (snd (op_write m w)) = w_black w" "w_redis (snd (op_write m w)) = w_redis w"
  "w_redis_err (snd (op_write m w)) = w_redis_err w"
  by (simp_all add: op_write_def split: prod.split)

lemma op_reply_keeps [simp]:
  "w_mgr (snd (op_reply b a w)) = w_mgr w" "w_send (snd (op_reply b a w)) = w_send w"
  "w_open (snd (op_reply b a w)) = w_open w" "w_dials (snd (op_reply b a w)) = w_dials w"
  "w_black (snd (op_reply b a w)) = w_black w"
  by (simp_all add: op_reply_def split: prod.split)

lemma op_dial_keeps:
  "w_mgr (snd (op_dial S a i w)) = w_mgr w" "w_send (snd (op_dial S a i w)) = w_send w"
  "w_conn (snd (op_dial S a i w)) = w_conn w" "w_dials (snd (op_dial S a i w)) = w_dials w @ [(a, i)]"
  "w_open (snd (op_dial S a i w)) = (w_open w \<or> (\<exists>l. fst (op_dial S a i w) = Inr l))"
  by (auto simp: op_dial_def split: prod.split sum.split)

lemma op_close_target_keeps [simp]:
  "w_mgr (op_close_target w) = w_mgr w" "w_send (op_close_target w) = w_send w" "\<not> w_open (op_close_target w)"
  "w_dials (op_close_target w) = w_dials w" "w_conn (op_close_target w) = w_conn w"
  by (simp_all add: op_close_target_def)

lemma op_black_log_Some:
  assumes "sendq_ok (w_send w)"
  obtains e sq where "op_black_log S u p black ip w = Some (w\<lparr>w_env := e, w_send := sq\<rparr>)" "sendq_ok sq"
proof -
  obtain unique pick e where q: "sv_unique S (w_env w) = ((unique, pick), e)" by (metis prod.exhaust)
  show ?thesis
  proof (cases "sv_black_marshal S \<lparr>Site = black, AccountType = 1, Account = u, ExitIp = p\<rparr>")
    case (Inl err)
    have "w\<lparr>w_env := e, w_send := w_send w\<rparr> = w\<lparr>w_env := e\<rparr>" by (cases w) simp
    then show ?thesis
      using that [of "w_send w" e] assms q Inl
      by (simp add: op_black_log_def SendBlackListAccessLogMessageData_def)
  next
    case (Inr bs)
    obtain sq where "SendBlackListAccessLogMessage (sv_conf S) unique pick bs (w_send w) = Some sq" "sendq_ok sq"
      using push_slice [OF assms] unfolding SendBlackListAccessLogMessage_def by blast
    then show ?thesis using that q Inr by (simp add: op_black_log_def SendBlackListAccessLogMessageData_def)
  qed
qed

lemma op_access_log_Some:
  assumes "sendq_ok (w_send w)"
  obtains e sq where "op_access_log S u d ip w = Some (w\<lparr>w_env := e, w_send := sq\<rparr>)" "sendq_ok sq"
proof -
  obtain unique pick e where q: "sv_unique S (w_env w) = ((unique, pick), e)" by (metis prod.exhaust)
  obtain sq where "ReportAccessLogToInfluxDB (sv_conf S) (sv_access_marshal S) unique pick u d ip (w_send w) = Some sq"
    "sendq_ok sq"
    using push_slice [OF assms] unfolding ReportAccessLogToInfluxDB_def SendAccessLogMessageToInfluxDB_def Let_def
    by blast
  then show ?thesis using that q by (simp add: op_access_log_def)
qed

section \<open>Handlers as sessions\<close>

text \<open>
  What the part of a set-up between \<open>AddIpConnCount\<close> and \<open>ReduceIpConnCount\<close> does to the manager
  \<open>m\<close>: nothing, and the target is closed, or one \<open>addUserConnection\<close> under the key of the relay.
\<close>

definition body_ok :: "('m, 'n, 's, 'w) services \<Rightarrow> string \<Rightarrow> ('m, 'n) manager \<Rightarrow>
    (outcome \<times> ('m, 'n, 's, 'w) world) option \<Rightarrow> bool" where
  "body_ok S ip m res \<longleftrightarrow>
     (\<exists>w'. res = Some (Returned, w') \<and> w_mgr w' = m \<and> sendq_ok (w_send w') \<and> \<not> w_open w') \<or>
     (\<exists>r w' now. res = Some (Relay r, w') \<and> rl_ip r = ip \<and>
        addUserConnection (sv_users S) now (rl_key r) m = Some (Some (rl_ctx r), w_mgr w') \<and>
        sendq_ok (w_send w') \<and> w_open w')"

definition can_add :: "('m, 'n, 's, 'w) services \<Rightarrow> ('m, 'n) manager \<Rightarrow> bool" where
  "can_add S m \<longleftrightarrow> (\<forall>now k. \<exists>p m'. addUserConnection (sv_users S) now k m = Some (Some p, m'))"

lemma body_returned: "w_mgr w' = m \<Longrightarrow> sendq_ok (w_send w') \<Longrightarrow> \<not> w_open w' \<Longrightarrow> body_ok S ip m (Some (Returned, w'))"
  by (simp add: body_ok_def)

lemma start_relay_ok:
  assumes "can_add S (w_mgr w)" "sendq_ok (w_send w)" "w_open w"
  shows "\<exists>r w' now. start_relay S L u p a d sn w = Some (Relay r, w') \<and> rl_ip r = IP_String (IP L) \<and>
    addUserConnection (sv_users S) now (rl_key r) (w_mgr w) = Some (Some (rl_ctx r), w_mgr w') \<and>
    sendq_ok (w_send w') \<and> w_open w'"
proof -
  let ?now = "sv_now S (w_env w)" and ?k = "user_key u (IP_String (IP L))"
  obtain c m' where a: "addUserConnection (sv_users S) ?now ?k (w_mgr w) = Some (Some c, m')"
    using assms(1) unfolding can_add_def by blast
  let ?r = "\<lparr>rl_user = u, rl_pwd = p, rl_ip = IP_String (IP L), rl_laddr = TCPAddr_String L, rl_key = ?k,
         rl_ctx = c, rl_addr = a, rl_domain = d, rl_sniff = sn\<rparr>"
  have "start_relay S L u p a d sn w = Some (Relay ?r, w\<lparr>w_mgr := m'\<rparr>)"
    using a by (simp add: start_relay_def op_add_user_def Let_def)
  then show ?thesis using a assms(2,3) by (intro exI [of _ ?r] exI [of _ "w\<lparr>w_mgr := m'\<rparr>"] exI [of _ ?now]) simp
qed

text \<open>Under \<open>defer_close\<close> the target may still be open when the body returns.\<close>

lemma defer_close_ok:
  assumes "(\<exists>w'. res = Some (Returned, w') \<and> w_mgr w' = m \<and> sendq_ok (w_send w')) \<or>
     (\<exists>r w' now. res = Some (Relay r, w') \<and> rl_ip r = ip \<and>
        addUserConnection (sv_users S) now (rl_key r) m = Some (Some (rl_ctx r), w_mgr w') \<and>
        sendq_ok (w_send w') \<and> w_open w')"
  shows "body_ok S ip m (defer_close res)"
  using assms
proof (elim disjE exE)
  fix w' assume "res = Some (Returned, w') \<and> w_mgr w' = m \<and> sendq_ok (w_send w')"
  then show ?thesis by (simp add: defer_close_def body_ok_def)
next
  fix r w' now assume "res = Some (Relay r, w') \<and> rl_ip r = ip \<and>
        addUserConnection (sv_users S) now (rl_key r) m = Some (Some (rl_ctx r), w_mgr w') \<and>
        sendq_ok (w_send w') \<and> w_open w'"
  then show ?thesis by (auto simp: defer_close_def body_ok_def)
qed

lemma socks_dial_ok:
  assumes "can_add S (w_mgr w)" "sendq_ok (w_send w)" "\<not> w_open w"
  shows "body_ok S (IP_String (IP L)) (w_mgr w) (socks_dial S L u p a w)"
proof -
  let ?l = "case To4 (IP L) of None \<Rightarrow> [] | Some ip4 \<Rightarrow> ip4"
  obtain x w1 where d: "op_dial S a ?l w = (x, w1)" by (cases "op_dial S a ?l w")
  have k: "w_mgr w1 = w_mgr w" "w_send w1 = w_send w" "w_open w1 \<longleftrightarrow> (\<exists>l. x = Inr l)"
    using op_dial_keeps [of S a ?l w] assms(3) by (simp_all add: d)
  show ?thesis
  proof (cases x)
    case (Inl msg)
    then show ?thesis using k assms(2) d by (simp add: socks_dial_def body_ok_def)
  next
    case (Inr loc)
    let ?bind = "\<lparr>FQDN = [], IP = IP loc, Port = Port loc\<rparr>"
    obtain e w2 where w: "op_reply SuccessReply (Some ?bind) w1 = (e, w2)"
      by (cases "op_reply SuccessReply (Some ?bind) w1")
    have k2: "w_mgr w2 = w_mgr w" "sendq_ok (w_send w2)" "w_open w2"
      using op_reply_keeps [of SuccessReply "Some ?bind" w1] k assms(2) Inr by (simp_all add: w)
    have u: "socks_dial S L u p a w = defer_close (case e of Some err \<Rightarrow> Some (Returned, w2)
        | None \<Rightarrow> start_relay S L u p a [] True w2)"
      using d Inr w by (simp add: socks_dial_def split: option.split)
    show ?thesis
    proof (cases e)
      case None
      then show ?thesis
        using start_relay_ok [of S w2 L u p a "[]" True] k2 assms(1) unfolding u
        by (intro defer_close_ok disjI2) simp
    next
      case (Some err)
      then show ?thesis unfolding u using k2 by (intro defer_close_ok disjI1) simp
    qed
  qed
qed

lemma socks_connect_ok:
  assumes "can_add S (w_mgr w)" "sendq_ok (w_send w)" "\<not> w_open w"
  shows "body_ok S (IP_String (IP L)) (w_mgr w) (socks_connect S L u p w)"
proof -
  let ?auth = "[UserAuthVersion, AuthSuccess]"
  obtain e w1 where w1: "op_write ?auth w = (e, w1)" by (cases "op_write ?auth w")
  obtain x c where d: "ReadDestAddr (w_conn w1) = (x, c)" by (cases "ReadDestAddr (w_conn w1)")
  let ?w2 = "w1\<lparr>w_conn := c\<rparr>"
  have k: "w_mgr w1 = w_mgr w" "sendq_ok (w_send w1)" "\<not> w_open w1"
    using op_write_keeps [of ?auth w] assms(2,3) by (simp_all add: w1)
  show ?thesis
  proof (cases "e \<noteq> None \<or> (\<exists>err. x = Inl err)")
    case True
    then show ?thesis
      using k by (cases e) (auto simp: socks_connect_def w1 d Let_def intro!: body_returned)
  next
    case False
    then obtain dest where x: "e = None" "x = Inr dest" by (cases x) auto
    let ?dom = "regexpDomain (AddrSpec_Address dest)"
    show ?thesis
    proof (cases "?dom = []")
      case True
      then show ?thesis
        using socks_dial_ok [of S ?w2 L u p "AddrSpec_Address dest"] assms(1) k
        by (simp add: socks_connect_def w1 d x Let_def)
    next
      case False
      obtain black isIn where b: "IsInBlacklist (w_black ?w2) ?dom = (black, isIn)"
        by (cases "IsInBlacklist (w_black ?w2) ?dom")
      have "sendq_ok (w_send ?w2)" using k by simp
      then obtain e' sq where "op_black_log S u p black (IP_String (IP L)) ?w2 = Some (?w2\<lparr>w_env := e', w_send := sq\<rparr>)"
        "sendq_ok sq"
        by (rule op_black_log_Some)
      then show ?thesis
        using False k b by (simp add: socks_connect_def w1 d x Let_def body_returned)
    qed
  qed
qed

lemma http_forward_ok:
  assumes "can_add S (w_mgr w)" "sendq_ok (w_send w)" "w_open w"
  shows "body_ok S (IP_String (IP L)) (w_mgr w) (defer_close (http_forward S L req u p a d w))"
proof (rule defer_close_ok)
  obtain e w1 where w1: "op_write reply_200 w = (e, w1)" by (cases "op_write reply_200 w")
  have k: "w_mgr w1 = w_mgr w" "sendq_ok (w_send w1)" "w_open w1"
    using op_write_keeps [of reply_200 w] assms(2,3) by (simp_all add: w1)
  note s1 = start_relay_ok [of S w1 L u p a d "d = []"]
  have s2: "\<exists>r w' now. start_relay S L u p a d False (w\<lparr>w_target := t\<rparr>) = Some (Relay r, w') \<and>
      rl_ip r = IP_String (IP L) \<and>
      addUserConnection (sv_users S) now (rl_key r) (w_mgr w) = Some (Some (rl_ctx r), w_mgr w') \<and>
      sendq_ok (w_send w') \<and> w_open w'" for t
    using start_relay_ok [of S "w\<lparr>w_target := t\<rparr>" L u p a d False] assms by simp
  show "(\<exists>w'. http_forward S L req u p a d w = Some (Returned, w') \<and> w_mgr w' = w_mgr w \<and> sendq_ok (w_send w')) \<or>
     (\<exists>r w' now. http_forward S L req u p a d w = Some (Relay r, w') \<and> rl_ip r = IP_String (IP L) \<and>
        addUserConnection (sv_users S) now (rl_key r) (w_mgr w) = Some (Some (rl_ctx r), w_mgr w') \<and>
        sendq_ok (w_send w') \<and> w_open w')"
    using s1 s2 k assms
    by (cases e) (simp_all add: http_forward_def w1 split: sum.split option.split)
qed

lemma http_connect_ok:
  assumes "can_add S (w_mgr w)" "sendq_ok (w_send w)" "\<not> w_open w"
  shows "body_ok S (IP_String (IP L)) (w_mgr w) (http_connect S L req u p w)"
proof -
  let ?a = "target_address req" let ?d = "regexpDomain ?a"
  obtain black isIn where b: "(if ?d \<noteq> [] then IsInBlacklist (w_black w) ?d else ([], False)) = (black, isIn)"
    by (metis prod.exhaust)
  obtain e sq where l: "op_black_log S u p black (IP_String (IP L)) w = Some (w\<lparr>w_env := e, w_send := sq\<rparr>)"
    "sendq_ok sq"
    by (rule op_black_log_Some [OF assms(2)])
  obtain x w1 where d: "op_dial S ?a (IP L) w = (x, w1)" by (cases "op_dial S ?a (IP L) w")
  have k: "w_mgr w1 = w_mgr w" "sendq_ok (w_send w1)" "w_open w1 \<longleftrightarrow> (\<exists>l. x = Inr l)"
    using op_dial_keeps [of S ?a "IP L" w] assms(2,3) by (simp_all add: d)
  show ?thesis
  proof (cases isIn)
    case True
    then show ?thesis using l assms(3) unfolding http_connect_def Let_def b by (simp add: body_returned)
  next
    case False
    then show ?thesis
      using http_forward_ok [of S w1 L req u p ?a ?d] k assms(1) unfolding http_connect_def Let_def b
      by (cases x) (simp_all add: d body_returned)
  qed
qed

subsection \<open>Paths of the server\<close>

lemma mreach_trans: "mreach A B P s0 s1 \<Longrightarrow> mreach A B P s1 s2 \<Longrightarrow> mreach A B P s0 s2"
  by (rotate_tac, induction rule: mreach.induct) (auto intro: mreach_step)

lemma mreach_one: "mstep A B P s s' \<Longrightarrow> mreach A B P s s'"
  by (blast intro: mreach_init mreach_step)

text \<open>
  How a set-up changes the server: the handler is refused before it is counted, or comes and goes,
  or holds its count and its context, which is then the one it relays under.
\<close>

definition session_setup :: "('m, 'n, 's, 'w) services \<Rightarrow> (NacosConfig \<Rightarrow> bool) \<Rightarrow> ('m, 'n) sys \<Rightarrow>
    (outcome \<times> ('m, 'n, 's, 'w) world) option \<Rightarrow> bool" where
  "session_setup S P s res \<longleftrightarrow> (\<exists>out w' s'. res = Some (out, w') \<and>
     mreach (sv_counts S) (sv_users S) P s s' \<and> mgr s' = w_mgr w' \<and> sendq_ok (w_send w') \<and>
     (case out of
        Returned \<Rightarrow> \<not> w_open w' \<and> sessions s' \<in> {sessions s, sessions s @ [Refused], sessions s @ [Finished]}
      | Relay r \<Rightarrow> w_open w' \<and> sessions s' = sessions s @ [Relaying (rl_ip r) (rl_key r) (rl_ctx r)]))"

context session_maps
begin

lemma good_can_add:
  assumes "good s" and "i < length (sessions s)" "sessions s ! i = Counted ip" and "sv_users S = B" "w_mgr w = mgr s"
  shows "can_add S (w_mgr w)"
  using addUserConnection_ok [OF assms(1-3)] unfolding can_add_def assms(4,5) by blast

lemma counted_session:
  assumes S: "sv_counts S = A" "sv_users S = B" and g: "good s" and len: "int (length (sessions s)) < 2 ^ 63 - 1"
    and w: "w_mgr w = mgr s" "sendq_ok (w_send w)" "\<not> w_open w"
    and body: "\<And>m. can_add S m \<Longrightarrow> body_ok S ip m (body (w\<lparr>w_mgr := m\<rparr>))"
    and refuse: "\<And>w'. w_mgr (no w') = w_mgr w' \<and> w_send (no w') = w_send w' \<and> w_open (no w') = w_open w'"
  shows "session_setup S P s (Option.bind (op_add_count S ip w) (\<lambda>((ok, ipCount), w2).
    if ok then defer_count S ip (body w2) else Some (Returned, no w2)))"
proof -
  obtain ok n m' where a: "AddIpConnCount A ip (mgr s) = Some ((ok, n), m')"
    and g1: "good (s\<lparr>mgr := m', sessions := sessions s @ [if ok then Counted ip else Refused]\<rparr>)"
    using AddIpConnCount_ok [OF g len] by blast
  let ?s1 = "s\<lparr>mgr := m', sessions := sessions s @ [if ok then Counted ip else Refused]\<rparr>"
  let ?w1 = "w\<lparr>w_mgr := m'\<rparr>"
  have r1: "mreach A B P s ?s1" using mstep.accept [OF len a] by (rule mreach_one)
  have add: "op_add_count S ip w = Some ((ok, n), ?w1)" using a w(1) S by (simp add: op_add_count_def)
  show ?thesis
  proof (cases ok)
    case False
    have "mgr ?s1 = w_mgr (no ?w1)" "sendq_ok (w_send (no ?w1))" "\<not> w_open (no ?w1)" using refuse w by simp_all
    then show ?thesis unfolding add using False r1 S
      by (auto simp: session_setup_def intro!: exI [of _ ?s1])
  next
    case True
    let ?i = "length (sessions s)"
    have i: "?i < length (sessions ?s1)" "sessions ?s1 ! ?i = Counted ip" using True by simp_all
    have c: "can_add S m'" using good_can_add [OF g1 i S(2), of ?w1] by simp
    from body [OF this] show ?thesis
      unfolding body_ok_def
    proof (elim disjE exE conjE)
      fix w' assume b: "body ?w1 = Some (Returned, w')" "w_mgr w' = m'" "sendq_ok (w_send w')" "\<not> w_open w'"
      obtain m2 where m2: "ReduceIpConnCount A ip m' = Some m2"
        using ReduceIpConnCount_ok [OF g1 i] by auto
      have "mstep A B P ?s1 (?s1\<lparr>mgr := m2, sessions := (sessions ?s1)[?i := Finished]\<rparr>)"
        by (rule mstep.leave [OF i]) (simp add: m2)
      then have "mreach A B P s (?s1\<lparr>mgr := m2, sessions := sessions s @ [Finished]\<rparr>)"
        using mreach_step [OF r1] True by simp
      then show ?thesis unfolding add using True b m2 S
        by (auto simp: session_setup_def defer_count_def op_reduce_count_def
            intro!: exI [of _ "?s1\<lparr>mgr := m2, sessions := sessions s @ [Finished]\<rparr>"])
    next
      fix r w' now assume b: "body ?w1 = Some (Relay r, w')" "rl_ip r = ip"
        "addUserConnection (sv_users S) now (rl_key r) m' = Some (Some (rl_ctx r), w_mgr w')"
        "sendq_ok (w_send w')" "w_open w'"
      have "mstep A B P ?s1 (?s1\<lparr>mgr := w_mgr w', sessions := (sessions ?s1)[?i := Relaying ip (rl_key r) (rl_ctx r)]\<rparr>)"
        by (rule mstep.start [OF i]) (use b(3) S in simp)
      then have "mreach A B P s (?s1\<lparr>mgr := w_mgr w', sessions := sessions s @ [Relaying ip (rl_key r) (rl_ctx r)]\<rparr>)"
        using mreach_step [OF r1] True by simp
      then show ?thesis unfolding add using True b S
        by (auto simp: session_setup_def defer_count_def
            intro!: exI [of _ "?s1\<lparr>mgr := w_mgr w', sessions := sessions s @ [Relaying ip (rl_key r) (rl_ctx r)]\<rparr>"])
    qed
  qed
qed

lemma not_counted_session:
  assumes "w_mgr w' = mgr s" "sendq_ok (w_send w')" "\<not> w_open w'"
  shows "session_setup S P s (Some (Returned, w'))"
  using assms by (auto simp: session_setup_def intro!: exI [of _ s] mreach_init)

lemma socks_session:
  assumes S: "sv_counts S = A" "sv_users S = B" and g: "good s" and len: "int (length (sessions s)) < 2 ^ 63 - 1"
    and w: "w_mgr w = mgr s" "sendq_ok (w_send w)" "\<not> w_open w"
  shows "session_setup S P s (socks_setup S L w)"
proof -
  obtain x c where u: "GetUserPassword (w_conn w) = (x, c)" by (cases "GetUserPassword (w_conn w)")
  let ?w1 = "w\<lparr>w_conn := c\<rparr>"
  have w1: "w_mgr ?w1 = mgr s" "sendq_ok (w_send ?w1)" "\<not> w_open ?w1" using w by simp_all
  show ?thesis
  proof (cases x)
    case (Inl err)
    then show ?thesis unfolding socks_setup_def u using w1 by (simp add: not_counted_session)
  next
    case (Inr up)
    obtain un p where up: "up = (un, p)" by (cases up)
    show ?thesis
    proof (cases "op_valid S un p (IP_String (IP L)) ?w1")
      case (Inl err)
      then show ?thesis unfolding socks_setup_def u using w1 Inr up by (simp add: not_counted_session)
    next
      case (Inr info)
      have "body_ok S (IP_String (IP L)) m (socks_connect S L un p (?w1\<lparr>w_mgr := m\<rparr>))" if "can_add S m" for m
        using socks_connect_ok [of S "?w1\<lparr>w_mgr := m\<rparr>" L un p] that w1 by simp
      from counted_session [OF S g len w1, of _ "socks_connect S L un p" "\<lambda>w. snd (op_reply ConnectionRefused None w)", OF this]
      show ?thesis unfolding socks_setup_def u using Inr \<open>x = Inr up\<close> up by (simp add: Let_def)
    qed
  qed
qed

lemma http_session:
  assumes S: "sv_counts S = A" "sv_users S = B" and g: "good s" and len: "int (length (sessions s)) < 2 ^ 63 - 1"
    and w: "w_mgr w = mgr s" "sendq_ok (w_send w)" "\<not> w_open w"
  shows "session_setup S P s (http_setup S L req w)"
proof (cases "proxy_auth req")
  case None
  then show ?thesis using w by (simp add: http_setup_def not_counted_session)
next
  case (Some up)
  obtain un p where up: "up = (un, p)" by (cases up)
  show ?thesis
  proof (cases "op_valid S un p (IP_String (IP L)) w")
    case (Inl err)
    then show ?thesis unfolding http_setup_def using w Some up by (simp add: not_counted_session)
  next
    case (Inr info)
    have "body_ok S (IP_String (IP L)) m (http_connect S L req un p (w\<lparr>w_mgr := m\<rparr>))" if "can_add S m" for m
      using http_connect_ok [of S "w\<lparr>w_mgr := m\<rparr>" L req un p] that w by simp
    from counted_session [OF S g len w, of _ "http_connect S L req un p" "\<lambda>w. snd (op_write reply_503 w)", OF this]
    show ?thesis unfolding http_setup_def using Inr Some up by (simp add: Let_def)
  qed
qed

lemma teardown_session:
  assumes S: "sv_counts S = A" "sv_users S = B" and g: "good s"
    and i: "i < length (sessions s)" "sessions s ! i = Relaying (rl_ip r) (rl_key r) (rl_ctx r)"
    and w: "w_mgr w = mgr s" "sendq_ok (w_send w)"
  shows "\<exists>w' s'. teardown S r d w = Some w' \<and> mreach A B P s s' \<and> mgr s' = w_mgr w' \<and>
    sessions s' = (sessions s)[i := Finished] \<and> \<not> w_open w' \<and> sendq_ok (w_send w')"
proof -
  have "sendq_ok (w_send (op_close_target w))" using w(2) by simp
  then obtain e sq where l: "op_access_log S (rl_user r) (logged_domain r d) (rl_laddr r) (op_close_target w) =
      Some (op_close_target w\<lparr>w_env := e, w_send := sq\<rparr>)" "sendq_ok sq"
    by (rule op_access_log_Some)
  obtain m1 where m1: "deleteUserConnection B (rl_key r) (Some (rl_ctx r)) (mgr s) = Some m1"
    and g1: "good (s\<lparr>mgr := m1, sessions := (sessions s)[i := Counted (rl_ip r)]\<rparr>)"
    using deleteUserConnection_ok [OF g i] by blast
  let ?s1 = "s\<lparr>mgr := m1, sessions := (sessions s)[i := Counted (rl_ip r)]\<rparr>"
  have r1: "mreach A B P s ?s1" using mstep.stop [OF i m1] by (rule mreach_one)
  have i1: "i < length (sessions ?s1)" "sessions ?s1 ! i = Counted (rl_ip r)" using i by simp_all
  obtain m2 where m2: "ReduceIpConnCount A (rl_ip r) m1 = Some m2"
    using ReduceIpConnCount_ok [OF g1 i1] by auto
  have "mstep A B P ?s1 (?s1\<lparr>mgr := m2, sessions := (sessions ?s1)[i := Finished]\<rparr>)"
    by (rule mstep.leave [OF i1]) (simp add: m2)
  then have "mreach A B P s (?s1\<lparr>mgr := m2, sessions := (sessions s)[i := Finished]\<rparr>)"
    using mreach_step [OF r1] by simp
  then show ?thesis
    using l m1 m2 w S
    by (auto simp: teardown_def op_delete_user_def op_reduce_count_def op_close_target_def
        intro!: exI [of _ "?s1\<lparr>mgr := m2, sessions := (sessions s)[i := Finished]\<rparr>"])
qed

end

end
