(* ===== verification/HandlerSpec.thy ===== *)
theory HandlerSpec
  imports Handlers
begin

text \<open>
  What the handlers of \<^verbatim>\<open>Handlers.thy\<close> promise: who is connected to what, that every set-up and every
  end is a path of the server of \<^verbatim>\<open>Manager.thy\<close>, what is reported, and when a relayed connection to a
  blacklisted name ends.
\<close>

section \<open>What a set-up dials\<close>

lemma op_black_log_keeps:
  "op_black_log S u p b ip w = Some w' \<Longrightarrow> w_dials w' = w_dials w \<and> w_conn w' = w_conn w \<and> w_mgr w' = w_mgr w"
  by (auto simp: op_black_log_def split: prod.splits)

lemma start_relay_keeps:
  assumes "start_relay S L u p a d sn w = Some (out, w')"
  shows "w_dials w' = w_dials w \<and> w_conn w' = w_conn w \<and>
    (\<exists>r. out = Relay r \<and> rl_user r = u \<and> rl_ip r = IP_String (IP L) \<and> rl_key r = user_key u (IP_String (IP L)) \<and>
      rl_addr r = a \<and> rl_domain r = d)"
proof -
  let ?u = "addUserConnection (sv_users S) (sv_now S (w_env w)) (user_key u (IP_String (IP L))) (w_mgr w)"
  obtain c m where "?u = Some (Some c, m)"
    using assms by (cases ?u; cases "fst (the ?u)") (auto simp: start_relay_def op_add_user_def Let_def)
  then show ?thesis using assms by (auto simp: start_relay_def op_add_user_def Let_def)
qed

lemma defer_count_dials:
  assumes "defer_count S ip res = Some (out, w')"
  shows "\<exists>w1. res = Some (out, w1) \<and> w_dials w' = w_dials w1 \<and> w_conn w' = w_conn w1"
proof -
  obtain s w1 where "res = Some (s, w1)" using assms by (cases res) (auto simp: defer_count_def)
  then show ?thesis using assms by (cases s) (auto simp: defer_count_def op_reduce_count_def)
qed

lemma defer_close_dials:
  assumes "defer_close res = Some (out, w')"
  shows "\<exists>w1. res = Some (out, w1) \<and> w_dials w' = w_dials w1 \<and> w_conn w' = w_conn w1"
proof -
  obtain s w1 where "res = Some (s, w1)" using assms by (cases res) (auto simp: defer_close_def)
  then show ?thesis using assms by (cases s) (auto simp: defer_close_def)
qed

lemma socks_dial_dials:
  assumes "socks_dial S L u p a w = Some (out, w')"
  shows "w_dials w' = w_dials w @ [(a, case To4 (IP L) of None \<Rightarrow> [] | Some ip4 \<Rightarrow> ip4)] \<and>
    (\<forall>r. out = Relay r \<longrightarrow> rl_user r = u \<and> rl_key r = user_key u (IP_String (IP L)) \<and> rl_addr r = a)"
proof -
  let ?l = "case To4 (IP L) of None \<Rightarrow> [] | Some ip4 \<Rightarrow> ip4"
  obtain x w1 where d: "op_dial S a ?l w = (x, w1)" by (cases "op_dial S a ?l w")
  have k: "w_dials w1 = w_dials w @ [(a, ?l)]" using op_dial_keeps(4) [of S a ?l w] by (simp add: d)
  show ?thesis
  proof (cases x)
    case (Inl msg)
    then show ?thesis using assms k by (auto simp: socks_dial_def d)
  next
    case (Inr loc)
    let ?b = "Some \<lparr>FQDN = [], IP = IP loc, Port = Port loc\<rparr>"
    obtain e w2 where w2: "op_reply SuccessReply ?b w1 = (e, w2)" by (cases "op_reply SuccessReply ?b w1")
    have k2: "w_dials w2 = w_dials w1" using op_reply_keeps(4) [of SuccessReply ?b w1] by (simp add: w2)
    from assms obtain w3 where
      "(case e of Some err \<Rightarrow> Some (Returned, w2) | None \<Rightarrow> start_relay S L u p a [] True w2) = Some (out, w3)"
      "w_dials w' = w_dials w3"
      using defer_close_dials by (fastforce simp: socks_dial_def d Inr w2 split: option.splits)
    then show ?thesis using k k2 start_relay_keeps [of S L u p a "[]" True w2 out w3] by (cases e) auto
  qed
qed

lemma socks_connect_dials:
  assumes "socks_connect S L u p w = Some (out, w')"
  shows "w_dials w' = w_dials w \<and> out = Returned \<or>
    (\<exists>c1 dest c2. conn_Write [UserAuthVersion, AuthSuccess] (w_conn w) = (None, c1) \<and> ReadDestAddr c1 = (Inr dest, c2) \<and>
      regexpDomain (AddrSpec_Address dest) = [] \<and>
      w_dials w' = w_dials w @ [(AddrSpec_Address dest, case To4 (IP L) of None \<Rightarrow> [] | Some ip4 \<Rightarrow> ip4)] \<and>
      (\<forall>r. out = Relay r \<longrightarrow> rl_user r = u \<and> rl_key r = user_key u (IP_String (IP L)) \<and>
         rl_addr r = AddrSpec_Address dest))"
proof -
  let ?auth = "[UserAuthVersion, AuthSuccess]"
  obtain e w1 where w1: "op_write ?auth w = (e, w1)" by (cases "op_write ?auth w")
  have k1: "w_dials w1 = w_dials w" "conn_Write ?auth (w_conn w) = (e, w_conn w1)"
    using op_write_keeps(4) [of ?auth w] w1 by (auto simp: op_write_def split: prod.splits)
  obtain x c where d: "ReadDestAddr (w_conn w1) = (x, c)" by (cases "ReadDestAddr (w_conn w1)")
  let ?w2 = "w1\<lparr>w_conn := c\<rparr>"
  show ?thesis
  proof (cases "e \<noteq> None \<or> (\<exists>err. x = Inl err)")
    case True
    then show ?thesis using assms k1(1) by (cases e) (auto simp: socks_connect_def w1 d Let_def split: if_splits)
  next
    case False
    then obtain dest where x: "e = None" "x = Inr dest" by (cases x) auto
    let ?dom = "regexpDomain (AddrSpec_Address dest)"
    show ?thesis
    proof (cases "?dom = []")
      case True
      then have "socks_dial S L u p (AddrSpec_Address dest) ?w2 = Some (out, w')"
        using assms by (simp add: socks_connect_def w1 d x Let_def)
      then show ?thesis using socks_dial_dials k1 d x True by fastforce
    next
      case False
      then show ?thesis
        using assms k1(1) op_black_log_keeps
        by (auto simp: socks_connect_def w1 d x Let_def split: prod.splits if_splits) fastforce+
    qed
  qed
qed

lemma http_forward_keeps:
  assumes "http_forward S L req u p a d w = Some (out, w')"
  shows "w_dials w' = w_dials w \<and>
    (\<forall>r. out = Relay r \<longrightarrow> rl_user r = u \<and> rl_key r = user_key u (IP_String (IP L)) \<and> rl_addr r = a)"
proof -
  obtain e w1 where w1: "op_write reply_200 w = (e, w1)" by (cases "op_write reply_200 w")
  have k: "w_dials w1 = w_dials w" using op_write_keeps(4) [of reply_200 w] by (simp add: w1)
  show ?thesis
    using assms k start_relay_keeps [of S L u p a d "d = []" w1 out w']
      start_relay_keeps [of S L u p a d False _ out w']
    by (cases e) (fastforce simp: http_forward_def w1 split: if_splits sum.splits option.splits)+
qed

lemma http_connect_dials:
  assumes "http_connect S L req u p w = Some (out, w')"
  shows "w_dials w' = w_dials w \<and> out = Returned \<or>
    (regexpDomain (target_address req) = [] \<or> \<not> snd (IsInBlacklist (w_black w) (regexpDomain (target_address req)))) \<and>
    w_dials w' = w_dials w @ [(target_address req, IP L)] \<and>
    (\<forall>r. out = Relay r \<longrightarrow> rl_user r = u \<and> rl_key r = user_key u (IP_String (IP L)) \<and>
       rl_addr r = target_address req)"
proof -
  let ?a = "target_address req" let ?d = "regexpDomain ?a"
  obtain black isIn where b: "(if ?d \<noteq> [] then IsInBlacklist (w_black w) ?d else ([], False)) = (black, isIn)"
    by (metis prod.exhaust)
  show ?thesis
  proof (cases isIn)
    case True
    then show ?thesis using assms op_black_log_keeps unfolding http_connect_def Let_def b by fastforce
  next
    case False
    obtain x w1 where d: "op_dial S ?a (IP L) w = (x, w1)" by (cases "op_dial S ?a (IP L) w")
    have k: "w_dials w1 = w_dials w @ [(?a, IP L)]" using op_dial_keeps(4) [of S ?a "IP L" w] by (simp add: d)
    have nb: "?d = [] \<or> \<not> snd (IsInBlacklist (w_black w) ?d)" using b False by (auto split: if_splits)
    show ?thesis
    proof (cases x)
      case (Inl msg)
      then show ?thesis using assms False k nb unfolding http_connect_def Let_def b by (auto simp: d)
    next
      case (Inr loc)
      then have "defer_close (http_forward S L req u p ?a ?d w1) = Some (out, w')"
        using assms False unfolding http_connect_def Let_def b by (simp add: d)
      then show ?thesis using defer_close_dials http_forward_keeps k nb by fastforce
    qed
  qed
qed

section \<open>The server around a handler\<close>

text \<open>The world of a handler in a reachable state \<open>s\<close> of the server, and at its start.\<close>

definition server_state :: "('m, 'n, 's, 'w) services \<Rightarrow> (NacosConfig \<Rightarrow> bool) \<Rightarrow> ('m, 'n) sys \<Rightarrow>
    ('m, 'n, 's, 'w) world \<Rightarrow> bool" where
  "server_state S P s w \<longleftrightarrow> w_mgr w = mgr s \<and> sendq_ok (w_send w) \<and>
     (\<exists>invA lookA invB lookB s0. session_maps (sv_counts S) invA lookA (sv_users S) invB lookB \<and>
        sys_start invA lookA invB lookB s0 \<and> mreach (sv_counts S) (sv_users S) P s0 s)"

definition server_at :: "('m, 'n, 's, 'w) services \<Rightarrow> (NacosConfig \<Rightarrow> bool) \<Rightarrow> ('m, 'n) sys \<Rightarrow>
    ('m, 'n, 's, 'w) world \<Rightarrow> bool" where
  "server_at S P s w \<longleftrightarrow> server_state S P s w \<and> \<not> w_open w \<and> int (length (sessions s)) < 2 ^ 63 - 1"

lemma server_stateE:
  assumes "server_state S P s w"
  obtains invA lookA invB lookB where "session_maps (sv_counts S) invA lookA (sv_users S) invB lookB"
    "sys_inv invA lookA invB lookB s" "w_mgr w = mgr s" "sendq_ok (w_send w)"
  using assms session_maps.mreach_inv unfolding server_state_def by blast

lemma server_sessions:
  assumes "server_at S P s w"
  shows "session_setup S P s (socks_setup S L w)" "session_setup S P s (http_setup S L req w)"
proof -
  have a: "server_state S P s w" "\<not> w_open w" "int (length (sessions s)) < 2 ^ 63 - 1"
    using assms by (simp_all add: server_at_def)
  obtain invA lookA invB lookB where m: "session_maps (sv_counts S) invA lookA (sv_users S) invB lookB"
    "sys_inv invA lookA invB lookB s" "w_mgr w = mgr s" "sendq_ok (w_send w)"
    by (rule server_stateE [OF a(1)])
  show "session_setup S P s (socks_setup S L w)"
    by (rule session_maps.socks_session [OF m(1) refl refl m(2) a(3) m(3,4) a(2)])
  show "session_setup S P s (http_setup S L req w)"
    by (rule session_maps.http_session [OF m(1) refl refl m(2) a(3) m(3,4) a(2)])
qed

text \<open>Whether one more connection to an address is let in.\<close>

definition has_room :: "('m, 'n) sys \<Rightarrow> string \<Rightarrow> bool" where
  "has_room s ip \<longleftrightarrow> live (sessions s) ip = 0 \<or> OneIpMaxConn (nacosConfig (mgr s)) = 0 \<or>
     int (live (sessions s) ip) < OneIpMaxConn (nacosConfig (mgr s))"

lemma server_count:
  assumes "server_at S P s w"
  obtains n m where "AddIpConnCount (sv_counts S) ip (w_mgr w) = Some ((has_room s ip, n), m)"
    "has_room s ip \<Longrightarrow> can_add S m"
proof -
  have a: "server_state S P s w" "\<not> w_open w" "int (length (sessions s)) < 2 ^ 63 - 1"
    using assms by (simp_all add: server_at_def)
  obtain invA lookA invB lookB where m: "session_maps (sv_counts S) invA lookA (sv_users S) invB lookB"
    "sys_inv invA lookA invB lookB s" "w_mgr w = mgr s" "sendq_ok (w_send w)"
    by (rule server_stateE [OF a(1)])
  obtain n m' where m': "AddIpConnCount (sv_counts S) ip (mgr s) = Some ((has_room s ip, n), m')"
    "sys_inv invA lookA invB lookB (s\<lparr>mgr := m', sessions := sessions s @ [if has_room s ip then Counted ip else Refused]\<rparr>)"
    using session_maps.AddIpConnCount_ok [OF m(1,2) a(3), of ip] unfolding has_room_def by auto
  have "can_add S m'" if "has_room s ip"
    using session_maps.good_can_add [OF m(1) m'(2), of "length (sessions s)" ip S "w\<lparr>w_mgr := m'\<rparr>"] that by simp
  with that m'(1) m(3) show ?thesis by simp
qed

section \<open>Reports and the relay loop\<close>

text \<open>The messages in the report queues.\<close>

definition report_msgs :: "sendq \<Rightarrow> RabbitMqData multiset" where
  "report_msgs sq = mset (concat (slice_msgs sq))"

lemma push_report:
  assumes "sendq_ok sq"
  obtains sq' where "pushRabbitmqSendQueue pick d sq = Some sq'" "sendq_ok sq'" "report_msgs sq' = add_mset d (report_msgs sq)"
proof -
  let ?i = "slice_index (rabbitmqSendQueueSlicesCounter sq + 1)"
  obtain sq' where sq': "pushRabbitmqSendQueue pick d sq = Some sq'" "sendq_ok sq'"
    "slice_msgs sq' = (slice_msgs sq)[?i := slice_msgs sq ! ?i @ [d]]"
    using push_slice [OF assms] by blast
  have i: "?i < length (slice_msgs sq)" using assms by (simp add: sendq_ok_def slice_msgs_def)
  have "mset (concat (xss[j := xss ! j @ [d]])) = add_mset d (mset (concat xss))" if "j < length xss"
    for j and xss :: "RabbitMqData list list"
    using that by (induction xss arbitrary: j) (auto split: nat.split)
  with that sq' i show ?thesis by (simp add: report_msgs_def)
qed

text \<open>The report of a blacklisted name: the field \<open>ExitIp\<close> gets the password.\<close>

definition black_report :: "('m, 'n, 's, 'w) services \<Rightarrow> relay \<Rightarrow> string \<Rightarrow> string \<Rightarrow> RabbitMqData multiset" where
  "black_report S r black unique =
    (case sv_black_marshal S \<lparr>Site = black, AccountType = 1, Account = rl_user r, ExitIp = rl_pwd r\<rparr> of
       Inl err \<Rightarrow> {#}
     | Inr body \<Rightarrow> {#GetRabbitMqDataFormat [] [] (BlacklistAccesslogQueue (sv_conf S)) [] body unique#})"

definition access_report :: "('m, 'n, 's, 'w) services \<Rightarrow> relay \<Rightarrow> string \<Rightarrow> string \<Rightarrow> RabbitMqData multiset" where
  "access_report S r domain unique =
    {#GetRabbitMqDataFormat [] [] (AccesslogToInfluxDBQueue (sv_conf S)) []
       (case sv_access_marshal S \<lparr>UserName = rl_user r, Domain = domain, Ip = rl_laddr r, ProxyType = ''ipv4''\<rparr> of
          Inr bs \<Rightarrow> bs | Inl err \<Rightarrow> []) unique#}"

lemma op_black_log_report:
  assumes "sendq_ok (w_send w)"
  obtains e sq unique where "op_black_log S (rl_user r) (rl_pwd r) black ip w = Some (w\<lparr>w_env := e, w_send := sq\<rparr>)"
    "sendq_ok sq" "report_msgs sq = report_msgs (w_send w) + black_report S r black unique"
proof -
  obtain unique pick e where q: "sv_unique S (w_env w) = ((unique, pick), e)" by (metis prod.exhaust)
  show ?thesis
  proof (cases "sv_black_marshal S \<lparr>Site = black, AccountType = 1, Account = rl_user r, ExitIp = rl_pwd r\<rparr>")
    case (Inl err)
    have "w\<lparr>w_env := e, w_send := w_send w\<rparr> = w\<lparr>w_env := e\<rparr>" by (cases w) simp
    then show ?thesis
      using that [where e = e and sq = "w_send w"] assms q Inl
      by (simp add: op_black_log_def SendBlackListAccessLogMessageData_def black_report_def)
  next
    case (Inr bs)
    obtain sq where "SendBlackListAccessLogMessage (sv_conf S) unique pick bs (w_send w) = Some sq" "sendq_ok sq"
      "report_msgs sq = add_mset (GetRabbitMqDataFormat [] [] (BlacklistAccesslogQueue (sv_conf S)) [] bs unique) (report_msgs (w_send w))"
      using push_report [OF assms] unfolding SendBlackListAccessLogMessage_def by blast
    then show ?thesis
      using that [where e = e and sq = sq and unique = unique] q Inr by (simp add: op_black_log_def SendBlackListAccessLogMessageData_def black_report_def)
  qed
qed

lemma op_access_log_report:
  assumes "sendq_ok (w_send w)"
  obtains e sq unique where "op_access_log S (rl_user r) d (rl_laddr r) w = Some (w\<lparr>w_env := e, w_send := sq\<rparr>)"
    "sendq_ok sq" "report_msgs sq = report_msgs (w_send w) + access_report S r d unique"
proof -
  obtain unique pick e where q: "sv_unique S (w_env w) = ((unique, pick), e)" by (metis prod.exhaust)
  let ?body = "case sv_access_marshal S \<lparr>UserName = rl_user r, Domain = d, Ip = rl_laddr r, ProxyType = ''ipv4''\<rparr> of
    Inr bs \<Rightarrow> bs | Inl err \<Rightarrow> []"
  obtain sq where "pushRabbitmqSendQueue pick (GetRabbitMqDataFormat [] [] (AccesslogToInfluxDBQueue (sv_conf S)) [] ?body unique)
      (w_send w) = Some sq" "sendq_ok sq"
    "report_msgs sq = add_mset (GetRabbitMqDataFormat [] [] (AccesslogToInfluxDBQueue (sv_conf S)) [] ?body unique) (report_msgs (w_send w))"
    by (rule push_report [OF assms])
  then show ?thesis
    using that [where e = e and sq = sq and unique = unique] q
    by (simp add: op_access_log_def ReportAccessLogToInfluxDB_def SendAccessLogMessageToInfluxDB_def access_report_def Let_def)
qed

lemma relay_loop_append:
  "relay_loop S r (evs @ evs') d w = (case relay_loop S r evs d w of
     None \<Rightarrow> None
   | Some (ret, d', w') \<Rightarrow> if ret then Some (True, d', w') else relay_loop S r evs' d' w')"
proof (induction evs arbitrary: d w)
  case (Cons ev evs)
  then show ?case by (cases ev) (auto split: option.split)
qed simp

lemma relay_loop_sendq:
  "relay_loop S r evs d w = Some (ret, d', w') \<Longrightarrow> sendq_ok (w_send w) \<Longrightarrow> sendq_ok (w_send w') \<and> w_mgr w' = w_mgr w"
proof (induction evs arbitrary: d w)
  case (Cons ev evs)
  show ?case
  proof (cases ev)
    case Tick
    obtain e sq where "op_black_log S (rl_user r) (rl_pwd r) (fst (IsInBlacklist (w_black w) d)) (rl_ip r) w =
      Some (w\<lparr>w_env := e, w_send := sq\<rparr>)" "sendq_ok sq" by (rule op_black_log_Some [OF Cons.prems(2)])
    then show ?thesis using Cons Tick by (auto split: if_splits)
  next
    case (NewBlackMap keys)
    then show ?thesis using Cons.IH [of d "w\<lparr>w_black := SetBlackMap keys (w_black w)\<rparr>"] Cons.prems by simp
  qed (use Cons in \<open>auto split: if_splits option.splits\<close>)
qed simp

lemma blacklist_entry:
  assumes "snd (IsInBlacklist (Some keys) d)"
  shows "fst (IsInBlacklist (Some keys) d) \<in> set keys \<and> sublist (fst (IsInBlacklist (Some keys) d)) d"
  using assms by (auto simp: IsInBlacklist_def go_Contains_sublist find_Some_iff find_None_iff split: option.splits)

section \<open>What a set-up does while the writes to the client succeed\<close>

text \<open>The ten bytes of a reply without an address.\<close>

definition refusal :: "byte \<Rightarrow> byte list" where
  "refusal resp = [socks5Version, resp, 0, ipv4Address, 0, 0, 0, 0, 0, 0]"

lemma op_reply_refusal:
  "werr (w_conn w) = [] \<Longrightarrow> op_reply resp None w =
    (None, w\<lparr>w_conn := (w_conn w)\<lparr>written := written (w_conn w) @ [refusal resp]\<rparr>\<rparr>)"
  by (simp add: op_reply_def SendReply_def reply_addr_def conn_Write_ok refusal_def port_bytes_def)

lemma op_write_ok:
  "werr (w_conn w) = [] \<Longrightarrow> op_write m w =
    (None, w\<lparr>w_conn := (w_conn w)\<lparr>written := written (w_conn w) @ [m]\<rparr>\<rparr>)"
  by (simp add: op_write_def conn_Write_ok)

text \<open>The connection after a well-formed authentication message, and after the request.\<close>

lemma auth_read:
  assumes "inbuf c = auth_msg u p @ rest" "length u \<le> 255" "length p \<le> 255" "write_answer c = None"
  shows "GetUserPassword c =
    (Inr (u, p), c\<lparr>inbuf := rest, werr := tl (werr c), written := written c @ [[socks5Version, UserPassAuth]]\<rparr>)"
  using assms by (simp add: GetUserPassword_iff)

lemma dest_read:
  assumes "inbuf c = [socks5Version, cmd, rsv] @ dest_bytes a @ rest" "dest_ok a"
  shows "ReadDestAddr c = (Inr a, c\<lparr>inbuf := rest\<rparr>)"
  using assms by (simp add: ReadDestAddr_iff)

text \<open>The end of a set-up that was counted and returns.\<close>

lemma server_reduce:
  assumes "server_at S P s w" "socks_setup S L w = defer_count S ip res" "res = Some (Returned, w1)"
  obtains m where "socks_setup S L w = Some (Returned, w1\<lparr>w_mgr := m\<rparr>)"
proof -
  have "\<exists>out w'. socks_setup S L w = Some (out, w')"
    using server_sessions(1) [OF assms(1)] unfolding session_setup_def by blast
  then show ?thesis using that assms(2,3)
    by (auto simp: defer_count_def op_reduce_count_def)
qed

text \<open>A client that was let in, up to the destination.\<close>

lemma setup_to_connect:
  assumes "GetUserPassword (w_conn w) = (Inr (u, p), c)" "op_valid S u p (IP_String (IP L)) w = Inr info"
    and "AddIpConnCount (sv_counts S) (IP_String (IP L)) (w_mgr w) = Some ((True, n), m)"
  shows "socks_setup S L w = defer_count S (IP_String (IP L)) (socks_connect S L u p (w\<lparr>w_conn := c, w_mgr := m\<rparr>))"
proof -
  have "op_valid S u p (IP_String (IP L)) (w\<lparr>w_conn := c\<rparr>) = Inr info" using assms(2) by (simp add: op_valid_def)
  then show ?thesis using assms(1,3) by (simp add: socks_setup_def op_add_count_def)
qed

definition at_destination :: "('m, 'n, 's, 'w) services \<Rightarrow> AddrSpec \<Rightarrow> string \<Rightarrow> string \<Rightarrow> AddrSpec \<Rightarrow>
    ('m, 'n, 's, 'w) world \<Rightarrow> (outcome \<times> ('m, 'n, 's, 'w) world) option" where
  "at_destination S L u p dest w =
    (let addr = AddrSpec_Address dest; domain = regexpDomain addr
     in if domain \<noteq> [] then
          (case IsInBlacklist (w_black w) domain of (black, isIn) \<Rightarrow>
             if isIn then map_option (\<lambda>w'. (Returned, snd (op_reply HostUnreachable None w')))
               (op_black_log S u p black (IP_String (IP L)) w)
             else Some (Returned, w))
        else socks_dial S L u p addr w)"

lemma connect_to_destination:
  assumes "conn_Write [UserAuthVersion, AuthSuccess] (w_conn w) = (None, c1)" "ReadDestAddr c1 = (Inr dest, c)"
  shows "socks_connect S L u p w = at_destination S L u p dest (w\<lparr>w_conn := c\<rparr>)"
  using assms by (simp add: socks_connect_def at_destination_def op_write_def Let_def)

lemma connect_unread:
  assumes "conn_Write [UserAuthVersion, AuthSuccess] (w_conn w) = (None, c1)" "ReadDestAddr c1 = (Inl err, c)"
  shows "socks_connect S L u p w = Some (Returned, if err = UnrecognizedAddrType
    then snd (op_reply AddrTypeNotSupported None (w\<lparr>w_conn := c\<rparr>)) else w\<lparr>w_conn := c\<rparr>)"
  using assms by (simp add: socks_connect_def op_write_def Let_def)

definition greeted :: "byte list \<Rightarrow> conn \<Rightarrow> conn" where
  "greeted rest c = c\<lparr>inbuf := rest,
     written := written c @ [[socks5Version, UserPassAuth], [UserAuthVersion, AuthSuccess]]\<rparr>"

lemma socks_setup_auth:
  assumes "inbuf (w_conn w) = auth_msg u p @ [socks5Version, cmd, rsv] @ dest_bytes dest @ rest"
    and "length u \<le> 255" and "length p \<le> 255" and "dest_ok dest" and "werr (w_conn w) = []"
    and "op_valid S u p (IP_String (IP L)) w = Inr info"
    and "AddIpConnCount (sv_counts S) (IP_String (IP L)) (w_mgr w) = Some ((True, n), m)"
  shows "socks_setup S L w = defer_count S (IP_String (IP L))
    (at_destination S L u p dest (w\<lparr>w_mgr := m, w_conn := greeted rest (w_conn w)\<rparr>))"
proof -
  define c1 where "c1 = (w_conn w)\<lparr>inbuf := [socks5Version, cmd, rsv] @ dest_bytes dest @ rest,
    written := written (w_conn w) @ [[socks5Version, UserPassAuth]]\<rparr>"
  define c2 where "c2 = c1\<lparr>written := written c1 @ [[UserAuthVersion, AuthSuccess]]\<rparr>"
  have "write_answer (w_conn w) = None" "(w_conn w)\<lparr>werr := tl (werr (w_conn w))\<rparr> = w_conn w"
    using assms(5) by (simp_all add: write_answer_def)
  then have g: "GetUserPassword (w_conn w) = (Inr (u, p), c1)"
    using auth_read [OF assms(1-3)] assms(5) by (cases "w_conn w") (simp add: c1_def)
  have o: "conn_Write [UserAuthVersion, AuthSuccess] c1 = (None, c2)"
    using assms(5) by (simp add: conn_Write_ok c1_def c2_def)
  have d: "ReadDestAddr c2 = (Inr dest, c2\<lparr>inbuf := rest\<rparr>)"
    using assms(4) dest_read [of c2 cmd rsv dest rest] by (simp add: c1_def c2_def)
  have e: "c2\<lparr>inbuf := rest\<rparr> = greeted rest (w_conn w)" by (simp add: c1_def c2_def greeted_def)
  have "socks_setup S L w = defer_count S (IP_String (IP L)) (socks_connect S L u p (w\<lparr>w_conn := c1, w_mgr := m\<rparr>))"
    by (rule setup_to_connect [OF g assms(6,7)])
  also have "socks_connect S L u p (w\<lparr>w_conn := c1, w_mgr := m\<rparr>) =
      at_destination S L u p dest (w\<lparr>w_conn := c1, w_mgr := m, w_conn := greeted rest (w_conn w)\<rparr>)"
    using connect_to_destination [of "w\<lparr>w_conn := c1, w_mgr := m\<rparr>" c2 dest "greeted rest (w_conn w)" S L u p] o d e by simp
  finally show ?thesis by simp
qed

text \<open>A target that accepts, and whose connection is bound to an IPv4 or IPv6 address.\<close>

definition bound_reply :: "AddrSpec \<Rightarrow> byte list" where
  "bound_reply loc = [socks5Version, SuccessReply, 0] @
     (case To4 (IP loc) of Some ip4 \<Rightarrow> ipv4Address # ip4 | None \<Rightarrow> ipv6Address # IP loc) @ port_bytes (Port loc)"

lemma op_reply_bound:
  assumes "werr (w_conn w) = []" "length (IP loc) = 4 \<or> length (IP loc) = 16"
  shows "op_reply SuccessReply (Some \<lparr>FQDN = [], IP = IP loc, Port = Port loc\<rparr>) w =
    (None, w\<lparr>w_conn := (w_conn w)\<lparr>written := written (w_conn w) @ [bound_reply loc]\<rparr>\<rparr>)"
  using assms by (auto simp: op_reply_def SendReply_def reply_addr_def To4_def To16_def conn_Write_ok bound_reply_def)

lemma op_reply_unbound:
  assumes "length (IP loc) \<noteq> 4" "length (IP loc) \<noteq> 16"
  shows "\<exists>err. op_reply SuccessReply (Some \<lparr>FQDN = [], IP = IP loc, Port = Port loc\<rparr>) w = (Some err, w)"
  using assms by (simp add: op_reply_def SendReply_def reply_addr_def To4_def To16_def)

lemma dial_served:
  assumes "sv_dial S addr (case To4 (IP L) of None \<Rightarrow> [] | Some ip4 \<Rightarrow> ip4) (w_env w) = (Inr loc, e)"
    and "werr (w_conn w) = []" "length (IP loc) = 4 \<or> length (IP loc) = 16" "can_add S (w_mgr w)"
  obtains r m where "socks_dial S L u p addr w = Some (Relay r, w\<lparr>w_env := e, w_open := True,
      w_dials := w_dials w @ [(addr, case To4 (IP L) of None \<Rightarrow> [] | Some ip4 \<Rightarrow> ip4)], w_mgr := m,
      w_conn := (w_conn w)\<lparr>written := written (w_conn w) @ [bound_reply loc]\<rparr>\<rparr>)"
    "rl_user r = u" "rl_key r = user_key u (IP_String (IP L))" "rl_addr r = addr"
proof -
  let ?l = "case To4 (IP L) of None \<Rightarrow> [] | Some ip4 \<Rightarrow> ip4"
  define w1 where "w1 = w\<lparr>w_env := e, w_dials := w_dials w @ [(addr, ?l)], w_open := True\<rparr>"
  define w2 where "w2 = w1\<lparr>w_conn := (w_conn w)\<lparr>written := written (w_conn w) @ [bound_reply loc]\<rparr>\<rparr>"
  have d: "op_dial S addr ?l w = (Inr loc, w1)" using assms(1) by (simp add: op_dial_def w1_def)
  have r: "op_reply SuccessReply (Some \<lparr>FQDN = [], IP = IP loc, Port = Port loc\<rparr>) w1 = (None, w2)"
    using op_reply_bound [OF _ assms(3), of w1] assms(2) by (simp add: w1_def w2_def)
  have "\<exists>c m. addUserConnection (sv_users S) (sv_now S (w_env w2)) (user_key u (IP_String (IP L))) (w_mgr w2) = Some (Some c, m)"
    using assms(4) unfolding can_add_def w1_def w2_def by simp
  then obtain c m where a: "op_add_user S (user_key u (IP_String (IP L))) w2 = Some (Some c, w2\<lparr>w_mgr := m\<rparr>)"
    by (auto simp: op_add_user_def)
  show ?thesis
  proof (rule that)
    show "socks_dial S L u p addr w = Some (Relay \<lparr>rl_user = u, rl_pwd = p, rl_ip = IP_String (IP L), rl_laddr = TCPAddr_String L,
         rl_key = user_key u (IP_String (IP L)), rl_ctx = c, rl_addr = addr, rl_domain = [], rl_sniff = True\<rparr>,
      w\<lparr>w_env := e, w_open := True,
      w_dials := w_dials w @ [(addr, ?l)], w_mgr := m,
      w_conn := (w_conn w)\<lparr>written := written (w_conn w) @ [bound_reply loc]\<rparr>\<rparr>)"
      using d r a by (cases w) (simp add: socks_dial_def start_relay_def defer_close_def Let_def w1_def w2_def)
  qed simp_all
qed

section \<open>A server to try it on\<close>

text \<open>
  The repository's maps, one user \<open>u\<close> with password \<open>p\<close> for 10.0.0.1, a network that connects
  everything, from port 7 of 10.0.0.1.
\<close>

definition demo_info :: AuthInfo where
  "demo_info = \<lparr>Username = ''u'', Password = ''p'', ProxyUsername = [], ProxyPassword = [], S5Addr = [],
     HttpAddr = [], UpdateUnix = 0, Ips = []\<rparr>"

definition demo_services :: "((string, ptr) cmap, (string, ptr) cmap, string \<rightharpoonup> redis_value, unit) services" where
  "demo_services = \<lparr>sv_counts = repo_api, sv_users = repo_api, sv_redis = redis_store, sv_json = (\<lambda>_. Inr demo_info),
     sv_dial = (\<lambda>_ _ e. (Inr \<lparr>FQDN = [], IP = [10, 0, 0, 1], Port = 7\<rparr>, e)), sv_unique = (\<lambda>e. ((''m'', Some 0), e)),
     sv_now = (\<lambda>_. 0), sv_conf = \<lparr>AccesslogToInfluxDBQueue = ''a'', BlacklistAccesslogQueue = ''b''\<rparr>,
     sv_black_marshal = (\<lambda>_. Inr [1]), sv_access_marshal = (\<lambda>_. Inr [2]), sv_hello = documented_cryptobyte,
     sv_ReadRequest = demo_ReadRequest, sv_req_Write = (\<lambda>_. Inr [3])\<rparr>"

definition demo_conf :: NacosConfig where
  "demo_conf = \<lparr>LimitedReader_ReadRate = 0, LimitedReader_ReadBurst = 0, OneIpMaxConn = 2\<rparr>"

definition demo_world :: "string list \<Rightarrow> byte list \<Rightarrow>
    ((string, ptr) cmap, (string, ptr) cmap, string \<rightharpoonup> redis_value, unit) world" where
  "demo_world black input = \<lparr>w_mgr = mgr (repo_start demo_conf),
     w_redis = [strKey ''u'' \<mapsto> RString ''{}'', setKey ''u'' \<mapsto> RSet {''10.0.0.1''}], w_redis_err = None,
     w_black = SetBlackMap black None, w_send = initRabbitmqSendQueueSlices,
     w_conn = \<lparr>inbuf = input, inend = EOF, written = [], werr = []\<rparr>, w_env = (), w_dials = [],
     w_open = False, w_target = [], w_target_err = None\<rparr>"

definition demo_local :: AddrSpec where
  "demo_local = \<lparr>FQDN = [], IP = [10, 0, 0, 1], Port = 1080\<rparr>"

definition demo_dest :: AddrSpec where
  "demo_dest = \<lparr>FQDN = [], IP = [93, 184, 216, 34], Port = 80\<rparr>"

definition demo_hello :: "AddrSpec \<Rightarrow> byte list" where
  "demo_hello dest = auth_msg ''u'' ''p'' @ [socks5Version, 1, 0] @ dest_bytes dest"

lemma demo_ip: "IP_String (IP demo_local) = ''10.0.0.1''"
  by code_simp

lemma demo_valid: "op_valid demo_services ''u'' ''p'' ''10.0.0.1'' (demo_world b i) = Inr demo_info"
  by (simp add: op_valid_def Valid_def demo_services_def demo_world_def redis_store_def demo_info_def pipe_Exec_def
      strKey_def setKey_def sum_error_def Let_def)

lemma demo_valid_info: "op_valid demo_services u p ip w = Inr info \<Longrightarrow> info = demo_info"
  by (auto simp: op_valid_def Valid_def demo_services_def Let_def split: sum.splits prod.splits if_splits option.splits)

lemma demo_server: "server_at demo_services P (repo_start demo_conf) (demo_world b i)"
proof -
  have "server_state demo_services P (repo_start demo_conf) (demo_world b i)"
    unfolding server_state_def
    by (intro exI [of _ cmap_inv] exI [of _ cm_lookup] exI [of _ "repo_start demo_conf"] conjI repo_start_ok mreach_init)
      (simp_all add: demo_services_def repo.session_maps_axioms demo_world_def sendq_init(1))
  then show ?thesis by (simp add: server_at_def demo_world_def repo_start_def)
qed

lemma demo_fields [simp]:
  "w_conn (demo_world b i) = \<lparr>inbuf = i, inend = EOF, written = [], werr = []\<rparr>" "w_dials (demo_world b i) = []"
  "w_env (demo_world b i) = ()" "w_black (demo_world b i) = SetBlackMap b None" "\<not> w_open (demo_world b i)"
  "sv_dial demo_services a ip e = (Inr \<lparr>FQDN = [], IP = [10, 0, 0, 1], Port = 7\<rparr>, e)"
  "FQDN demo_dest = []" "dest_ok demo_dest"
  by (simp_all add: demo_world_def demo_services_def demo_dest_def dest_ok_def)

lemma demo_live: "live (sessions (repo_start demo_conf)) ip = 0" "OneIpMaxConn (nacosConfig (mgr (repo_start demo_conf))) = 2"
  by (simp_all add: live_def repo_start_def demo_conf_def)

text \<open>A request of this user.\<close>

definition demo_request :: "string \<Rightarrow> string \<Rightarrow> http_request" where
  "demo_request m h = \<lparr>Method = m, Host = h, Header = [(''Proxy-Authorization'', ''Basic dTpw'')]\<rparr>"

lemma demo_auth: "proxy_auth (demo_request m h) = Some (''u'', ''p'')"
proof -
  have "DecodeString (remove_first ''Basic '' ''Basic dTpw'') = Some (bytes_of ''u:p'')" by code_simp
  moreover have "split_colon ''u:p'' = [''u'', ''p'']" by code_simp
  ultimately show ?thesis by (simp add: proxy_auth_def demo_request_def Header_Get_def Let_def)
qed

lemma demo_setups:
  obtains out w' where "socks_setup demo_services L (demo_world b i) = Some (out, w')"
  using server_sessions(1) [OF demo_server [of "\<lambda>_. True" b i], of L] unfolding session_setup_def by blast

lemma demo_http_setups:
  obtains out w' where "http_setup demo_services L req (demo_world b i) = Some (out, w')"
  using server_sessions(2) [OF demo_server [of "\<lambda>_. True" b i], of L req] unfolding session_setup_def by blast

section \<open>Properties\<close>

text \<open>C5: A SOCKS client is connected only after it was let in: a set-up that dials, or that relays, has
  read a user and password that \<open>Valid\<close> accepts for the listening address, was counted for that
  address, and read a destination without a domain name in it; it dials that destination, once, from
  that address, and relays under that user's key.\<close>

theorem socks_admission:
  assumes "socks_setup S L w = Some (out, w')" and "w_dials w' \<noteq> w_dials w \<or> out \<noteq> Returned"
  shows "\<exists>u p c info n m c1 dest c2. GetUserPassword (w_conn w) = (Inr (u, p), c) \<and>
    op_valid S u p (IP_String (IP L)) w = Inr info \<and>
    AddIpConnCount (sv_counts S) (IP_String (IP L)) (w_mgr w) = Some ((True, n), m) \<and>
    conn_Write [UserAuthVersion, AuthSuccess] c = (None, c1) \<and> ReadDestAddr c1 = (Inr dest, c2) \<and>
    regexpDomain (AddrSpec_Address dest) = [] \<and>
    w_dials w' = w_dials w @ [(AddrSpec_Address dest, case To4 (IP L) of None \<Rightarrow> [] | Some ip4 \<Rightarrow> ip4)] \<and>
    (\<forall>r. out = Relay r \<longrightarrow> rl_user r = u \<and> rl_key r = user_key u (IP_String (IP L)) \<and>
       rl_addr r = AddrSpec_Address dest)"
proof -
  let ?ip = "IP_String (IP L)"
  obtain x c where g: "GetUserPassword (w_conn w) = (x, c)" by (cases "GetUserPassword (w_conn w)")
  let ?w1 = "w\<lparr>w_conn := c\<rparr>"
  have v1: "op_valid S u p ?ip ?w1 = op_valid S u p ?ip w" for u p by (simp add: op_valid_def)
  obtain u p where x: "x = Inr (u, p)"
    using assms by (cases x) (auto simp: socks_setup_def g)
  obtain info where v: "op_valid S u p ?ip w = Inr info"
    using assms by (cases "op_valid S u p ?ip w") (auto simp: socks_setup_def g x v1 Let_def)
  obtain ok n m where a: "AddIpConnCount (sv_counts S) ?ip (w_mgr w) = Some ((ok, n), m)"
    using assms(1) by (auto simp: socks_setup_def g x v1 v Let_def op_add_count_def bind_eq_Some_conv)
  have ok: "ok"
  proof (rule ccontr)
    assume "\<not> ok"
    then show False using assms by (auto simp: socks_setup_def g x v1 v Let_def op_add_count_def a)
  qed
  let ?w2 = "?w1\<lparr>w_mgr := m\<rparr>"
  have "defer_count S ?ip (socks_connect S L u p ?w2) = Some (out, w')"
    using assms(1) ok by (simp add: socks_setup_def g x v1 v Let_def op_add_count_def a)
  then obtain w3 where "socks_connect S L u p ?w2 = Some (out, w3)" "w_dials w' = w_dials w3"
    using defer_count_dials by blast
  then show ?thesis
    using socks_connect_dials [of S L u p ?w2 out w3] assms(2) g x v a ok by fastforce
qed

lemma demo_served:
  obtains r w' where "socks_setup demo_services demo_local (demo_world b (demo_hello demo_dest)) = Some (Relay r, w')"
    "map fst (w_dials w') = [''93.184.216.34:80'']" "rl_user r = ''u''"
    "written (w_conn w') = [[5, 2], [1, 0], [5, 0, 0, 1, 10, 0, 0, 1, 0, 7]]"
proof -
  let ?w = "demo_world b (demo_hello demo_dest)" and ?ip = "IP_String (IP demo_local)" and ?loc = "\<lparr>FQDN = [], IP = [10, 0, 0, 1], Port = 7\<rparr>"
  have "has_room (repo_start demo_conf) ?ip" by (simp add: has_room_def demo_live)
  then obtain n m where m: "AddIpConnCount (sv_counts demo_services) ?ip (w_mgr ?w) = Some ((True, n), m)" "can_add demo_services m"
    using server_count [OF demo_server [of "\<lambda>_. True" b "demo_hello demo_dest"], of ?ip] by (metis (full_types))
  define w1 where "w1 = ?w\<lparr>w_mgr := m, w_conn := greeted [] (w_conn ?w)\<rparr>"
  have st: "socks_setup demo_services demo_local ?w = defer_count demo_services ?ip
      (at_destination demo_services demo_local ''u'' ''p'' demo_dest w1)"
    unfolding w1_def
    by (rule socks_setup_auth [of _ _ _ 1 0 _ _ _ _ demo_info, OF _ _ _ _ _ _ m(1)]) (simp_all add: demo_hello_def demo_ip demo_valid)
  have a: "AddrSpec_Address demo_dest = ''93.184.216.34:80''" "regexpDomain ''93.184.216.34:80'' = []" by code_simp+
  have d: "sv_dial demo_services ''93.184.216.34:80'' (case To4 (IP demo_local) of None \<Rightarrow> [] | Some ip4 \<Rightarrow> ip4) (w_env w1) = (Inr ?loc, ())"
    "werr (w_conn w1) = []" "length (IP ?loc) = 4 \<or> length (IP ?loc) = 16" "can_add demo_services (w_mgr w1)"
    using m(2) by (simp_all add: w1_def greeted_def)
  from dial_served [OF d, of "''u''" "''p''"] obtain r m' where "socks_dial demo_services demo_local ''u'' ''p'' ''93.184.216.34:80'' w1 = Some (Relay r, w1\<lparr>w_env := (), w_open := True,
      w_dials := w_dials w1 @ [(''93.184.216.34:80'', case To4 (IP demo_local) of None \<Rightarrow> [] | Some ip4 \<Rightarrow> ip4)], w_mgr := m',
      w_conn := (w_conn w1)\<lparr>written := written (w_conn w1) @ [bound_reply ?loc]\<rparr>\<rparr>)" "rl_user r = ''u''"
    by blast
  then show ?thesis
    using that st a by (auto simp: at_destination_def defer_count_def w1_def greeted_def bound_reply_def socks_consts To4_def port_bytes_def)
qed

theorem socks_admission_witness:
  "\<exists>r w' u p dest. socks_setup demo_services demo_local (demo_world [] (demo_hello demo_dest)) = Some (Relay r, w') \<and>
     op_valid demo_services u p ''10.0.0.1'' (demo_world [] (demo_hello demo_dest)) = Inr demo_info \<and>
     w_dials w' = [(AddrSpec_Address dest, [10, 0, 0, 1])] \<and> AddrSpec_Address dest = ''93.184.216.34:80'' \<and>
     rl_user r = u \<and> rl_key r = user_key u ''10.0.0.1''"
proof -
  let ?w = "demo_world [] (demo_hello demo_dest)"
  obtain r w' where o: "socks_setup demo_services demo_local ?w = Some (Relay r, w')" "map fst (w_dials w') = [''93.184.216.34:80'']"
    "rl_user r = ''u''" by (rule demo_served)
  have "w_dials w' \<noteq> w_dials ?w \<or> Relay r \<noteq> Returned" by simp
  from socks_admission [OF o(1) this] obtain u p info dest where d: "op_valid demo_services u p ''10.0.0.1'' ?w = Inr info"
    "w_dials w' = w_dials ?w @ [(AddrSpec_Address dest, case To4 (IP demo_local) of None \<Rightarrow> [] | Some ip4 \<Rightarrow> ip4)]"
    "rl_user r = u" "rl_key r = user_key u ''10.0.0.1''"
    unfolding demo_ip by fastforce
  moreover have "To4 (IP demo_local) = Some [10, 0, 0, 1]" by (simp add: demo_local_def To4_def)
  moreover have "info = demo_info" using d(1) by (rule demo_valid_info)
  ultimately show ?thesis using o(1,2)
    by (intro exI [of _ r] exI [of _ w'] exI [of _ u] exI [of _ p] exI [of _ dest]) simp
qed

text \<open>An HTTP client is connected only after it was let in: a set-up that dials, or that relays, had
  a user and password in its \<open>Proxy-Authorization\<close> that \<open>Valid\<close> accepts, was counted, and its target
  is not on the blacklist; it dials the target, once, from the listening address.\<close>

theorem http_admission:
  assumes "http_setup S L req w = Some (out, w')" and "w_dials w' \<noteq> w_dials w \<or> out \<noteq> Returned"
  shows "\<exists>u p info n m. proxy_auth req = Some (u, p) \<and> op_valid S u p (IP_String (IP L)) w = Inr info \<and>
    AddIpConnCount (sv_counts S) (IP_String (IP L)) (w_mgr w) = Some ((True, n), m) \<and>
    (regexpDomain (target_address req) = [] \<or> \<not> snd (IsInBlacklist (w_black w) (regexpDomain (target_address req)))) \<and>
    w_dials w' = w_dials w @ [(target_address req, IP L)] \<and>
    (\<forall>r. out = Relay r \<longrightarrow> rl_user r = u \<and> rl_key r = user_key u (IP_String (IP L)) \<and>
       rl_addr r = target_address req)"
proof -
  let ?ip = "IP_String (IP L)"
  obtain u p where x: "proxy_auth req = Some (u, p)"
    using assms by (cases "proxy_auth req") (auto simp: http_setup_def)
  obtain info where v: "op_valid S u p ?ip w = Inr info"
    using assms by (cases "op_valid S u p ?ip w") (auto simp: http_setup_def x Let_def)
  obtain ok n m where a: "AddIpConnCount (sv_counts S) ?ip (w_mgr w) = Some ((ok, n), m)"
    using assms(1) by (auto simp: http_setup_def x v Let_def op_add_count_def bind_eq_Some_conv)
  have ok: "ok"
  proof (rule ccontr)
    assume "\<not> ok"
    then show False using assms by (auto simp: http_setup_def x v Let_def op_add_count_def a)
  qed
  let ?w1 = "w\<lparr>w_mgr := m\<rparr>"
  have "defer_count S ?ip (http_connect S L req u p ?w1) = Some (out, w')"
    using assms(1) ok by (simp add: http_setup_def x v Let_def op_add_count_def a)
  then obtain w3 where "http_connect S L req u p ?w1 = Some (out, w3)" "w_dials w' = w_dials w3"
    using defer_count_dials by blast
  then show ?thesis
    using http_connect_dials [of S L req u p ?w1 out w3] assms(2) x v a ok by fastforce
qed

text \<open>C10: A relayed connection is checked again while it lives: whatever has happened to it, after a new
  blacklist has arrived it is still relayed after the next tick exactly when no entry occurs in the name
  it is known under, the one the goroutine found or the target's own; when one does, the loop returns
  and one report is report_msgs, with the entry, the user, and the password as the exit address.\<close>

theorem relay_blacklist:
  assumes "sendq_ok (w_send w)" and "relay_loop S r evs d w = Some (False, d1, w1)"
  shows "\<exists>w2. relay_loop S r (evs @ [NewBlackMap keys, Tick]) d w =
      Some (d1 \<noteq> [] \<and> (\<exists>entry\<in>set keys. sublist entry d1), d1, w2) \<and>
    (if d1 \<noteq> [] \<and> (\<exists>entry\<in>set keys. sublist entry d1)
     then \<exists>entry\<in>set keys. sublist entry d1 \<and>
       (\<exists>unique. report_msgs (w_send w2) = report_msgs (w_send w1) + black_report S r entry unique)
     else w_send w2 = w_send w1)"
proof -
  let ?w1 = "w1\<lparr>w_black := SetBlackMap keys (w_black w1)\<rparr>" and ?b = "IsInBlacklist (Some keys) d1"
  have l: "relay_loop S r (evs @ [NewBlackMap keys, Tick]) d w = relay_loop S r [Tick] d1 ?w1"
    by (simp add: relay_loop_append assms(2))
  have b: "w_black ?w1 = Some keys" by (simp add: SetBlackMap_def)
  have s: "sendq_ok (w_send ?w1)" using relay_loop_sendq [OF assms(2,1)] by simp
  show ?thesis
  proof (cases "d1 \<noteq> [] \<and> (\<exists>entry\<in>set keys. sublist entry d1)")
    case True
    then have i: "snd ?b" by (simp add: IsInBlacklist_flag)
    obtain e sq unique where o: "op_black_log S (rl_user r) (rl_pwd r) (fst ?b) (rl_ip r) ?w1 = Some (?w1\<lparr>w_env := e, w_send := sq\<rparr>)"
      "report_msgs sq = report_msgs (w_send ?w1) + black_report S r (fst ?b) unique"
      by (rule op_black_log_report [OF s])
    have "relay_loop S r [Tick] d1 ?w1 = Some (True, d1, ?w1\<lparr>w_env := e, w_send := sq\<rparr>)"
      using True i o(1) b by (simp add: SetBlackMap_def)
    then show ?thesis unfolding l using True blacklist_entry [OF i] o(2) by auto
  next
    case False
    then have "\<not> (d1 \<noteq> [] \<and> snd ?b)" by (simp add: IsInBlacklist_flag)
    then have "relay_loop S r [Tick] d1 ?w1 = Some (False, d1, ?w1)" by (auto simp: SetBlackMap_def)
    then show ?thesis unfolding l using False by auto
  qed
qed

theorem relay_blacklist_witness:
  "\<exists>w2. relay_loop demo_services \<lparr>rl_user = ''u'', rl_pwd = ''p'', rl_ip = ''10.0.0.1'', rl_laddr = [], rl_key = [], rl_ctx = 0,
       rl_addr = ''x'', rl_domain = ''bank.example'', rl_sniff = False\<rparr> [Tick, NewBlackMap [''bank''], Tick] ''bank.example''
       (demo_world [] []) = Some (True, ''bank.example'', w2) \<and> size (report_msgs (w_send w2)) = 1"
proof -
  let ?r = "\<lparr>rl_user = ''u'', rl_pwd = ''p'', rl_ip = ''10.0.0.1'', rl_laddr = [], rl_key = [], rl_ctx = 0,
       rl_addr = ''x'', rl_domain = ''bank.example'', rl_sniff = False\<rparr>"
  let ?w = "demo_world [] []"
  have l: "relay_loop demo_services ?r [Tick] ''bank.example'' ?w = Some (False, ''bank.example'', ?w)"
    by (simp add: SetBlackMap_def IsInBlacklist_def)
  have s: "sendq_ok (w_send ?w)" by (simp add: demo_world_def sendq_init(1))
  have b: "sublist ''bank'' ''bank.example''" by (simp add: sublist_Cons_right)
  have p: "report_msgs (w_send ?w) = {#}" by (simp add: demo_world_def report_msgs_def sendq_init(2))
  have r: "size (black_report demo_services ?r e u) = 1" for e u
    by (simp add: black_report_def demo_services_def)
  show ?thesis using relay_blacklist [OF s l, of "[''bank'']"] b p r by (auto simp del: relay_loop.simps)
qed

text \<open>C3: From any reachable state of the server, the set-up of either handler returns, without a panic, and
  is a path of the server: the handler was not counted, or was refused, or was counted and has given its
  place back, in each case with its target closed; or it relays, holding its place and its context,
  with its target open.\<close>

theorem setup_refines_server:
  assumes "server_at S P s w"
  shows "session_setup S P s (socks_setup S L w) \<and> session_setup S P s (http_setup S L req w)"
  using server_sessions [OF assms] by blast

text \<open>
  A client whose connection breaks after its greeting has been answered: the \<open>AuthSuccess\<close> message cannot be written. It
  was counted, and has given its place back.
\<close>

lemma server_at_conn [simp]: "server_at S P s (w\<lparr>w_conn := c\<rparr>) = server_at S P s w"
  by (simp add: server_at_def server_state_def)

theorem setup_refines_server_witness:
  "\<exists>w'. socks_setup demo_services demo_local ((demo_world [] [])\<lparr>w_conn :=
        \<lparr>inbuf = demo_hello demo_dest, inend = EOF, written = [], werr = [None, Some EOF]\<rparr>\<rparr>) = Some (Returned, w') \<and>
     written (w_conn w') = [[5, 2]] \<and> w_dials w' = [] \<and>
     (\<exists>s'. mreach repo_api repo_api (\<lambda>_. True) (repo_start demo_conf) s' \<and> mgr s' = w_mgr w' \<and>
        live (sessions s') ''10.0.0.1'' = 0)"
proof -
  let ?c = "\<lparr>inbuf = demo_hello demo_dest, inend = EOF, written = [], werr = [None, Some EOF]\<rparr>" and ?ip = "IP_String (IP demo_local)"
  define w where "w = (demo_world [] [])\<lparr>w_conn := ?c\<rparr>"
  have sv: "server_at demo_services (\<lambda>_. True) (repo_start demo_conf) w" using demo_server by (simp add: w_def)
  let ?c1 = "\<lparr>inbuf = [socks5Version, 1, 0] @ dest_bytes demo_dest, inend = EOF, written = [[socks5Version, UserPassAuth]], werr = [Some EOF]\<rparr>"
  have "GetUserPassword ?c = (Inr (''u'', ''p''), ?c\<lparr>inbuf := [socks5Version, 1, 0] @ dest_bytes demo_dest,
      werr := tl (werr ?c), written := written ?c @ [[socks5Version, UserPassAuth]]\<rparr>)"
    by (rule auth_read) (simp_all add: demo_hello_def write_answer_def)
  then have g: "GetUserPassword (w_conn w) = (Inr (''u'', ''p''), ?c1)" by (simp add: w_def)
  have v: "op_valid demo_services ''u'' ''p'' ?ip w = Inr demo_info"
    using demo_valid [of "[]" "[]"] by (simp add: op_valid_def demo_ip w_def)
  have "has_room (repo_start demo_conf) ?ip" by (simp add: has_room_def demo_live)
  then obtain n m where m: "AddIpConnCount (sv_counts demo_services) ?ip (w_mgr w) = Some ((True, n), m)"
    using server_count [OF sv, of ?ip] by (metis (full_types))
  have "socks_connect demo_services demo_local ''u'' ''p'' (w\<lparr>w_conn := ?c1, w_mgr := m\<rparr>) =
      Some (Returned, w\<lparr>w_mgr := m, w_conn := ?c1\<lparr>werr := []\<rparr>\<rparr>)"
    by (simp add: socks_connect_def op_write_def conn_Write_def write_answer_def)
  from server_reduce [OF sv setup_to_connect [OF g v m] this] obtain m2 where
    r: "socks_setup demo_services demo_local w = Some (Returned, w\<lparr>w_mgr := m, w_conn := ?c1\<lparr>werr := []\<rparr>, w_mgr := m2\<rparr>)" .
  obtain s' where s': "mreach repo_api repo_api (\<lambda>_. True) (repo_start demo_conf) s'" "mgr s' = m2"
    "sessions s' \<in> {sessions (repo_start demo_conf), sessions (repo_start demo_conf) @ [Refused], sessions (repo_start demo_conf) @ [Finished]}"
    using setup_refines_server [OF sv, of demo_local] unfolding r session_setup_def by (auto simp: demo_services_def)
  then have "live (sessions s') ''10.0.0.1'' = 0" using demo_live(1) by auto
  then show ?thesis using r s'(1,2) by (simp add: w_def socks_consts) blast
qed

text \<open>C7: When the loop of a relayed connection has returned, in whatever state the server is by then, the
  deferred calls close the target, report the connection once under the name it is known by, and take
  the server by a path to the state in which the handler is finished and the others are as they were.\<close>

theorem teardown_refines_server:
  assumes "server_state S P s w" and "i < length (sessions s)"
    and "sessions s ! i = Relaying (rl_ip r) (rl_key r) (rl_ctx r)"
  shows "\<exists>w' s' unique. teardown S r d w = Some w' \<and> mreach (sv_counts S) (sv_users S) P s s' \<and> server_state S P s' w' \<and>
    sessions s' = (sessions s)[i := Finished] \<and> \<not> w_open w' \<and>
    report_msgs (w_send w') = report_msgs (w_send w) + access_report S r (logged_domain r d) unique"
proof -
  obtain invA lookA invB lookB where m: "session_maps (sv_counts S) invA lookA (sv_users S) invB lookB"
    "sys_inv invA lookA invB lookB s" "w_mgr w = mgr s" "sendq_ok (w_send w)"
    by (rule server_stateE [OF assms(1)])
  obtain w' s' where t: "teardown S r d w = Some w'" "mreach (sv_counts S) (sv_users S) P s s'" "mgr s' = w_mgr w'"
    "sessions s' = (sessions s)[i := Finished]" "\<not> w_open w'" "sendq_ok (w_send w')"
    using session_maps.teardown_session [OF m(1) refl refl m(2) assms(2,3) m(3,4)] by blast
  have "sendq_ok (w_send (op_close_target w))" using m(4) by simp
  then obtain e sq unique where l: "op_access_log S (rl_user r) (logged_domain r d) (rl_laddr r) (op_close_target w) =
      Some (op_close_target w\<lparr>w_env := e, w_send := sq\<rparr>)"
    "report_msgs sq = report_msgs (w_send (op_close_target w)) + access_report S r (logged_domain r d) unique"
    by (rule op_access_log_report)
  have "w_send w' = sq"
    using t(1) by (auto simp: teardown_def l(1) op_delete_user_def op_reduce_count_def bind_eq_Some_conv)
  moreover have "server_state S P s' w'"
    using assms(1) mreach_trans [OF _ t(2)] t(3,6) unfolding server_state_def by metis
  ultimately show ?thesis using t l(2) by (intro exI [of _ w'] exI [of _ s'] exI [of _ unique]) simp
qed


theorem teardown_refines_server_witness:
  "\<exists>(s :: ((string, ptr) cmap, (string, ptr) cmap) sys) p q w r w' (s' :: ((string, ptr) cmap, (string, ptr) cmap) sys).
     sessions s = [Relaying ''10.0.0.1'' ''u:10.0.0.1'' p, Relaying ''10.0.0.1'' ''u:10.0.0.1'' q] \<and>
     teardown demo_services r ''bank.example'' w = Some w' \<and> w_mgr w = mgr s \<and> w_mgr w' = mgr s' \<and>
     sessions s' = [Finished, Relaying ''10.0.0.1'' ''u:10.0.0.1'' q] \<and> size (report_msgs (w_send w')) = 1"
proof -
  obtain s p q where s: "mreach repo_api repo_api (\<lambda>_. True) (repo_start demo_conf) s"
      "sessions s = [Relaying ''10.0.0.1'' ''u:10.0.0.1'' p, Relaying ''10.0.0.1'' ''u:10.0.0.1'' q]"
    using repo_run [of demo_conf "\<lambda>_. True"] by (auto simp: demo_conf_def)
  define w where "w = (demo_world [] [])\<lparr>w_mgr := mgr s\<rparr>"
  define r where "r = \<lparr>rl_user = ''u'', rl_pwd = ''p'', rl_ip = ''10.0.0.1'', rl_laddr = [], rl_key = ''u:10.0.0.1'', rl_ctx = p,
       rl_addr = ''x'', rl_domain = [], rl_sniff = True\<rparr>"
  have st: "server_state demo_services (\<lambda>_. True) s w"
    unfolding server_state_def using s(1)
    by (intro conjI exI [of _ cmap_inv] exI [of _ cm_lookup] exI [of _ "repo_start demo_conf"] repo_start_ok)
      (simp_all add: demo_services_def repo.session_maps_axioms demo_world_def sendq_init(1) w_def)
  have i: "0 < length (sessions s)" "sessions s ! 0 = Relaying (rl_ip r) (rl_key r) (rl_ctx r)"
    by (simp_all add: s(2) r_def)
  obtain w' s' unique where t: "teardown demo_services r ''bank.example'' w = Some w'" "server_state demo_services (\<lambda>_. True) s' w'"
    "sessions s' = (sessions s)[0 := Finished]"
    "report_msgs (w_send w') = report_msgs (w_send w) + access_report demo_services r (logged_domain r ''bank.example'') unique"
    using teardown_refines_server [OF st i, of "''bank.example''"] by blast
  have q: "report_msgs (w_send w) = {#}" by (simp add: w_def demo_world_def report_msgs_def sendq_init(2))
  have "size (report_msgs (w_send w')) = 1"
    by (simp add: t(4) access_report_def q)
  moreover have "w_mgr w' = mgr s'" using t(2) by (simp add: server_state_def)
  moreover have "w_mgr w = mgr s" by (simp add: w_def)
  moreover have "sessions s' = [Finished, Relaying ''10.0.0.1'' ''u:10.0.0.1'' q]" using s(2) t(3) by simp
  ultimately show ?thesis using s(2) t(1) by blast
qed

end
