(* ===== verification/HandlerReplies.thy ===== *)
theory HandlerReplies
  imports HandlerSpec
begin

text \<open>
  What the client of a handler is told, branch by branch, as long as the writes to it succeed: a SOCKS client that is
  served, one that is not, and the answers of the HTTP proxy.
\<close>

section \<open>A SOCKS client\<close>

text \<open>A set-up that ends, with its target closed, after these dials and these messages to the client.\<close>

definition refused_with :: "(string \<times> byte list) list \<Rightarrow> byte list list \<Rightarrow> ('m, 'n, 's, 'w) world \<Rightarrow>
    (outcome \<times> ('m, 'n, 's, 'w) world) option \<Rightarrow> bool" where
  "refused_with dials msgs w res \<longleftrightarrow> (\<exists>w'. res = Some (Returned, w') \<and> w_dials w' = w_dials w @ dials \<and>
     written (w_conn w') = written (w_conn w) @ msgs \<and> \<not> w_open w')"

lemma refused_after:
  assumes "server_at S P s w" "socks_setup S L w = defer_count S ip res" "res = Some (Returned, w1)"
    and "w_dials w1 = w_dials w @ dials" "written (w_conn w1) = written (w_conn w) @ msgs" "\<not> w_open w1"
  shows "refused_with dials msgs w (socks_setup S L w)"
proof -
  obtain m where "socks_setup S L w = Some (Returned, w1\<lparr>w_mgr := m\<rparr>)" by (rule server_reduce [OF assms(1-3)])
  then show ?thesis using assms(4-6) by (simp add: refused_with_def)
qed

text \<open>Reading does not change the answers of the writes.\<close>

lemma werr_reads [simp]:
  "werr (snd (ReadAtLeast n c)) = werr c" "werr (snd (Read1 c)) = werr c"
  "werr (snd (io_return x c)) = werr c" "werr (snd (io_fail e c)) = werr c"
  by (simp_all add: ReadAtLeast_def Read1_def io_return_def io_fail_def split: list.split)

lemma werr_io_bind:
  assumes "\<And>c. werr (snd (m c)) = werr c" and "\<And>x c. werr (snd (k x c)) = werr c"
  shows "werr (snd (io_bind m k c)) = werr c"
  using assms(1) [of c] assms(2) by (auto simp: io_bind_def split: prod.split sum.split)

lemma werr_GetUserPassword:
  assumes "werr c = []"
  shows "werr (snd (GetUserPassword c)) = []"
proof -
  let ?c = "c\<lparr>written := written c @ [[socks5Version, UserPassAuth]]\<rparr>"
  have "werr (snd (GetUserPassword c)) = werr ?c"
    unfolding GetUserPassword_def conn_Write_ok [OF assms] option.case prod.case
    by (intro werr_io_bind) (auto intro!: werr_io_bind)
  then show ?thesis using assms by simp
qed

lemma werr_ReadAddrSpec: "werr (snd (ReadAddrSpec c)) = werr c"
  unfolding ReadAddrSpec_def by (intro werr_io_bind) (auto intro!: werr_io_bind split: prod.split)

lemma werr_ReadDestAddr: "werr (snd (ReadDestAddr c)) = werr c"
  using werr_reads(1) [of 3 c]
  by (auto simp: ReadDestAddr_def werr_ReadAddrSpec simp del: werr_reads(1) split: prod.split sum.split)

text \<open>A destination with a domain name, and a numeric one that is not reached or whose connection cannot be announced.\<close>

lemma domain_refused:
  assumes "sendq_ok (w_send w)" "werr (w_conn w) = []" "\<not> w_open w" "regexpDomain (AddrSpec_Address dest) \<noteq> []"
  shows "\<exists>w1. at_destination S L u p dest w = Some (Returned, w1) \<and> w_dials w1 = w_dials w \<and> \<not> w_open w1 \<and>
    written (w_conn w1) = written (w_conn w) @
      (if snd (IsInBlacklist (w_black w) (regexpDomain (AddrSpec_Address dest))) then [refusal HostUnreachable] else [])"
proof (cases "snd (IsInBlacklist (w_black w) (regexpDomain (AddrSpec_Address dest)))")
  case False
  then show ?thesis using assms(3,4)
    by (cases "IsInBlacklist (w_black w) (regexpDomain (AddrSpec_Address dest))") (simp add: at_destination_def)
next
  case True
  let ?b = "IsInBlacklist (w_black w) (regexpDomain (AddrSpec_Address dest))"
  obtain e sq where l: "op_black_log S u p (fst ?b) (IP_String (IP L)) w = Some (w\<lparr>w_env := e, w_send := sq\<rparr>)"
    by (rule op_black_log_Some [OF assms(1)])
  have "at_destination S L u p dest w = Some (Returned, w\<lparr>w_env := e, w_send := sq,
      w_conn := (w_conn w)\<lparr>written := written (w_conn w) @ [refusal HostUnreachable]\<rparr>\<rparr>)"
    using True assms(2,4) l by (cases ?b) (simp add: at_destination_def op_reply_refusal)
  then show ?thesis using True assms(3) by simp
qed

definition local_address :: "AddrSpec \<Rightarrow> byte list" where
  "local_address L = (case To4 (IP L) of None \<Rightarrow> [] | Some ip4 \<Rightarrow> ip4)"

lemma dial_refused:
  assumes "sv_dial S addr (local_address L) (w_env w) = (Inl msg, e)" "werr (w_conn w) = []" "\<not> w_open w"
  shows "\<exists>w1. socks_dial S L u p addr w = Some (Returned, w1) \<and> w_dials w1 = w_dials w @ [(addr, local_address L)] \<and>
    \<not> w_open w1 \<and> written (w_conn w1) = written (w_conn w) @ [refusal (dial_error_reply msg)]"
proof -
  have d: "op_dial S addr (local_address L) w =
      (Inl msg, w\<lparr>w_env := e, w_dials := w_dials w @ [(addr, local_address L)], w_open := w_open w\<rparr>)" (is "_ = (_, ?w1)")
    using assms(1) by (simp add: op_dial_def)
  then have "socks_dial S L u p addr w = Some (Returned, snd (op_reply (dial_error_reply msg) None ?w1))"
    by (simp add: socks_dial_def local_address_def)
  then show ?thesis using assms(2,3) by (simp add: op_reply_refusal)
qed

lemma dial_unannounced:
  assumes "sv_dial S addr (local_address L) (w_env w) = (Inr loc, e)" "length (IP loc) \<noteq> 4" "length (IP loc) \<noteq> 16"
  shows "\<exists>w1. socks_dial S L u p addr w = Some (Returned, w1) \<and> w_dials w1 = w_dials w @ [(addr, local_address L)] \<and>
    \<not> w_open w1 \<and> written (w_conn w1) = written (w_conn w)"
proof -
  have d: "op_dial S addr (local_address L) w =
      (Inr loc, w\<lparr>w_env := e, w_dials := w_dials w @ [(addr, local_address L)], w_open := True\<rparr>)" (is "_ = (_, ?w1)")
    using assms(1) by (simp add: op_dial_def)
  obtain err where "op_reply SuccessReply (Some \<lparr>FQDN = [], IP = IP loc, Port = Port loc\<rparr>) ?w1 = (Some err, ?w1)"
    using op_reply_unbound [OF assms(2,3)] by blast
  then have "socks_dial S L u p addr w = Some (Returned, ?w1\<lparr>w_open := False\<rparr>)"
    using d by (simp add: socks_dial_def local_address_def defer_close_def op_close_target_def)
  then show ?thesis by simp
qed

subsection \<open>Properties\<close>

text \<open>C26: A client that authenticates, while its address has room, and asks for a numeric destination (a domain name
  in the request is never served, see below) that accepts the connection is served, in any reachable state of the
  server: it is told so in three messages, the last with the IPv4 or IPv6 address its connection is bound to, what it sent
  after its request is still there to be relayed, the destination is dialled once, and the connection is relayed under the
  user's key.\<close>

theorem socks_served:
  assumes "server_at S P s w" and "has_room s (IP_String (IP L))"
    and "inbuf (w_conn w) = greeting @ auth_msg u p @ [socks5Version, cmd, rsv] @ dest_bytes dest @ rest"
    and "0 < length greeting" "length greeting \<le> 8" "length u \<le> 255" "length p \<le> 255" "dest_ok dest"
    and "werr (w_conn w) = []" and "op_valid S u p (IP_String (IP L)) w = Inr info" and "FQDN dest = []"
    and "sv_dial S (AddrSpec_Address dest) (local_address L) (w_env w) = (Inr loc, e)"
    and "length (IP loc) = 4 \<or> length (IP loc) = 16"
  shows "\<exists>r w'. handlerTcpConn S L (length greeting) evs w = relay_run S evs (Some (Relay r, w')) \<and>
    rl_user r = u \<and> rl_addr r = AddrSpec_Address dest \<and> rl_key r = user_key u (IP_String (IP L)) \<and>
    inbuf (w_conn w') = rest \<and> w_open w' \<and>
    w_dials w' = w_dials w @ [(AddrSpec_Address dest, local_address L)] \<and>
    written (w_conn w') = written (w_conn w) @ [[5, 2], [1, 0], [5, 0, 0] @
      (case To4 (IP loc) of Some ip4 \<Rightarrow> 1 # ip4 | None \<Rightarrow> 4 # IP loc) @ port_bytes (Port loc)]"
proof -
  define wg where "wg = w\<lparr>w_conn := (w_conn w)\<lparr>inbuf := auth_msg u p @ [socks5Version, cmd, rsv] @ dest_bytes dest @ rest\<rparr>\<rparr>"
  have k: "max 1 (min (length greeting) 2048) = length greeting" using assms(4,5) by (simp add: max_def Suc_le_eq)
  have f: "handlerTcpConn S L (length greeting) evs w = relay_run S evs (socks_setup S L wg)"
    unfolding handlerTcpConn_def first_read_def k
    using assms(3-5) by (auto simp: socksTcpConn_def wg_def Let_def)
  obtain n m where m: "AddIpConnCount (sv_counts S) (IP_String (IP L)) (w_mgr wg) = Some ((True, n), m)" "can_add S m"
    using server_count [OF assms(1), of "IP_String (IP L)"] assms(2) by (auto simp: wg_def)
  have v: "op_valid S u p (IP_String (IP L)) wg = Inr info" using assms(10) by (simp add: op_valid_def wg_def)
  define w1 where "w1 = wg\<lparr>w_mgr := m, w_conn := greeted rest (w_conn wg)\<rparr>"
  have st: "socks_setup S L wg = defer_count S (IP_String (IP L)) (at_destination S L u p dest w1)"
    unfolding w1_def using assms(6-9) by (intro socks_setup_auth [OF _ _ _ _ _ v m(1)]) (simp_all add: wg_def)
  have d: "at_destination S L u p dest w1 = socks_dial S L u p (AddrSpec_Address dest) w1"
    using numeric_no_domain [OF assms(11)] by (simp add: at_destination_def)
  have "sv_dial S (AddrSpec_Address dest) (case To4 (IP L) of None \<Rightarrow> [] | Some ip4 \<Rightarrow> ip4) (w_env w1) = (Inr loc, e)"
    "werr (w_conn w1) = []" "can_add S (w_mgr w1)"
    using assms(9,12) m(2) by (simp_all add: w1_def wg_def greeted_def local_address_def)
  from dial_served [OF this(1,2) assms(13) this(3), of u p]
  obtain r m' where r: "socks_dial S L u p (AddrSpec_Address dest) w1 = Some (Relay r, w1\<lparr>w_env := e, w_open := True,
      w_dials := w_dials w1 @ [(AddrSpec_Address dest, case To4 (IP L) of None \<Rightarrow> [] | Some ip4 \<Rightarrow> ip4)], w_mgr := m',
      w_conn := (w_conn w1)\<lparr>written := written (w_conn w1) @ [bound_reply loc]\<rparr>\<rparr>)" (is "_ = Some (_, ?w2)")
    "rl_user r = u" "rl_key r = user_key u (IP_String (IP L))" "rl_addr r = AddrSpec_Address dest"
    by blast
  have "socks_setup S L wg = Some (Relay r, ?w2)" using st d r(1) by (simp add: defer_count_def)
  then show ?thesis
    using f r(2-4) by (intro exI [of _ r] exI [of _ ?w2])
      (simp add: w1_def wg_def greeted_def local_address_def bound_reply_def socks_consts split: option.split)
qed

theorem socks_served_witness:
  "\<exists>w'. handlerTcpConn demo_services demo_local 3 [] (demo_world [] ([5, 1, 2] @ demo_hello demo_dest)) =
      Some (False, w') \<and> w_open w' \<and> map fst (w_dials w') = [AddrSpec_Address demo_dest] \<and>
    written (w_conn w') = [[5, 2], [1, 0], [5, 0, 0, 1, 10, 0, 0, 1, 0, 7]]"
proof -
  let ?i = "[5, 1, 2] @ demo_hello demo_dest"
  obtain r w' where "handlerTcpConn demo_services demo_local (length [5, 1, 2 :: byte]) [] (demo_world [] ?i) =
      relay_run demo_services [] (Some (Relay r, w'))" "w_open w'" "map fst (w_dials w') = [AddrSpec_Address demo_dest]"
    "written (w_conn w') = [[5, 2], [1, 0], [5, 0, 0] @ (1 # [10, 0, 0, 1]) @ port_bytes 7]"
    using socks_served [OF demo_server [of "\<lambda>_. True" "[]" ?i], where L = demo_local and greeting = "[5, 1, 2]" and u = "''u''"
        and p = "''p''" and cmd = 1 and rsv = 0 and dest = demo_dest and rest = "[]" and evs = "[]" and info = demo_info
        and loc = "\<lparr>FQDN = [], IP = [10, 0, 0, 1], Port = 7\<rparr>" and e = "()"]
    by (auto simp: demo_live has_room_def demo_ip demo_valid demo_hello_def To4_def)
  then show ?thesis
    by (intro exI [of _ w']) (simp add: relay_run_def port_bytes_def numeral_3_eq_3)
qed

text \<open>C27: What a SOCKS client that is not served is told, after its greeting has been answered, on every branch: \<open>[1, 1]\<close> when
  its message cannot be read or \<open>Valid\<close> refuses it; reply 5 when its address has no room; after \<open>[1, 0]\<close>, reply 8 when
  its request has another address type and nothing when the request cannot be read otherwise; reply 4 for a destination
  with a blacklisted domain name and nothing at all for any other domain name, so that no such destination is ever
  served; when a numeric destination cannot be dialled, reply 5, 3 or 4 after the message of the error; and nothing when
  it was dialled and its local address is neither IPv4 nor IPv6. Only in the last two cases is anything dialled, and the
  target is closed.\<close>

theorem socks_refused:
  assumes "server_at S P s w" and "werr (w_conn w) = []"
  shows "case fst (GetUserPassword (w_conn w)) of
      Inl err \<Rightarrow> refused_with [] [[5, 2], [1, 1]] w (socks_setup S L w)
    | Inr (u, p) \<Rightarrow> (case op_valid S u p (IP_String (IP L)) w of
        Inl err \<Rightarrow> refused_with [] [[5, 2], [1, 1]] w (socks_setup S L w)
      | Inr info \<Rightarrow>
          if \<not> has_room s (IP_String (IP L))
          then refused_with [] [[5, 2], refusal 5] w (socks_setup S L w)
          else (case fst (ReadDestAddr (snd (conn_Write [1, 0] (snd (GetUserPassword (w_conn w)))))) of
              Inl err \<Rightarrow> refused_with [] ([[5, 2], [1, 0]] @ (if err = UnrecognizedAddrType then [refusal 8] else []))
                w (socks_setup S L w)
            | Inr dest \<Rightarrow> let addr = AddrSpec_Address dest; domain = regexpDomain addr in
                if domain \<noteq> []
                then refused_with [] ([[5, 2], [1, 0]] @ (if snd (IsInBlacklist (w_black w) domain) then [refusal 4] else []))
                  w (socks_setup S L w)
                else (case fst (sv_dial S addr (local_address L) (w_env w)) of
                    Inl msg \<Rightarrow> refused_with [(addr, local_address L)] [[5, 2], [1, 0], refusal
                        (if sublist ''refused'' msg then 5 else if sublist ''network is unreachable'' msg then 3 else 4)]
                      w (socks_setup S L w)
                  | Inr loc \<Rightarrow> length (IP loc) \<noteq> 4 \<and> length (IP loc) \<noteq> 16 \<longrightarrow>
                      refused_with [(addr, local_address L)] [[5, 2], [1, 0]] w (socks_setup S L w))))"
proof -
  let ?ip = "IP_String (IP L)"
  obtain x c where g: "GetUserPassword (w_conn w) = (x, c)" by (cases "GetUserPassword (w_conn w)")
  have c: "werr c = []" "written c = written (w_conn w) @ [[5, 2]]"
    using werr_GetUserPassword [OF assms(2)] written_GetUserPassword [of "w_conn w"] assms(2) g
    by (simp_all add: socks_consts write_answer_def)
  have w: "\<not> w_open w" "sendq_ok (w_send w)" using assms(1) by (simp_all add: server_at_def server_state_def)
  note a = server_count [OF assms(1), of ?ip]
  have v: "op_valid S u p ?ip (w\<lparr>w_conn := c\<rparr>) = op_valid S u p ?ip w" for u p by (simp add: op_valid_def)
  consider (unread) err where "x = Inl err" | (invalid) u p err where "x = Inr (u, p)" "op_valid S u p ?ip w = Inl err"
    | (full) u p info where "x = Inr (u, p)" "op_valid S u p ?ip w = Inr info" "\<not> has_room s ?ip"
    | (room) u p info where "x = Inr (u, p)" "op_valid S u p ?ip w = Inr info" "has_room s ?ip"
    by (metis sum.exhaust prod.exhaust)
  then show ?thesis
  proof cases
    case unread
    then show ?thesis using c w by (simp add: socks_setup_def g op_write_ok refused_with_def socks_consts)
  next
    case invalid
    then show ?thesis using c v w by (simp add: socks_setup_def g op_write_ok refused_with_def socks_consts)
  next
    case full
    then obtain n m where "AddIpConnCount (sv_counts S) ?ip (w_mgr w) = Some ((False, n), m)" using a by auto
    then show ?thesis using c v full w
      by (simp add: socks_setup_def g op_add_count_def op_reply_refusal refused_with_def ConnectionRefused_def)
  next
    case room
    obtain k m where m: "AddIpConnCount (sv_counts S) ?ip (w_mgr w) = Some ((True, k), m)"
      using a room(3) by (metis (full_types))
    define c1 where "c1 = c\<lparr>written := written c @ [[1, 0]]\<rparr>"
    obtain y c2 where y: "ReadDestAddr c1 = (y, c2)" by (cases "ReadDestAddr c1")
    have c2: "werr c2 = []" "written c2 = written (w_conn w) @ [[5, 2], [1, 0]]"
      using werr_ReadDestAddr [of c1] written_ReadDestAddr [of c1] c unfolding y snd_conv by (simp_all add: c1_def)
    define w2 where "w2 = w\<lparr>w_mgr := m, w_conn := c2\<rparr>"
    have w2: "\<not> w_open w2" "sendq_ok (w_send w2)" "werr (w_conn w2) = []" "w_dials w2 = w_dials w" "w_black w2 = w_black w"
      "w_env w2 = w_env w" "written (w_conn w2) = written (w_conn w) @ [[5, 2], [1, 0]]"
      using w c2 by (simp_all add: w2_def)
    have cw: "conn_Write [1, 0] c = (None, c1)" using c(1) by (simp add: conn_Write_ok c1_def)
    have st: "socks_setup S L w = defer_count S ?ip (socks_connect S L u p (w\<lparr>w_conn := c, w_mgr := m\<rparr>))"
      using g room(1,2) m by (intro setup_to_connect) simp_all
    show ?thesis
    proof (cases y)
      case (Inl err)
      have "socks_connect S L u p (w\<lparr>w_conn := c, w_mgr := m\<rparr>) = Some (Returned, if err = UnrecognizedAddrType
          then snd (op_reply AddrTypeNotSupported None w2) else w2)"
        using connect_unread [of "w\<lparr>w_conn := c, w_mgr := m\<rparr>" c1 err c2 S L u p] cw y Inl by (simp add: socks_consts w2_def)
      then have "refused_with [] ([[5, 2], [1, 0]] @ (if err = UnrecognizedAddrType then [refusal 8] else [])) w (socks_setup S L w)"
        by (rule refused_after [OF assms(1) st]) (use w2 in \<open>simp_all add: op_reply_refusal AddrTypeNotSupported_def\<close>)
      then show ?thesis using room g cw y Inl by simp
    next
      case (Inr dest)
      have to: "socks_connect S L u p (w\<lparr>w_conn := c, w_mgr := m\<rparr>) = at_destination S L u p dest w2"
        using connect_to_destination [of "w\<lparr>w_conn := c, w_mgr := m\<rparr>" c1 dest c2 S L u p] cw y Inr by (simp add: socks_consts w2_def)
      let ?a = "AddrSpec_Address dest" let ?d = "regexpDomain ?a"
      consider (domain) "?d \<noteq> []" | (down) msg e where "?d = []" "sv_dial S ?a (local_address L) (w_env w2) = (Inl msg, e)"
        | (up) loc e where "?d = []" "sv_dial S ?a (local_address L) (w_env w2) = (Inr loc, e)"
        by (metis sum.exhaust prod.exhaust)
      then show ?thesis
      proof cases
        case domain
        obtain w3 where w3: "at_destination S L u p dest w2 = Some (Returned, w3)" "w_dials w3 = w_dials w2" "\<not> w_open w3"
          "written (w_conn w3) = written (w_conn w2) @ (if snd (IsInBlacklist (w_black w2) ?d) then [refusal HostUnreachable] else [])"
          using domain_refused [OF w2(2,3,1) domain] by blast
        have "refused_with [] ([[5, 2], [1, 0]] @ (if snd (IsInBlacklist (w_black w) ?d) then [refusal 4] else [])) w (socks_setup S L w)"
          by (rule refused_after [OF assms(1) st to [THEN trans, OF w3(1)]]) (use w2 w3 in \<open>simp_all add: HostUnreachable_def\<close>)
        then show ?thesis using room g cw y Inr domain by (simp add: Let_def)
      next
        case down
        have l: "at_destination S L u p dest w2 = socks_dial S L u p ?a w2" using down(1) by (simp add: at_destination_def)
        obtain w3 where w3: "socks_dial S L u p ?a w2 = Some (Returned, w3)" "w_dials w3 = w_dials w2 @ [(?a, local_address L)]"
          "\<not> w_open w3" "written (w_conn w3) = written (w_conn w2) @ [refusal (dial_error_reply msg)]"
          using dial_refused [OF down(2) w2(3,1)] by blast
        have code: "dial_error_reply msg =
            (if sublist ''refused'' msg then 5 else if sublist ''network is unreachable'' msg then 3 else 4)"
          by (simp add: dial_error_reply_def go_Contains_sublist socks_consts)
        have "refused_with [(?a, local_address L)] [[5, 2], [1, 0], refusal (dial_error_reply msg)] w (socks_setup S L w)"
          by (rule refused_after [OF assms(1) st to [THEN trans, OF l [THEN trans, OF w3(1)]]]) (use w2 w3 in simp_all)
        then show ?thesis using room g cw y Inr down w2(6) unfolding code by (simp add: Let_def)
      next
        case up
        have l: "at_destination S L u p dest w2 = socks_dial S L u p ?a w2" using up(1) by (simp add: at_destination_def)
        have "refused_with [(?a, local_address L)] [[5, 2], [1, 0]] w (socks_setup S L w)"
          if n: "length (IP loc) \<noteq> 4" "length (IP loc) \<noteq> 16"
        proof -
          obtain w3 where w3: "socks_dial S L u p ?a w2 = Some (Returned, w3)" "w_dials w3 = w_dials w2 @ [(?a, local_address L)]"
            "\<not> w_open w3" "written (w_conn w3) = written (w_conn w2)"
            using dial_unannounced [OF up(2) n] by blast
          show ?thesis
            by (rule refused_after [OF assms(1) st to [THEN trans, OF l [THEN trans, OF w3(1)]]]) (use w2 w3 in simp_all)
        qed
        then show ?thesis using room g cw y Inr up w2(6) by (simp add: Let_def)
      qed
    qed
  qed
qed

lemma demo_read:
  "GetUserPassword (w_conn (demo_world b (auth_msg ''u'' ''p'' @ rest))) =
    (Inr (''u'', ''p''), \<lparr>inbuf = rest, inend = EOF, written = [[5, 2]], werr = []\<rparr>)"
  by (simp add: GetUserPassword_iff write_answer_def socks_consts)

text \<open>A blacklisted name, and an address type that does not exist.\<close>

theorem socks_refused_witness:
  "refused_with [] [[5, 2], [1, 0], [5, 4, 0, 1, 0, 0, 0, 0, 0, 0]]
     (demo_world [''bank''] (demo_hello \<lparr>FQDN = ''www.bank.example'', IP = [], Port = 80\<rparr>))
     (socks_setup demo_services demo_local
       (demo_world [''bank''] (demo_hello \<lparr>FQDN = ''www.bank.example'', IP = [], Port = 80\<rparr>))) \<and>
   refused_with [] [[5, 2], [1, 0], [5, 8, 0, 1, 0, 0, 0, 0, 0, 0]] (demo_world [] (auth_msg ''u'' ''p'' @ [5, 1, 0, 9]))
     (socks_setup demo_services demo_local (demo_world [] (auth_msg ''u'' ''p'' @ [5, 1, 0, 9])))"
proof -
  let ?d = "\<lparr>FQDN = ''www.bank.example'', IP = [], Port = 80\<rparr>"
  have n: "regexpDomain (AddrSpec_Address ?d) = ''www.bank.example''" by code_simp
  have b: "snd (IsInBlacklist (SetBlackMap [''bank''] None) ''www.bank.example'')" by code_simp
  have h: "demo_hello ?d = auth_msg ''u'' ''p'' @ [socks5Version, 1, 0] @ dest_bytes ?d" by (simp add: demo_hello_def)
  let ?c = "\<lambda>i. \<lparr>inbuf = i, inend = EOF, written = [[5, 2], [1, 0]], werr = []\<rparr>"
  have w: "conn_Write [1, 0] \<lparr>inbuf = i, inend = EOF, written = [[5, 2]], werr = []\<rparr> = (None, ?c i)" for i
    by (simp add: conn_Write_ok)
  have "ReadDestAddr (?c ([socks5Version, 1, 0] @ dest_bytes ?d @ [])) = (Inr ?d, (?c ([socks5Version, 1, 0] @ dest_bytes ?d @ []))\<lparr>inbuf := []\<rparr>)"
    by (rule dest_read) (simp_all add: dest_ok_def)
  then have r1: "fst (ReadDestAddr (?c ([socks5Version, 1, 0] @ dest_bytes ?d))) = Inr ?d" by simp
  have r2: "fst (ReadDestAddr (?c [5, 1, 0, 9])) = Inl UnrecognizedAddrType"
    by (simp add: ReadDestAddr_def ReadAtLeast_def ReadAddrSpec_def io_defs Read1_def socks_consts)
  have "refused_with [] [[5, 2], [1, 0], refusal 4] (demo_world [''bank''] (demo_hello ?d)) (socks_setup demo_services demo_local (demo_world [''bank''] (demo_hello ?d)))"
    using socks_refused [OF demo_server [of "\<lambda>_. True" "[''bank'']" "demo_hello ?d"], of demo_local]
    unfolding h demo_read fst_conv snd_conv w r1 sum.case prod.case demo_ip demo_valid n
    using b by (simp add: has_room_def demo_live Let_def n)
  moreover have "refused_with [] [[5, 2], [1, 0], refusal 8] (demo_world [] (auth_msg ''u'' ''p'' @ [5, 1, 0, 9]))
     (socks_setup demo_services demo_local (demo_world [] (auth_msg ''u'' ''p'' @ [5, 1, 0, 9])))"
    using socks_refused [OF demo_server [of "\<lambda>_. True" "[]" "auth_msg ''u'' ''p'' @ [5, 1, 0, 9]"], of demo_local]
    unfolding demo_read fst_conv snd_conv w r2 sum.case prod.case demo_ip demo_valid
    by (simp add: has_room_def demo_live)
  ultimately show ?thesis by (simp add: refusal_def socks_consts)
qed

section \<open>An HTTP client\<close>

lemma refused_after_http:
  assumes "server_at S P s w" "http_setup S L req w = defer_count S ip res" "res = Some (Returned, w1)"
    and "w_dials w1 = w_dials w @ dials" "written (w_conn w1) = written (w_conn w) @ msgs" "\<not> w_open w1"
  shows "refused_with dials msgs w (http_setup S L req w)"
proof -
  have "\<exists>out w'. http_setup S L req w = Some (out, w')"
    using server_sessions(2) [OF assms(1)] unfolding session_setup_def by blast
  then obtain m where "http_setup S L req w = Some (Returned, w1\<lparr>w_mgr := m\<rparr>)"
    using assms(2,3) by (auto simp: defer_count_def op_reduce_count_def)
  then show ?thesis using assms(4-6) by (simp add: refused_with_def)
qed

lemma http_to_connect:
  assumes "proxy_auth req = Some (u, p)" "op_valid S u p (IP_String (IP L)) w = Inr info"
    and "AddIpConnCount (sv_counts S) (IP_String (IP L)) (w_mgr w) = Some ((True, n), m)"
  shows "http_setup S L req w = defer_count S (IP_String (IP L)) (http_connect S L req u p (w\<lparr>w_mgr := m\<rparr>))"
  using assms by (simp add: http_setup_def op_add_count_def)

lemma start_relay_Relay:
  assumes "can_add S (w_mgr w)"
  obtains r m where "start_relay S L u p a d sn w = Some (Relay r, w\<lparr>w_mgr := m\<rparr>)"
    "rl_user r = u" "rl_key r = user_key u (IP_String (IP L))" "rl_addr r = a" "rl_domain r = d"
proof -
  obtain c m where "addUserConnection (sv_users S) (sv_now S (w_env w)) (user_key u (IP_String (IP L))) (w_mgr w) = Some (Some c, m)"
    using assms unfolding can_add_def by blast
  then show ?thesis
    using that [of "\<lparr>rl_user = u, rl_pwd = p, rl_ip = IP_String (IP L), rl_laddr = TCPAddr_String L,
         rl_key = user_key u (IP_String (IP L)), rl_ctx = c, rl_addr = a, rl_domain = d, rl_sniff = sn\<rparr>" m]
    by (simp add: start_relay_def op_add_user_def Let_def)
qed

definition blacklisted :: "black_map \<Rightarrow> string \<Rightarrow> bool" where
  "blacklisted bm d \<longleftrightarrow> d \<noteq> [] \<and> snd (IsInBlacklist bm d)"

text \<open>The request that is forwarded.\<close>

definition without_credentials :: "http_request \<Rightarrow> http_request" where
  "without_credentials req = req\<lparr>Header := AList.delete ''Proxy-Authorization'' (Header req)\<rparr>"

lemma http_blacklisted:
  assumes "sendq_ok (w_send w)" "werr (w_conn w) = []" "\<not> w_open w" "blacklisted (w_black w) (regexpDomain (target_address req))"
  shows "\<exists>w1. http_connect S L req u p w = Some (Returned, w1) \<and> w_dials w1 = w_dials w \<and> \<not> w_open w1 \<and>
    written (w_conn w1) = written (w_conn w) @ [reply_503]"
proof -
  let ?d = "regexpDomain (target_address req)"
  obtain black where b: "?d \<noteq> []" "IsInBlacklist (w_black w) ?d = (black, True)"
    using assms(4) by (cases "IsInBlacklist (w_black w) ?d") (simp add: blacklisted_def)
  obtain e sq where l: "op_black_log S u p black (IP_String (IP L)) w = Some (w\<lparr>w_env := e, w_send := sq\<rparr>)"
    by (rule op_black_log_Some [OF assms(1)])
  then show ?thesis using b assms(2,3) by (simp add: http_connect_def op_write_ok Let_def)
qed

lemma http_not_blacklisted:
  assumes "\<not> blacklisted (w_black w) (regexpDomain (target_address req))"
  shows "http_connect S L req u p w = (case op_dial S (target_address req) (IP L) w of
      (Inl msg, w1) \<Rightarrow> Some (Returned, snd (op_write reply_503 w1))
    | (Inr loc, w1) \<Rightarrow> defer_close (http_forward S L req u p (target_address req) (regexpDomain (target_address req)) w1))"
proof -
  let ?d = "regexpDomain (target_address req)"
  obtain black isIn where b: "(if ?d \<noteq> [] then IsInBlacklist (w_black w) ?d else ([], False)) = (black, isIn)"
    by (metis prod.exhaust)
  have "\<not> isIn" using b assms by (auto simp: blacklisted_def split: if_splits)
  then show ?thesis unfolding http_connect_def Let_def b by simp
qed

text \<open>A request that is served: the target is dialled, the client gets these messages and the target these bytes.\<close>

definition relayed_with :: "byte list list \<Rightarrow> byte list list \<Rightarrow> http_request \<Rightarrow> string \<Rightarrow> AddrSpec \<Rightarrow> ('m, 'n, 's, 'w) world \<Rightarrow>
    (outcome \<times> ('m, 'n, 's, 'w) world) option \<Rightarrow> bool" where
  "relayed_with msgs bss req u L w out \<longleftrightarrow> (\<exists>r w'. out = Some (Relay r, w') \<and> rl_user r = u \<and>
     rl_key r = user_key u (IP_String (IP L)) \<and> rl_addr r = target_address req \<and> w_open w' \<and>
     w_dials w' = w_dials w @ [(target_address req, IP L)] \<and>
     written (w_conn w') = written (w_conn w) @ msgs \<and> w_target w' = w_target w @ bss)"

text \<open>What \<open>http_forward\<close> does once the target has been dialled.\<close>

lemma forward_connect:
  assumes "Method req = ''CONNECT''" "werr (w_conn w) = []" "can_add S (w_mgr w)"
  obtains r m where "http_forward S L req u p a d w = Some (Relay r,
      w\<lparr>w_conn := (w_conn w)\<lparr>written := written (w_conn w) @ [reply_200]\<rparr>, w_mgr := m\<rparr>)"
    "rl_user r = u" "rl_key r = user_key u (IP_String (IP L))" "rl_addr r = a"
proof -
  let ?w = "w\<lparr>w_conn := (w_conn w)\<lparr>written := written (w_conn w) @ [reply_200]\<rparr>\<rparr>"
  have "can_add S (w_mgr ?w)" using assms(3) by simp
  then obtain r m where "start_relay S L u p a d (d = []) ?w = Some (Relay r, ?w\<lparr>w_mgr := m\<rparr>)"
    "rl_user r = u" "rl_key r = user_key u (IP_String (IP L))" "rl_addr r = a" by (rule start_relay_Relay)
  then show ?thesis using that [of r m] assms(1,2) by (simp add: http_forward_def op_write_ok)
qed

lemma forward_request:
  assumes "Method req \<noteq> ''CONNECT''" "sv_req_Write S (without_credentials req) = Inr bs" "w_target_err w = None" "can_add S (w_mgr w)"
  obtains r m where "http_forward S L req u p a d w = Some (Relay r, w\<lparr>w_target := w_target w @ [bs], w_mgr := m\<rparr>)"
    "rl_user r = u" "rl_key r = user_key u (IP_String (IP L))" "rl_addr r = a"
proof -
  let ?w = "w\<lparr>w_target := w_target w @ [bs]\<rparr>"
  have "can_add S (w_mgr ?w)" using assms(4) by simp
  then obtain r m where "start_relay S L u p a d False ?w = Some (Relay r, ?w\<lparr>w_mgr := m\<rparr>)"
    "rl_user r = u" "rl_key r = user_key u (IP_String (IP L))" "rl_addr r = a" by (rule start_relay_Relay)
  then show ?thesis using that [of r m] assms(1-3) by (simp add: http_forward_def without_credentials_def)
qed

lemma forward_fails:
  assumes "Method req \<noteq> ''CONNECT''" "(\<exists>err. sv_req_Write S (without_credentials req) = Inl err) \<or> w_target_err w \<noteq> None"
  shows "http_forward S L req u p a d w = Some (Returned, w)"
  using assms by (auto simp: http_forward_def without_credentials_def split: sum.split)

subsection \<open>Properties\<close>

text \<open>C28: What an HTTP client is answered, on every branch: 407 when it has no user and password or \<open>Valid\<close> refuses them;
  503 when its address has no room or the target's name is blacklisted, and then nothing is dialled; 503 when the target
  cannot be dialled; 200 when the target of a CONNECT has been reached, which is then relayed. For any other method the
  client gets no answer of the proxy: when the target has been reached its request goes there without the credentials, and is
  relayed; when the request cannot be written the target is closed and the client is told nothing.\<close>

theorem http_answers:
  assumes "server_at S P s w" and "werr (w_conn w) = []"
  shows "case proxy_auth req of
      None \<Rightarrow> refused_with [] [reply_407] w (http_setup S L req w)
    | Some (u, p) \<Rightarrow> (case op_valid S u p (IP_String (IP L)) w of
        Inl err \<Rightarrow> refused_with [] [reply_407] w (http_setup S L req w)
      | Inr info \<Rightarrow>
          if \<not> has_room s (IP_String (IP L)) \<or> blacklisted (w_black w) (regexpDomain (target_address req))
          then refused_with [] [reply_503] w (http_setup S L req w)
          else (case fst (sv_dial S (target_address req) (IP L) (w_env w)) of
              Inl msg \<Rightarrow> refused_with [(target_address req, IP L)] [reply_503] w (http_setup S L req w)
            | Inr loc \<Rightarrow>
                if Method req = ''CONNECT'' then relayed_with [reply_200] [] req u L w (http_setup S L req w)
                else (case (sv_req_Write S (without_credentials req), w_target_err w) of
                    (Inr bs, None) \<Rightarrow> relayed_with [] [bs] req u L w (http_setup S L req w)
                  | _ \<Rightarrow> refused_with [(target_address req, IP L)] [] w (http_setup S L req w))))"
proof -
  let ?ip = "IP_String (IP L)" and ?a = "target_address req" and ?d = "regexpDomain (target_address req)"
  have w: "\<not> w_open w" "sendq_ok (w_send w)" using assms(1) by (simp_all add: server_at_def server_state_def)
  note a = server_count [OF assms(1), of ?ip]
  consider (none) "proxy_auth req = None" | (invalid) u p err where "proxy_auth req = Some (u, p)" "op_valid S u p ?ip w = Inl err"
    | (full) u p info where "proxy_auth req = Some (u, p)" "op_valid S u p ?ip w = Inr info" "\<not> has_room s ?ip"
    | (room) u p info where "proxy_auth req = Some (u, p)" "op_valid S u p ?ip w = Inr info" "has_room s ?ip"
    by (metis sum.exhaust prod.exhaust option.exhaust)
  then show ?thesis
  proof cases
    case none
    then show ?thesis using assms(2) w by (simp add: http_setup_def op_write_ok refused_with_def)
  next
    case invalid
    then show ?thesis using assms(2) w by (simp add: http_setup_def op_write_ok refused_with_def)
  next
    case full
    then obtain n m where "AddIpConnCount (sv_counts S) ?ip (w_mgr w) = Some ((False, n), m)" using a by auto
    then show ?thesis using full assms(2) w
      by (simp add: http_setup_def op_add_count_def op_write_ok refused_with_def)
  next
    case room
    obtain k m where m: "AddIpConnCount (sv_counts S) ?ip (w_mgr w) = Some ((True, k), m)" "can_add S m"
      using a room(3) by (metis (full_types))
    define w1 where "w1 = w\<lparr>w_mgr := m\<rparr>"
    have w1: "\<not> w_open w1" "sendq_ok (w_send w1)" "werr (w_conn w1) = []" "w_dials w1 = w_dials w" "w_black w1 = w_black w"
      "w_env w1 = w_env w" "w_conn w1 = w_conn w" "w_target w1 = w_target w" "w_target_err w1 = w_target_err w" "can_add S (w_mgr w1)"
      using w assms(2) m(2) by (simp_all add: w1_def)
    have st: "http_setup S L req w = defer_count S ?ip (http_connect S L req u p w1)"
      unfolding w1_def by (rule http_to_connect [OF room(1,2) m(1)])
    consider (black) "blacklisted (w_black w) ?d"
      | (down) msg e where "\<not> blacklisted (w_black w) ?d" "sv_dial S ?a (IP L) (w_env w) = (Inl msg, e)"
      | (up) loc e where "\<not> blacklisted (w_black w) ?d" "sv_dial S ?a (IP L) (w_env w) = (Inr loc, e)"
      by (metis sum.exhaust prod.exhaust)
    then show ?thesis
    proof cases
      case black
      then obtain w2 where w2: "http_connect S L req u p w1 = Some (Returned, w2)" "w_dials w2 = w_dials w" "\<not> w_open w2"
        "written (w_conn w2) = written (w_conn w) @ [reply_503]"
        using http_blacklisted [OF w1(2,3,1), of req S L u p] w1 by auto
      have "refused_with [] [reply_503] w (http_setup S L req w)"
        by (rule refused_after_http [OF assms(1) st w2(1)]) (use w2 in simp_all)
      then show ?thesis using room black by simp
    next
      case down
      have "op_dial S ?a (IP L) w1 = (Inl msg, w1\<lparr>w_env := e, w_dials := w_dials w @ [(?a, IP L)]\<rparr>)"
        using down(2) w1 by (cases w1) (simp add: op_dial_def)
      then have c: "http_connect S L req u p w1 = Some (Returned, w1\<lparr>w_env := e, w_dials := w_dials w @ [(?a, IP L)],
          w_conn := (w_conn w)\<lparr>written := written (w_conn w) @ [reply_503]\<rparr>\<rparr>)"
        using http_not_blacklisted [of w1 req S L u p] down(1) w1 assms(2) by (simp add: op_write_ok)
      have "refused_with [(?a, IP L)] [reply_503] w (http_setup S L req w)"
        by (rule refused_after_http [OF assms(1) st c]) (use w1 in simp_all)
      then show ?thesis using room down by simp
    next
      case up
      define w2 where "w2 = w1\<lparr>w_env := e, w_dials := w_dials w @ [(?a, IP L)], w_open := True\<rparr>"
      have w2: "werr (w_conn w2) = []" "can_add S (w_mgr w2)" "w_open w2" "w_dials w2 = w_dials w @ [(?a, IP L)]"
        "w_conn w2 = w_conn w" "w_target w2 = w_target w" "w_target_err w2 = w_target_err w"
        using w1 by (simp_all add: w2_def)
      have d: "http_connect S L req u p w1 = defer_close (http_forward S L req u p ?a ?d w2)"
        using http_not_blacklisted [of w1 req S L u p] up w1 by (simp add: op_dial_def w2_def)
      note c = st [unfolded d]
      show ?thesis
      proof (cases "Method req = ''CONNECT''")
        case True
        obtain r m' where "http_forward S L req u p ?a ?d w2 = Some (Relay r,
            w2\<lparr>w_conn := (w_conn w2)\<lparr>written := written (w_conn w2) @ [reply_200]\<rparr>, w_mgr := m'\<rparr>)"
          "rl_user r = u" "rl_key r = user_key u ?ip" "rl_addr r = ?a"
          by (rule forward_connect [OF True w2(1,2)])
        then have "relayed_with [reply_200] [] req u L w (http_setup S L req w)"
          using w2 unfolding c by (simp add: relayed_with_def defer_close_def defer_count_def)
        then show ?thesis using room up True by simp
      next
        case other: False
        show ?thesis
        proof (cases "(\<exists>err. sv_req_Write S (without_credentials req) = Inl err) \<or> w_target_err w \<noteq> None")
          case True
          have f: "defer_close (http_forward S L req u p ?a ?d w2) = Some (Returned, w2\<lparr>w_open := False\<rparr>)"
            using forward_fails [OF other, of S w2] True w2(7) by (simp add: defer_close_def op_close_target_def)
          have "refused_with [(?a, IP L)] [] w (http_setup S L req w)"
            by (rule refused_after_http [OF assms(1) c f]) (use w2 in simp_all)
          then show ?thesis using room up other True by (auto split: sum.split option.split)
        next
          case False
          then obtain bs where bs: "sv_req_Write S (without_credentials req) = Inr bs" "w_target_err w2 = None"
            using w2(7) by (cases "sv_req_Write S (without_credentials req)") auto
          obtain r m' where "http_forward S L req u p ?a ?d w2 = Some (Relay r, w2\<lparr>w_target := w_target w2 @ [bs], w_mgr := m'\<rparr>)"
            "rl_user r = u" "rl_key r = user_key u ?ip" "rl_addr r = ?a"
            by (rule forward_request [OF other bs w2(2)])
          then have "relayed_with [] [bs] req u L w (http_setup S L req w)"
            using w2 unfolding c by (simp add: relayed_with_def defer_close_def defer_count_def)
          then show ?thesis using room up other bs w2(7) by simp
        qed
      qed
    qed
  qed
qed

theorem http_answers_witness:
  "\<exists>r w'. http_setup demo_services demo_local (demo_request ''CONNECT'' ''10.9.9.9'') (demo_world [] []) = Some (Relay r, w') \<and>
     rl_addr r = ''10.9.9.9:443'' \<and> written (w_conn w') = [reply_200] \<and>
     refused_with [] [reply_503] (demo_world [''bank''] [])
       (http_setup demo_services demo_local (demo_request ''CONNECT'' ''www.bank.example'') (demo_world [''bank''] []))"
proof -
  have t: "target_address (demo_request ''CONNECT'' ''10.9.9.9'') = ''10.9.9.9:443''"
    "target_address (demo_request ''CONNECT'' ''www.bank.example'') = ''www.bank.example:443''" by code_simp+
  have d: "regexpDomain ''10.9.9.9:443'' = []" "regexpDomain ''www.bank.example:443'' = ''www.bank.example''" by code_simp+
  have b: "blacklisted (SetBlackMap [''bank''] None) ''www.bank.example''" by code_simp
  have w: "Method (demo_request m h) = m" "\<not> blacklisted bm []" for m h bm
    by (simp_all add: demo_request_def blacklisted_def)
  show ?thesis
    using http_answers [OF demo_server [of "\<lambda>_. True" "[]" "[]"], of demo_local "demo_request ''CONNECT'' ''10.9.9.9''"]
      http_answers [OF demo_server [of "\<lambda>_. True" "[''bank'']" "[]"], of demo_local "demo_request ''CONNECT'' ''www.bank.example''"]
    by (simp add: t d b w demo_auth demo_ip demo_valid has_room_def demo_live relayed_with_def) blast
qed

end
