(* ===== verification/Copying.thy ===== *)
theory Copying
  imports FlowShared Sniffing
begin

text \<open>
  The goroutines of a relayed connection, as \<open>socksTcpConn\<close> and \<open>httpTcpConn\<close> start them
  (\<^verbatim>\<open>server/socks_proxy_handler.go\<close>, \<^verbatim>\<open>server/http_proxy_handler.go\<close>): two copy, through the limited
  reader and the wrapper of \<open>NewReadWriterNotice\<close>; one waits for the first bytes of the client; and
  the handler waits, closes the connections and joins them. The step relation lets them move in any
  order. A call on a connection takes effect when it returns, and what the network answers is any
  result; what a goroutine has read, written and lost is kept beside its state. What \<open>GetReadSize\<close>
  grants is any number too: the budget is shared with other connections and with the refresh of the
  configuration, in whose middle a call can be (\<^verbatim>\<open>FlowShared\<close>), and then it can grant more than it
  was asked for. A goroutine that panics runs its deferred \<open>wg.Done\<close> and is over; the others may
  still move until the process has ended.
\<close>

section \<open>Copying one direction\<close>

text \<open>
  The loop of \<open>io.CopyBuffer\<close>: at its read; at its write, with what was read; about to send its result
  to \<open>errCh\<close>; over.
\<close>

datatype copy_pc = Reading | Writing "byte list" "go_error option" | Reporting "go_error option" | CopyOver

text \<open>
  \<open>cp_out\<close> is what the destination has taken, \<open>cp_lost\<close> what it has not taken of the last write,
  \<open>cp_cut\<close> what the source still had when it was closed; \<open>cp_raced\<close> says that a read was granted, and
  took, more than the limited reader had fetched.
\<close>

record copier =
  cp_lr :: limited_reader
  cp_src :: source
  cp_pc :: copy_pc
  cp_out :: "byte list"
  cp_lost :: "byte list"
  cp_cut :: "byte list"
  cp_raced :: bool

definition copier_start :: "source \<Rightarrow> copier" where
  "copier_start src = \<lparr>cp_lr = NewLimitedReader, cp_src = src, cp_pc = Reading, cp_out = [], cp_lost = [], cp_cut = [], cp_raced = False\<rparr>"

definition copy_end :: "go_error \<Rightarrow> copy_pc" where
  "copy_end e = Reporting (if e = EOF then None else Some e)"

definition after_read :: "byte list \<times> go_error option \<Rightarrow> copy_pc" where
  "after_read res = (if fst res \<noteq> [] then Writing (fst res) (snd res)
     else (case snd res of None \<Rightarrow> Reading | Some e \<Rightarrow> copy_end e))"

text \<open>One \<open>Read\<close> of the connection below the limited reader, through the wrapper if there is one.\<close>

definition read_below :: "ReadWriterNotice option \<Rightarrow> source \<Rightarrow>
    (byte list \<times> go_error option) \<times> ReadWriterNotice option \<times> source" where
  "read_below nt src = (case nt of
     None \<Rightarrow> (case source_read src of (res, src') \<Rightarrow> (res, None, src'))
   | Some r \<Rightarrow> (if isStart r
       then (case source_read src of (res, src') \<Rightarrow> (fst (rwn_Read res r), Some (snd (rwn_Read res r)), src'))
       else (fst (rwn_Read ([], None) r), Some r, src)))"

text \<open>
  \<open>src.Read(buf)\<close> with the buffer of 2048 bytes: the limited reader reads below only when it is empty, and then
  takes as much as \<open>k\<close>, the answer of \<open>GetReadSize\<close>, allows. The last component is a panic.
\<close>

definition take_out :: "int \<Rightarrow> copier \<Rightarrow> copier \<times> bool" where
  "take_out k c =
    (if lr_llen (cp_lr c) \<le> 0 then (c\<lparr>cp_pc := after_read ([], Some EOF)\<rparr>, False)
     else let c1 = c\<lparr>cp_raced := cp_raced c \<or> lr_llen (cp_lr c) < min k (2 * 1024)\<rparr> in
       (case hand_over k (2 * 1024) (cp_lr c) of
          None \<Rightarrow> (c1\<lparr>cp_pc := CopyOver\<rparr>, True)
        | Some (bs, lr) \<Rightarrow> (c1\<lparr>cp_lr := lr, cp_pc := after_read (bs, None)\<rparr>, False)))"

definition copy_read :: "bool \<Rightarrow> int \<Rightarrow> ReadWriterNotice option \<Rightarrow> copier \<Rightarrow> copier \<times> ReadWriterNotice option \<times> bool" where
  "copy_read ctx_done k nt c =
    (if ctx_done then (c\<lparr>cp_pc := after_read ([], Some CtxDone)\<rparr>, nt, False)
     else if lr_llen (cp_lr c) \<noteq> 0 then (case take_out k c of (c', panics) \<Rightarrow> (c', nt, panics))
     else (case read_below nt (cp_src c) of (below, nt', src') \<Rightarrow>
       (case fetch (cp_lr c) [below] of (err, lr, _) \<Rightarrow>
          let c1 = c\<lparr>cp_lr := lr, cp_src := src'\<rparr> in
          (case err of Some e \<Rightarrow> (c1\<lparr>cp_pc := after_read ([], Some e)\<rparr>, nt', False)
           | None \<Rightarrow> (case take_out k c1 of (c', panics) \<Rightarrow> (c', nt', panics))))))"

text \<open>\<open>dst.Write(buf[0:nr])\<close> has returned \<open>(nw, ew)\<close>.\<close>

definition copy_write :: "nat \<times> go_error option \<Rightarrow> copier \<Rightarrow> copier" where
  "copy_write res c = (case cp_pc c of
     Writing bs er \<Rightarrow>
       let invalid = length bs < fst res;
           nw = (if invalid then 0 else fst res);
           ew = (if invalid \<and> snd res = None then Some (Errorf ''invalid write result'') else snd res);
           c1 = c\<lparr>cp_out := cp_out c @ take nw bs, cp_lost := drop nw bs\<rparr>
       in (case ew of Some e \<Rightarrow> c1\<lparr>cp_pc := Reporting (Some e)\<rparr>
         | None \<Rightarrow> if length bs \<noteq> nw then c1\<lparr>cp_pc := Reporting (Some (Errorf ''short write''))\<rparr>
           else (case er of None \<Rightarrow> c1\<lparr>cp_pc := Reading\<rparr> | Some e \<Rightarrow> c1\<lparr>cp_pc := copy_end e\<rparr>))
   | _ \<Rightarrow> c)"

text \<open>The connection a copier reads from is closed: from now on a read of it fails.\<close>

definition close_source :: "copier \<Rightarrow> copier" where
  "close_source c = c\<lparr>cp_src := [([], Some (NetErr ''use of closed network connection''))],
     cp_cut := source_bytes (cp_src c) @ cp_cut c\<rparr>"

subsection \<open>What a copier keeps\<close>

definition held :: "copier \<Rightarrow> byte list" where
  "held c = (case cp_pc c of Writing bs _ \<Rightarrow> bs | _ \<Rightarrow> cp_lost c) @ pending (cp_lr c)"

text \<open>Errors come without data, as a TCP connection returns them.\<close>

definition errors_bare :: "source \<Rightarrow> bool" where
  "errors_bare src \<longleftrightarrow> (\<forall>(d, e)\<in>set src. e \<noteq> None \<longrightarrow> d = [])"

text \<open>What a read keeps whatever it is granted, and what holds as long as it is granted no more than there is.\<close>

definition lr_fits :: "limited_reader \<Rightarrow> bool" where
  "lr_fits lr \<longleftrightarrow> length (lr_temp lr) = tempbuf_size \<and> lr_off lr + nat (lr_llen lr) \<le> tempbuf_size"

definition copier_inv :: "byte list \<Rightarrow> copier \<Rightarrow> bool" where
  "copier_inv orig c \<longleftrightarrow> lr_fits (cp_lr c) \<and> source_ok (cp_src c) \<and> errors_bare (cp_src c) \<and>
     (case cp_pc c of Writing bs er \<Rightarrow> bs \<noteq> [] \<and> er = None | _ \<Rightarrow> True) \<and>
     (\<not> cp_raced c \<longrightarrow> 0 \<le> lr_llen (cp_lr c) \<and>
       cp_out c @ held c @ source_bytes (cp_src c) @ cp_cut c = orig \<and>
       (case cp_pc c of Writing bs er \<Rightarrow> cp_lost c = [] | Reading \<Rightarrow> cp_lost c = []
        | Reporting None \<Rightarrow> held c = [] | _ \<Rightarrow> True))"

lemma lr_fits_inv: "lr_fits lr \<Longrightarrow> 0 \<le> lr_llen lr \<Longrightarrow> lr_inv lr"
  by (simp add: lr_fits_def lr_inv_def)

lemma copier_start_inv: "source_ok src \<Longrightarrow> errors_bare src \<Longrightarrow> copier_inv (source_bytes src) (copier_start src)"
  using NewLimitedReader_inv by (simp add: copier_inv_def copier_start_def held_def lr_fits_def lr_inv_def)

lemma close_source_inv: "copier_inv orig c \<Longrightarrow> copier_inv orig (close_source c)"
  by (auto simp: copier_inv_def close_source_def held_def source_ok_def errors_bare_def source_bytes_def
      split: copy_pc.splits option.splits)

lemma copier_sent:
  assumes "copier_inv orig c" "\<not> cp_raced c"
  shows "cp_out c @ held c @ source_bytes (cp_src c) @ cp_cut c = orig \<and> (cp_pc c = Reporting None \<longrightarrow> held c = [])"
  using assms by (cases "cp_pc c") (auto simp: copier_inv_def)

lemma close_source_pc [simp]: "cp_pc (close_source c) = cp_pc c"
  by (simp add: close_source_def)

lemma copy_write_inv: "copier_inv orig c \<Longrightarrow> copier_inv orig (copy_write res c)"
  by (cases "cp_pc c")
    (auto simp: copier_inv_def copy_write_def held_def Let_def copy_end_def split: option.splits)

lemma read_below_spec:
  assumes "read_below nt src = (below, nt', src')" and "source_ok src" "errors_bare src"
  shows "length (fst below) \<le> tempbuf_size \<and> (snd below \<noteq> None \<longrightarrow> fst below = []) \<and> source_ok src' \<and> errors_bare src' \<and>
    fst below @ source_bytes src' = source_bytes src"
  using assms
  by (auto simp: read_below_def source_read_def rwn_Read_def source_ok_def errors_bare_def source_bytes_def
      split: option.splits list.splits if_splits prod.splits)

lemma hand_over_some:
  assumes "lr_fits lr" "0 < lr_llen lr" "hand_over k (2 * 1024) lr = Some (bs, lr')"
  shows "lr_fits lr' \<and> bs \<noteq> [] \<and> length (pending lr') < length (pending lr) \<and>
    (min k (2 * 1024) \<le> lr_llen lr \<longrightarrow> 0 \<le> lr_llen lr' \<and> bs @ pending lr' = pending lr)"
proof -
  define n where "n = (if int (2 * 1024) > (if k \<le> 0 then 1 else k) then nat (if k \<le> 0 then 1 else k) else 2 * 1024)"
  have h: "bs = take n (drop (lr_off lr) (lr_temp lr))" "lr' = lr\<lparr>lr_llen := lr_llen lr - int n, lr_off := lr_off lr + n\<rparr>"
    "lr_off lr + n \<le> length (lr_temp lr)"
    using assms(3) unfolding hand_over_def Let_def n_def by (auto split: if_splits)
  have n: "0 < n" by (auto simp: n_def)
  have l: "length bs = n" using h(1,3) by simp
  have fit: "length (lr_temp lr) = tempbuf_size" "lr_off lr + nat (lr_llen lr) \<le> tempbuf_size"
    using assms(1) by (simp_all add: lr_fits_def)
  have f: "lr_fits lr'" using h(2,3) fit by (auto simp: lr_fits_def nat_diff_distrib')
  have p: "length (pending lr) = nat (lr_llen lr)" "length (pending lr') = nat (lr_llen lr - int n)"
    using fit f h(2) by (auto simp: pending_def lr_fits_def)
  have "bs @ pending lr' = pending lr" if "min k (2 * 1024) \<le> lr_llen lr"
  proof -
    have m: "n \<le> nat (lr_llen lr)" using that assms(2) by (auto simp: n_def)
    have "nat (lr_llen lr - int n) = nat (lr_llen lr) - n" by (simp add: nat_diff_distrib')
    then show ?thesis
      using take_split [OF m, of "drop (lr_off lr) (lr_temp lr)"] by (simp add: h(1,2) pending_def add.commute)
  qed
  moreover have "0 \<le> lr_llen lr'" if "min k (2 * 1024) \<le> lr_llen lr" using that assms(2) h(2) by (auto simp: n_def)
  ultimately show ?thesis using f l n p assms(2) by auto
qed

lemma hand_over_none:
  assumes "lr_fits lr" "0 < lr_llen lr" "hand_over k (2 * 1024) lr = None"
  shows "lr_llen lr < min k (2 * 1024)"
  using assms by (auto simp: hand_over_def lr_fits_def Let_def split: if_splits)

text \<open>A fetch that succeeds leaves the limited reader with what was read, a fetch that fails with nothing.\<close>

lemma fetch_below:
  assumes "lr_fits lr" "lr_llen lr = 0" "length (fst below) \<le> tempbuf_size" "fetch lr [below] = (err, lr', rest)"
  shows "lr_fits lr' \<and> 0 \<le> lr_llen lr' \<and> pending lr' = fst below \<and> err = snd below"
  using assms by (cases below) (auto simp: fetch_def source_read_def lr_fits_def pending_def)

lemma after_read_simps [simp]:
  "after_read ([], Some e) = copy_end e" "after_read ([], None) = Reading" "bs \<noteq> [] \<Longrightarrow> after_read (bs, er) = Writing bs er"
  by (simp_all add: after_read_def)

text \<open>A copier at its read.\<close>

definition at_read :: "byte list \<Rightarrow> copier \<Rightarrow> bool" where
  "at_read orig c \<longleftrightarrow> lr_fits (cp_lr c) \<and> source_ok (cp_src c) \<and> errors_bare (cp_src c) \<and>
     (\<not> cp_raced c \<longrightarrow> 0 \<le> lr_llen (cp_lr c) \<and> cp_lost c = [] \<and>
       cp_out c @ pending (cp_lr c) @ source_bytes (cp_src c) @ cp_cut c = orig)"

lemma at_read_inv: "cp_pc c = Reading \<Longrightarrow> copier_inv orig c \<longleftrightarrow> at_read orig c"
  by (auto simp: copier_inv_def at_read_def held_def)

lemma read_ends:
  assumes "at_read orig c" "e = EOF \<longrightarrow> lr_llen (cp_lr c) \<le> 0"
  shows "copier_inv orig (c\<lparr>cp_pc := copy_end e\<rparr>)"
  using assms by (auto simp: copier_inv_def at_read_def held_def copy_end_def pending_def)

lemma take_out_inv:
  assumes "at_read orig c" "take_out k c = (c', panics)"
  shows "copier_inv orig c' \<and> (panics \<longrightarrow> cp_raced c') \<and> cp_src c' = cp_src c \<and> cp_cut c' = cp_cut c \<and> (cp_raced c \<longrightarrow> cp_raced c')"
proof (cases "lr_llen (cp_lr c) \<le> 0")
  case True
  then show ?thesis using assms read_ends [OF assms(1), of EOF] by (auto simp: take_out_def)
next
  case False
  then have l: "0 < lr_llen (cp_lr c)" and f: "lr_fits (cp_lr c)" using assms(1) by (auto simp: at_read_def)
  show ?thesis
  proof (cases "hand_over k (2 * 1024) (cp_lr c)")
    case None
    then show ?thesis using hand_over_none [OF f l None] assms False
      by (auto simp: take_out_def copier_inv_def at_read_def)
  next
    case (Some x)
    then obtain bs lr where x: "hand_over k (2 * 1024) (cp_lr c) = Some (bs, lr)" by (cases x) auto
    have h: "lr_fits lr" "bs \<noteq> []"
      "min k (2 * 1024) \<le> lr_llen (cp_lr c) \<Longrightarrow> 0 \<le> lr_llen lr \<and> (\<forall>xs. bs @ pending lr @ xs = pending (cp_lr c) @ xs)"
      using hand_over_some [OF f l x] by (auto simp flip: append_assoc)
    show ?thesis using assms x False h
      by (auto simp: take_out_def copier_inv_def at_read_def held_def not_less)
  qed
qed

lemma copy_read_spec:
  assumes inv: "copier_inv orig c" and pc: "cp_pc c = Reading" and r: "copy_read cd k nt c = (c', nt', panics)"
  shows "copier_inv orig c' \<and> (panics \<longrightarrow> cp_raced c') \<and> cp_cut c' = cp_cut c \<and> (cp_raced c \<longrightarrow> cp_raced c') \<and>
    (if cd \<or> lr_llen (cp_lr c) \<noteq> 0 then cp_src c' = cp_src c \<and> nt' = nt
     else (nt', cp_src c') = snd (read_below nt (cp_src c)))"
proof -
  have i: "at_read orig c" using inv at_read_inv [OF pc] by simp
  consider "cd" | "\<not> cd" "lr_llen (cp_lr c) \<noteq> 0" | "\<not> cd" "lr_llen (cp_lr c) = 0" by blast
  then show ?thesis
  proof cases
    case 1
    then show ?thesis using r read_ends [OF i, of CtxDone] by (auto simp: copy_read_def)
  next
    case 2
    obtain c1 p where t: "take_out k c = (c1, p)" by (cases "take_out k c") auto
    from take_out_inv [OF i t] show ?thesis using r t 2 by (simp add: copy_read_def)
  next
    case 3
    obtain below nt1 src1 where b: "read_below nt (cp_src c) = (below, nt1, src1)" by (cases "read_below nt (cp_src c)") auto
    obtain err lr rest where f: "fetch (cp_lr c) [below] = (err, lr, rest)" by (cases "fetch (cp_lr c) [below]") auto
    have B: "length (fst below) \<le> tempbuf_size" "snd below \<noteq> None \<Longrightarrow> fst below = []" "source_ok src1" "errors_bare src1"
      "fst below @ source_bytes src1 = source_bytes (cp_src c)" using read_below_spec [OF b] i by (auto simp: at_read_def)
    have fits: "lr_fits (cp_lr c)" using i by (simp add: at_read_def)
    note F = fetch_below [OF fits 3(2) B(1) f]
    have "pending (cp_lr c) = []" using 3(2) by (simp add: pending_def)
    then have i1: "at_read orig (c\<lparr>cp_lr := lr, cp_src := src1\<rparr>)" using i F B by (auto simp: at_read_def)
    show ?thesis
    proof (cases err)
      case (Some e)
      then have "lr_llen lr = 0" using f B(2) F 3(2) by (cases below) (auto simp: fetch_def source_read_def)
      then show ?thesis using r b f Some 3 read_ends [OF i1, of e] by (auto simp: copy_read_def)
    next
      case None
      obtain c1 p where t: "take_out k (c\<lparr>cp_lr := lr, cp_src := src1\<rparr>) = (c1, p)"
        by (cases "take_out k (c\<lparr>cp_lr := lr, cp_src := src1\<rparr>)") auto
      from take_out_inv [OF i1 t] show ?thesis using r b f t None 3 by (auto simp: copy_read_def)
    qed
  qed
qed

text \<open>
  A call of \<open>Read\<close> that nothing overlaps is such a read: what its \<open>GetReadSize\<close> grants does not panic, and is no
  more than there is.
\<close>

lemma take_out_alone:
  assumes "lr_inv (cp_lr c)" "action_inv act" "deliver now (2 * 1024) (cp_lr c) act = Some (res, lr, act')"
  shows "\<exists>k. take_out k c = (c\<lparr>cp_lr := lr, cp_pc := after_read res\<rparr>, False)"
proof (cases "lr_llen (cp_lr c) \<le> 0")
  case True
  then show ?thesis using assms(3) by (auto simp: deliver_def take_out_def)
next
  case False
  then have l: "0 \<le> lr_llen (cp_lr c)" by simp
  obtain k a where g: "GetReadSize now (lr_llen (cp_lr c)) act = Some (k, a)" "k \<le> lr_llen (cp_lr c)"
    using GetReadSize_spec [OF assms(2) l, of now] by blast
  then have "\<not> lr_llen (cp_lr c) < min k (2 * 1024)" by simp
  then have "take_out k c = (c\<lparr>cp_lr := lr, cp_pc := after_read res\<rparr>, False)"
    using assms(3) False g(1) unfolding deliver_hand_over take_out_def by (auto simp: Let_def)
  then show ?thesis by blast
qed

lemma copy_read_alone:
  assumes "lr_inv (cp_lr c)" "action_inv act" "read_below nt (cp_src c) = (below, nt', src')" "length (fst below) \<le> tempbuf_size"
    and "LimitedReader_Read cd now (2 * 1024) (cp_lr c) act [below] = Some (res, lr, act', rest)"
  shows "\<exists>k. copy_read cd k nt c =
    (if cd \<or> lr_llen (cp_lr c) \<noteq> 0 then (c\<lparr>cp_lr := lr, cp_pc := after_read res\<rparr>, nt, False)
     else (c\<lparr>cp_src := src', cp_lr := lr, cp_pc := after_read res\<rparr>, nt', False))"
proof -
  obtain err lr1 src1 where f: "fetch (cp_lr c) [below] = (err, lr1, src1)" by (cases "fetch (cp_lr c) [below]") auto
  consider "cd" | "\<not> cd" "lr_llen (cp_lr c) \<noteq> 0" | e where "\<not> cd" "lr_llen (cp_lr c) = 0" "err = Some e"
    | "\<not> cd" "lr_llen (cp_lr c) = 0" "err = None" by (cases err) auto
  then show ?thesis
  proof cases
    case 1
    then show ?thesis using assms(5) by (auto simp: copy_read_def LimitedReader_Read_def)
  next
    case 2
    then have "deliver now (2 * 1024) (cp_lr c) act = Some (res, lr, act')"
      using assms(5) by (auto simp: LimitedReader_Read_def fetch_def)
    from take_out_alone [OF assms(1,2) this] obtain k where
      "take_out k c = (c\<lparr>cp_lr := lr, cp_pc := after_read res\<rparr>, False)" by blast
    then show ?thesis using 2 by (auto simp: copy_read_def intro!: exI [of _ k])
  next
    case 3
    then show ?thesis using assms(3,5) f by (auto simp: copy_read_def LimitedReader_Read_def)
  next
    case 4
    then have d: "deliver now (2 * 1024) lr1 act = Some (res, lr, act')"
      using assms(5) f by (auto simp: LimitedReader_Read_def)
    have "lr_fits (cp_lr c)" using assms(1) by (simp add: lr_inv_def lr_fits_def)
    from fetch_below [OF this 4(2) assms(4) f] have "lr_inv lr1" by (simp add: lr_fits_inv)
    then have "\<exists>k. take_out k (c\<lparr>cp_lr := lr1, cp_src := src'\<rparr>) = (c\<lparr>cp_src := src', cp_lr := lr, cp_pc := after_read res\<rparr>, False)"
      using take_out_alone [of "c\<lparr>cp_lr := lr1, cp_src := src'\<rparr>" act now res lr act'] assms(2) d by simp
    then obtain k where
      "take_out k (c\<lparr>cp_lr := lr1, cp_src := src'\<rparr>) = (c\<lparr>cp_src := src', cp_lr := lr, cp_pc := after_read res\<rparr>, False)" by blast
    then show ?thesis using 4 assms(3) f by (auto simp: copy_read_def intro!: exI [of _ k])
  qed
qed

section \<open>The goroutines of a connection\<close>

text \<open>
  The goroutine that looks for a name, and the handler: in its loop; returned, with \<open>done\<close> closed;
  after \<open>netConn.Close\<close>; after \<open>netTarget.Close\<close>, in \<open>wg.Wait\<close>; past it, with \<open>errCh\<close> and \<open>byteChan\<close> closed.
\<close>

datatype sniffer_pc = SnWaiting | SnLooking | SnOver

datatype handler_pc = Looping | DoneClosed | ClientClosed | Joining | HandlerOver

text \<open>
  \<open>rc_up\<close> copies from the client to the target. \<open>rc_sniffed\<close> is the buffer the third goroutine got; \<open>rc_panic\<close> is
  a slice out of range in the reader or in the parser of the first bytes, or a send on a closed channel.
\<close>

record copying =
  rc_up :: copier
  rc_down :: copier
  rc_notice :: "ReadWriterNotice option"
  rc_ctx :: bool
  rc_errs :: "go_error option list"
  rc_bytes :: "byte list list"
  rc_sniffer :: sniffer_pc
  rc_sniffed :: "byte list option"
  rc_hand :: handler_pc
  rc_panic :: bool

definition copying_start :: "bool \<Rightarrow> source \<Rightarrow> source \<Rightarrow> copying" where
  "copying_start sniff client target =
    \<lparr>rc_up = copier_start client, rc_down = copier_start target,
     rc_notice = (if sniff then (case NewReadWriterNotice True None True of Inl _ \<Rightarrow> None | Inr r \<Rightarrow> Some r) else None),
     rc_ctx = False, rc_errs = [], rc_bytes = [], rc_sniffer = (if sniff then SnWaiting else SnOver),
     rc_sniffed = None, rc_hand = Looping, rc_panic = False\<rparr>"

text \<open>The buffers that the parser of a ClientHello cannot slice.\<close>

definition sniff_panics :: "byte list \<Rightarrow> bool" where
  "sniff_panics buf \<longleftrightarrow> buf \<noteq> [] \<and> buf ! 0 = 0x16 \<and> length buf < 5"

lemma sniff_panics_iff:
  assumes "cryptobyte C"
  shows "sniff_domain C ReadRequest buf = None \<longleftrightarrow> sniff_panics buf"
proof (cases "buf \<noteq> [] \<and> buf ! 0 = 0x16")
  case True
  show ?thesis
  proof (cases "length buf < 5")
    case short: True
    then show ?thesis using True by (simp add: sniff_domain_def sniff_panics_def UnmarshalByByte_def)
  next
    case False
    obtain e m where "UnmarshalByByte C buf empty_msg = Some (e, m)"
      using cryptobyte.UnmarshalByByte_return [OF assms, of buf empty_msg] True False by (auto simp: empty_msg_def)
    then show ?thesis using True False by (auto simp: sniff_domain_def sniff_panics_def Let_def split: sum.splits)
  qed
next
  case False
  then show ?thesis by (auto simp: sniff_domain_def sniff_panics_def Let_def split: sum.splits)
qed

text \<open>SOCKS looks for a name whenever the request has none; HTTP only in a tunnel, since a plain request names its host.\<close>

definition socks_copying :: "string \<Rightarrow> source \<Rightarrow> source \<Rightarrow> copying" where
  "socks_copying domain = copying_start (domain = [])"

definition http_copying :: "string \<Rightarrow> string \<Rightarrow> source \<Rightarrow> source \<Rightarrow> copying" where
  "http_copying domain method = copying_start (domain = [] \<and> method = ''CONNECT'')"

text \<open>
  The flag tells the steps of the connection's own goroutines from what others do, which cancel the context of
  the user. A read is granted any \<open>k\<close>.
\<close>

inductive copying_step :: "bool \<Rightarrow> copying \<Rightarrow> copying \<Rightarrow> bool" where
  up_read: "cp_pc (rc_up s) = Reading \<Longrightarrow> copy_read (rc_ctx s) k (rc_notice s) (rc_up s) = (c, nt, panics) \<Longrightarrow>
     copying_step True s (s\<lparr>rc_up := c, rc_notice := nt, rc_panic := rc_panic s \<or> panics\<rparr>)"
| down_read: "cp_pc (rc_down s) = Reading \<Longrightarrow> copy_read (rc_ctx s) k None (rc_down s) = (c, nt, panics) \<Longrightarrow>
     copying_step True s (s\<lparr>rc_down := c, rc_panic := rc_panic s \<or> panics\<rparr>)"
| up_write: "cp_pc (rc_up s) = Writing bs er \<Longrightarrow> copying_step True s (s\<lparr>rc_up := copy_write res (rc_up s)\<rparr>)"
| down_write: "cp_pc (rc_down s) = Writing bs er \<Longrightarrow> rc_notice s = None \<Longrightarrow>
     copying_step True s (s\<lparr>rc_down := copy_write res (rc_down s)\<rparr>)"
| down_write_notice: "cp_pc (rc_down s) = Writing bs er \<Longrightarrow> rc_notice s = Some r \<Longrightarrow> rwn_Write bs res r = (res', r') \<Longrightarrow>
     notices r' = notices r @ new \<Longrightarrow> new = [] \<or> rc_hand s \<noteq> HandlerOver \<and> rc_bytes s = [] \<Longrightarrow>
     copying_step True s (s\<lparr>rc_down := copy_write res' (rc_down s), rc_notice := Some r', rc_bytes := rc_bytes s @ new\<rparr>)"
| notice_panic: "cp_pc (rc_down s) = Writing bs er \<Longrightarrow> rc_notice s = Some r \<Longrightarrow> rwn_Write bs res r = (res', r') \<Longrightarrow>
     notices r' \<noteq> notices r \<Longrightarrow> rc_hand s = HandlerOver \<Longrightarrow> copying_step True s (s\<lparr>rc_panic := True\<rparr>)"
| up_report: "cp_pc (rc_up s) = Reporting e \<Longrightarrow> rc_hand s \<noteq> HandlerOver \<Longrightarrow> length (rc_errs s) < 2 \<Longrightarrow>
     copying_step True s (s\<lparr>rc_up := (rc_up s)\<lparr>cp_pc := CopyOver\<rparr>, rc_errs := rc_errs s @ [e]\<rparr>)"
| down_report: "cp_pc (rc_down s) = Reporting e \<Longrightarrow> rc_hand s \<noteq> HandlerOver \<Longrightarrow> length (rc_errs s) < 2 \<Longrightarrow>
     copying_step True s (s\<lparr>rc_down := (rc_down s)\<lparr>cp_pc := CopyOver\<rparr>, rc_errs := rc_errs s @ [e]\<rparr>)"
| report_panic: "cp_pc (rc_up s) = Reporting e \<or> cp_pc (rc_down s) = Reporting e \<Longrightarrow> rc_hand s = HandlerOver \<Longrightarrow>
     copying_step True s (s\<lparr>rc_panic := True\<rparr>)"
| sniff: "rc_sniffer s = SnWaiting \<Longrightarrow> rc_bytes s = b # bs \<Longrightarrow>
     copying_step True s (s\<lparr>rc_sniffer := SnLooking, rc_bytes := bs, rc_sniffed := Some b\<rparr>)"
| sniff_done: "rc_sniffer s = SnWaiting \<Longrightarrow> rc_hand s \<noteq> Looping \<Longrightarrow> copying_step True s (s\<lparr>rc_sniffer := SnOver\<rparr>)"
| sniff_looked: "rc_sniffer s = SnLooking \<Longrightarrow> rc_sniffed s = Some b \<Longrightarrow>
     copying_step True s (s\<lparr>rc_sniffer := SnOver, rc_panic := rc_panic s \<or> sniff_panics b\<rparr>)"
| hear: "rc_hand s = Looping \<Longrightarrow> rc_errs s = e # es \<Longrightarrow> copying_step True s (s\<lparr>rc_hand := DoneClosed, rc_errs := es\<rparr>)"
| leave: "rc_hand s = Looping \<Longrightarrow> copying_step True s (s\<lparr>rc_hand := DoneClosed\<rparr>)"
| close_client: "rc_hand s = DoneClosed \<Longrightarrow> copying_step True s
     (s\<lparr>rc_hand := ClientClosed, rc_notice := map_option (\<lambda>r. snd (rwn_Close r)) (rc_notice s), rc_up := close_source (rc_up s)\<rparr>)"
| close_target: "rc_hand s = ClientClosed \<Longrightarrow> copying_step True s (s\<lparr>rc_hand := Joining, rc_down := close_source (rc_down s)\<rparr>)"
| joined: "rc_hand s = Joining \<Longrightarrow> cp_pc (rc_up s) = CopyOver \<Longrightarrow> cp_pc (rc_down s) = CopyOver \<Longrightarrow> rc_sniffer s = SnOver \<Longrightarrow>
     copying_step True s (s\<lparr>rc_hand := HandlerOver\<rparr>)"
| cancelled: "copying_step False s (s\<lparr>rc_ctx := True\<rparr>)"

inductive copying_reach :: "bool \<Rightarrow> source \<Rightarrow> source \<Rightarrow> copying \<Rightarrow> bool" for sniff client target where
  start: "copying_reach sniff client target (copying_start sniff client target)"
| move: "copying_reach sniff client target s \<Longrightarrow> copying_step own s s' \<Longrightarrow> copying_reach sniff client target s'"

subsection \<open>The invariant\<close>

text \<open>Until the client is first written to, the wrapper has what was read from it; afterwards it has been handed over once.\<close>

definition flight_inv :: "byte list \<Rightarrow> copier \<Rightarrow> ReadWriterNotice \<Rightarrow> bool" where
  "flight_inv client c r \<longleftrightarrow> fc r \<and>
     (if isStart r \<and> \<not> isNotice r
      then (\<exists>b. rwn_buf r = Some b \<and> b @ source_bytes (cp_src c) @ cp_cut c = client) \<and> notices r = []
      else notices r = [] \<or> (\<exists>b rest. notices r = [b] \<and> b @ rest = client))"

definition handed :: "copying \<Rightarrow> byte list list" where
  "handed s = (case rc_sniffed s of None \<Rightarrow> [] | Some b \<Rightarrow> [b]) @ rc_bytes s"

definition reported :: "copier \<Rightarrow> nat" where
  "reported c = (if cp_pc c = CopyOver then 1 else 0)"

definition copying_inv :: "byte list \<Rightarrow> byte list \<Rightarrow> copying \<Rightarrow> bool" where
  "copying_inv client target s \<longleftrightarrow> copier_inv client (rc_up s) \<and> copier_inv target (rc_down s) \<and>
     (rc_panic s \<longrightarrow> cp_raced (rc_up s) \<or> cp_raced (rc_down s) \<or> (\<exists>b. rc_sniffed s = Some b \<and> sniff_panics b)) \<and> handed s = (case rc_notice s of None \<Rightarrow> [] | Some r \<Rightarrow> notices r) \<and>
     (case rc_notice s of None \<Rightarrow> True | Some r \<Rightarrow> flight_inv client (rc_up s) r) \<and>
     (rc_sniffer s = SnWaiting \<longrightarrow> rc_sniffed s = None) \<and> (rc_sniffer s = SnLooking \<longrightarrow> rc_sniffed s \<noteq> None) \<and>
     length (rc_errs s) \<le> reported (rc_up s) + reported (rc_down s) \<and>
     (rc_hand s = HandlerOver \<longrightarrow> cp_pc (rc_up s) = CopyOver \<and> cp_pc (rc_down s) = CopyOver \<and> rc_sniffer s = SnOver)"

lemma copy_write_frame [simp]: "cp_src (copy_write res c) = cp_src c" "cp_cut (copy_write res c) = cp_cut c" "cp_lr (copy_write res c) = cp_lr c"
  by (auto simp: copy_write_def Let_def split: copy_pc.splits option.splits)

lemma flight_frame [simp]:
  "flight_inv client (c\<lparr>cp_pc := p\<rparr>) r \<longleftrightarrow> flight_inv client c r"
  "flight_inv client (copy_write res c) r \<longleftrightarrow> flight_inv client c r"
  by (simp_all add: flight_inv_def)

lemma copy_write_not_over [simp]: "cp_pc (copy_write res c) = CopyOver \<longleftrightarrow> cp_pc c = CopyOver"
  by (auto simp: copy_write_def Let_def copy_end_def split: copy_pc.splits option.splits)

lemma copy_write_raced [simp]: "cp_raced (copy_write res c) = cp_raced c" "cp_raced (close_source c) = cp_raced c"
  by (auto simp: copy_write_def close_source_def Let_def split: copy_pc.splits option.splits)

lemma source_read_bytes: "source_read src = (res, src') \<Longrightarrow> fst res @ source_bytes src' = source_bytes src"
  by (cases src) (auto simp: source_read_def source_bytes_def)

lemma flight_read_below:
  assumes "read_below (Some r) src = (below, nt', src')"
  shows "\<exists>r'. nt' = Some r' \<and> fc r' = fc r \<and> isStart r' = isStart r \<and> isNotice r' = isNotice r \<and> notices r' = notices r \<and>
    (isStart r \<and> \<not> isNotice r \<longrightarrow> (\<forall>b. rwn_buf r = Some b \<longrightarrow>
      (\<exists>x. rwn_buf r' = Some (b @ x) \<and> x @ source_bytes src' = source_bytes src)))"
proof (cases "isStart r")
  case True
  then show ?thesis using assms source_read_bytes [of src]
    by (fastforce simp: read_below_def rwn_Read_def split: prod.splits option.splits)
next
  case False
  then show ?thesis using assms by (auto simp: read_below_def)
qed

lemma flight_read:
  assumes r: "nt = Some r" "flight_inv client c r"
    and i: "copier_inv orig c" "cp_pc c = Reading" "copy_read cd k nt c = (c', nt', panics)"
  shows "\<exists>r'. nt' = Some r' \<and> notices r' = notices r \<and> flight_inv client c' r'"
proof (cases "cd \<or> lr_llen (cp_lr c) \<noteq> 0")
  case True
  then have "cp_src c' = cp_src c" "nt' = Some r" "cp_cut c' = cp_cut c" using copy_read_spec [OF i] r(1) by auto
  then show ?thesis using r by (auto simp: flight_inv_def)
next
  case False
  obtain below nt1 src1 where b: "read_below (Some r) (cp_src c) = (below, nt1, src1)"
    by (cases "read_below (Some r) (cp_src c)") auto
  have n: "nt' = nt1" "cp_src c' = src1" "cp_cut c' = cp_cut c" using copy_read_spec [OF i] r(1) False b by auto
  from flight_read_below [OF b] obtain r' where r': "nt1 = Some r'" "fc r' = fc r" "isStart r' = isStart r"
    "isNotice r' = isNotice r" "notices r' = notices r"
    "\<And>b. isStart r \<Longrightarrow> \<not> isNotice r \<Longrightarrow> rwn_buf r = Some b \<Longrightarrow>
      \<exists>x. rwn_buf r' = Some (b @ x) \<and> x @ source_bytes src1 = source_bytes (cp_src c)" by blast
  have "flight_inv client c' r'"
  proof (cases "isStart r \<and> \<not> isNotice r")
    case True
    then obtain b where b: "rwn_buf r = Some b" "b @ source_bytes (cp_src c) @ cp_cut c = client" "notices r = []"
      using r(2) by (auto simp: flight_inv_def)
    obtain x where x: "rwn_buf r' = Some (b @ x)" "x @ source_bytes src1 = source_bytes (cp_src c)"
      using r'(6) [OF _ _ b(1)] True by blast
    have "(b @ x) @ source_bytes src1 @ cp_cut c' = client" using b(2) x(2) n(3) by (metis append.assoc)
    then show ?thesis using True b x r' r(2) n by (simp add: flight_inv_def)
  next
    case False
    then show ?thesis using r' r(2) by (auto simp: flight_inv_def)
  qed
  then show ?thesis using r' n by blast
qed

lemma flight_write:
  assumes "rwn_Write bs res r = (res', r')" "flight_inv client (rc_up s) r"
  shows "flight_inv client (rc_up s) r' \<and> (notices r' = notices r \<or> notices r = [])"
  using assms
  by (cases "isStart r"; cases "isNotice r") (auto simp: flight_inv_def rwn_Write_def Let_def split: option.splits)

lemma flight_close:
  assumes "flight_inv client (rc_up s) r"
  shows "flight_inv client (close_source (rc_up s)) (snd (rwn_Close r)) \<and>
    notices (snd (rwn_Close r)) = notices r"
  using assms by (cases "isStart r"; cases "isNotice r") (auto simp: flight_inv_def rwn_Close_def)

lemma copy_read_unwrapped: "copy_read cd k None c = (c', nt, panics) \<Longrightarrow> nt = None"
  by (auto simp: copy_read_def read_below_def Let_def split: if_splits prod.splits option.splits)

text \<open>A copier at its read has not reported; one that panics in it has not either.\<close>

lemma up_read_step:
  assumes inv: "copying_inv client target s" and pc: "cp_pc (rc_up s) = Reading"
    and c: "copy_read (rc_ctx s) k (rc_notice s) (rc_up s) = (c, nt, panics)"
  shows "copying_inv client target (s\<lparr>rc_up := c, rc_notice := nt, rc_panic := rc_panic s \<or> panics\<rparr>)"
proof -
  note i = inv [unfolded copying_inv_def]
  have u: "copier_inv client (rc_up s)" using i by auto
  have c': "copier_inv client c" "panics \<Longrightarrow> cp_raced c" "cp_raced (rc_up s) \<Longrightarrow> cp_raced c"
    using copy_read_spec [OF u pc c] by auto
  have h: "rc_hand s \<noteq> HandlerOver" "reported (rc_up s) = 0" using i pc by (auto simp: reported_def)
  show ?thesis
  proof (cases "rc_notice s")
    case None
    have "nt = None" using copy_read_unwrapped c None by metis
    then show ?thesis using i c' h None by (auto simp: copying_inv_def handed_def)
  next
    case (Some r)
    then have "flight_inv client (rc_up s) r" using i by simp
    from flight_read [OF Some this u pc c] obtain r' where
      "nt = Some r'" "notices r' = notices r" "flight_inv client c r'" by blast
    then show ?thesis using i c' h Some by (auto simp: copying_inv_def handed_def)
  qed
qed

lemma report_inv: "copier_inv orig c \<Longrightarrow> cp_pc c = Reporting e \<Longrightarrow> copier_inv orig (c\<lparr>cp_pc := CopyOver\<rparr>)"
  by (simp add: copier_inv_def held_def)

lemma copying_step_inv:
  assumes "copying_step own s s'" "copying_inv client target s"
  shows "copying_inv client target s'"
  using assms
proof (induction rule: copying_step.induct)
  case (up_read s k c nt panics)
  then show ?case by (intro up_read_step)
next
  case (down_read s k c nt panics)
  note i = down_read(3) [unfolded copying_inv_def]
  have u: "copier_inv target (rc_down s)" using i by auto
  have "copier_inv target c" "panics \<Longrightarrow> cp_raced c" "cp_raced (rc_down s) \<Longrightarrow> cp_raced c"
    using copy_read_spec [OF u down_read(1,2)] by auto
  moreover have "rc_hand s \<noteq> HandlerOver" "reported (rc_down s) = 0" using i down_read(1) by (auto simp: reported_def)
  ultimately show ?case using i by (auto simp: copying_inv_def handed_def split: option.splits)
next
  case (up_write s bs er res)
  then show ?case
    by (auto simp: copying_inv_def handed_def reported_def flight_inv_def copy_write_inv split: option.splits)
next
  case (down_write s bs er res)
  then show ?case by (auto simp: copying_inv_def handed_def reported_def copy_write_inv split: option.splits)
next
  case (down_write_notice s bs er r res res' r' new)
  note i = down_write_notice(6) [unfolded copying_inv_def]
  have "flight_inv client (rc_up s) r" using i down_write_notice(2) by simp
  note f = flight_write [OF down_write_notice(3) this, THEN conjunct1]
  show ?case using i f down_write_notice(1,2,4)
    by (auto simp: copying_inv_def handed_def reported_def copy_write_inv)
next
  case (close_client s)
  show ?case
  proof (cases "rc_notice s")
    case None
    then show ?thesis using close_client
      by (auto simp: copying_inv_def handed_def close_source_inv reported_def)
  next
    case (Some r)
    then have "flight_inv client (rc_up s) r" using close_client(2) by (simp add: copying_inv_def)
    note f = flight_close [OF this]
    show ?thesis using close_client Some f
      by (auto simp: copying_inv_def handed_def close_source_inv reported_def)
  qed
next
  case (close_target s)
  then show ?case
    by (auto simp: copying_inv_def handed_def close_source_inv reported_def split: option.splits)
next
  case (up_report s e)
  then show ?case using report_inv [of client "rc_up s" e]
    by (auto simp: copying_inv_def handed_def reported_def split: option.splits)
next
  case (down_report s e)
  then show ?case using report_inv [of target "rc_down s" e]
    by (auto simp: copying_inv_def handed_def reported_def split: option.splits)
next
  case (notice_panic s bs er r res res' r')
  then show ?case by (auto simp: copying_inv_def)
next
  case (report_panic s e)
  then show ?case by (auto simp: copying_inv_def)
qed (auto simp: copying_inv_def handed_def reported_def split: option.splits)

lemma copying_reach_inv:
  assumes "copying_reach sniff client target s" "source_ok client" "errors_bare client" "source_ok target"
    "errors_bare target"
  shows "copying_inv (source_bytes client) (source_bytes target) s"
  using assms(1)
proof (induction rule: copying_reach.induct)
  case start
  show ?case using assms(2-) copier_start_inv [of client] copier_start_inv [of target]
    by (auto simp: copying_inv_def copying_start_def handed_def reported_def NewReadWriterNotice_def flight_inv_def)
      (simp_all add: copier_start_def)
qed (rule copying_step_inv)

text \<open>Without the wrapper nothing is kept of what the client sends, and the name stays the one of the request.\<close>

lemma copying_step_unwrapped:
  "copying_step own s s' \<Longrightarrow> rc_notice s = None \<and> rc_sniffer s = SnOver \<and> rc_sniffed s = None \<and> rc_bytes s = [] \<Longrightarrow>
   rc_notice s' = None \<and> rc_sniffer s' = SnOver \<and> rc_sniffed s' = None \<and> rc_bytes s' = []"
  by (induction rule: copying_step.induct) (auto dest: copy_read_unwrapped)

lemma unwrapped_request:
  "(http_copying domain method client target = copying_start False client target \<longleftrightarrow>
      domain \<noteq> [] \<or> method \<noteq> ''CONNECT'') \<and>
   (copying_reach False client target s \<longrightarrow> rc_sniffed s = None \<and> handed s = [])"
proof (intro conjI impI)
  assume "copying_reach False client target s"
  then have "rc_notice s = None \<and> rc_sniffer s = SnOver \<and> rc_sniffed s = None \<and> rc_bytes s = []"
    by (induction rule: copying_reach.induct) (simp add: copying_start_def, rule copying_step_unwrapped)
  then show "rc_sniffed s = None" "handed s = []" by (simp_all add: handed_def)
qed (auto simp: http_copying_def copying_start_def NewReadWriterNotice_def)

subsection \<open>Joining the goroutines\<close>

definition dead :: "source \<Rightarrow> bool" where
  "dead src \<longleftrightarrow> (\<forall>(d, e)\<in>set src. d = [] \<and> e \<noteq> None)"

definition shut :: "copying \<Rightarrow> bool" where
  "shut s \<longleftrightarrow> (rc_hand s \<in> {ClientClosed, Joining, HandlerOver} \<longrightarrow> dead (cp_src (rc_up s))) \<and>
     (rc_hand s \<in> {Joining, HandlerOver} \<longrightarrow> dead (cp_src (rc_down s)))"

lemma dead_close [simp]: "dead (cp_src (close_source c))"
  by (simp add: dead_def close_source_def)

lemma take_out_src: "take_out k c = (c', panics) \<Longrightarrow> cp_src c' = cp_src c"
  by (auto simp: take_out_def Let_def split: if_splits option.splits prod.splits)

lemma copy_read_dead: "copy_read cd k nt c = (c', nt', panics) \<Longrightarrow> dead (cp_src c) \<Longrightarrow> dead (cp_src c')"
  by (cases "cp_src c")
    (auto simp: copy_read_def read_below_def source_read_def dead_def Let_def dest!: take_out_src
      split: if_splits option.splits prod.splits)

lemma copying_step_shut: "copying_step own s s' \<Longrightarrow> shut s \<Longrightarrow> shut s'"
  by (induction rule: copying_step.induct) (auto simp: shut_def dest: copy_read_dead)

lemma copying_reach_shut: "copying_reach sniff client target s \<Longrightarrow> shut s"
proof (induction rule: copying_reach.induct)
  case start
  show ?case by (simp add: shut_def copying_start_def)
qed (rule copying_step_shut)

definition copier_rest :: "copier \<Rightarrow> nat" where
  "copier_rest c = (case cp_pc c of Reading \<Rightarrow> 3 * length (pending (cp_lr c)) + 5
     | Writing _ _ \<Rightarrow> 3 * length (pending (cp_lr c)) + 6 | Reporting _ \<Rightarrow> 2 | CopyOver \<Rightarrow> 0)"

definition copying_rest :: "copying \<Rightarrow> nat" where
  "copying_rest s = copier_rest (rc_up s) + copier_rest (rc_down s) +
     (case rc_sniffer s of SnWaiting \<Rightarrow> 2 | SnLooking \<Rightarrow> 1 | SnOver \<Rightarrow> 0) + (if rc_hand s = HandlerOver then 0 else 1)"

lemma copy_write_rest: "cp_pc c = Writing bs er \<Longrightarrow> copier_rest (copy_write res c) < copier_rest c"
  by (auto simp: copier_rest_def copy_write_def Let_def copy_end_def split: option.splits)

lemma take_out_rest:
  assumes "lr_fits (cp_lr c)" "cp_pc c = Reading" "take_out k c = (c', panics)"
  shows "copier_rest c' < copier_rest c"
proof (cases "lr_llen (cp_lr c) \<le> 0")
  case True
  then show ?thesis using assms by (auto simp: take_out_def copier_rest_def copy_end_def)
next
  case False
  show ?thesis
  proof (cases "hand_over k (2 * 1024) (cp_lr c)")
    case None
    then show ?thesis using assms False by (auto simp: take_out_def copier_rest_def)
  next
    case (Some x)
    then obtain bs lr where x: "hand_over k (2 * 1024) (cp_lr c) = Some (bs, lr)" by (cases x) auto
    have "bs \<noteq> []" "length (pending lr) < length (pending (cp_lr c))"
      using hand_over_some [OF assms(1) _ x] False by auto
    then show ?thesis using assms(2,3) False x by (auto simp: take_out_def copier_rest_def)
  qed
qed

lemma copy_read_rest:
  assumes inv: "copier_inv orig c" and pc: "cp_pc c = Reading" and dead: "dead (cp_src c)"
    and c: "copy_read cd k nt c = (c', nt', panics)"
  shows "copier_rest c' < copier_rest c"
proof -
  consider "cd" | "\<not> cd" "lr_llen (cp_lr c) \<noteq> 0" | "\<not> cd" "lr_llen (cp_lr c) = 0" by blast
  then show ?thesis
  proof cases
    case 1
    then show ?thesis using c pc by (auto simp: copy_read_def copier_rest_def copy_end_def)
  next
    case 2
    have "lr_fits (cp_lr c)" using inv by (simp add: copier_inv_def)
    then show ?thesis using 2 c take_out_rest [OF _ pc, of k] by (auto simp: copy_read_def split: prod.splits)
  next
    case 3
    obtain below nt2 src1 where b: "read_below nt (cp_src c) = (below, nt2, src1)" by (cases "read_below nt (cp_src c)") auto
    have d: "fst below = [] \<and> snd below \<noteq> None"
      using b dead by (cases "cp_src c") (auto simp: read_below_def source_read_def rwn_Read_def dead_def split: option.splits if_splits)
    then show ?thesis using 3 b c pc
      by (cases below) (auto simp: copy_read_def fetch_def source_read_def copier_rest_def copy_end_def Let_def)
  qed
qed

lemma copying_step_rest:
  assumes "copying_step own s s'" "copying_inv client target s" "shut s" "rc_hand s = Joining"
  shows "(own \<longrightarrow> copying_rest s' < copying_rest s) \<and> copying_rest s' \<le> copying_rest s \<and> rc_hand s' \<in> {Joining, HandlerOver}"
  using assms
proof (induction rule: copying_step.induct)
  case (up_read s k c nt panics)
  have "copier_rest c < copier_rest (rc_up s)"
    using copy_read_rest [OF _ up_read(1) _ up_read(2), of client] up_read(3-) by (simp add: copying_inv_def shut_def)
  then show ?case using up_read(5) by (simp add: copying_rest_def)
next
  case (down_read s k c nt panics)
  have "copier_rest c < copier_rest (rc_down s)"
    using copy_read_rest [OF _ down_read(1) _ down_read(2), of target] down_read(3-) by (simp add: copying_inv_def shut_def)
  then show ?case using down_read(5) by (simp add: copying_rest_def)
next
  case (up_write s bs er res)
  then show ?case using copy_write_rest [OF up_write(1), of res] by (simp add: copying_rest_def)
next
  case (down_write s bs er res)
  then show ?case using copy_write_rest [OF down_write(1), of res] by (simp add: copying_rest_def)
next
  case (down_write_notice s bs er r res res' r' new)
  then show ?case using copy_write_rest [OF down_write_notice(1), of res'] by (simp add: copying_rest_def)
qed (simp_all add: copying_rest_def copier_rest_def)

lemma copying_progress:
  assumes inv: "copying_inv client target s" and j: "rc_hand s = Joining"
  shows "\<exists>s'. copying_step True s s'"
proof -
  note i = inv [unfolded copying_inv_def]
  consider "cp_pc (rc_up s) \<noteq> CopyOver" | "cp_pc (rc_down s) \<noteq> CopyOver" | "rc_sniffer s \<noteq> SnOver"
    | "cp_pc (rc_up s) = CopyOver" "cp_pc (rc_down s) = CopyOver" "rc_sniffer s = SnOver" by blast
  then show ?thesis
  proof cases
    case 1
    show ?thesis
    proof (cases "cp_pc (rc_up s)")
      case Reading
      obtain c nt p where "copy_read (rc_ctx s) 0 (rc_notice s) (rc_up s) = (c, nt, p)"
        by (cases "copy_read (rc_ctx s) 0 (rc_notice s) (rc_up s)") auto
      then show ?thesis using Reading copying_step.up_read by blast
    next
      case (Writing bs er)
      then show ?thesis using copying_step.up_write [of s] by blast
    next
      case (Reporting e)
      then have "length (rc_errs s) < 2" using i by (auto simp: reported_def split: if_splits)
      then show ?thesis using Reporting j copying_step.up_report [of s] by auto
    qed (use 1 in simp)
  next
    case 2
    show ?thesis
    proof (cases "cp_pc (rc_down s)")
      case Reading
      obtain c nt p where "copy_read (rc_ctx s) 0 None (rc_down s) = (c, nt, p)"
        by (cases "copy_read (rc_ctx s) 0 None (rc_down s)") auto
      then show ?thesis using Reading copying_step.down_read by blast
    next
      case (Writing bs er)
      show ?thesis
      proof (cases "rc_notice s")
        case None
        then show ?thesis using Writing copying_step.down_write [of s] by blast
      next
        case (Some r)
        obtain res' r' where w: "rwn_Write bs (0, Some EOF) r = (res', r')" by (cases "rwn_Write bs (0, Some EOF) r") auto
        have "flight_inv client (rc_up s) r" using i Some by simp
        note f = flight_write [OF w this]
        obtain new where n: "notices r' = notices r @ new" "new = [] \<or> notices r = []" using f by fastforce
        then have "new = [] \<or> rc_bytes s = []" using i Some by (auto simp: handed_def)
        then show ?thesis using copying_step.down_write_notice [OF Writing Some w n(1)] j by auto
      qed
    next
      case (Reporting e)
      then have "length (rc_errs s) < 2" using i by (auto simp: reported_def split: if_splits)
      then show ?thesis using Reporting j copying_step.down_report [of s] by auto
    qed (use 2 in simp)
  next
    case 3
    then show ?thesis using i copying_step.sniff_done [of s] copying_step.sniff_looked [of s] j by (cases "rc_sniffer s") auto
  next
    case 4
    then show ?thesis using copying_step.joined [of s] j by blast
  qed
qed

text \<open>A run, with the number of steps of the connection's own goroutines.\<close>

inductive copying_run :: "nat \<Rightarrow> copying \<Rightarrow> copying \<Rightarrow> bool" where
  none: "copying_run 0 s s"
| own: "copying_run n s s1 \<Longrightarrow> copying_step True s1 s2 \<Longrightarrow> copying_run (Suc n) s s2"
| others: "copying_run n s s1 \<Longrightarrow> copying_step False s1 s2 \<Longrightarrow> copying_run n s s2"

lemma over_stays: "copying_step own s s' \<Longrightarrow> copying_inv client target s \<Longrightarrow> rc_hand s = HandlerOver \<Longrightarrow>
    \<not> own \<and> rc_hand s' = HandlerOver \<and> copying_rest s' = copying_rest s"
  by (induction rule: copying_step.induct) (auto simp: copying_inv_def copying_rest_def)

lemma copying_runs:
  assumes "copying_run n s s'" "copying_inv client target s" "shut s" "rc_hand s = Joining"
  shows "n + copying_rest s' \<le> copying_rest s \<and> copying_inv client target s' \<and> shut s' \<and> rc_hand s' \<in> {Joining, HandlerOver}"
  using assms
proof (induction rule: copying_run.induct)
  case (own n s s1 s2)
  then have i: "n + copying_rest s1 \<le> copying_rest s" "copying_inv client target s1" "shut s1" "rc_hand s1 \<in> {Joining, HandlerOver}"
    by auto
  have "rc_hand s1 = Joining" using i(4) over_stays [OF own(2) i(2)] by auto
  then show ?case using copying_step_rest [OF own(2) i(2,3)] copying_step_inv [OF own(2) i(2)] copying_step_shut [OF own(2) i(3)] i(1) by auto
next
  case (others n s s1 s2)
  then have i: "n + copying_rest s1 \<le> copying_rest s" "copying_inv client target s1" "shut s1" "rc_hand s1 \<in> {Joining, HandlerOver}"
    by auto
  show ?case
    using copying_step_rest [OF others(2) i(2,3)] over_stays [OF others(2) i(2)] copying_step_inv [OF others(2) i(2)]
      copying_step_shut [OF others(2) i(3)] i(1,4) by auto
qed simp

text \<open>Handing over the first bytes.\<close>

lemma handed_step:
  assumes "copying_step own s s'" "copying_inv client target s"
  shows "handed s' = handed s \<or> handed s = [] \<and>
    (\<not> cp_raced (rc_up s) \<longrightarrow> handed s' = [cp_out (rc_up s) @ held (rc_up s)])"
  using assms
proof (induction rule: copying_step.induct)
  case (down_write_notice s bs er r res res' r' new)
  note i = down_write_notice(6) [unfolded copying_inv_def]
  have f: "flight_inv client (rc_up s) r" and h: "handed s = notices r" using i down_write_notice(2) by simp_all
  show ?case
  proof (cases "new = []")
    case True
    then show ?thesis by (simp add: handed_def)
  next
    case False
    then have o: "isStart r" "\<not> isNotice r" using down_write_notice(3,4)
      by (auto simp: rwn_Write_def Let_def split: if_splits)
    then obtain b where b: "rwn_buf r = Some b" "b @ source_bytes (cp_src (rc_up s)) @ cp_cut (rc_up s) = client" "notices r = []"
      using f by (auto simp: flight_inv_def)
    have "copier_inv client (rc_up s)" using i by simp
    then have "(cp_out (rc_up s) @ held (rc_up s)) @ source_bytes (cp_src (rc_up s)) @ cp_cut (rc_up s) = client" if "\<not> cp_raced (rc_up s)"
      using that by (simp add: copier_inv_def)
    then have "\<not> cp_raced (rc_up s) \<longrightarrow> b = cp_out (rc_up s) @ held (rc_up s)" using b(2) by (metis append_same_eq)
    moreover have "new = [b]" using down_write_notice(3,4) o b f
      by (auto simp: rwn_Write_def Let_def flight_inv_def split: if_splits)
    ultimately show ?thesis using h b(3) by (simp add: handed_def split: option.splits)
  qed
qed (auto simp: handed_def copying_inv_def split: option.splits)

section \<open>A small connection\<close>

text \<open>Each side sends one byte; the one of the client is read before the other is written to him.\<close>

lemma demo_ok: "source_ok [([x], None)]" "errors_bare [([x], None)]" "source_ok []" "errors_bare []"
  by (simp_all add: source_ok_def errors_bare_def tempbuf_size_def)

lemma demo_joining: "\<exists>s. copying_reach True [([7], None)] [] s \<and> rc_hand s = Joining"
proof -
  let ?R = "copying_reach True [([7], None)] []"
  let ?s0 = "copying_start True [([7], None)] []"
  have h: "rc_hand ?s0 = Looping" by (simp add: copying_start_def)
  have 1: "?R (?s0\<lparr>rc_hand := DoneClosed\<rparr>)" by (rule copying_reach.move [OF copying_reach.start copying_step.leave [OF h]])
  from copying_reach.move [OF 1 copying_step.close_client] obtain s2 where 2: "?R s2" "rc_hand s2 = ClientClosed" by fastforce
  from copying_reach.move [OF 2(1) copying_step.close_target [OF 2(2)]] show ?thesis by fastforce
qed

lemma demo_hand_over: "\<exists>lr. hand_over 1 2048 \<lparr>lr_temp = x # replicate 2047 0, lr_off = 0, lr_llen = 1\<rparr> = Some ([x], lr)"
  by (simp add: hand_over_def)

lemma demo_copy_read:
  assumes "read_below nt [([x], None)] = (([x], None), nt', [])"
  obtains c where "copy_read False 1 nt (copier_start [([x], None)]) = (c, nt', False)"
    "cp_pc c = Writing [x] None" "\<not> cp_raced c" "cp_out c = []"
proof -
  have f: "fetch NewLimitedReader [([x], None)] = (None, \<lparr>lr_temp = x # replicate 2047 0, lr_off = 0, lr_llen = 1\<rparr>, [])"
    by (simp add: fetch_def source_read_def NewLimitedReader_def tempbuf_size_def)
  obtain lr where h: "hand_over 1 2048 \<lparr>lr_temp = x # replicate 2047 0, lr_off = 0, lr_llen = 1\<rparr> = Some ([x], lr)"
    using demo_hand_over by blast
  have "lr_llen NewLimitedReader = 0" by (simp add: NewLimitedReader_def)
  from that [of "(copier_start [([x], None)])\<lparr>cp_lr := lr, cp_src := [], cp_raced := False, cp_pc := Writing [x] None\<rparr>"] this show ?thesis
    using assms f h by (simp add: copy_read_def copier_start_def take_out_def)
qed

lemma demo_flight:
  obtains s s' where "copying_reach True [([x], None)] [([9], None)] s" "copying_step True s s'" "handed s = []" "handed s' = [[x]]"
    "copying_reach True [([x], None)] [([9], None)] s'" "rc_bytes s' = [[x]]" "rc_sniffer s' = SnWaiting"
    "cp_out (rc_down s') = [9]" "cp_pc (rc_up s') = Writing [x] None" "\<not> cp_raced (rc_up s')" "\<not> cp_raced (rc_down s')"
proof -
  let ?R = "copying_reach True [([x], None)] [([9], None)]"
  let ?s0 = "copying_start True [([x], None)] [([9], None)]"
  obtain r where r: "NewReadWriterNotice True None True = Inr r" by (simp add: NewReadWriterNotice_def)
  then have R: "fc r" "isStart r" "\<not> isNotice r" "rwn_buf r = Some []" "notices r = []" by (auto simp: NewReadWriterNotice_def)
  have s0: "rc_up ?s0 = copier_start [([x], None)]" "rc_down ?s0 = copier_start [([9], None)]" "rc_sniffer ?s0 = SnWaiting"
    "rc_notice ?s0 = Some r" "\<not> rc_ctx ?s0" "rc_bytes ?s0 = []" "rc_sniffed ?s0 = None" "rc_hand ?s0 = Looping"
    using r by (simp_all add: copying_start_def)
  have pc: "cp_pc (copier_start src) = Reading" for src by (simp add: copier_start_def)
  have "read_below None [([9], None)] = (([9], None), None, [])" by (simp add: read_below_def source_read_def)
  then obtain d where d: "copy_read False 1 None (copier_start [([9], None)]) = (d, None, False)"
    "cp_pc d = Writing [9] None" "\<not> cp_raced d" "cp_out d = []" by (rule demo_copy_read)
  define s1 where "s1 = ?s0\<lparr>rc_down := d, rc_panic := rc_panic ?s0 \<or> False\<rparr>"
  have 1: "?R s1" unfolding s1_def
    by (rule copying_reach.move [OF copying_reach.start copying_step.down_read]) (use s0 d pc in simp_all)
  let ?r = "r\<lparr>rwn_buf := Some [x]\<rparr>"
  have "read_below (Some r) [([x], None)] = (([x], None), Some ?r, [])"
    using R by (simp add: read_below_def source_read_def rwn_Read_def)
  then obtain c where c: "copy_read False 1 (Some r) (copier_start [([x], None)]) = (c, Some ?r, False)"
    "cp_pc c = Writing [x] None" "\<not> cp_raced c" "cp_out c = []" by (rule demo_copy_read)
  define s2 where "s2 = s1\<lparr>rc_up := c, rc_notice := Some ?r, rc_panic := rc_panic s1 \<or> False\<rparr>"
  have 2: "?R s2" unfolding s2_def
    by (rule copying_reach.move [OF 1 copying_step.up_read]) (use s0 c pc in \<open>simp_all add: s1_def\<close>)
  let ?r3 = "snd (rwn_Write [9] (1, None) ?r)"
  have w: "rwn_Write [9] (1, None) ?r = ((1, None), ?r3)" "notices ?r3 = notices ?r @ [[x]]"
    using R by (simp_all add: rwn_Write_def Let_def)
  have p: "cp_pc (rc_down s2) = Writing [9] None" "rc_notice s2 = Some ?r" "rc_bytes s2 = []" "rc_hand s2 \<noteq> HandlerOver" "rc_sniffed s2 = None"
    "rc_sniffer s2 = SnWaiting" "rc_up s2 = c" "rc_down s2 = d"
    using s0 d by (simp_all add: s2_def s1_def)
  let ?s3 = "s2\<lparr>rc_down := copy_write (1, None) (rc_down s2), rc_notice := Some ?r3, rc_bytes := rc_bytes s2 @ [[x]]\<rparr>"
  from copying_step.down_write_notice [OF p(1,2) w(1,2)] p have st: "copying_step True s2 ?s3" by simp
  show ?thesis
    by (rule that [OF 2 st _ _ copying_reach.move [OF 2 st]]) (use p c d in \<open>simp_all add: handed_def copy_write_def\<close>)
qed

text \<open>The byte \<open>0x16\<close> alone, taken for the beginning of a ClientHello, ends the process.\<close>

lemma demo_panic: "\<exists>s. copying_reach True [([0x16], None)] [([9], None)] s \<and> rc_panic s \<and> \<not> cp_raced (rc_up s) \<and> \<not> cp_raced (rc_down s)"
proof -
  let ?R = "copying_reach True [([0x16], None)] [([9], None)]"
  obtain s where s: "?R s" "rc_bytes s = [[0x16]]" "rc_sniffer s = SnWaiting" "\<not> cp_raced (rc_up s)" "\<not> cp_raced (rc_down s)"
    by (rule demo_flight)
  let ?s1 = "s\<lparr>rc_sniffer := SnLooking, rc_bytes := [], rc_sniffed := Some [0x16]\<rparr>"
  have 1: "?R ?s1" by (rule copying_reach.move [OF s(1) copying_step.sniff [OF s(3,2)]])
  have "copying_step True ?s1 (?s1\<lparr>rc_sniffer := SnOver, rc_panic := rc_panic ?s1 \<or> sniff_panics [0x16]\<rparr>)"
    by (rule copying_step.sniff_looked) simp_all
  from copying_reach.move [OF 1 this] s(4,5) show ?thesis by (intro exI) (auto simp: sniff_panics_def)
qed

section \<open>Properties\<close>

text \<open>C9: A relayed connection under any interleaving, budget and outcome of the calls. In each direction, as
  long as no read has been granted, and taken, more than the limited reader had fetched: what the other side has
  taken, what is held, what the source still has and what it had when it was closed are together what the source
  sent, in order; and a copy that ends without an error has delivered all that it read. The program panics only
  after such a read, or when the client's first bytes are one to four that start with \<open>0x16\<close>; in particular no
  goroutine sends on a channel that the handler has closed.\<close>

theorem copying_transparent:
  assumes "copying_reach sniff client target s" and "source_ok client" "errors_bare client"
    and "source_ok target" "errors_bare target"
  shows "(\<not> cp_raced (rc_up s) \<longrightarrow>
      cp_out (rc_up s) @ held (rc_up s) @ source_bytes (cp_src (rc_up s)) @ cp_cut (rc_up s) = source_bytes client \<and>
      (cp_pc (rc_up s) = Reporting None \<longrightarrow> held (rc_up s) = [])) \<and>
    (\<not> cp_raced (rc_down s) \<longrightarrow>
      cp_out (rc_down s) @ held (rc_down s) @ source_bytes (cp_src (rc_down s)) @ cp_cut (rc_down s) = source_bytes target \<and>
      (cp_pc (rc_down s) = Reporting None \<longrightarrow> held (rc_down s) = [])) \<and>
    (rc_panic s \<longrightarrow> cp_raced (rc_up s) \<or> cp_raced (rc_down s) \<or>
      (\<exists>b rest. rc_sniffed s = Some b \<and> b @ rest = source_bytes client \<and> sniff_panics b))"
proof -
  note i = copying_reach_inv [OF assms, unfolded copying_inv_def]
  have u: "copier_inv (source_bytes client) (rc_up s)" "copier_inv (source_bytes target) (rc_down s)" using i by simp_all
  have "\<exists>rest. b @ rest = source_bytes client" if "rc_sniffed s = Some b" for b
    using i that by (cases "rc_notice s") (auto simp: handed_def flight_inv_def split: if_splits)
  then show ?thesis using i copier_sent [OF u(1)] copier_sent [OF u(2)] by blast
qed

theorem copying_transparent_witness:
  "(\<exists>s. copying_reach True [([7], None)] [([9], None)] s \<and> cp_out (rc_down s) = [9] \<and>
      held (rc_down s) @ source_bytes (cp_src (rc_down s)) @ cp_cut (rc_down s) = [] \<and>
      cp_out (rc_up s) @ held (rc_up s) @ source_bytes (cp_src (rc_up s)) @ cp_cut (rc_up s) = [7]) \<and>
    (\<exists>s b rest. copying_reach True [([0x16], None)] [([9], None)] s \<and> rc_panic s \<and>
      rc_sniffed s = Some b \<and> b @ rest = [0x16] \<and> sniff_panics b)"
proof -
  obtain s where s: "copying_reach True [([7], None)] [([9], None)] s" "cp_out (rc_down s) = [9]"
    "\<not> cp_raced (rc_up s)" "\<not> cp_raced (rc_down s)" by (rule demo_flight)
  obtain t where t: "copying_reach True [([0x16], None)] [([9], None)] t" "rc_panic t" "\<not> cp_raced (rc_up t)" "\<not> cp_raced (rc_down t)"
    using demo_panic by blast
  show ?thesis
    using copying_transparent [OF s(1) demo_ok(1,2) demo_ok(1,2)] copying_transparent [OF t(1) demo_ok(1,2) demo_ok(1,2)] s t
    by (fastforce simp: source_bytes_def)
qed

text \<open>The goroutine that looks for a name is handed at most one buffer, which is a beginning of what the
  client sends, and at the moment it is handed over it is all that was read from the client.\<close>

theorem copying_first_flight:
  assumes "copying_reach sniff client target s" and "source_ok client" "errors_bare client"
    and "source_ok target" "errors_bare target"
  shows "(handed s = [] \<or> (\<exists>b rest. handed s = [b] \<and> b @ rest = source_bytes client)) \<and>
    (\<forall>own s'. copying_step own s s' \<and> handed s' \<noteq> handed s \<longrightarrow>
      handed s = [] \<and> (\<not> cp_raced (rc_up s) \<longrightarrow> handed s' = [cp_out (rc_up s) @ held (rc_up s)]))"
proof (intro conjI allI impI; (elim conjE)?)
  note i = copying_reach_inv [OF assms]
  show "handed s = [] \<or> (\<exists>b rest. handed s = [b] \<and> b @ rest = source_bytes client)"
    using i by (cases "rc_notice s") (auto simp: copying_inv_def flight_inv_def split: if_splits)
  show "handed s = []" if "copying_step own s s'" "handed s' \<noteq> handed s" for own s'
    using handed_step [OF that(1) i] that(2) by blast
  show "handed s' = [cp_out (rc_up s) @ held (rc_up s)]"
    if "\<not> cp_raced (rc_up s)" "copying_step own s s'" "handed s' \<noteq> handed s" for own s'
    using handed_step [OF that(2) i] that(1,3) by blast
qed

theorem copying_first_flight_witness:
  "\<exists>s s'. copying_reach True [([7], None)] [([9], None)] s \<and> copying_step True s s' \<and> handed s = [] \<and> handed s' = [[7]]"
proof -
  obtain s s' where s: "copying_reach True [([7], None)] [([9], None)] s" "copying_step True s s'"
    "handed s = []" "handed s' = [[7]]" by (rule demo_flight)
  show ?thesis using copying_first_flight [OF s(1) demo_ok(1,2) demo_ok(1,2)] s by fastforce
qed

text \<open>C39: Once the handler has closed both connections it ends: the goroutines of the connection take a
  bounded number of steps, whatever others do in between, and until all are joined one of them can move.
  When the handler has closed the channels they are over.\<close>

theorem copying_ends:
  assumes "copying_reach sniff client target s" and "source_ok client" "errors_bare client"
    and "source_ok target" "errors_bare target" and "rc_hand s = Joining"
  shows "(\<forall>n s'. copying_run n s s' \<longrightarrow> n \<le> copying_rest s) \<and>
    (\<forall>n s'. copying_run n s s' \<and> rc_hand s' \<noteq> HandlerOver \<longrightarrow> (\<exists>s''. copying_step True s' s'')) \<and>
    (\<forall>n s'. copying_run n s s' \<and> rc_hand s' = HandlerOver \<longrightarrow>
      cp_pc (rc_up s') = CopyOver \<and> cp_pc (rc_down s') = CopyOver \<and> rc_sniffer s' = SnOver)"
proof (intro conjI allI impI; (elim conjE)?)
  note r = copying_runs [OF _ copying_reach_inv [OF assms(1-5)] copying_reach_shut [OF assms(1)] assms(6)]
  show "n \<le> copying_rest s" if "copying_run n s s'" for n s' using r [OF that] by simp
  show "\<exists>s''. copying_step True s' s''" if "copying_run n s s'" "rc_hand s' \<noteq> HandlerOver" for n s'
    using r [OF that(1)] that(2) copying_progress by auto
  show "cp_pc (rc_up s') = CopyOver" "cp_pc (rc_down s') = CopyOver" "rc_sniffer s' = SnOver"
    if "copying_run n s s'" "rc_hand s' = HandlerOver" for n s'
    using r [OF that(1)] that(2) by (simp_all add: copying_inv_def)
qed

theorem copying_ends_witness:
  "\<exists>s. copying_reach True [([7], None)] [] s \<and> rc_hand s = Joining \<and>
    (\<forall>n s'. copying_run n s s' \<longrightarrow> n \<le> copying_rest s)"
proof -
  obtain s where s: "copying_reach True [([7], None)] [] s" "rc_hand s = Joining" using demo_joining by blast
  show ?thesis using copying_ends [OF s(1) demo_ok s(2)] s by blast
qed

end
