(* ===== verification/Consumers.thy ===== *)
theory Consumers
  imports Auth Blacklist RabbitPool
begin

text \<open>
  The consumers of the server: \<open>runRabbitmqConsume\<close> (\<^verbatim>\<open>server/rabbitmq_consume.go\<close>), which connects to the
  broker and starts them, and the five functions that declare a queue and handle its messages
  (\<^verbatim>\<open>server/rabbitmq_*_consume.go\<close>). Their effect on the users is refined to a table of passwords and
  addresses.
\<close>

section \<open>The broker and the configuration\<close>

text \<open>The package \<open>amqp\<close> is a parameter, with the calls the consumers make; \<open>'e\<close> is the world outside.\<close>

record 'e broker_api =
  bk_Dial :: "string \<Rightarrow> 'e \<Rightarrow> (go_error + nat) \<times> 'e"
  bk_Channel :: "nat \<Rightarrow> 'e \<Rightarrow> (go_error + nat) \<times> 'e"
  bk_QueueDeclare :: "nat \<Rightarrow> string \<Rightarrow> bool \<Rightarrow> (string, table_value) gomap \<Rightarrow> 'e \<Rightarrow> go_error option \<times> 'e"
  bk_QueueBind :: "nat \<Rightarrow> string \<Rightarrow> string \<Rightarrow> string \<Rightarrow> 'e \<Rightarrow> go_error option \<times> 'e"
  bk_Consume :: "nat \<Rightarrow> string \<Rightarrow> bool \<Rightarrow> 'e \<Rightarrow> go_error option \<times> 'e"
  bk_Close :: "nat \<Rightarrow> 'e \<Rightarrow> 'e"

record rabbitmq_config =
  rq_Host :: string
  rq_Port :: int
  rq_User :: string
  rq_Password :: string
  rq_VirtualHost :: string
  rq_BlacklistExchange :: string

record confData =
  LocalIp :: string
  ProcessName :: string
  Rabbitmq :: rabbitmq_config

section \<open>Setting up a consumer\<close>

datatype consumer = BlacklistQueue | SetUserDataQueue | AddUserDataQueue | DisconnectQueue | DeleteUserDataQueue

fun queue_prefix :: "consumer \<Rightarrow> string" where
  "queue_prefix BlacklistQueue = ''new_blackListMsg_''"
| "queue_prefix SetUserDataQueue = ''SetUserData_''"
| "queue_prefix AddUserDataQueue = ''AddUserData_''"
| "queue_prefix DisconnectQueue = ''Disconnect_''"
| "queue_prefix DeleteUserDataQueue = ''DeleteUserData_''"

definition qName :: "confData \<Rightarrow> consumer \<Rightarrow> string" where
  "qName conf c = queue_prefix c @ LocalIp conf @ ''_'' @ ProcessName conf"

definition declare_args :: "consumer \<Rightarrow> (string, table_value) gomap" where
  "declare_args c = (if c = DisconnectQueue then gomap_set [] ''x-message-ttl'' (TInt (60 * 1000)) else [])"

definition bind_exchange :: "confData \<Rightarrow> consumer \<Rightarrow> string option" where
  "bind_exchange conf c = (if c = BlacklistQueue then Some (rq_BlacklistExchange (Rabbitmq conf)) else None)"

text \<open>Whether the broker counts a message as handled when it has sent it.\<close>

definition autoAck :: "consumer \<Rightarrow> bool" where
  "autoAck c \<longleftrightarrow> c \<in> {BlacklistQueue, DisconnectQueue, DeleteUserDataQueue}"

text \<open>Up to \<open>ch.Consume\<close>; a channel that was opened is closed again on an error.\<close>

definition open_consumer :: "'e broker_api \<Rightarrow> confData \<Rightarrow> nat \<Rightarrow> consumer \<Rightarrow> 'e \<Rightarrow> (go_error + nat) \<times> 'e" where
  "open_consumer B conf conn c e =
    (case bk_Channel B conn e of
       (Inl err, e1) \<Rightarrow> (Inl err, e1)
     | (Inr ch, e1) \<Rightarrow> (case bk_QueueDeclare B ch (qName conf c) True (declare_args c) e1 of
         (Some err, e2) \<Rightarrow> (Inl err, bk_Close B ch e2)
       | (None, e2) \<Rightarrow> (case (case bind_exchange conf c of
             None \<Rightarrow> (None, e2) | Some ex \<Rightarrow> bk_QueueBind B ch (qName conf c) [] ex e2) of
           (Some err, e3) \<Rightarrow> (Inl err, bk_Close B ch e3)
         | (None, e3) \<Rightarrow> (case bk_Consume B ch (qName conf c) (autoAck c) e3 of
             (Some err, e4) \<Rightarrow> (Inl err, bk_Close B ch e4)
           | (None, e4) \<Rightarrow> (Inr ch, e4)))))"

section \<open>Handling messages\<close>

text \<open>The decoders of \<open>proto\<close> and \<open>json\<close> and the encoder of \<open>json\<close>; the three things a message may change.\<close>

record codecs =
  dec_auth :: "byte list \<Rightarrow> go_error + AuthInfo"
  dec_disconnect :: "byte list \<Rightarrow> go_error + string \<times> string list"
  dec_blacklist :: "byte list \<Rightarrow> go_error + string list"
  enc_auth :: "AuthInfo \<Rightarrow> go_error + string"

record ('m, 'n, 's) server_data =
  sd_mgr :: "('m, 'n) manager"
  sd_redis :: 's
  sd_black :: black_map

text \<open>A delivery, with the time, the error of the connection to Redis if there is one, and the order of an iteration.\<close>

record delivery =
  dl_body :: "byte list"
  dl_now :: int
  dl_net :: "go_error option"
  dl_sched :: "nat list"

definition consumer_action :: "'s redis_api \<Rightarrow> ('n, connContext list) cmap_api \<Rightarrow> codecs \<Rightarrow> consumer \<Rightarrow> delivery \<Rightarrow>
    ('m, 'n, 's) server_data \<Rightarrow> (acknowledgement option \<times> ('m, 'n, 's) server_data) option" where
  "consumer_action R B K c d sd = (case c of
     BlacklistQueue \<Rightarrow> Some (None, sd\<lparr>sd_black := runRabbitmqBlacklistConsumeAction (dec_blacklist K) (dl_body d) (sd_black sd)\<rparr>)
   | SetUserDataQueue \<Rightarrow> (case runRabbitmqSetUserDataQueueConsumeAction R (dec_auth K) (enc_auth K) (dl_now d) (dl_net d)
         (dl_body d) (sd_redis sd) of (a, s) \<Rightarrow> Some (Some a, sd\<lparr>sd_redis := s\<rparr>))
   | AddUserDataQueue \<Rightarrow> (case runRabbitmqAddUserDataQueueConsumeAction R (dec_auth K) (enc_auth K) (dl_now d) (dl_net d)
         (dl_body d) (sd_redis sd) of (a, s) \<Rightarrow> Some (Some a, sd\<lparr>sd_redis := s\<rparr>))
   | DisconnectQueue \<Rightarrow> map_option (\<lambda>m. (None, sd\<lparr>sd_mgr := m\<rparr>))
       (runRabbitmqDisconnectQueueConsumeAction B (dec_disconnect K) (dl_sched d) (dl_body d) (sd_mgr sd))
   | DeleteUserDataQueue \<Rightarrow> map_option (\<lambda>(m, s). (None, sd\<lparr>sd_mgr := m, sd_redis := s\<rparr>))
       (runRabbitmqDeleteUserDataQueueConsumeAction R B (dec_auth K) (dl_sched d) (dl_net d) (dl_body d) (sd_mgr sd) (sd_redis sd)))"

text \<open>
  What the loop of a consumer waits for. A closed \<open>msgs\<close> is not acted on and the loop goes on. The result
  says whether the loop has returned, and the answers given so far; \<open>None\<close> is a panic.
\<close>

datatype consumer_event = Delivered delivery | DeliveriesClosed | ConsumerDone | ChannelClosed

fun consume_loop :: "'s redis_api \<Rightarrow> ('n, connContext list) cmap_api \<Rightarrow> codecs \<Rightarrow> consumer \<Rightarrow> consumer_event list \<Rightarrow>
    ('m, 'n, 's) server_data \<Rightarrow> (bool \<times> acknowledgement option list \<times> ('m, 'n, 's) server_data) option" where
  "consume_loop R B K c [] sd = Some (False, [], sd)"
| "consume_loop R B K c (Delivered d # evs) sd = Option.bind (consumer_action R B K c d sd) (\<lambda>(a, sd1).
     map_option (\<lambda>(ret, as, sd2). (ret, a # as, sd2)) (consume_loop R B K c evs sd1))"
| "consume_loop R B K c (DeliveriesClosed # evs) sd = consume_loop R B K c evs sd"
| "consume_loop R B K c (ConsumerDone # evs) sd = Some (True, [], sd)"
| "consume_loop R B K c (ChannelClosed # evs) sd = Some (True, [], sd)"

text \<open>A whole consumer: whether it has returned, its answers, and what has become of the server and the world.\<close>

definition run_consumer :: "'s redis_api \<Rightarrow> ('n, connContext list) cmap_api \<Rightarrow> codecs \<Rightarrow> 'e broker_api \<Rightarrow> confData \<Rightarrow> consumer \<Rightarrow>
    nat \<Rightarrow> consumer_event list \<Rightarrow> ('m, 'n, 's) server_data \<Rightarrow> 'e \<Rightarrow>
    (bool \<times> acknowledgement option list \<times> ('m, 'n, 's) server_data \<times> 'e) option" where
  "run_consumer R B K A conf c conn evs sd e = (case open_consumer A conf conn c e of
     (Inl err, e1) \<Rightarrow> Some (True, [], sd, e1)
   | (Inr ch, e1) \<Rightarrow> map_option (\<lambda>(ret, as, sd1). (ret, as, sd1, if ret then bk_Close A ch e1 else e1))
       (consume_loop R B K c evs sd))"

definition runRabbitmqBlacklistConsume where
  "runRabbitmqBlacklistConsume R B K A conf = run_consumer R B K A conf BlacklistQueue"

definition runRabbitmqSetUserDataQueueConsume where
  "runRabbitmqSetUserDataQueueConsume R B K A conf = run_consumer R B K A conf SetUserDataQueue"

definition runRabbitmqAddUserDataQueueConsume where
  "runRabbitmqAddUserDataQueueConsume R B K A conf = run_consumer R B K A conf AddUserDataQueue"

definition runRabbitmqDisconnectQueueConsume where
  "runRabbitmqDisconnectQueueConsume R B K A conf = run_consumer R B K A conf DisconnectQueue"

definition runRabbitmqDeleteUserDataQueueConsume where
  "runRabbitmqDeleteUserDataQueueConsume R B K A conf = run_consumer R B K A conf DeleteUserDataQueue"

section \<open>Starting the consumers\<close>

text \<open>
  \<open>fmt.Sprintf\<close> with an argument of the wrong type for its verb: \<open>%s\<close> with an \<open>int\<close> and \<open>%d\<close> with a \<open>string\<close>.
\<close>

definition bad_verb_int :: "int \<Rightarrow> string" where
  "bad_verb_int n = ''%!s(int='' @ Itoa n @ '')''"

definition bad_verb_string :: "string \<Rightarrow> string" where
  "bad_verb_string s = ''%!d(string='' @ s @ '')''"

definition amqpUrl :: "rabbitmq_config \<Rightarrow> string" where
  "amqpUrl rq = ''amqp://'' @ rq_Host rq @ '':'' @ bad_verb_int (rq_Port rq) @ ''@'' @ rq_User rq @ '':'' @
     bad_verb_string (rq_Password rq) @ ''/'' @ rq_VirtualHost rq"

text \<open>The tasks that are added to the manager of the connection, unless the broker cannot be dialled.\<close>

definition runRabbitmqConsume :: "'e broker_api \<Rightarrow> confData \<Rightarrow> 'e \<Rightarrow> (go_error + nat \<times> consumer list) \<times> 'e" where
  "runRabbitmqConsume A conf e = (case bk_Dial A (amqpUrl (Rabbitmq conf)) e of
     (Inl err, e1) \<Rightarrow> (Inl err, e1)
   | (Inr conn, e1) \<Rightarrow> (Inr (conn, [BlacklistQueue, SetUserDataQueue, DisconnectQueue, DeleteUserDataQueue]), e1))"

text \<open>
  What the documentation of \<open>net/url\<close> says of percent signs: in the authority of a URL, the part after the
  slashes, each is followed by two hexadecimal digits, or \<open>url.Parse\<close>, and so \<open>amqp.Dial\<close>, returns an error.
\<close>

definition is_hex :: "char \<Rightarrow> bool" where
  "is_hex c \<longleftrightarrow> c \<in> set ''0123456789abcdefABCDEF''"

fun bad_escape :: "string \<Rightarrow> bool" where
  "bad_escape [] = False"
| "bad_escape (c # cs) = (c = CHR ''%'' \<and> \<not> (2 \<le> length cs \<and> is_hex (cs ! 0) \<and> is_hex (cs ! 1)) \<or> bad_escape cs)"

definition authority :: "string \<Rightarrow> string" where
  "authority rest = takeWhile (\<lambda>c. c \<notin> set ''/?#'') rest"

definition dial_parses :: "'e broker_api \<Rightarrow> bool" where
  "dial_parses A \<longleftrightarrow> (\<forall>rest e. bad_escape (authority rest) \<longrightarrow> (\<exists>err e'. bk_Dial A (''amqp://'' @ rest) e = (Inl err, e')))"

section \<open>What the messages mean\<close>

text \<open>
  The abstract state: the password and the addresses of each user. A message that cannot be decoded or
  encoded has no effect, nor has one that finds Redis unreachable.
\<close>

type_synonym user_table = "string \<rightharpoonup> string \<times> string set"

definition addresses :: "user_table \<Rightarrow> string \<Rightarrow> string set" where
  "addresses db u = (case db u of None \<Rightarrow> {} | Some (_, S) \<Rightarrow> S)"

definition stored :: "codecs \<Rightarrow> delivery \<Rightarrow> AuthInfo option" where
  "stored K d = (case dec_auth K (dl_body d) of Inl _ \<Rightarrow> None
     | Inr info \<Rightarrow> (case enc_auth K (info\<lparr>Ips := [], UpdateUnix := dl_now d\<rparr>) of Inl _ \<Rightarrow> None | Inr _ \<Rightarrow> Some info))"

definition user_spec :: "codecs \<Rightarrow> consumer \<times> delivery \<Rightarrow> user_table \<Rightarrow> user_table" where
  "user_spec K cd db = (case cd of (c, d) \<Rightarrow> if dl_net d \<noteq> None then db else
     (case c of
       SetUserDataQueue \<Rightarrow> (case stored K d of None \<Rightarrow> db | Some i \<Rightarrow> db(Username i \<mapsto> (Password i, set (Ips i))))
     | AddUserDataQueue \<Rightarrow> (case stored K d of None \<Rightarrow> db
         | Some i \<Rightarrow> db(Username i \<mapsto> (Password i, addresses db (Username i) \<union> set (Ips i))))
     | DeleteUserDataQueue \<Rightarrow> (case dec_auth K (dl_body d) of Inl _ \<Rightarrow> db | Inr i \<Rightarrow> db(Username i := None))
     | _ \<Rightarrow> db))"

text \<open>The keys of the connections a message closes, and the answer to it.\<close>

definition closes :: "codecs \<Rightarrow> string \<Rightarrow> consumer \<times> delivery \<Rightarrow> bool" where
  "closes K k cd = (case cd of
     (DeleteUserDataQueue, d) \<Rightarrow> dl_net d = None \<and>
       (case dec_auth K (dl_body d) of Inl _ \<Rightarrow> False | Inr i \<Rightarrow> hd (split_colon k) = Username i)
   | (DisconnectQueue, d) \<Rightarrow> (case dec_disconnect K (dl_body d) of Inl _ \<Rightarrow> False
       | Inr (u, ips) \<Rightarrow> u \<noteq> [] \<and> (if ips = [] then hd (split_colon k) = u else k \<in> user_key u ` set ips))
   | _ \<Rightarrow> False)"

definition answer :: "codecs \<Rightarrow> consumer \<times> delivery \<Rightarrow> acknowledgement option" where
  "answer K cd = (case cd of (c, d) \<Rightarrow> if autoAck c then None else Some
     (case stored K d of None \<Rightarrow> Nack False False
      | Some i \<Rightarrow> if dl_net d \<noteq> None \<or> Ips i = [] then Nack False True else Ack False))"

text \<open>The messages of all consumers in the order they are handled.\<close>

fun handle_all :: "'s redis_api \<Rightarrow> ('n, connContext list) cmap_api \<Rightarrow> codecs \<Rightarrow> (consumer \<times> delivery) list \<Rightarrow>
    ('m, 'n, 's) server_data \<Rightarrow> (acknowledgement option list \<times> ('m, 'n, 's) server_data) option" where
  "handle_all R B K [] sd = Some ([], sd)"
| "handle_all R B K ((c, d) # cds) sd = Option.bind (consumer_action R B K c d sd) (\<lambda>(a, sd1).
     map_option (\<lambda>(as, sd2). (a # as, sd2)) (handle_all R B K cds sd1))"

definition delivered :: "consumer \<Rightarrow> consumer_event list \<Rightarrow> (consumer \<times> delivery) list" where
  "delivered c evs = map (Pair c) (concat (map (\<lambda>ev. case ev of Delivered d \<Rightarrow> [d] | _ \<Rightarrow> [])
     (takeWhile (\<lambda>ev. ev \<noteq> ConsumerDone \<and> ev \<noteq> ChannelClosed) evs)))"

lemma consume_loop_handles:
  "consume_loop R B K c evs sd = map_option (\<lambda>(as, sd').
     (ConsumerDone \<in> set evs \<or> ChannelClosed \<in> set evs, as, sd')) (handle_all R B K (delivered c evs) sd)"
proof (induction R B K c evs sd rule: consume_loop.induct)
  case (2 R B K c d evs sd)
  show ?case
  proof (cases "consumer_action R B K c d sd")
    case (Some asd)
    obtain a sd1 where a: "asd = (a, sd1)" by (cases asd) auto
    show ?thesis using 2 [OF Some a [symmetric]] Some a
      by (cases "handle_all R B K (delivered c evs) sd1") (auto simp: delivered_def)
  qed (simp add: delivered_def)
qed (auto simp: delivered_def)

subsection \<open>One message\<close>

definition entry_ok :: "(string \<Rightarrow> go_error + AuthInfo) \<Rightarrow> string \<Rightarrow> redis_value option \<Rightarrow> redis_value option \<Rightarrow>
    (string \<times> string set) option \<Rightarrow> bool" where
  "entry_ok json u data ips e = (case e of
     None \<Rightarrow> data = None \<and> ips = None
   | Some (p, S) \<Rightarrow> (\<exists>d i. data = Some (RString d) \<and> json d = Inr i \<and> Username i = u \<and> Password i = p) \<and>
       ips = (if S = {} then None else Some (RSet S)))"

definition represents :: "(string \<Rightarrow> go_error + AuthInfo) \<Rightarrow> (string \<rightharpoonup> redis_value) \<Rightarrow> user_table \<Rightarrow> bool" where
  "represents json K db \<longleftrightarrow> (\<forall>u. entry_ok json u (K (strKey u)) (K (setKey u)) (db u))"

lemma representsD:
  assumes "represents json K db"
  shows "db u = None \<Longrightarrow> K (strKey u) = None \<and> K (setKey u) = None"
    "db u = Some (p, S) \<Longrightarrow> (\<exists>d i. K (strKey u) = Some (RString d) \<and> json d = Inr i \<and> Username i = u \<and> Password i = p) \<and>
       K (setKey u) = (if S = {} then None else Some (RSet S))"
  using assms [unfolded represents_def, rule_format, of u] by (auto simp: entry_ok_def)

lemma admitted_table:
  assumes "represents json K db"
  shows "(\<exists>r. admitted json K u p ip r) \<longleftrightarrow> (\<exists>S. db u = Some (p, S) \<and> ip \<in> S)"
proof (cases "db u")
  case None
  then show ?thesis using representsD(1) [OF assms] by (simp add: admitted_def)
next
  case (Some ps)
  then obtain q S where db: "db u = Some (q, S)" by (cases ps) auto
  then obtain d i where "K (strKey u) = Some (RString d)" "json d = Inr i" "Username i = u" "Password i = q"
    "K (setKey u) = (if S = {} then None else Some (RSet S))" using representsD(2) [OF assms db] by blast
  then show ?thesis using db by (cases "S = {}") (auto simp: admitted_def)
qed

lemma represents_update:
  assumes "represents json K db" "json d = Inr i" "Username i = u" "Password i = p"
    and "K' = K(strKey u \<mapsto> RString d, setKey u := (if S = {} then None else Some (RSet S)))"
  shows "represents json K' (db(u \<mapsto> (p, S)))"
  unfolding represents_def
proof
  fix v
  show "entry_ok json v (K' (strKey v)) (K' (setKey v)) ((db(u \<mapsto> (p, S))) v)"
    using assms(1) [unfolded represents_def, rule_format, of v] assms(2-)
    by (cases "v = u") (simp_all add: entry_ok_def [of json u])
qed

lemma represents_delete:
  assumes "represents json K db" "K' = K |` (- {strKey u, setKey u})"
  shows "represents json K' (db(u := None))"
  unfolding represents_def
proof
  fix v
  show "entry_ok json v (K' (strKey v)) (K' (setKey v)) ((db(u := None)) v)"
    using assms(1) [unfolded represents_def, rule_format, of v] assms(2)
    by (cases "v = u") (simp_all add: entry_ok_def [of json u] restrict_map_def)
qed

context redis
begin

lemma AddUserData_any:
  assumes S: "kv s (setKey u) = (if S = {} then None else Some (RSet S))"
  shows "\<exists>err s'. AddUserDataLuaScript R (strKey u) (setKey u) d xs s = (err, s') \<and> (err = None \<longleftrightarrow> xs \<noteq> []) \<and>
    kv s' = (kv s)(strKey u \<mapsto> RString d, setKey u := (if S \<union> set xs = {} then None else Some (RSet (S \<union> set xs))))"
proof -
  obtain s1 where s1: "rd_SET R (strKey u) d s = Inr s1" "kv s1 = (kv s)(strKey u \<mapsto> RString d)"
    using SET by blast
  show ?thesis
  proof (cases "xs = []")
    case True
    obtain e where "rd_SADD R (setKey u) [] s1 = Inl e" using SADD_Nil by blast
    then show ?thesis using True s1 S by (auto simp: AddUserDataLuaScript_def fun_eq_iff)
  next
    case False
    then obtain s2 where "rd_SADD R (setKey u) xs s1 = Inr s2" "kv s2 = (kv s1)(setKey u \<mapsto> RSet (S \<union> set xs))"
      using SADD [OF False, where s = s1 and k = "setKey u"] s1(2) S by (auto split: if_splits)
    with False s1 show ?thesis by (simp add: AddUserDataLuaScript_def)
  qed
qed

end

text \<open>\<open>json.Marshal\<close> and \<open>json.Unmarshal\<close> are inverse on user data.\<close>

definition json_inverse :: "codecs \<Rightarrow> (string \<Rightarrow> go_error + AuthInfo) \<Rightarrow> bool" where
  "json_inverse K json \<longleftrightarrow> (\<forall>i data. enc_auth K i = Inr data \<longrightarrow> json data = Inr i)"

lemma stored_Some: "stored K d = Some i \<longleftrightarrow> dec_auth K (dl_body d) = Inr i \<and>
    (\<exists>data. enc_auth K (i\<lparr>Ips := [], UpdateUnix := dl_now d\<rparr>) = Inr data)"
  by (auto simp: stored_def split: sum.splits)

lemma stored_None: "stored K d = None \<longleftrightarrow> (\<exists>e. dec_auth K (dl_body d) = Inl e) \<or>
    (\<exists>i e. dec_auth K (dl_body d) = Inr i \<and> enc_auth K (i\<lparr>Ips := [], UpdateUnix := dl_now d\<rparr>) = Inl e)"
  by (auto simp: stored_def split: sum.splits)

text \<open>Both writers of user data: nothing happens unless the message is stored, and then the script runs.\<close>

lemma user_data_cases:
  "user_data_action script R (dec_auth K) (enc_auth K) (dl_now d) (dl_net d) (dl_body d) s =
    (case stored K d of None \<Rightarrow> (Nack False False, s)
     | Some i \<Rightarrow> (case dl_net d of Some e \<Rightarrow> (Nack False True, s)
       | None \<Rightarrow> (case script R (strKey (Username i)) (setKey (Username i))
           (projr (enc_auth K (i\<lparr>Ips := [], UpdateUnix := dl_now d\<rparr>))) (Ips i) s of
           (err, s') \<Rightarrow> (if err \<noteq> None then Nack False True else Ack False, s'))))"
  by (auto simp: user_data_action_def stored_def Let_def split: sum.splits option.splits prod.splits)

lemma set_user_step:
  assumes R: "redis R kv" and rep: "represents json (kv s) db" and js: "json_inverse K json"
  shows "\<exists>s'. runRabbitmqSetUserDataQueueConsumeAction R (dec_auth K) (enc_auth K) (dl_now d) (dl_net d) (dl_body d) s =
      (the (answer K (SetUserDataQueue, d)), s') \<and> represents json (kv s') (user_spec K (SetUserDataQueue, d) db)"
proof (cases "stored K d")
  case None
  then show ?thesis using rep
    by (simp add: runRabbitmqSetUserDataQueueConsumeAction_def user_data_cases user_spec_def answer_def autoAck_def)
next
  case (Some i)
  then obtain data where data: "enc_auth K (i\<lparr>Ips := [], UpdateUnix := dl_now d\<rparr>) = Inr data" by (auto simp: stored_Some)
  then have j: "json data = Inr (i\<lparr>Ips := [], UpdateUnix := dl_now d\<rparr>)" using js by (simp add: json_inverse_def)
  obtain err s' where s': "SetUserDataLuaScript R (strKey (Username i)) (setKey (Username i)) data (Ips i) s = (err, s')"
    "err = None \<longleftrightarrow> Ips i \<noteq> []"
    "kv s' = (kv s)(strKey (Username i) \<mapsto> RString data,
       setKey (Username i) := (if set (Ips i) = {} then None else Some (RSet (set (Ips i)))))"
    using redis.SetUserData_keys [OF R, of "Username i" data "Ips i" s] by auto
  have "represents json (kv s') (db(Username i \<mapsto> (Password i, set (Ips i))))"
    by (rule represents_update [OF rep j _ _ s'(3)]) simp_all
  moreover have "runRabbitmqSetUserDataQueueConsumeAction R (dec_auth K) (enc_auth K) (dl_now d) (dl_net d) (dl_body d) s =
      (case dl_net d of Some e \<Rightarrow> (Nack False True, s)
       | None \<Rightarrow> (if err \<noteq> None then Nack False True else Ack False, s'))"
    unfolding runRabbitmqSetUserDataQueueConsumeAction_def user_data_cases using Some data s'(1) by (cases "dl_net d") simp_all
  ultimately show ?thesis using rep s'(2) Some
    by (cases "dl_net d"; cases "Ips i = []") (simp_all add: user_spec_def answer_def autoAck_def)
qed

lemma add_user_step:
  assumes R: "redis R kv" and rep: "represents json (kv s) db" and js: "json_inverse K json"
  shows "\<exists>s'. runRabbitmqAddUserDataQueueConsumeAction R (dec_auth K) (enc_auth K) (dl_now d) (dl_net d) (dl_body d) s =
      (the (answer K (AddUserDataQueue, d)), s') \<and> represents json (kv s') (user_spec K (AddUserDataQueue, d) db)"
proof (cases "stored K d")
  case None
  then show ?thesis using rep
    by (simp add: runRabbitmqAddUserDataQueueConsumeAction_def user_data_cases user_spec_def answer_def autoAck_def)
next
  case (Some i)
  then obtain data where data: "enc_auth K (i\<lparr>Ips := [], UpdateUnix := dl_now d\<rparr>) = Inr data" by (auto simp: stored_Some)
  then have j: "json data = Inr (i\<lparr>Ips := [], UpdateUnix := dl_now d\<rparr>)" using js by (simp add: json_inverse_def)
  let ?S = "addresses db (Username i)"
  have S: "kv s (setKey (Username i)) = (if ?S = {} then None else Some (RSet ?S))"
  proof (cases "db (Username i)")
    case None
    then show ?thesis using representsD(1) [OF rep] by (simp add: addresses_def)
  next
    case (Some a)
    then show ?thesis using representsD(2) [OF rep, of "Username i" "fst a" "snd a"] by (simp add: addresses_def split_beta)
  qed
  obtain err s' where s': "AddUserDataLuaScript R (strKey (Username i)) (setKey (Username i)) data (Ips i) s = (err, s')"
    "err = None \<longleftrightarrow> Ips i \<noteq> []"
    "kv s' = (kv s)(strKey (Username i) \<mapsto> RString data,
       setKey (Username i) := (if ?S \<union> set (Ips i) = {} then None else Some (RSet (?S \<union> set (Ips i)))))"
    using redis.AddUserData_any [OF R S, of data "Ips i"] by blast
  have "represents json (kv s') (db(Username i \<mapsto> (Password i, ?S \<union> set (Ips i))))"
    by (rule represents_update [OF rep j _ _ s'(3)]) simp_all
  moreover have "runRabbitmqAddUserDataQueueConsumeAction R (dec_auth K) (enc_auth K) (dl_now d) (dl_net d) (dl_body d) s =
      (case dl_net d of Some e \<Rightarrow> (Nack False True, s)
       | None \<Rightarrow> (if err \<noteq> None then Nack False True else Ack False, s'))"
    unfolding runRabbitmqAddUserDataQueueConsumeAction_def user_data_cases using Some data s'(1) by (cases "dl_net d") simp_all
  ultimately show ?thesis using rep s'(2) Some
    by (cases "dl_net d"; cases "Ips i = []") (simp_all add: user_spec_def answer_def autoAck_def)
qed

lemma delete_user_step:
  assumes R: "redis R kv" and rep: "represents json (kv t) db"
    and M: "session_maps A invA lookA B invB lookB" and g: "sys_inv invA lookA invB lookB s"
  shows "\<exists>m' t'. runRabbitmqDeleteUserDataQueueConsumeAction R B (dec_auth K) (dl_sched d) (dl_net d) (dl_body d) (mgr s) t = Some (m', t') \<and>
    represents json (kv t') (user_spec K (DeleteUserDataQueue, d) db) \<and> sys_inv invA lookA invB lookB (s\<lparr>mgr := m'\<rparr>) \<and>
    (\<forall>ip k p. Relaying ip k p \<in> set (sessions s) \<longrightarrow> ctx_cancelled (contexts m' ! p) =
       (closes K k (DeleteUserDataQueue, d) \<or> ctx_cancelled (contexts (mgr s) ! p)))"
proof (cases "dl_net d = None \<and> (\<exists>i. dec_auth K (dl_body d) = Inr i)")
  case True
  then obtain i where i: "dl_net d = None" "dec_auth K (dl_body d) = Inr i" by blast
  obtain m' where m': "close_user B (dl_sched d) (Username i) (mgr s) = Some m'" "sys_inv invA lookA invB lookB (s\<lparr>mgr := m'\<rparr>)"
    "\<forall>ip k p. Relaying ip k p \<in> set (sessions s) \<longrightarrow> ctx_cancelled (contexts m' ! p) =
       (hd (split_colon k) = Username i \<or> ctx_cancelled (contexts (mgr s) ! p))"
    using session_maps.close_user_ok [OF M g, of "dl_sched d" "Username i"] by blast
  obtain t' where t': "rd_DEL R [strKey (Username i), setKey (Username i)] t = Inr t'"
    "kv t' = kv t |` (- {strKey (Username i), setKey (Username i)})"
    using redis.DEL [OF R, of "[strKey (Username i), setKey (Username i)]" t] by auto
  have "represents json (kv t') (db(Username i := None))" by (rule represents_delete [OF rep t'(2)])
  then show ?thesis using m' t'(1) i
    by (simp add: runRabbitmqDeleteUserDataQueueConsumeAction_def user_spec_def closes_def)
next
  case False
  then show ?thesis using rep g
    by (cases "dec_auth K (dl_body d)"; cases "dl_net d")
      (simp_all add: runRabbitmqDeleteUserDataQueueConsumeAction_def user_spec_def closes_def)
qed

lemma disconnect_step:
  assumes M: "session_maps A invA lookA B invB lookB" and g: "sys_inv invA lookA invB lookB s"
  shows "\<exists>m'. runRabbitmqDisconnectQueueConsumeAction B (dec_disconnect K) (dl_sched d) (dl_body d) (mgr s) = Some m' \<and>
    sys_inv invA lookA invB lookB (s\<lparr>mgr := m'\<rparr>) \<and>
    (\<forall>ip k p. Relaying ip k p \<in> set (sessions s) \<longrightarrow> ctx_cancelled (contexts m' ! p) =
       (closes K k (DisconnectQueue, d) \<or> ctx_cancelled (contexts (mgr s) ! p)))"
proof (cases "dec_disconnect K (dl_body d)")
  case (Inr r)
  obtain u ips where r: "r = (u, ips)" by (cases r)
  show ?thesis
    using session_maps.close_user_ok [OF M g, of "dl_sched d" u] session_maps.close_ips_ok [OF M g, of u ips] g Inr r
    by (cases "u = []"; cases "ips = []") (auto simp: runRabbitmqDisconnectQueueConsumeAction_def closes_def)
qed (use g in \<open>simp add: runRabbitmqDisconnectQueueConsumeAction_def closes_def\<close>)

lemma consumer_action_step:
  assumes R: "redis R kv" and rep: "represents json (kv (sd_redis sd)) db" and js: "json_inverse K json"
    and M: "session_maps A invA lookA B invB lookB" and g: "sys_inv invA lookA invB lookB (s\<lparr>mgr := sd_mgr sd\<rparr>)"
  shows "\<exists>sd'. consumer_action R B K c d sd = Some (answer K (c, d), sd') \<and>
    represents json (kv (sd_redis sd')) (user_spec K (c, d) db) \<and> sys_inv invA lookA invB lookB (s\<lparr>mgr := sd_mgr sd'\<rparr>) \<and>
    (\<forall>ip k p. Relaying ip k p \<in> set (sessions s) \<longrightarrow> ctx_cancelled (contexts (sd_mgr sd') ! p) =
       (closes K k (c, d) \<or> ctx_cancelled (contexts (sd_mgr sd) ! p)))"
proof (cases c)
  case BlacklistQueue
  then show ?thesis using rep g by (auto simp: consumer_action_def answer_def autoAck_def user_spec_def closes_def)
next
  case SetUserDataQueue
  obtain a s' where "runRabbitmqSetUserDataQueueConsumeAction R (dec_auth K) (enc_auth K) (dl_now d) (dl_net d) (dl_body d) (sd_redis sd) = (a, s')"
    "a = the (answer K (SetUserDataQueue, d))" "represents json (kv s') (user_spec K (SetUserDataQueue, d) db)"
    using set_user_step [OF R rep js, of d] by blast
  then show ?thesis using g SetUserDataQueue by (auto simp: consumer_action_def answer_def autoAck_def closes_def)
next
  case AddUserDataQueue
  obtain a s' where "runRabbitmqAddUserDataQueueConsumeAction R (dec_auth K) (enc_auth K) (dl_now d) (dl_net d) (dl_body d) (sd_redis sd) = (a, s')"
    "a = the (answer K (AddUserDataQueue, d))" "represents json (kv s') (user_spec K (AddUserDataQueue, d) db)"
    using add_user_step [OF R rep js, of d] by blast
  then show ?thesis using g AddUserDataQueue by (auto simp: consumer_action_def answer_def autoAck_def closes_def)
next
  case DisconnectQueue
  obtain m' where "runRabbitmqDisconnectQueueConsumeAction B (dec_disconnect K) (dl_sched d) (dl_body d) (sd_mgr sd) = Some m'"
    "sys_inv invA lookA invB lookB (s\<lparr>mgr := m'\<rparr>)"
    "\<forall>ip k p. Relaying ip k p \<in> set (sessions s) \<longrightarrow> ctx_cancelled (contexts m' ! p) =
       (closes K k (DisconnectQueue, d) \<or> ctx_cancelled (contexts (sd_mgr sd) ! p))"
    using disconnect_step [OF M g, of K d] by auto
  then show ?thesis using rep DisconnectQueue by (auto simp: consumer_action_def answer_def autoAck_def user_spec_def)
next
  case DeleteUserDataQueue
  obtain m' t' where "runRabbitmqDeleteUserDataQueueConsumeAction R B (dec_auth K) (dl_sched d) (dl_net d) (dl_body d) (sd_mgr sd) (sd_redis sd) = Some (m', t')"
    "represents json (kv t') (user_spec K (DeleteUserDataQueue, d) db)" "sys_inv invA lookA invB lookB (s\<lparr>mgr := m'\<rparr>)"
    "\<forall>ip k p. Relaying ip k p \<in> set (sessions s) \<longrightarrow> ctx_cancelled (contexts m' ! p) =
       (closes K k (DeleteUserDataQueue, d) \<or> ctx_cancelled (contexts (sd_mgr sd) ! p))"
    using delete_user_step [OF R rep M g, of K d] by auto
  then show ?thesis using DeleteUserDataQueue by (auto simp: consumer_action_def answer_def autoAck_def)
qed

lemma handle_all_spec:
  assumes R: "redis R kv" and js: "json_inverse K json" and M: "session_maps A invA lookA B invB lookB"
  shows "represents json (kv (sd_redis sd)) db \<Longrightarrow> sys_inv invA lookA invB lookB (s\<lparr>mgr := sd_mgr sd\<rparr>) \<Longrightarrow>
    \<exists>sd'. handle_all R B K cds sd = Some (map (answer K) cds, sd') \<and>
      represents json (kv (sd_redis sd')) (fold (user_spec K) cds db) \<and>
      (\<forall>ip k p. Relaying ip k p \<in> set (sessions s) \<longrightarrow> ctx_cancelled (contexts (sd_mgr sd') ! p) =
         ((\<exists>cd\<in>set cds. closes K k cd) \<or> ctx_cancelled (contexts (sd_mgr sd) ! p)))"
proof (induction cds arbitrary: sd db)
  case (Cons cd cds)
  obtain c d where cd: "cd = (c, d)" by (cases cd)
  obtain sd1 where 1: "consumer_action R B K c d sd = Some (answer K (c, d), sd1)"
    "represents json (kv (sd_redis sd1)) (user_spec K (c, d) db)" "sys_inv invA lookA invB lookB (s\<lparr>mgr := sd_mgr sd1\<rparr>)"
    "\<forall>ip k p. Relaying ip k p \<in> set (sessions s) \<longrightarrow> ctx_cancelled (contexts (sd_mgr sd1) ! p) =
       (closes K k (c, d) \<or> ctx_cancelled (contexts (sd_mgr sd) ! p))"
    using consumer_action_step [OF R Cons.prems(1) js M Cons.prems(2), of c d] by blast
  obtain sd' where 2: "handle_all R B K cds sd1 = Some (map (answer K) cds, sd')"
    "represents json (kv (sd_redis sd')) (fold (user_spec K) cds (user_spec K (c, d) db))"
    "\<forall>ip k p. Relaying ip k p \<in> set (sessions s) \<longrightarrow> ctx_cancelled (contexts (sd_mgr sd') ! p) =
       ((\<exists>cd\<in>set cds. closes K k cd) \<or> ctx_cancelled (contexts (sd_mgr sd1) ! p))"
    using Cons.IH [OF 1(2,3)] by blast
  show ?case using 1(1,4) 2 cd by auto
qed simp

subsection \<open>The address of the broker\<close>

lemma bad_escape_inside: "bad_escape (pre @ ''%!'' @ post)"
  by (induction pre) (simp_all add: is_hex_def)

lemma authority_amqpUrl:
  assumes "set (rq_Host rq) \<inter> set ''/?#'' = {}"
  shows "\<exists>rest post. amqpUrl rq = ''amqp://'' @ rest \<and> authority rest = (rq_Host rq @ '':'') @ ''%!'' @ post"
proof -
  let ?tail = "''s(int='' @ Itoa (rq_Port rq) @ '')@'' @ rq_User rq @ '':'' @ bad_verb_string (rq_Password rq) @ ''/'' @ rq_VirtualHost rq"
  have "authority (rq_Host rq @ '':%!'' @ ?tail) = rq_Host rq @ authority ('':%!'' @ ?tail)"
    unfolding authority_def by (rule takeWhile_append2) (use assms in auto)
  then have "authority (rq_Host rq @ '':%!'' @ ?tail) = (rq_Host rq @ '':'') @ ''%!'' @ authority ?tail"
    by (simp add: authority_def)
  moreover have "amqpUrl rq = ''amqp://'' @ rq_Host rq @ '':%!'' @ ?tail"
    by (simp add: amqpUrl_def bad_verb_int_def)
  ultimately show ?thesis by blast
qed

section \<open>A user set and deleted\<close>

definition demo_user :: AuthInfo where
  "demo_user = \<lparr>Username = ''u'', Password = ''p'', ProxyUsername = [], ProxyPassword = [], S5Addr = [], HttpAddr = [],
     UpdateUnix = 0, Ips = [''10.0.0.1'']\<rparr>"

definition demo_codecs :: codecs where
  "demo_codecs = \<lparr>dec_auth = (\<lambda>_. Inr demo_user), dec_disconnect = (\<lambda>_. Inl (Errorf ''proto'')),
     dec_blacklist = (\<lambda>_. Inl (Errorf ''json'')),
     enc_auth = (\<lambda>i. if i = demo_user\<lparr>Ips := []\<rparr> then Inr ''d'' else Inl (Errorf ''json''))\<rparr>"

definition demo_json :: "string \<Rightarrow> go_error + AuthInfo" where
  "demo_json d = Inr (demo_user\<lparr>Ips := []\<rparr>)"

definition demo_delivery :: delivery where
  "demo_delivery = \<lparr>dl_body = [], dl_now = 0, dl_net = None, dl_sched = []\<rparr>"

definition demo_broker :: "unit broker_api" where
  "demo_broker = \<lparr>bk_Dial = (\<lambda>u e. (if bad_escape (authority (drop 7 u)) then Inl (Errorf ''invalid URL escape'') else Inr 0, e)),
     bk_Channel = (\<lambda>conn e. (Inr 0, e)), bk_QueueDeclare = (\<lambda>ch q durable args e. (None, e)),
     bk_QueueBind = (\<lambda>ch q k ex e. (None, e)), bk_Consume = (\<lambda>ch q ack e. (None, e)), bk_Close = (\<lambda>ch e. e)\<rparr>"

section \<open>Properties\<close>

text \<open>C8: The messages of the five consumers, in whatever order they are handled, never panic and mean what they
  say: a client is let in exactly when the table of passwords and addresses says so, the context of a
  connection is cancelled exactly when some message closed its key or it was before, and each
  message is answered once, or never where the broker does not wait for an answer.\<close>

theorem consumers_refine:
  assumes "redis R kv" and "json_inverse K json" and "session_maps A invA lookA B invB lookB"
    and "sys_start invA lookA invB lookB s0" and "mreach A B P s0 s" and "sd_mgr sd = mgr s"
    and "represents json (kv (sd_redis sd)) db"
  shows "\<exists>sd'. handle_all R B K cds sd = Some (map (answer K) cds, sd') \<and>
    (\<forall>u p ip. (\<exists>r. Valid R json None u p ip (sd_redis sd') = Inr r) \<longleftrightarrow>
       (\<exists>S. fold (user_spec K) cds db u = Some (p, S) \<and> ip \<in> S)) \<and>
    (\<forall>ip k p. Relaying ip k p \<in> set (sessions s) \<longrightarrow> ctx_cancelled (contexts (sd_mgr sd') ! p) =
       ((\<exists>cd\<in>set cds. closes K k cd) \<or> ctx_cancelled (contexts (mgr s) ! p)))"
proof -
  have "sys_inv invA lookA invB lookB (s\<lparr>mgr := sd_mgr sd\<rparr>)"
    using session_maps.mreach_inv [OF assms(3,5,4)] assms(6) by simp
  from handle_all_spec [OF assms(1-3,7) this, of cds] obtain sd' where
    "handle_all R B K cds sd = Some (map (answer K) cds, sd')"
    "represents json (kv (sd_redis sd')) (fold (user_spec K) cds db)"
    "\<forall>ip k p. Relaying ip k p \<in> set (sessions s) \<longrightarrow> ctx_cancelled (contexts (sd_mgr sd') ! p) =
       ((\<exists>cd\<in>set cds. closes K k cd) \<or> ctx_cancelled (contexts (sd_mgr sd) ! p))" by blast
  then show ?thesis using assms(6) by (simp add: redis.Valid_Inr [OF assms(1)] admitted_table)
qed

theorem consumers_refine_witness:
  "\<exists>(s :: ((string, ptr) cmap, (string, ptr) cmap) sys) p q sd'.
     sessions s = [Relaying ''10.0.0.1'' ''u:10.0.0.1'' p, Relaying ''10.0.0.1'' ''u:10.0.0.1'' q] \<and>
     handle_all redis_store repo_api demo_codecs [(SetUserDataQueue, demo_delivery), (DeleteUserDataQueue, demo_delivery)]
       \<lparr>sd_mgr = mgr s, sd_redis = Map.empty, sd_black = None\<rparr> = Some ([Some (Ack False), None], sd') \<and>
     ctx_cancelled (contexts (sd_mgr sd') ! p)"
proof -
  let ?conf = "\<lparr>LimitedReader_ReadRate = 0, LimitedReader_ReadBurst = 0, OneIpMaxConn = 2\<rparr>"
  obtain s p q where s: "mreach repo_api repo_api (\<lambda>_. True) (repo_start ?conf) s"
      "sessions s = [Relaying ''10.0.0.1'' ''u:10.0.0.1'' p, Relaying ''10.0.0.1'' ''u:10.0.0.1'' q]"
    using repo_run [of ?conf "\<lambda>_. True"] by auto
  let ?sd = "\<lparr>sd_mgr = mgr s, sd_redis = Map.empty :: string \<rightharpoonup> redis_value, sd_black = None\<rparr>"
  let ?cds = "[(SetUserDataQueue, demo_delivery), (DeleteUserDataQueue, demo_delivery)]"
  have js: "json_inverse demo_codecs demo_json" by (simp add: json_inverse_def demo_codecs_def demo_json_def)
  have rep: "represents demo_json ((\<lambda>s. s) (sd_redis ?sd)) Map.empty" by (simp add: represents_def entry_ok_def)
  have m: "sd_mgr ?sd = mgr s" by simp
  have st: "stored demo_codecs demo_delivery = Some demo_user"
    by (simp add: stored_def demo_codecs_def demo_user_def demo_delivery_def)
  have a: "map (answer demo_codecs) ?cds = [Some (Ack False), None]"
    unfolding answer_def using st by (simp add: autoAck_def demo_delivery_def demo_user_def)
  have c: "closes demo_codecs ''u:10.0.0.1'' (DeleteUserDataQueue, demo_delivery)"
    by (simp add: closes_def demo_codecs_def demo_delivery_def demo_user_def)
  have "\<exists>sd'. handle_all redis_store repo_api demo_codecs ?cds ?sd = Some ([Some (Ack False), None], sd') \<and>
      (\<forall>ip k p. Relaying ip k p \<in> set (sessions s) \<longrightarrow> ctx_cancelled (contexts (sd_mgr sd') ! p) =
        ((\<exists>cd\<in>set ?cds. closes demo_codecs k cd) \<or> ctx_cancelled (contexts (mgr s) ! p)))"
    using consumers_refine [OF store.redis_axioms js repo.session_maps_axioms repo_start_ok s(1) m, OF rep, of ?cds] a by auto
  then show ?thesis using s(2) c by fastforce
qed

text \<open>The loop of a consumer is equivalent to handling, in order, exactly the messages delivered before
  its context ends or its channel closes; it returns exactly when one of these happens.\<close>

theorem consume_loop_equiv:
  "consume_loop R B K c evs sd = map_option (\<lambda>(as, sd').
     (ConsumerDone \<in> set evs \<or> ChannelClosed \<in> set evs, as, sd')) (handle_all R B K (delivered c evs) sd)"
  by (rule consume_loop_handles)

text \<open>C37: No consumer is ever started: the address of the broker is formatted with the fields in the wrong
  order and the wrong verbs, so that it is not a URL, whatever the configuration.\<close>

theorem consumers_never_start:
  assumes "dial_parses A" and "set (rq_Host (Rabbitmq conf)) \<inter> set ''/?#'' = {}"
  shows "\<exists>err e'. runRabbitmqConsume A conf e = (Inl err, e')"
proof -
  obtain rest post where r: "amqpUrl (Rabbitmq conf) = ''amqp://'' @ rest"
    "authority rest = (rq_Host (Rabbitmq conf) @ '':'') @ ''%!'' @ post"
    using authority_amqpUrl [OF assms(2)] by blast
  then have "bad_escape (authority rest)" using bad_escape_inside by metis
  then obtain err e' where "bk_Dial A (''amqp://'' @ rest) e = (Inl err, e')"
    using assms(1) unfolding dial_parses_def by blast
  then show ?thesis by (simp add: runRabbitmqConsume_def r(1))
qed

theorem consumers_never_start_witness:
  "\<exists>err e'. runRabbitmqConsume demo_broker \<lparr>LocalIp = ''10.0.0.1'', ProcessName = ''proxy'',
     Rabbitmq = \<lparr>rq_Host = ''mq'', rq_Port = 5672, rq_User = ''guest'', rq_Password = ''guest'', rq_VirtualHost = ''v'',
       rq_BlacklistExchange = ''b''\<rparr>\<rparr> () = (Inl err, e')"
proof -
  have "dial_parses demo_broker" by (simp add: dial_parses_def demo_broker_def)
  then show ?thesis by (rule consumers_never_start) simp
qed

end
