(* ===== verification/ConsumePool.thy ===== *)
theory ConsumePool
  imports RabbitPool
begin

text \<open>
  The consumers of the message client (\<^verbatim>\<open>utils/rabbitMQ/rabbitMQPool.go\<close>): one worker, \<open>consumeTask\<close>, with its
  set-up, its loop and what a receiver may do with a message; and all workers of a pool together with
  \<open>rConsume\<close> and \<open>retryConsume\<close>, which connect again after an error, as a step relation.
\<close>

section \<open>The receiver\<close>

text \<open>
  The other calls of the package \<open>amqp\<close>. A receiver says which of its two callbacks it has; what
  \<open>EventSuccess\<close> does is part of each delivery: the calls it makes and its answer.
\<close>

record 'e consume_api =
  ca_amqp :: "'e amqp_api"
  ca_Qos :: "nat \<Rightarrow> 'e \<Rightarrow> 'e"
  ca_Consume :: "nat \<Rightarrow> string \<Rightarrow> 'e \<Rightarrow> go_error option \<times> 'e"
  ca_CloseChannel :: "nat \<Rightarrow> 'e \<Rightarrow> 'e"
  ca_CloseConn :: "nat \<Rightarrow> 'e \<Rightarrow> 'e"

record receiver =
  rv_receive :: ConsumeReceive
  rv_success :: bool
  rv_fail :: bool

datatype client_call = ClientPush "byte list" | ClientAck

text \<open>\<open>ad_published\<close> says whether the publications made for the delivery succeed.\<close>

record amqp_delivery =
  ad_body :: "byte list"
  ad_headers :: headers
  ad_calls :: "client_call list"
  ad_ok :: bool
  ad_rnd :: "int \<Rightarrow> int"
  ad_published :: bool

text \<open>The visible actions of a worker.\<close>

datatype effect =
    AckAll
  | Success "byte list" headers
  | Failure int "byte list"
  | Retry publishing

definition RCODE_CHANNEL_QUEUE_EXCHANGE_BIND_ERROR :: int where "RCODE_CHANNEL_QUEUE_EXCHANGE_BIND_ERROR = 503"

definition RCODE_CONNECTION_ERROR :: int where "RCODE_CONNECTION_ERROR = 504"

definition RCODE_CHANNEL_CREATE_ERROR :: int where "RCODE_CHANNEL_CREATE_ERROR = 506"

definition event_fail :: "receiver \<Rightarrow> int \<Rightarrow> byte list \<Rightarrow> effect list" where
  "event_fail rv code body = (if rv_fail rv then [Failure code body] else [])"

section \<open>Set-up\<close>

text \<open>
  Worker \<open>num\<close> on connection \<open>conn\<close>. The error of the first declaration is overwritten by the one for the
  dead letter queue, which is declared on the same channel. When the channel for the dead letters cannot be
  made, the message of the first error is taken: that is a panic when there is none and \<open>EventFail\<close> is set.
\<close>

datatype set_up = NotStarted | SetUpPanic | Started nat "nat option"

definition declare_queue :: "'e consume_api \<Rightarrow> RabbitPool \<Rightarrow> receiver \<Rightarrow> nat \<Rightarrow> 'e \<Rightarrow> go_error option \<times> 'e" where
  "declare_queue A p rv ch e = (let rec = rv_receive rv in
     rDeclare (ca_amqp A) (clientType p) ch (cr_ExchangeName rec) (cr_ExchangeType rec) (cr_QueueName rec)
       (cr_Route rec) False [] [] e)"

definition declare_dead :: "'e consume_api \<Rightarrow> RabbitPool \<Rightarrow> receiver \<Rightarrow> nat \<Rightarrow> 'e \<Rightarrow> go_error option \<times> 'e" where
  "declare_dead A p rv ch e = (let rec = rv_receive rv in
     rDeclare (ca_amqp A) (clientType p) ch (dead_name (cr_ExchangeName rec)) ''direct''
       (dead_name (cr_QueueName rec)) (dead_route (cr_Route rec)) True (cr_ExchangeName rec) (cr_Route rec) e)"

definition needs_dead :: "receiver \<Rightarrow> nat \<Rightarrow> bool" where
  "needs_dead rv num \<longleftrightarrow> IsTry (rv_receive rv) \<and> even num"

definition start_consuming :: "'e consume_api \<Rightarrow> receiver \<Rightarrow> nat \<Rightarrow> nat option \<Rightarrow> go_error option \<Rightarrow> 'e \<Rightarrow>
    set_up \<times> effect list \<times> nat list \<times> 'e" where
  "start_consuming A rv ch dead err e =
    (let opened = ch # (case dead of None \<Rightarrow> [] | Some d \<Rightarrow> [d]) in
     if err \<noteq> None then (NotStarted, event_fail rv RCODE_CHANNEL_QUEUE_EXCHANGE_BIND_ERROR [], opened, e)
     else case ca_Consume A ch (cr_QueueName (rv_receive rv)) (ca_Qos A ch e) of
         (Some _, e1) \<Rightarrow> (NotStarted, event_fail rv RCODE_GET_CHANNEL_ERROR [], opened, e1)
       | (None, e1) \<Rightarrow> (Started ch dead, [], opened, e1))"

text \<open>The result, what was reported, and the channels whose closing has been deferred.\<close>

definition consume_setup :: "'e consume_api \<Rightarrow> RabbitPool \<Rightarrow> nat \<Rightarrow> receiver \<Rightarrow> rConn \<Rightarrow> 'e \<Rightarrow>
    set_up \<times> effect list \<times> nat list \<times> 'e" where
  "consume_setup A p num rv conn e = (case rCreateChannel (ca_amqp A) conn e of
     (Inl _, e1) \<Rightarrow> (NotStarted, event_fail rv RCODE_CHANNEL_CREATE_ERROR [], [], e1)
   | (Inr ch, e1) \<Rightarrow> (case declare_queue A p rv ch e1 of (err, e2) \<Rightarrow>
       if needs_dead rv num then
         (case rCreateChannel (ca_amqp A) conn e2 of
            (Inl _, e3) \<Rightarrow> if rv_fail rv \<and> err = None then (SetUpPanic, [], [ch], e3)
              else (NotStarted, event_fail rv RCODE_CHANNEL_CREATE_ERROR [], [ch], e3)
          | (Inr dead, e3) \<Rightarrow> (case declare_dead A p rv ch e3 of (err', e4) \<Rightarrow>
              start_consuming A rv ch (Some dead) err' e4))
       else start_consuming A rv ch None err e2))"

text \<open>The deferred calls, in the order they run; the connection is shared with other workers.\<close>

definition run_defers :: "'e consume_api \<Rightarrow> rConn \<Rightarrow> nat list \<Rightarrow> 'e \<Rightarrow> 'e" where
  "run_defers A conn opened e = (if opened = [] then e
     else ca_CloseConn A (the (rc_conn conn)) (fold (ca_CloseChannel A) (rev opened) e))"

section \<open>Handling deliveries\<close>

text \<open>Each call says what it did; \<open>False\<close> is a panic. A delivery that is not \<open>real\<close> is the zero value that a closed channel yields.\<close>

definition retryClient_Ack :: "receiver \<Rightarrow> bool \<Rightarrow> effect list" where
  "retryClient_Ack rv real = (if \<not> IsAutoAck (rv_receive rv) \<and> real then [AckAll] else [])"

definition do_client_call :: "RabbitPool \<Rightarrow> receiver \<Rightarrow> bool \<Rightarrow> amqp_delivery \<Rightarrow> client_call \<Rightarrow> effect list \<times> bool" where
  "do_client_call p rv real d c = (case c of
     ClientAck \<Rightarrow> (retryClient_Ack rv real, True)
   | ClientPush body \<Rightarrow> (case retryClient_Push (ad_rnd d) p (rv_receive rv) (ad_headers d) body of
       None \<Rightarrow> ([], False)
     | Some (EventFail code) \<Rightarrow> (event_fail rv code body, True)
     | Some (Publish m) \<Rightarrow> (Retry m # (if ad_published d then [] else event_fail rv RCODE_RETRY_MAX_ERROR body), True)))"

fun client_calls :: "RabbitPool \<Rightarrow> receiver \<Rightarrow> bool \<Rightarrow> amqp_delivery \<Rightarrow> client_call list \<Rightarrow> effect list \<times> bool" where
  "client_calls p rv real d [] = ([], True)"
| "client_calls p rv real d (c # cs) = (case do_client_call p rv real d c of (fx, ok) \<Rightarrow>
     if \<not> ok then (fx, False) else case client_calls p rv real d cs of (fx', ok') \<Rightarrow> (fx @ fx', ok'))"

definition own_retry :: "RabbitPool \<Rightarrow> receiver \<Rightarrow> amqp_delivery \<Rightarrow> effect list \<times> bool" where
  "own_retry p rv d = (case consume_retry (ad_rnd d) p (rv_receive rv) (ad_headers d) (ad_body d) of
     None \<Rightarrow> ([], False)
   | Some (EventFail code) \<Rightarrow> (event_fail rv code (ad_body d), True)
   | Some (Publish m) \<Rightarrow> ([Retry m], True))"

definition handle_delivery :: "RabbitPool \<Rightarrow> receiver \<Rightarrow> bool \<Rightarrow> amqp_delivery \<Rightarrow> effect list \<times> bool" where
  "handle_delivery p rv real d =
    (let acks = (if IsAutoAck (rv_receive rv) \<and> real then [AckAll] else []) in
     if \<not> rv_success rv then (acks, True)
     else case client_calls p rv real d (ad_calls d) of (fx, ok) \<Rightarrow>
       let fx1 = acks @ Success (ad_body d) (ad_headers d) # fx in
       if \<not> ok then (fx1, False)
       else if \<not> ad_ok d \<and> IsTry (rv_receive rv)
       then (case own_retry p rv d of (fx', ok') \<Rightarrow> (fx1 @ fx', ok'))
       else (fx1, True))"

section \<open>The loop\<close>

text \<open>
  What the \<open>select\<close> receives: a message, the zero value of the closed channel of deliveries, the error that
  closed the channel, or \<open>nil\<close> after a graceful close.
\<close>

datatype task_event = Message amqp_delivery | NoMore amqp_delivery | Notified "int option"

datatype task_end = Waiting | DidNotStart | Reported int | Panicked

definition zero_delivery :: "amqp_delivery \<Rightarrow> amqp_delivery" where
  "zero_delivery d = d\<lparr>ad_body := [], ad_headers := []\<rparr>"

fun consume_events :: "RabbitPool \<Rightarrow> receiver \<Rightarrow> task_event list \<Rightarrow> effect list \<times> task_end" where
  "consume_events p rv [] = ([], Waiting)"
| "consume_events p rv (Message d # evs) = (case handle_delivery p rv True d of (fx, ok) \<Rightarrow>
     if \<not> ok then (fx, Panicked) else case consume_events p rv evs of (fx', t) \<Rightarrow> (fx @ fx', t))"
| "consume_events p rv (NoMore d # evs) = (case handle_delivery p rv False (zero_delivery d) of (fx, ok) \<Rightarrow>
     if \<not> ok then (fx, Panicked) else case consume_events p rv evs of (fx', t) \<Rightarrow> (fx @ fx', t))"
| "consume_events p rv (Notified (Some code) # evs) = (event_fail rv RCODE_CONNECTION_ERROR [], Reported code)"
| "consume_events p rv (Notified None # evs) = ([], Panicked)"

text \<open>
  A whole worker up to its call of \<open>setConnectError\<close>; \<open>None\<close> is the index panic of \<open>getConnection\<close>.
\<close>

definition consumeTask :: "'e consume_api \<Rightarrow> nat \<Rightarrow> receiver \<Rightarrow> task_event list \<Rightarrow> RabbitPool \<Rightarrow> 'e \<Rightarrow>
    (effect list \<times> task_end \<times> RabbitPool \<times> 'e) option" where
  "consumeTask A num rv evs p e = map_option (\<lambda>(i, p1). case consume_setup A p1 num rv (rc_at p1 i) e of
     (NotStarted, fx, opened, e1) \<Rightarrow> (fx, DidNotStart, p1, run_defers A (rc_at p1 i) opened e1)
   | (SetUpPanic, fx, opened, e1) \<Rightarrow> (fx, Panicked, p1, run_defers A (rc_at p1 i) opened e1)
   | (Started ch dead, fx, opened, e1) \<Rightarrow> (case consume_events p1 rv evs of (fx', t) \<Rightarrow>
       (fx @ fx', t, p1, if t = Waiting then e1 else run_defers A (rc_at p1 i) opened e1)))
     (getConnection p)"

subsection \<open>What a receiver sees\<close>

text \<open>What arrives before the first notification, with whether it is a message; and the acknowledgements and calls of the receiver it leads to.\<close>

fun arrivals :: "task_event list \<Rightarrow> (bool \<times> amqp_delivery) list" where
  "arrivals [] = []"
| "arrivals (Message d # evs) = (True, d) # arrivals evs"
| "arrivals (NoMore d # evs) = (False, zero_delivery d) # arrivals evs"
| "arrivals (Notified n # evs) = []"

fun task_outcome :: "task_event list \<Rightarrow> task_end" where
  "task_outcome [] = Waiting"
| "task_outcome (Notified n # evs) = (case n of None \<Rightarrow> Panicked | Some code \<Rightarrow> Reported code)"
| "task_outcome (ev # evs) = task_outcome evs"

definition visible :: "effect \<Rightarrow> bool" where
  "visible fx \<longleftrightarrow> (case fx of AckAll \<Rightarrow> True | Success _ _ \<Rightarrow> True | _ \<Rightarrow> False)"

lemma visible_simps [simp]: "visible AckAll" "visible (Success b h)" "\<not> visible (Failure c b)" "\<not> visible (Retry m)"
  by (simp_all add: visible_def)

definition seen :: "receiver \<Rightarrow> bool \<times> amqp_delivery \<Rightarrow> effect list" where
  "seen rv rd = (case rd of (real, d) \<Rightarrow>
     (if IsAutoAck (rv_receive rv) \<and> real then [AckAll] else []) @ Success (ad_body d) (ad_headers d) #
     replicate (if \<not> IsAutoAck (rv_receive rv) \<and> real then count_list (ad_calls d) ClientAck else 0) AckAll)"

lemma event_fail_visible [simp]: "filter visible (event_fail rv c b) = []"
  by (simp add: event_fail_def)

definition well_typed :: "RabbitPool \<Rightarrow> amqp_delivery \<Rightarrow> bool" where
  "well_typed p d \<longleftrightarrow> retry_nums (ad_headers d) \<noteq> None \<and> delay_ok (ad_rnd d) p"

lemma retry_known:
  assumes "delay_ok rnd p"
  obtains m where "retry_message rnd p rec hs body = Some m"
  using retry_message_some [OF assms, of rec hs body] by auto

lemma client_calls_seen:
  assumes "well_typed p d"
  shows "snd (client_calls p rv real d cs) \<and> filter visible (fst (client_calls p rv real d cs)) =
    replicate (if \<not> IsAutoAck (rv_receive rv) \<and> real then count_list cs ClientAck else 0) AckAll"
proof (induction cs)
  case (Cons c cs)
  obtain n where n: "retry_nums (ad_headers d) = Some n" using assms by (auto simp: well_typed_def)
  obtain fx ok fx' ok' where r: "do_client_call p rv real d c = (fx, ok)" "client_calls p rv real d cs = (fx', ok')"
    by (metis prod.exhaust)
  have "snd (do_client_call p rv real d c) \<and> filter visible (fst (do_client_call p rv real d c)) =
      (if c = ClientAck \<and> \<not> IsAutoAck (rv_receive rv) \<and> real then [AckAll] else [])"
  proof (cases c)
    case (ClientPush body)
    obtain m where "retry_message (ad_rnd d) p (rv_receive rv) (ad_headers d) body = Some m"
      using retry_known assms unfolding well_typed_def by blast
    then show ?thesis using n ClientPush by (simp add: do_client_call_def retryClient_Push_def Let_def)
  qed (simp add: do_client_call_def retryClient_Ack_def)
  then show ?case using Cons r by simp
qed simp

lemma own_retry_seen:
  assumes "well_typed p d"
  shows "snd (own_retry p rv d) \<and> filter visible (fst (own_retry p rv d)) = []"
proof -
  obtain n where n: "retry_nums (ad_headers d) = Some n" using assms by (auto simp: well_typed_def)
  obtain m where "retry_message (ad_rnd d) p (rv_receive rv) (gomap_set [] ''retry_nums'' (HInt32 (int32 (n + 1)))) (ad_body d) = Some m"
    using retry_known assms unfolding well_typed_def by blast
  then show ?thesis using n by (simp add: own_retry_def consume_retry_def Let_def)
qed

lemma handle_seen:
  assumes "well_typed p d" "rv_success rv"
  shows "snd (handle_delivery p rv real d) \<and> filter visible (fst (handle_delivery p rv real d)) = seen rv (real, d)"
proof -
  obtain fx ok fx' ok' where r: "client_calls p rv real d (ad_calls d) = (fx, ok)" "own_retry p rv d = (fx', ok')"
    by (metis prod.exhaust)
  show ?thesis
    using client_calls_seen [OF assms(1), of rv real "ad_calls d"] own_retry_seen [OF assms(1), of rv] assms(2) r
    by (simp add: handle_delivery_def seen_def Let_def)
qed

lemma consume_events_seen:
  assumes "rv_success rv" "\<forall>(real, d)\<in>set (arrivals evs). well_typed p d"
  shows "filter visible (fst (consume_events p rv evs)) = concat (map (seen rv) (arrivals evs)) \<and>
    snd (consume_events p rv evs) = task_outcome evs"
  using assms
proof (induction p rv evs rule: consume_events.induct)
  case (2 p rv d evs)
  obtain fx ok fx' t where r: "handle_delivery p rv True d = (fx, ok)" "consume_events p rv evs = (fx', t)"
    by (metis prod.exhaust)
  show ?case using handle_seen [OF _ 2(2), of p d True] 2 r by simp
next
  case (3 p rv d evs)
  obtain fx ok fx' t where r: "handle_delivery p rv False (zero_delivery d) = (fx, ok)" "consume_events p rv evs = (fx', t)"
    by (metis prod.exhaust)
  show ?case using handle_seen [OF _ 3(2), of p "zero_delivery d" False] 3 r by simp
qed auto

section \<open>All workers of a pool\<close>

text \<open>
  \<open>RunConsume\<close> refuses a pool without receivers; \<open>rListenerConsume\<close> starts \<open>consumeMaxChannel\<close> workers for
  each of the others.
\<close>

definition RegisterConsumeReceive :: "receiver option \<Rightarrow> receiver list \<Rightarrow> receiver list" where
  "RegisterConsumeReceive rv rvs = (case rv of None \<Rightarrow> rvs | Some r \<Rightarrow> rvs @ [r])"

text \<open>
  A worker has not asked for its connection, sets up, waits in its \<open>select\<close>, reports an error in
  \<open>setConnectError\<close> (it wants the lock, has it and sends the error, or has sent it), has only its deferred
  calls left, or is over. The notification it can receive is an error or the \<open>nil\<close> of a graceful close.
\<close>

datatype worker_pc = WStart | WSetUp | WConsume | WReport | WSend | WMark | WClose | WEnd

datatype notification = ErrorNote | NilNote

record worker =
  wk_gen :: nat
  wk_num :: nat
  wk_conn :: nat
  wk_pc :: worker_pc
  wk_note :: "notification option"
  wk_failed :: bool

text \<open>
  The goroutine of \<open>rConsume\<close> waits for an error, has received one, is in \<open>retryConsume\<close> before a dial that
  succeeds, is about to make the connections again, or is making them and about to start the workers.
\<close>

datatype dispatcher_pc = DSelect | DReceived | DRetry | DConnect | DInit

text \<open>
  \<open>cp_gen\<close>, \<open>wk_gen\<close>, \<open>wk_failed\<close> and \<open>cp_received\<close> are histories: the number of reconnections, the one a worker
  was started by, whether it has got an error, and the number of errors received.
\<close>

record consume_pool =
  cp_pool :: RabbitPool
  cp_workers :: "worker list"
  cp_disp :: dispatcher_pc
  cp_status :: bool
  cp_locked :: bool
  cp_retry :: int
  cp_closed :: "nat set"
  cp_next :: nat
  cp_receivers :: nat
  cp_gen :: nat
  cp_received :: nat
  cp_panic :: bool

definition made :: "nat \<Rightarrow> nat \<Rightarrow> rConn list" where
  "made k base = map (\<lambda>i. \<lparr>rc_conn = Some (base + i), rc_index = int i\<rparr>) [0..<k]"

definition rListenerConsume :: "RabbitPool \<Rightarrow> nat \<Rightarrow> worker list" where
  "rListenerConsume pool gen = map (\<lambda>i. \<lparr>wk_gen = gen, wk_num = i, wk_conn = 0, wk_pc = WStart,
     wk_note = None, wk_failed = False\<rparr>) [0..<nat (consumeMaxChannel pool)]"

definition rConsume_workers :: "nat \<Rightarrow> RabbitPool \<Rightarrow> nat \<Rightarrow> worker list" where
  "rConsume_workers receivers pool gen = concat (replicate receivers (rListenerConsume pool gen))"

text \<open>The pool when \<open>RunConsume\<close> has been called; connections that are made later are numbered from \<open>base\<close>.\<close>

definition RunConsume :: "RabbitPool \<Rightarrow> nat \<Rightarrow> nat \<Rightarrow> go_error + consume_pool" where
  "RunConsume p receivers base = (if receivers = 0 then Inl (Errorf ''no receiver'')
     else Inr \<lparr>cp_pool = p\<lparr>clientType := RABBITMQ_TYPE_CONSUME\<rparr>,
       cp_workers = rConsume_workers receivers p 0, cp_disp = DSelect, cp_status = False,
       cp_locked = False, cp_retry = 0, cp_closed = {}, cp_next = base, cp_receivers = receivers,
       cp_gen = 0, cp_received = 0, cp_panic = False\<rparr>)"

subsection \<open>Steps\<close>

definition at_pc :: "consume_pool \<Rightarrow> nat \<Rightarrow> worker_pc \<Rightarrow> bool" where
  "at_pc s i pc \<longleftrightarrow> \<not> cp_panic s \<and> i < length (cp_workers s) \<and> wk_pc (cp_workers s ! i) = pc"

definition put :: "nat \<Rightarrow> (worker \<Rightarrow> worker) \<Rightarrow> consume_pool \<Rightarrow> consume_pool" where
  "put i f s = s\<lparr>cp_workers := (cp_workers s)[i := f (cp_workers s ! i)]\<rparr>"

text \<open>What the workers of a connection are told when it is closed, unless their channel was closed before.\<close>

definition notify :: "nat \<Rightarrow> notification \<Rightarrow> worker \<Rightarrow> worker" where
  "notify c n w = (if wk_conn w = c \<and> wk_pc w = WConsume \<and> wk_note w = None then w\<lparr>wk_note := Some n\<rparr> else w)"

definition shut_conn :: "nat \<Rightarrow> notification \<Rightarrow> consume_pool \<Rightarrow> consume_pool" where
  "shut_conn c n s = s\<lparr>cp_workers := map (notify c n) (cp_workers s), cp_closed := insert c (cp_closed s)\<rparr>"

text \<open>
  \<open>status\<close> and \<open>statusLock\<close> are variables of the package, so when there are \<open>others\<close>, the workers and dispatchers of
  another consuming pool set \<open>status\<close> as well, whenever the lock is free. \<open>initConnections\<close> empties the list and
  appends each connection as it is dialled; the first dial that fails ends it, and the workers are started all the same.
\<close>

inductive pool_step :: "bool \<Rightarrow> consume_pool \<Rightarrow> consume_pool \<Rightarrow> bool" for others where
  connect: "at_pc s i WStart \<Longrightarrow> getConnection (cp_pool s) = Some (k, p) \<Longrightarrow>
     pool_step others s (put i (\<lambda>w. w\<lparr>wk_pc := WSetUp, wk_conn := the (rc_conn (rc_at p k))\<rparr>) (s\<lparr>cp_pool := p\<rparr>))"
| no_connection: "at_pc s i WStart \<Longrightarrow> getConnection (cp_pool s) = None \<Longrightarrow> pool_step others s (s\<lparr>cp_panic := True\<rparr>)"
| no_channel: "at_pc s i WSetUp \<Longrightarrow> pool_step others s (put i (\<lambda>w. w\<lparr>wk_pc := WEnd\<rparr>) s)"
| set_up_fails: "at_pc s i WSetUp \<Longrightarrow> pool_step others s (put i (\<lambda>w. w\<lparr>wk_pc := WClose\<rparr>) s)"
| set_up_panics: "at_pc s i WSetUp \<Longrightarrow> pool_step others s (s\<lparr>cp_panic := True\<rparr>)"
| set_up: "at_pc s i WSetUp \<Longrightarrow> n = Some NilNote \<or> n = None \<and> wk_conn (cp_workers s ! i) \<notin> cp_closed s \<Longrightarrow>
     pool_step others s (put i (\<lambda>w. w\<lparr>wk_pc := WConsume, wk_note := n\<rparr>) s)"
| channel_error: "at_pc s i WConsume \<Longrightarrow> wk_note (cp_workers s ! i) = None \<Longrightarrow>
     pool_step others s (put i (\<lambda>w. w\<lparr>wk_note := Some ErrorNote\<rparr>) s)"
| connection_error: "\<not> cp_panic s \<Longrightarrow> c \<notin> cp_closed s \<Longrightarrow> pool_step others s (shut_conn c ErrorNote s)"
| notified: "at_pc s i WConsume \<Longrightarrow> wk_note (cp_workers s ! i) = Some ErrorNote \<Longrightarrow>
     pool_step others s (put i (\<lambda>w. w\<lparr>wk_pc := WReport, wk_failed := True\<rparr>) s)"
| notified_nil: "at_pc s i WConsume \<Longrightarrow> wk_note (cp_workers s ! i) = Some NilNote \<Longrightarrow>
     pool_step others s (s\<lparr>cp_panic := True\<rparr>)"
| report_again: "at_pc s i WReport \<Longrightarrow> \<not> cp_locked s \<Longrightarrow> cp_status s \<Longrightarrow>
     pool_step others s (put i (\<lambda>w. w\<lparr>wk_pc := WClose\<rparr>) s)"
| report: "at_pc s i WReport \<Longrightarrow> \<not> cp_locked s \<Longrightarrow> \<not> cp_status s \<Longrightarrow>
     pool_step others s (put i (\<lambda>w. w\<lparr>wk_pc := WSend\<rparr>) (s\<lparr>cp_locked := True\<rparr>))"
| send: "at_pc s i WSend \<Longrightarrow> cp_disp s = DSelect \<Longrightarrow>
     pool_step others s (put i (\<lambda>w. w\<lparr>wk_pc := WMark\<rparr>) (s\<lparr>cp_disp := DReceived, cp_received := cp_received s + 1\<rparr>))"
| mark: "at_pc s i WMark \<Longrightarrow>
     pool_step others s (put i (\<lambda>w. w\<lparr>wk_pc := WClose\<rparr>) (s\<lparr>cp_status := True, cp_locked := False\<rparr>))"
| close: "at_pc s i WClose \<Longrightarrow>
     pool_step others s (shut_conn (wk_conn (cp_workers s ! i)) NilNote (put i (\<lambda>w. w\<lparr>wk_pc := WEnd\<rparr>) s))"
| received: "\<not> cp_panic s \<Longrightarrow> cp_disp s = DReceived \<Longrightarrow> \<not> cp_locked s \<Longrightarrow>
     pool_step others s (s\<lparr>cp_status := True, cp_disp := DRetry, cp_retry := int32 (cp_retry s + 1)\<rparr>)"
| dial_fails: "\<not> cp_panic s \<Longrightarrow> cp_disp s = DRetry \<Longrightarrow> pool_step others s (s\<lparr>cp_retry := int32 (cp_retry s + 1)\<rparr>)"
| dial: "\<not> cp_panic s \<Longrightarrow> cp_disp s = DRetry \<Longrightarrow> \<not> cp_locked s \<Longrightarrow>
     pool_step others s (s\<lparr>cp_status := False, cp_disp := DConnect, cp_next := cp_next s + 1\<rparr>)"
| init_begin: "\<not> cp_panic s \<Longrightarrow> cp_disp s = DConnect \<Longrightarrow>
     pool_step others s (s\<lparr>cp_pool := set_conns [] (cp_pool s), cp_disp := DInit\<rparr>)"
| init_dial: "\<not> cp_panic s \<Longrightarrow> cp_disp s = DInit \<Longrightarrow> n = length (pool_conns (cp_pool s)) \<Longrightarrow> n < nat (maxConnection (cp_pool s)) \<Longrightarrow>
     pool_step others s (s\<lparr>cp_pool := set_conns (pool_conns (cp_pool s) @ [\<lparr>rc_conn = Some (cp_next s), rc_index = int n\<rparr>]) (cp_pool s),
       cp_next := cp_next s + 1\<rparr>)"
| init_end: "\<not> cp_panic s \<Longrightarrow> cp_disp s = DInit \<Longrightarrow>
     pool_step others s (s\<lparr>cp_workers := cp_workers s @ rConsume_workers (cp_receivers s) (cp_pool s) (cp_gen s + 1),
       cp_gen := cp_gen s + 1, cp_disp := DSelect\<rparr>)"
| other_pool: "others \<Longrightarrow> \<not> cp_panic s \<Longrightarrow> \<not> cp_locked s \<Longrightarrow> pool_step others s (s\<lparr>cp_status := b\<rparr>)"

inductive pool_reach :: "bool \<Rightarrow> consume_pool \<Rightarrow> bool" for others where
  run: "RunConsume p receivers base = Inr s \<Longrightarrow> pool_reach others s"
| move: "pool_reach others s \<Longrightarrow> pool_step others s s' \<Longrightarrow> pool_reach others s'"

subsection \<open>The invariant\<close>

definition reporting :: "worker_pc \<Rightarrow> bool" where
  "reporting pc \<longleftrightarrow> pc = WSend \<or> pc = WMark"

text \<open>The lock is held by the one worker that reports, if there is one.\<close>

definition reporters :: "worker list \<Rightarrow> nat" where
  "reporters ws = length (filter (\<lambda>w. reporting (wk_pc w)) ws)"

definition lock_inv :: "consume_pool \<Rightarrow> bool" where
  "lock_inv s \<longleftrightarrow> reporters (cp_workers s) = (if cp_locked s then 1 else 0)"

definition disp_inv :: "consume_pool \<Rightarrow> bool" where
  "disp_inv s \<longleftrightarrow> (\<forall>w\<in>set (cp_workers s). (wk_pc w = WSend \<longrightarrow> \<not> cp_status s) \<and> (wk_pc w = WMark \<longrightarrow> cp_disp s = DReceived \<and> \<not> cp_status s)) \<and>
     (cp_status s \<longrightarrow> cp_disp s \<in> {DReceived, DRetry}) \<and> (cp_disp s = DRetry \<longrightarrow> cp_status s) \<and>
     (cp_disp s = DReceived \<longrightarrow> cp_status s \<or> (\<exists>w\<in>set (cp_workers s). wk_pc w = WMark)) \<and>
     cp_received s = cp_gen s + (if cp_disp s = DSelect then 0 else 1)"

definition worker_inv :: "consume_pool \<Rightarrow> worker \<Rightarrow> bool" where
  "worker_inv s w \<longleftrightarrow> wk_gen w \<le> cp_gen s \<and>
     (wk_failed w \<longrightarrow> wk_pc w \<in> {WReport, WSend, WMark, WClose, WEnd}) \<and> (reporting (wk_pc w) \<or> wk_pc w = WReport \<longrightarrow> wk_failed w) \<and>
     (wk_failed w \<and> wk_pc w \<in> {WMark, WClose, WEnd} \<and> cp_disp s = DSelect \<longrightarrow> wk_gen w < cp_gen s) \<and>
     (wk_pc w = WConsume \<and> wk_conn w \<in> cp_closed s \<longrightarrow> wk_note w \<noteq> None)"

definition pool_inv :: "consume_pool \<Rightarrow> bool" where
  "pool_inv s \<longleftrightarrow> lock_inv s \<and> disp_inv s \<and> (\<forall>w\<in>set (cp_workers s). worker_inv s w) \<and>
     length (cp_workers s) = (cp_gen s + 1) * (cp_receivers s * nat (consumeMaxChannel (cp_pool s)))"

lemma reporters_update:
  "i < length ws \<Longrightarrow> reporters (ws[i := w]) + (if reporting (wk_pc (ws ! i)) then 1 else 0) =
     reporters ws + (if reporting (wk_pc w) then 1 else 0)"
proof (induction ws arbitrary: i)
  case (Cons v ws)
  then show ?case by (cases i) (auto simp: reporters_def)
qed simp

lemma reporters_0: "reporters ws = 0 \<longleftrightarrow> (\<forall>w\<in>set ws. \<not> reporting (wk_pc w))"
  by (auto simp: reporters_def filter_empty_conv)

lemma update_keeps: "w \<in> set ws \<Longrightarrow> w \<noteq> ws ! i \<Longrightarrow> w \<in> set (ws[i := v])"
  by (metis in_set_conv_nth length_list_update nth_list_update_neq)

lemma notify_keeps [simp]: "wk_gen (notify c n w) = wk_gen w" "wk_pc (notify c n w) = wk_pc w"
  "wk_failed (notify c n w) = wk_failed w" "wk_conn (notify c n w) = wk_conn w"
  by (simp_all add: notify_def)

lemma reporters_notify [simp]: "reporters (map (notify c n) ws) = reporters ws"
  by (simp add: reporters_def filter_map comp_def)

lemma rConsume_workers_new:
  "w \<in> set (rConsume_workers n m g) \<Longrightarrow> wk_gen w = g \<and> wk_pc w = WStart \<and> \<not> wk_failed w"
  by (auto simp: rConsume_workers_def rListenerConsume_def split: if_splits)

lemma reporters_new [simp]: "reporters (rConsume_workers n m g) = 0"
  by (auto simp: reporters_0 reporting_def dest: rConsume_workers_new)

lemma reporters_append [simp]: "reporters (us @ ws) = reporters us + reporters ws"
  by (simp add: reporters_def)

lemma length_new [simp]: "length (rConsume_workers n m g) = n * nat (consumeMaxChannel m)"
  by (simp add: rConsume_workers_def rListenerConsume_def length_concat sum_list_replicate)

lemma pool_inv_pool [simp]: "consumeMaxChannel p = consumeMaxChannel (cp_pool s) \<Longrightarrow> pool_inv (s\<lparr>cp_pool := p\<rparr>) = pool_inv s" "worker_inv (s\<lparr>cp_pool := p\<rparr>) w = worker_inv s w"
  by (simp_all add: pool_inv_def lock_inv_def disp_inv_def worker_inv_def)

lemma pool_channels [simp]: "getConnection p = Some (k, p') \<Longrightarrow> consumeMaxChannel p' = consumeMaxChannel p"
  "consumeMaxChannel (set_conns cs p) = consumeMaxChannel p"
  by (auto simp: getConnection_def Let_def set_conns_def split: if_splits)

text \<open>A change of one worker and of the fields around the workers.\<close>

lemma change_inv:
  assumes "pool_inv s" "i < length (cp_workers s)" and w: "w = f (cp_workers s ! i)"
    and s': "cp_workers s' = cp_workers s" "cp_gen s' = cp_gen s" "cp_closed s' = cp_closed s"
      "cp_receivers s' = cp_receivers s" "consumeMaxChannel (cp_pool s') = consumeMaxChannel (cp_pool s)"
    and "lock_inv (put i f s')" "disp_inv (put i f s')" "worker_inv s' w"
    and "\<And>v. v \<in> set (cp_workers s) \<Longrightarrow> worker_inv s v \<Longrightarrow> worker_inv s' v"
  shows "pool_inv (put i f s')"
proof -
  have "worker_inv (put i f s') v" if "v \<in> set ((cp_workers s)[i := w])" for v
  proof -
    have "worker_inv s' v"
      using that set_update_subset_insert [of "cp_workers s" i w] assms by (auto simp: pool_inv_def)
    then show ?thesis by (simp add: worker_inv_def put_def)
  qed
  then show ?thesis using assms by (simp add: pool_inv_def put_def)
qed

lemma put_inv:
  assumes "pool_inv s" "i < length (cp_workers s)" "worker_inv s (f (cp_workers s ! i))"
    and "\<not> reporting (wk_pc (cp_workers s ! i))" "\<not> reporting (wk_pc (f (cp_workers s ! i)))"
  shows "pool_inv (put i f s)"
proof (rule change_inv [OF assms(1,2) refl])
  let ?w = "f (cp_workers s ! i)" and ?ws = "(cp_workers s)[i := f (cp_workers s ! i)]"
  show "lock_inv (put i f s)"
    using reporters_update [OF assms(2), of ?w] assms by (simp add: lock_inv_def put_def pool_inv_def)
  have sub: "set ?ws \<subseteq> insert ?w (set (cp_workers s))" by (rule set_update_subset_insert)
  have "\<exists>w\<in>set ?ws. wk_pc w = WMark" if "\<exists>w\<in>set (cp_workers s). wk_pc w = WMark"
    using that update_keeps [of _ "cp_workers s" i ?w] assms(4) by (metis reporting_def)
  moreover have "wk_pc ?w \<noteq> WSend" "wk_pc ?w \<noteq> WMark" using assms(5) by (auto simp: reporting_def)
  ultimately show "disp_inv (put i f s)"
    using assms(1) sub unfolding pool_inv_def disp_inv_def put_def by auto
qed (use assms in auto)

lemma shut_inv:
  assumes "pool_inv s"
  shows "pool_inv (shut_conn c n s)"
proof -
  have n: "wk_note (notify c n w) \<noteq> None"
    if "worker_inv s w" "wk_pc w = WConsume" "wk_conn w = c \<or> wk_conn w \<in> cp_closed s" for w
    using that by (auto simp: notify_def worker_inv_def)
  then have "worker_inv (shut_conn c n s) (notify c n w)" if "worker_inv s w" for w
    using that n [OF that] unfolding worker_inv_def shut_conn_def by auto
  moreover have "lock_inv (shut_conn c n s)" "disp_inv (shut_conn c n s)"
    using assms by (simp_all add: pool_inv_def lock_inv_def disp_inv_def shut_conn_def)
  ultimately show ?thesis using assms by (simp add: pool_inv_def) (simp add: shut_conn_def)
qed

lemma pool_invD:
  assumes "pool_inv s"
  shows "i < length (cp_workers s) \<Longrightarrow> worker_inv s (cp_workers s ! i)"
    "\<not> cp_locked s \<Longrightarrow> w \<in> set (cp_workers s) \<Longrightarrow> wk_pc w \<noteq> WSend \<and> wk_pc w \<noteq> WMark" "disp_inv s"
  using assms by (auto simp: pool_inv_def lock_inv_def reporters_0 reporting_def)

lemma worker_moves:
  assumes "worker_inv s w"
  shows "wk_pc w \<in> {WStart, WSetUp} \<Longrightarrow> pc \<in> {WSetUp, WClose, WEnd} \<Longrightarrow> worker_inv s (w\<lparr>wk_pc := pc, wk_conn := c\<rparr>)"
    "wk_pc w \<in> {WStart, WSetUp} \<Longrightarrow> pc \<in> {WSetUp, WClose, WEnd} \<Longrightarrow> worker_inv s (w\<lparr>wk_pc := pc\<rparr>)"
    "wk_pc w = WSetUp \<Longrightarrow> n = Some NilNote \<or> n = None \<and> wk_conn w \<notin> cp_closed s \<Longrightarrow>
      worker_inv s (w\<lparr>wk_pc := WConsume, wk_note := n\<rparr>)"
    "wk_pc w = WConsume \<Longrightarrow> worker_inv s (w\<lparr>wk_note := Some x\<rparr>)"
    "wk_pc w = WConsume \<Longrightarrow> worker_inv s (w\<lparr>wk_pc := WReport, wk_failed := True\<rparr>)"
    "wk_pc w = WReport \<Longrightarrow> cp_disp s \<noteq> DSelect \<Longrightarrow> worker_inv s (w\<lparr>wk_pc := WClose\<rparr>)"
    "wk_pc w = WClose \<Longrightarrow> worker_inv s (w\<lparr>wk_pc := WEnd\<rparr>)"
proof -
  have f: "wk_pc w \<in> {WStart, WSetUp, WConsume} \<Longrightarrow> \<not> wk_failed w" and g: "wk_gen w \<le> cp_gen s"
    using assms by (auto simp: worker_inv_def)
  show "worker_inv s (w\<lparr>wk_pc := pc, wk_conn := c\<rparr>)" "worker_inv s (w\<lparr>wk_pc := pc\<rparr>)"
    if "wk_pc w \<in> {WStart, WSetUp}" "pc \<in> {WSetUp, WClose, WEnd}"
    using f g that by (auto simp: worker_inv_def reporting_def)
  show "worker_inv s (w\<lparr>wk_pc := WConsume, wk_note := n\<rparr>)"
    if "wk_pc w = WSetUp" "n = Some NilNote \<or> n = None \<and> wk_conn w \<notin> cp_closed s"
    using f g that(1) that(2) by (simp add: worker_inv_def reporting_def) auto
  show "worker_inv s (w\<lparr>wk_note := Some x\<rparr>)" "worker_inv s (w\<lparr>wk_pc := WReport, wk_failed := True\<rparr>)"
    if "wk_pc w = WConsume"
    using f g that by (simp_all add: worker_inv_def reporting_def)
  show "worker_inv s (w\<lparr>wk_pc := WClose\<rparr>)" if "wk_pc w = WReport" "cp_disp s \<noteq> DSelect"
    using g that by (simp add: worker_inv_def reporting_def)
  show "worker_inv s (w\<lparr>wk_pc := WEnd\<rparr>)" if "wk_pc w = WClose"
    using assms that by (simp add: worker_inv_def reporting_def)
qed

lemma worker_inv_disp:
  "worker_inv s v \<Longrightarrow> worker_inv (s\<lparr>cp_locked := l, cp_status := st, cp_retry := r\<rparr>) v"
  "worker_inv s v \<Longrightarrow> d \<noteq> DSelect \<Longrightarrow> worker_inv (s\<lparr>cp_disp := d\<rparr>) v"
  by (simp_all add: worker_inv_def)

lemma pool_report_inv:
  assumes "at_pc s i WReport" "\<not> cp_locked s" "\<not> cp_status s" "pool_inv s"
  shows "pool_inv (put i (\<lambda>w. w\<lparr>wk_pc := WSend\<rparr>) (s\<lparr>cp_locked := True\<rparr>))"
proof (rule change_inv [OF assms(4) _ refl])
  let ?w = "(cp_workers s ! i)\<lparr>wk_pc := WSend\<rparr>"
  note i = assms(1) [unfolded at_pc_def] and free = pool_invD(2) [OF assms(4,2)]
  have sub: "set ((cp_workers s)[i := ?w]) \<subseteq> insert ?w (set (cp_workers s))" by (rule set_update_subset_insert)
  show "lock_inv (put i (\<lambda>w. w\<lparr>wk_pc := WSend\<rparr>) (s\<lparr>cp_locked := True\<rparr>))"
    using reporters_update [of i "cp_workers s" ?w] i assms
    by (simp add: lock_inv_def put_def pool_inv_def reporting_def)
  show "disp_inv (put i (\<lambda>w. w\<lparr>wk_pc := WSend\<rparr>) (s\<lparr>cp_locked := True\<rparr>))"
    using pool_invD(3) [OF assms(4)] assms(3) free sub unfolding disp_inv_def put_def by auto
  show "worker_inv (s\<lparr>cp_locked := True\<rparr>) ?w"
    using pool_invD(1) [OF assms(4), of i] i by (simp add: worker_inv_def reporting_def)
qed (use assms in \<open>simp_all add: at_pc_def worker_inv_def\<close>)

lemma send_inv:
  assumes "at_pc s i WSend" "cp_disp s = DSelect" "pool_inv s"
  shows "pool_inv (put i (\<lambda>w. w\<lparr>wk_pc := WMark\<rparr>) (s\<lparr>cp_disp := DReceived, cp_received := cp_received s + 1\<rparr>))"
proof (rule change_inv [OF assms(3) _ refl])
  let ?w = "(cp_workers s ! i)\<lparr>wk_pc := WMark\<rparr>" and ?s = "s\<lparr>cp_disp := DReceived, cp_received := cp_received s + 1\<rparr>"
  note i = assms(1) [unfolded at_pc_def]
  have sub: "set ((cp_workers s)[i := ?w]) \<subseteq> insert ?w (set (cp_workers s))" by (rule set_update_subset_insert)
  have mem: "?w \<in> set ((cp_workers s)[i := ?w])" using i by (simp add: set_update_memI)
  have wi: "cp_workers s ! i \<in> set (cp_workers s)" using i by simp
  show "lock_inv (put i (\<lambda>w. w\<lparr>wk_pc := WMark\<rparr>) ?s)"
    using reporters_update [of i "cp_workers s" ?w] i assms
    by (simp add: lock_inv_def put_def pool_inv_def reporting_def)
  have st: "\<not> cp_status s" using pool_invD(3) [OF assms(3)] i wi by (auto simp: disp_inv_def)
  have "\<exists>w\<in>set ((cp_workers s)[i := ?w]). wk_pc w = WMark" using mem by (rule bexI [rotated]) simp
  then show "disp_inv (put i (\<lambda>w. w\<lparr>wk_pc := WMark\<rparr>) ?s)"
    using pool_invD(3) [OF assms(3)] assms(2) st sub unfolding disp_inv_def put_def by simp
  show "worker_inv ?s ?w"
    using pool_invD(1) [OF assms(3), of i] i by (simp add: worker_inv_def reporting_def)
qed (use assms in \<open>simp_all add: at_pc_def worker_inv_def\<close>)

lemma mark_inv:
  assumes "at_pc s i WMark" "pool_inv s"
  shows "pool_inv (put i (\<lambda>w. w\<lparr>wk_pc := WClose\<rparr>) (s\<lparr>cp_status := True, cp_locked := False\<rparr>))"
proof (rule change_inv [OF assms(2) _ refl])
  let ?w = "(cp_workers s ! i)\<lparr>wk_pc := WClose\<rparr>" and ?s = "s\<lparr>cp_status := True, cp_locked := False\<rparr>"
  note i = assms(1) [unfolded at_pc_def]
  have wi: "cp_workers s ! i \<in> set (cp_workers s)" using i by simp
  have r: "reporters ((cp_workers s)[i := ?w]) = 0"
    using reporters_update [of i "cp_workers s" ?w] i assms(2) [unfolded pool_inv_def, THEN conjunct1]
    by (auto simp: lock_inv_def reporting_def split: if_splits)
  then show "lock_inv (put i (\<lambda>w. w\<lparr>wk_pc := WClose\<rparr>) ?s)" by (simp add: lock_inv_def put_def)
  have d: "cp_disp s = DReceived" using pool_invD(3) [OF assms(2)] i wi by (auto simp: disp_inv_def)
  then show "disp_inv (put i (\<lambda>w. w\<lparr>wk_pc := WClose\<rparr>) ?s)"
    using pool_invD(3) [OF assms(2)] r [unfolded reporters_0]
    unfolding disp_inv_def put_def reporting_def by simp
  show "worker_inv ?s ?w"
    using pool_invD(1) [OF assms(2), of i] i d by (simp add: worker_inv_def reporting_def)
qed (use assms in \<open>simp_all add: at_pc_def worker_inv_def\<close>)

lemma reconnect_inv:
  assumes "cp_disp s = DInit" "pool_inv s"
  shows "pool_inv (s\<lparr>cp_workers := cp_workers s @ rConsume_workers (cp_receivers s) (cp_pool s) (cp_gen s + 1),
     cp_gen := cp_gen s + 1, cp_disp := DSelect\<rparr>)" (is "pool_inv ?s")
proof -
  have st: "\<not> cp_status s" "cp_received s = cp_gen s + 1"
    and free: "\<forall>w\<in>set (cp_workers s). wk_pc w \<noteq> WMark"
    using pool_invD(3) [OF assms(2)] assms(1) by (auto simp: disp_inv_def)
  have "worker_inv ?s w" if "w \<in> set (cp_workers ?s)" for w
  proof -
    from that consider "worker_inv s w" | "w \<in> set (rConsume_workers (cp_receivers s) (cp_pool s) (cp_gen s + 1))"
      using assms(2) by (auto simp: pool_inv_def)
    then show ?thesis
    proof cases
      case 1
      then show ?thesis by (simp add: worker_inv_def)
    next
      case 2
      then show ?thesis using rConsume_workers_new [OF 2] by (simp add: worker_inv_def reporting_def)
    qed
  qed
  moreover have "lock_inv ?s" using assms(2) by (simp add: pool_inv_def lock_inv_def)
  moreover have "\<forall>w\<in>set (rConsume_workers (cp_receivers s) (cp_pool s) (cp_gen s + 1)). wk_pc w = WStart"
    by (blast dest: rConsume_workers_new)
  then have "disp_inv ?s" using st free by (simp add: disp_inv_def ball_Un)
  ultimately show ?thesis using assms(2) by (simp add: pool_inv_def algebra_simps)
qed

lemma pool_step_inv:
  assumes "pool_step False s s'" "pool_inv s"
  shows "pool_inv s'"
  using assms
proof (induction rule: pool_step.induct)
  case (connect s i k p)
  then show ?case using worker_moves(1) [OF pool_invD(1) [OF connect(3)]]
    by (intro put_inv) (simp_all add: at_pc_def reporting_def)
next
  case (no_channel s i)
  then show ?case using worker_moves(2) [OF pool_invD(1) [OF no_channel(2)]]
    by (intro put_inv) (simp_all add: at_pc_def reporting_def)
next
  case (set_up_fails s i)
  then show ?case using worker_moves(2) [OF pool_invD(1) [OF set_up_fails(2)]]
    by (intro put_inv) (simp_all add: at_pc_def reporting_def)
next
  case (set_up s i n)
  then show ?case using worker_moves(3) [OF pool_invD(1) [OF set_up(3)]]
    by (intro put_inv) (simp_all add: at_pc_def reporting_def)
next
  case (channel_error s i)
  then show ?case using worker_moves(4) [OF pool_invD(1) [OF channel_error(3)]]
    by (intro put_inv) (simp_all add: at_pc_def reporting_def)
next
  case (notified s i)
  then show ?case using worker_moves(5) [OF pool_invD(1) [OF notified(3)]]
    by (intro put_inv) (simp_all add: at_pc_def reporting_def)
next
  case (report_again s i)
  then have "cp_disp s \<noteq> DSelect" using pool_invD(3) [OF report_again(4)] by (auto simp: disp_inv_def)
  then show ?case using report_again worker_moves(6) [OF pool_invD(1) [OF report_again(4)]]
    by (intro put_inv) (simp_all add: at_pc_def reporting_def)
next
  case (connection_error s c)
  then show ?case by (intro shut_inv)
next
  case (close s i)
  then show ?case using worker_moves(7) [OF pool_invD(1) [OF close(2)]]
    by (intro shut_inv put_inv) (simp_all add: at_pc_def reporting_def)
next
  case (report s i)
  then show ?case by (rule pool_report_inv)
next
  case (send s i)
  then show ?case by (rule send_inv)
next
  case (mark s i)
  then show ?case by (rule mark_inv)
next
  case (received s)
  then show ?case using pool_invD(2) [OF received(4,3)]
    by (auto simp: pool_inv_def lock_inv_def disp_inv_def worker_inv_def)
next
  case (dial_fails s)
  then show ?case by (auto simp: pool_inv_def lock_inv_def disp_inv_def worker_inv_def)
next
  case (dial s)
  then show ?case using pool_invD(2) [OF dial(4,3)]
    by (auto simp: pool_inv_def lock_inv_def disp_inv_def worker_inv_def)
next
  case (init_begin s)
  then show ?case by (auto simp: pool_inv_def lock_inv_def disp_inv_def worker_inv_def)
next
  case (init_dial s n)
  then show ?case by (auto simp: pool_inv_def lock_inv_def disp_inv_def worker_inv_def)
next
  case (init_end s)
  then show ?case by (intro reconnect_inv)
qed (simp_all add: pool_inv_def lock_inv_def disp_inv_def worker_inv_def)

lemma pool_reach_inv: "pool_reach False s \<Longrightarrow> pool_inv s"
proof (induction rule: pool_reach.induct)
  case (run p receivers base s)
  have w: "w \<in> set (rConsume_workers receivers p 0) \<Longrightarrow>
      wk_gen w = 0 \<and> wk_pc w = WStart \<and> \<not> wk_failed w" for w by (rule rConsume_workers_new)
  then have "\<forall>w\<in>set (rConsume_workers receivers p 0). wk_gen w = 0 \<and> wk_pc w = WStart \<and> \<not> wk_failed w"
    by blast
  with run show ?case
    by (auto simp: RunConsume_def pool_inv_def lock_inv_def disp_inv_def worker_inv_def reporting_def split: if_splits)
qed (rule pool_step_inv)

subsection \<open>Connecting again\<close>

definition reconnected :: "consume_pool \<Rightarrow> consume_pool \<Rightarrow> bool" where
  "reconnected s s' \<longleftrightarrow> (pool_step False)\<^sup>*\<^sup>* s s' \<and> cp_gen s' = cp_gen s + 1 \<and> cp_disp s' = DSelect \<and>
     length (pool_conns (cp_pool s')) = nat (maxConnection (cp_pool s))"

lemma reconnected_step:
  assumes "pool_step False s s1" "cp_gen s1 = cp_gen s" "maxConnection (cp_pool s1) = maxConnection (cp_pool s)"
    "\<exists>s'. reconnected s1 s'"
  shows "\<exists>s'. reconnected s s'"
  using assms unfolding reconnected_def by (metis converse_rtranclp_into_rtranclp)

lemma init_conns [simp]: "pool_conns (set_conns cs p) = cs" "maxConnection (set_conns cs p) = maxConnection p"
  by (simp_all add: pool_conns_def set_conns_def)

text \<open>Each dial of \<open>initConnections\<close> can succeed.\<close>

lemma reconnect_from_init:
  "\<not> cp_panic s \<Longrightarrow> cp_disp s = DInit \<Longrightarrow> length (pool_conns (cp_pool s)) + k = nat (maxConnection (cp_pool s)) \<Longrightarrow>
   \<exists>s'. reconnected s s'"
proof (induction k arbitrary: s)
  case 0
  let ?s = "s\<lparr>cp_workers := cp_workers s @ rConsume_workers (cp_receivers s) (cp_pool s) (cp_gen s + 1),
       cp_gen := cp_gen s + 1, cp_disp := DSelect\<rparr>"
  have "pool_step False s ?s" by (rule pool_step.init_end [OF 0(1,2)])
  then have "reconnected s ?s" using 0(3) by (simp add: reconnected_def r_into_rtranclp)
  then show ?case by blast
next
  case (Suc k)
  show ?case
    by (rule reconnected_step [OF pool_step.init_dial [OF Suc.prems(1,2) refl]]) (use Suc.prems Suc.IH in simp_all)
qed

lemma reconnect_from_connect:
  assumes "\<not> cp_panic s" "cp_disp s = DConnect"
  shows "\<exists>s'. reconnected s s'"
  by (rule reconnected_step [OF pool_step.init_begin [OF assms]]) (use assms reconnect_from_init in simp_all)

text \<open>While the connections are made there are at most as many as the pool is to have.\<close>

lemma pool_init [simp]: "getConnection p = Some (k, p') \<Longrightarrow> pool_conns p' = pool_conns p"
  "getConnection p = Some (k, p') \<Longrightarrow> maxConnection p' = maxConnection p"
  by (auto simp: getConnection_def Let_def pool_conns_def split: if_splits)

lemma step_init: "pool_step others s s' \<Longrightarrow> (cp_disp s = DInit \<longrightarrow> length (pool_conns (cp_pool s)) \<le> nat (maxConnection (cp_pool s))) \<Longrightarrow>
   cp_disp s' = DInit \<longrightarrow> length (pool_conns (cp_pool s')) \<le> nat (maxConnection (cp_pool s'))"
  by (induction rule: pool_step.induct) (auto simp: put_def shut_conn_def)

lemma reach_init: "pool_reach others s \<Longrightarrow> cp_disp s = DInit \<longrightarrow> length (pool_conns (cp_pool s)) \<le> nat (maxConnection (cp_pool s))"
proof (induction rule: pool_reach.induct)
  case (run p receivers base s)
  then show ?case by (auto simp: RunConsume_def split: if_splits)
qed (rule step_init)

lemma reconnect_from_retry:
  assumes "\<not> cp_panic s" "cp_disp s = DRetry" "\<not> cp_locked s"
  shows "\<exists>s'. reconnected s s'"
  by (rule reconnected_step [OF pool_step.dial [OF assms]]) (use assms reconnect_from_connect in simp_all)

lemma reconnect_from_received:
  assumes "pool_inv s" "\<not> cp_panic s" "cp_disp s = DReceived"
  shows "\<exists>s'. reconnected s s'"
proof -
  have free: "\<exists>s'. reconnected s s'" if "\<not> cp_panic s" "cp_disp s = DReceived" "\<not> cp_locked s" for s
    by (rule reconnected_step [OF pool_step.received [OF that]]) (use that reconnect_from_retry in simp_all)
  show ?thesis
  proof (cases "\<exists>w\<in>set (cp_workers s). wk_pc w = WMark")
    case True
    then obtain i where "at_pc s i WMark" using assms(2) by (auto simp: at_pc_def in_set_conv_nth)
    then show ?thesis
      by (rule reconnected_step [OF pool_step.mark]) (use assms free in \<open>simp_all add: put_def\<close>)
  next
    case False
    then have "cp_status s" using pool_invD(3) [OF assms(1)] assms(3) by (simp add: disp_inv_def)
    then have "\<forall>w\<in>set (cp_workers s). \<not> reporting (wk_pc w)"
      using pool_invD(3) [OF assms(1)] by (auto simp: disp_inv_def reporting_def)
    then have "\<not> cp_locked s" using assms(1) by (auto simp: pool_inv_def lock_inv_def simp flip: reporters_0)
    then show ?thesis using free assms by blast
  qed
qed

definition failure :: "consume_pool \<Rightarrow> worker \<Rightarrow> bool" where
  "failure s w \<longleftrightarrow> wk_pc w \<in> {WReport, WSend, WMark} \<or> wk_failed w \<and> wk_gen w = cp_gen s"

lemma reconnect_from_failure:
  assumes "pool_inv s" "\<not> cp_panic s" "w \<in> set (cp_workers s)" "failure s w"
    and "cp_disp s = DInit \<longrightarrow> length (pool_conns (cp_pool s)) \<le> nat (maxConnection (cp_pool s))"
  shows "\<exists>s'. reconnected s s'"
proof (cases "cp_disp s")
  case DSelect
  have st: "\<not> cp_status s" using pool_invD(3) [OF assms(1)] DSelect by (auto simp: disp_inv_def)
  have send: "\<exists>s'. reconnected s s'" if s: "pool_inv s" "at_pc s j WSend" "cp_disp s = DSelect" for s j
  proof (rule reconnected_step [OF pool_step.send [OF s(2,3)]])
    let ?s = "put j (\<lambda>w. w\<lparr>wk_pc := WMark\<rparr>) (s\<lparr>cp_disp := DReceived, cp_received := cp_received s + 1\<rparr>)"
    have "pool_inv ?s" by (rule send_inv [OF s(2,3,1)])
    then show "\<exists>s'. reconnected ?s s'"
      by (rule reconnect_from_received) (use s in \<open>simp_all add: put_def at_pc_def\<close>)
  qed (simp_all add: put_def)
  show ?thesis
  proof (cases "cp_locked s")
    case True
    then obtain v where v: "v \<in> set (cp_workers s)" "reporting (wk_pc v)"
      using assms(1) reporters_0 [of "cp_workers s"] by (auto simp: pool_inv_def lock_inv_def)
    then have "wk_pc v = WSend" using pool_invD(3) [OF assms(1)] DSelect by (auto simp: disp_inv_def reporting_def)
    then obtain j where "at_pc s j WSend" using v(1) assms(2) by (auto simp: at_pc_def in_set_conv_nth)
    then show ?thesis using send [OF assms(1)] DSelect by blast
  next
    case False
    have wi: "worker_inv s w" using assms(1,3) by (simp add: pool_inv_def)
    have "wk_pc w = WReport"
      using assms(4) wi pool_invD(2) [OF assms(1) False assms(3)] DSelect by (auto simp: failure_def worker_inv_def)
    then obtain j where j: "at_pc s j WReport" using assms(2,3) by (auto simp: at_pc_def in_set_conv_nth)
    show ?thesis
    proof (rule reconnected_step [OF pool_step.report [OF j False st]])
      let ?s = "put j (\<lambda>w. w\<lparr>wk_pc := WSend\<rparr>) (s\<lparr>cp_locked := True\<rparr>)"
      have "at_pc ?s j WSend" using j by (simp add: at_pc_def put_def)
      then show "\<exists>s'. reconnected ?s s'"
        using send [OF pool_report_inv [OF j False st assms(1)]] DSelect by (simp add: put_def)
    qed (simp_all add: put_def)
  qed
next
  case DReceived
  then show ?thesis using reconnect_from_received assms by blast
next
  case DRetry
  then have "cp_status s" using pool_invD(3) [OF assms(1)] by (simp add: disp_inv_def)
  then have "\<forall>v\<in>set (cp_workers s). \<not> reporting (wk_pc v)"
    using pool_invD(3) [OF assms(1)] by (auto simp: disp_inv_def reporting_def)
  then have "\<not> cp_locked s" using assms(1) by (auto simp: pool_inv_def lock_inv_def simp flip: reporters_0)
  then show ?thesis using reconnect_from_retry DRetry assms(2) by blast
next
  case DInit
  then show ?thesis
    using reconnect_from_init [OF assms(2) DInit, of "nat (maxConnection (cp_pool s)) - length (pool_conns (cp_pool s))"] assms(5) by simp
qed (use reconnect_from_connect assms in blast)

subsection \<open>A connection that is closed under its workers\<close>

definition stuck :: "nat \<Rightarrow> consume_pool \<Rightarrow> bool" where
  "stuck j s \<longleftrightarrow> j < length (cp_workers s) \<and> wk_pc (cp_workers s ! j) = WConsume \<and>
     wk_note (cp_workers s ! j) = Some NilNote"

lemma stuck_put:
  "stuck j s \<Longrightarrow> cp_workers s' = cp_workers s \<Longrightarrow>
    \<not> (wk_pc (cp_workers s ! i) = WConsume \<and> wk_note (cp_workers s ! i) = Some NilNote) \<Longrightarrow> stuck j (put i f s')"
  by (cases "i = j") (simp_all add: stuck_def put_def)

lemma stuck_shut: "stuck j s \<Longrightarrow> stuck j (shut_conn c n s)"
  by (simp add: stuck_def shut_conn_def notify_def)

lemma stuck_step: "pool_step others s s' \<Longrightarrow> stuck j s \<Longrightarrow> stuck j s'"
proof (induction rule: pool_step.induct)
  case (connect s i k p)
  then show ?case by (auto simp: at_pc_def intro: stuck_put [of j s])
next
  case (no_channel s i)
  then show ?case by (auto simp: at_pc_def intro: stuck_put [of j s])
next
  case (set_up_fails s i)
  then show ?case by (auto simp: at_pc_def intro: stuck_put [of j s])
next
  case (set_up s i n)
  then show ?case by (auto simp: at_pc_def intro: stuck_put [of j s])
next
  case (channel_error s i)
  then show ?case by (auto simp: at_pc_def intro: stuck_put [of j s])
next
  case (notified s i)
  then show ?case by (auto simp: at_pc_def intro: stuck_put [of j s])
next
  case (report_again s i)
  then show ?case by (auto simp: at_pc_def intro: stuck_put [of j s])
next
  case (report s i)
  then show ?case by (auto simp: at_pc_def intro: stuck_put [of j s])
next
  case (send s i)
  then show ?case by (auto simp: at_pc_def intro: stuck_put [of j s])
next
  case (mark s i)
  then show ?case by (auto simp: at_pc_def intro: stuck_put [of j s])
next
  case (close s i)
  then show ?case by (auto simp: at_pc_def intro!: stuck_shut intro: stuck_put [of j s])
next
  case (connection_error s c)
  then show ?case by (simp add: stuck_shut)
next
  case (init_end s)
  then show ?case by (simp add: stuck_def nth_append)
qed (simp_all add: stuck_def)

lemma stuck_stays: "(pool_step others)\<^sup>*\<^sup>* s s' \<Longrightarrow> stuck j s \<Longrightarrow> stuck j s'"
  by (induction rule: rtranclp_induct) (auto intro: stuck_step)

subsection \<open>Nobody left to report\<close>

definition all_over :: "consume_pool \<Rightarrow> bool" where
  "all_over s \<longleftrightarrow> cp_disp s = DSelect \<and> (\<forall>w\<in>set (cp_workers s). wk_pc w \<in> {WClose, WEnd})"

lemma all_over_pc: "all_over s \<Longrightarrow> at_pc s i pc \<Longrightarrow> pc \<in> {WClose, WEnd}"
  by (auto simp: all_over_def at_pc_def)

lemma all_over_step: "pool_step others s s' \<Longrightarrow> all_over s \<Longrightarrow> all_over s' \<and> cp_gen s' = cp_gen s"
proof (induction rule: pool_step.induct)
  case (close s i)
  then show ?case
    using set_update_subset_insert [of "cp_workers s" i "(cp_workers s ! i)\<lparr>wk_pc := WEnd\<rparr>"]
    by (auto simp: all_over_def put_def shut_conn_def)
qed (((drule (1) all_over_pc, simp; fail) | (simp add: all_over_def shut_conn_def; fail))+)

lemma all_over_stays: "(pool_step others)\<^sup>*\<^sup>* s s' \<Longrightarrow> all_over s \<Longrightarrow> all_over s' \<and> cp_gen s' = cp_gen s"
  by (induction rule: rtranclp_induct) (auto dest: all_over_step)

subsection \<open>A pool with one connection and two workers\<close>

definition small_pool :: RabbitPool where
  "small_pool = set_conns (made 1 0) (SetMaxConsumeChannel 2 (SetMaxConnection 1 NewConsumePool))"

definition demo_worker :: "nat \<Rightarrow> worker_pc \<Rightarrow> notification option \<Rightarrow> bool \<Rightarrow> worker" where
  "demo_worker i pc n failed = \<lparr>wk_gen = 0, wk_num = i, wk_conn = 0, wk_pc = pc, wk_note = n, wk_failed = failed\<rparr>"

definition demo_state :: "worker \<Rightarrow> worker \<Rightarrow> consume_pool" where
  "demo_state v w = \<lparr>cp_pool = small_pool, cp_workers = [v, w], cp_disp = DSelect, cp_status = False, cp_locked = False,
     cp_retry = 0, cp_closed = {}, cp_next = 1, cp_receivers = 1, cp_gen = 0, cp_received = 0, cp_panic = False\<rparr>"

lemma small_pool_simps:
  "getConnection small_pool = Some (0, small_pool)" "rc_conn (rc_at small_pool 0) = Some 0"
  by (simp_all add: small_pool_def getConnection_def RoundRobin_def go_rem_def int32_def SetMaxConnection_def SetMaxConsumeChannel_def
      NewConsumePool_def newRabbitPool_def Let_def made_def rc_at_def set_conns_def pool_conns_def
      gomap_get_def RABBITMQ_TYPE_CONSUME_def)

lemma demo_start: "RunConsume small_pool 1 1 = Inr (demo_state (demo_worker 0 WStart None False) (demo_worker 1 WStart None False))"
  by (simp add: RunConsume_def demo_state_def demo_worker_def rConsume_workers_def rListenerConsume_def small_pool_def
      numeral_2_eq_2 SetMaxConnection_def SetMaxConsumeChannel_def NewConsumePool_def newRabbitPool_def set_conns_def)

lemma demo_put [simp]:
  "put 0 f (demo_state v w) = demo_state (f v) w" "put (Suc 0) f (demo_state v w) = demo_state v (f w)"
  by (simp_all add: put_def demo_state_def)

lemma demo_state_fields [simp]:
  "at_pc (demo_state v w) 0 pc \<longleftrightarrow> wk_pc v = pc" "at_pc (demo_state v w) (Suc 0) pc \<longleftrightarrow> wk_pc w = pc"
  "cp_pool (demo_state v w) = small_pool" "(demo_state v w)\<lparr>cp_pool := small_pool\<rparr> = demo_state v w"
  "cp_workers (demo_state v w) = [v, w]" "cp_closed (demo_state v w) = {}"
  "cp_disp (demo_state v w) = DSelect" "\<not> cp_locked (demo_state v w)" "\<not> cp_status (demo_state v w)"
  by (auto simp: at_pc_def demo_state_def)

lemma demo_failure:
  "pool_reach others (demo_state (demo_worker 0 WReport (Some ErrorNote) True) (demo_worker 1 WConsume None False))"
  "pool_reach others (demo_state (demo_worker 0 WClose None False) (demo_worker 1 WConsume None False))"
  "pool_reach others (demo_state (demo_worker 0 WEnd None False) (demo_worker 1 WEnd None False))"
proof -
  let ?w = demo_worker
  have r: "pool_reach others (demo_state (?w 0 WStart None False) (?w 1 WStart None False))"
    by (rule pool_reach.run [OF demo_start])
  have m: "pool_reach others s'" if "pool_reach others s" "pool_step others s s2" "s2 = s'" for s s2 s' :: consume_pool
    using that pool_reach.move by simp
  from r have "pool_reach others (demo_state (?w 0 WSetUp None False) (?w 1 WStart None False))"
    by (rule m [OF _ pool_step.connect [of _ 0 0 small_pool]]) (simp_all add: small_pool_simps demo_worker_def)
  then have "pool_reach others (demo_state (?w 0 WSetUp None False) (?w 1 WSetUp None False))"
    by (rule m [OF _ pool_step.connect [of _ 1 0 small_pool]]) (simp_all add: small_pool_simps demo_worker_def)
  then have r2: "pool_reach others (demo_state (?w 0 WSetUp None False) (?w 1 WSetUp None False))" .
  then have "pool_reach others (demo_state (?w 0 WEnd None False) (?w 1 WSetUp None False))"
    by (rule m [OF _ pool_step.no_channel [of _ 0]]) (simp_all add: demo_worker_def)
  then show "pool_reach others (demo_state (?w 0 WEnd None False) (?w 1 WEnd None False))"
    by (rule m [OF _ pool_step.no_channel [of _ 1]]) (simp_all add: demo_worker_def)
  from r2 have r1: "pool_reach others (demo_state (?w 0 WSetUp None False) (?w 1 WConsume None False))"
    by (rule m [OF _ pool_step.set_up [of _ 1 None]]) (simp_all add: demo_worker_def)
  then show "pool_reach others (demo_state (?w 0 WClose None False) (?w 1 WConsume None False))"
    by (rule m [OF _ pool_step.set_up_fails [of _ 0]]) (simp_all add: demo_worker_def)
  from r1 have "pool_reach others (demo_state (?w 0 WConsume None False) (?w 1 WConsume None False))"
    by (rule m [OF _ pool_step.set_up [of _ 0 None]]) (simp_all add: demo_worker_def)
  then have "pool_reach others (demo_state (?w 0 WConsume (Some ErrorNote) False) (?w 1 WConsume None False))"
    by (rule m [OF _ pool_step.channel_error [of _ 0]]) (simp_all add: demo_worker_def)
  then show "pool_reach others (demo_state (?w 0 WReport (Some ErrorNote) True) (?w 1 WConsume None False))"
    by (rule m [OF _ pool_step.notified [of _ 0]]) (simp_all add: demo_worker_def)
qed

text \<open>
  With another consuming pool: it has set \<open>status\<close> and has not connected again yet, when this pool's worker fails.
  The worker ends without a report, and this pool stays without it.
\<close>

lemma other_pool_takes_report:
  "\<exists>s. pool_reach True s \<and> all_over s \<and> (\<exists>w\<in>set (cp_workers s). wk_failed w \<and> wk_gen w = cp_gen s)"
proof -
  let ?f = "demo_worker 0 WReport (Some ErrorNote) True" and ?g = "demo_worker 0 WClose (Some ErrorNote) True"
  let ?w = "demo_worker 1 WConsume None False"
  let ?t = "\<lambda>v w. (demo_state v w)\<lparr>cp_status := True\<rparr>"
  have "pool_reach True (?t ?f ?w)"
    by (rule pool_reach.move [OF demo_failure(1) pool_step.other_pool]) (simp_all add: demo_state_def)
  moreover have "pool_step True (?t ?f ?w) (?t ?g ?w)"
    using pool_step.report_again [of "?t ?f ?w" 0 True] by (simp add: at_pc_def put_def demo_state_def demo_worker_def)
  ultimately have 1: "pool_reach True (?t ?g ?w)" by (rule pool_reach.move)
  have "pool_step True (?t ?g ?w) (?t ?g (demo_worker 1 WConsume (Some ErrorNote) False))"
    using pool_step.channel_error [of "?t ?g ?w" 1 True] by (simp add: at_pc_def put_def demo_state_def demo_worker_def)
  then have 2: "pool_reach True (?t ?g (demo_worker 1 WConsume (Some ErrorNote) False))" by (rule pool_reach.move [OF 1])
  have "pool_step True (?t ?g (demo_worker 1 WConsume (Some ErrorNote) False)) (?t ?g (demo_worker 1 WReport (Some ErrorNote) True))"
    using pool_step.notified [of "?t ?g (demo_worker 1 WConsume (Some ErrorNote) False)" 1 True]
    by (simp add: at_pc_def put_def demo_state_def demo_worker_def)
  then have 3: "pool_reach True (?t ?g (demo_worker 1 WReport (Some ErrorNote) True))" by (rule pool_reach.move [OF 2])
  have "pool_step True (?t ?g (demo_worker 1 WReport (Some ErrorNote) True)) (?t ?g (demo_worker 1 WClose (Some ErrorNote) True))"
    using pool_step.report_again [of "?t ?g (demo_worker 1 WReport (Some ErrorNote) True)" 1 True]
    by (simp add: at_pc_def put_def demo_state_def demo_worker_def)
  then have 4: "pool_reach True (?t ?g (demo_worker 1 WClose (Some ErrorNote) True))" by (rule pool_reach.move [OF 3])
  show ?thesis
    using 4 by (intro exI [of _ "?t ?g (demo_worker 1 WClose (Some ErrorNote) True)"]) (simp add: all_over_def demo_state_def demo_worker_def)
qed

section \<open>Properties\<close>

text \<open>C33: A worker hands each message to its receiver once, in order, and with automatic acknowledgement it
  acknowledges the message before that; otherwise the only acknowledgements are those the receiver asks
  for. After its channel has been closed it hands over empty messages, which it never acknowledges, until it
  is told so. It ends by reporting the first error, or by a panic when there is none.\<close>

theorem worker_exact:
  assumes "rv_success rv" "\<forall>(real, d)\<in>set (arrivals evs). retry_nums (ad_headers d) \<noteq> None \<and> delay_ok (ad_rnd d) p"
  shows "filter visible (fst (consume_events p rv evs)) = concat (map (\<lambda>(real, d).
       (if IsAutoAck (rv_receive rv) \<and> real then [AckAll] else []) @ Success (ad_body d) (ad_headers d) #
       replicate (if \<not> IsAutoAck (rv_receive rv) \<and> real then count_list (ad_calls d) ClientAck else 0) AckAll)
     (arrivals evs)) \<and>
    snd (consume_events p rv evs) = task_outcome evs"
  using consume_events_seen [OF assms(1), of evs p] assms(2) by (simp add: seen_def [abs_def] well_typed_def)

theorem worker_exact_witness:
  "let d = \<lparr>ad_body = [7], ad_headers = [], ad_calls = [], ad_ok = False, ad_rnd = \<lambda>n. 0, ad_published = True\<rparr>;
     fx = consume_events NewConsumePool \<lparr>rv_receive = demo_receive, rv_success = True, rv_fail = True\<rparr> [Message d, NoMore d, Notified None] in
   filter visible (fst fx) = [AckAll, Success [7] [], Success [] []] \<and> snd fx = Panicked"
proof -
  let ?d = "\<lparr>ad_body = [7], ad_headers = [], ad_calls = [], ad_ok = False, ad_rnd = \<lambda>n. 0, ad_published = True\<rparr>"
  let ?rv = "\<lparr>rv_receive = demo_receive, rv_success = True, rv_fail = True\<rparr>"
  let ?evs = "[Message ?d, NoMore ?d, Notified None]"
  have "delay_ok (\<lambda>n. 0) NewConsumePool" by (simp add: delay_ok_def NewConsumePool_def newRabbitPool_def)
  then show ?thesis using worker_exact [of ?rv ?evs NewConsumePool]
    by (simp add: zero_delivery_def demo_receive_def retry_nums_def)
qed

text \<open>However the workers of a consuming pool interleave, every error the pool receives leads to exactly
  one reconnection, which starts one set of workers; one worker at most holds the lock of
  \<open>setConnectError\<close>; and a worker of the current set that has reported its error, or has not because another
  one did, ends only while a reconnection is under way.\<close>

theorem consumers_reconnect:
  assumes "pool_reach False s"
  shows "cp_received s = cp_gen s + (if cp_disp s = DSelect then 0 else 1) \<and>
    length (cp_workers s) = (cp_gen s + 1) * (cp_receivers s * nat (consumeMaxChannel (cp_pool s))) \<and>
    length (filter (\<lambda>w. wk_pc w = WSend \<or> wk_pc w = WMark) (cp_workers s)) = (if cp_locked s then 1 else 0) \<and>
    (\<forall>w\<in>set (cp_workers s). wk_failed w \<and> wk_gen w = cp_gen s \<and> wk_pc w \<in> {WMark, WClose, WEnd} \<longrightarrow>
       cp_disp s \<noteq> DSelect)"
proof -
  have "lock_inv s" "disp_inv s" "\<forall>w\<in>set (cp_workers s). worker_inv s w"
    and n: "length (cp_workers s) = (cp_gen s + 1) * (cp_receivers s * nat (consumeMaxChannel (cp_pool s)))"
    using pool_reach_inv [OF assms] unfolding pool_inv_def by blast+
  moreover have "cp_disp s \<noteq> DSelect"
    if "wk_failed w" "wk_gen w = cp_gen s" "wk_pc w \<in> {WMark, WClose, WEnd}" "worker_inv s w" for w
    using that unfolding worker_inv_def by auto
  ultimately show ?thesis by (intro conjI n) (auto simp: lock_inv_def disp_inv_def reporters_def reporting_def)
qed

theorem consumers_reconnect_witness:
  "\<exists>s w. pool_reach False s \<and> cp_received s = 0 \<and> length (cp_workers s) = 2 \<and> w \<in> set (cp_workers s) \<and> wk_failed w"
proof -
  let ?s = "demo_state (demo_worker 0 WReport (Some ErrorNote) True) (demo_worker 1 WConsume None False)"
  have "cp_received ?s = 0" "length (cp_workers ?s) = 2"
    using consumers_reconnect [OF demo_failure(1)] by (simp_all add: demo_state_def)
  then show ?thesis using demo_failure(1)
    by (intro exI [of _ ?s] exI [of _ "demo_worker 0 WReport (Some ErrorNote) True"]) (simp add: demo_worker_def)
qed

text \<open>C19: A failure while consuming is not lost, as long as no other pool of the program consumes: from every
  state in which a worker of the current set has got an error from the broker, or any worker is in
  \<open>setConnectError\<close>, the pool can connect again, with all of its connections, whatever the other workers do.
  A failure of the set-up is lost: once every worker has ended or has only its deferred calls left, and the dispatcher
  waits, nothing connects again whatever happens.\<close>

theorem failure_recovers:
  assumes "pool_reach False s" and "\<not> cp_panic s"
  shows "(\<forall>w\<in>set (cp_workers s). wk_pc w \<in> {WReport, WSend, WMark} \<or> wk_failed w \<and> wk_gen w = cp_gen s \<longrightarrow>
      (\<exists>s'. (pool_step False)\<^sup>*\<^sup>* s s' \<and> cp_gen s' = cp_gen s + 1 \<and> cp_disp s' = DSelect \<and>
        length (pool_conns (cp_pool s')) = nat (maxConnection (cp_pool s)))) \<and>
    (cp_disp s = DSelect \<and> (\<forall>w\<in>set (cp_workers s). wk_pc w \<in> {WClose, WEnd}) \<longrightarrow>
      (\<forall>s'. (pool_step False)\<^sup>*\<^sup>* s s' \<longrightarrow> cp_gen s' = cp_gen s \<and> (\<forall>w\<in>set (cp_workers s'). wk_pc w \<in> {WClose, WEnd})))"
proof (intro conjI ballI impI allI)
  fix w assume w: "w \<in> set (cp_workers s)" "wk_pc w \<in> {WReport, WSend, WMark} \<or> wk_failed w \<and> wk_gen w = cp_gen s"
  then have "failure s w" by (simp add: failure_def)
  then show "\<exists>s'. (pool_step False)\<^sup>*\<^sup>* s s' \<and> cp_gen s' = cp_gen s + 1 \<and> cp_disp s' = DSelect \<and>
      length (pool_conns (cp_pool s')) = nat (maxConnection (cp_pool s))"
    using reconnect_from_failure [OF pool_reach_inv [OF assms(1)] assms(2) w(1) _ reach_init [OF assms(1)]]
    by (auto simp: reconnected_def)
next
  fix s' assume "cp_disp s = DSelect \<and> (\<forall>w\<in>set (cp_workers s). wk_pc w \<in> {WClose, WEnd})" and st: "(pool_step False)\<^sup>*\<^sup>* s s'"
  then have o: "all_over s" by (simp add: all_over_def)
  show "cp_gen s' = cp_gen s" using all_over_stays [OF st o] by blast
  show "wk_pc w \<in> {WClose, WEnd}" if "w \<in> set (cp_workers s')" for w
    using all_over_stays [OF st o] that unfolding all_over_def by blast
qed

theorem failure_recovers_witness:
  "(\<exists>s s'. pool_reach False s \<and> cp_gen s = 0 \<and> (pool_step False)\<^sup>*\<^sup>* s s' \<and> cp_gen s' = 1) \<and>
    (\<exists>s. pool_reach False s \<and> length (cp_workers s) = 2 \<and> (\<forall>s'. (pool_step False)\<^sup>*\<^sup>* s s' \<longrightarrow> cp_gen s' = 0))"
proof
  let ?s = "demo_state (demo_worker 0 WReport (Some ErrorNote) True) (demo_worker 1 WConsume None False)"
  have p: "\<not> cp_panic ?s" "demo_worker 0 WReport (Some ErrorNote) True \<in> set (cp_workers ?s)"
    "wk_pc (demo_worker 0 WReport (Some ErrorNote) True) = WReport"
    by (simp_all add: demo_state_def demo_worker_def)
  have "\<exists>s'. (pool_step False)\<^sup>*\<^sup>* ?s s' \<and> cp_gen s' = cp_gen ?s + 1"
    using failure_recovers [OF demo_failure(1) p(1), THEN conjunct1, THEN bspec, OF p(2)] p(3) by blast
  then obtain s' where "(pool_step False)\<^sup>*\<^sup>* ?s s'" "cp_gen s' = cp_gen ?s + 1" by blast
  then show "\<exists>s s'. pool_reach False s \<and> cp_gen s = 0 \<and> (pool_step False)\<^sup>*\<^sup>* s s' \<and> cp_gen s' = 1"
    using demo_failure(1) by (intro exI [of _ ?s] exI [of _ s']) (simp add: demo_state_def)
  let ?t = "demo_state (demo_worker 0 WEnd None False) (demo_worker 1 WEnd None False)"
  have t: "cp_gen ?t = 0" "\<not> cp_panic ?t" "length (cp_workers ?t) = 2"
    "cp_disp ?t = DSelect \<and> (\<forall>w\<in>set (cp_workers ?t). wk_pc w \<in> {WClose, WEnd})"
    by (simp_all add: demo_state_def demo_worker_def)
  have "cp_gen s' = 0" if "(pool_step False)\<^sup>*\<^sup>* ?t s'" for s'
    using failure_recovers [OF demo_failure(3) t(2), THEN conjunct2, THEN mp, OF t(4), THEN spec, THEN mp, OF that] t(1) by simp
  then show "\<exists>s. pool_reach False s \<and> length (cp_workers s) = 2 \<and> (\<forall>s'. (pool_step False)\<^sup>*\<^sup>* s s' \<longrightarrow> cp_gen s' = 0)"
    using demo_failure(3) t(3) by blast
qed

text \<open>C25: The connections are shared, and a worker that ends closes its own. Another worker that is
  consuming on this connection is then told of a graceful close, with \<open>nil\<close>: it never gets a message
  again, and the only way it can go on is to read the fields of that \<open>nil\<close>, which ends the process.\<close>

theorem shared_connection_panics:
  assumes "pool_reach others s" and "at_pc s i WClose" and "j < length (cp_workers s)"
    and "wk_pc (cp_workers s ! j) = WConsume" and "wk_note (cp_workers s ! j) \<noteq> Some ErrorNote"
    and "wk_conn (cp_workers s ! j) = wk_conn (cp_workers s ! i)"
  shows "\<exists>s1. pool_step others s s1 \<and> wk_pc (cp_workers s1 ! i) = WEnd \<and> (\<forall>s2. (pool_step others)\<^sup>*\<^sup>* s1 s2 \<longrightarrow>
    wk_pc (cp_workers s2 ! j) = WConsume \<and> wk_note (cp_workers s2 ! j) = Some NilNote \<and>
    (cp_panic s2 \<or> pool_step others s2 (s2\<lparr>cp_panic := True\<rparr>)))"
proof (intro exI conjI allI impI)
  let ?s1 = "shut_conn (wk_conn (cp_workers s ! i)) NilNote (put i (\<lambda>w. w\<lparr>wk_pc := WEnd\<rparr>) s)"
  show "pool_step others s ?s1" by (rule pool_step.close [OF assms(2)])
  show "wk_pc (cp_workers ?s1 ! i) = WEnd" using assms(2) by (simp add: shut_conn_def put_def at_pc_def)
  have ij: "i \<noteq> j" using assms(2,4) by (auto simp: at_pc_def)
  have "wk_note (cp_workers s ! j) = None \<or> wk_note (cp_workers s ! j) = Some NilNote"
    using assms(5) notification.exhaust by (cases "wk_note (cp_workers s ! j)") auto
  then have "stuck j ?s1" using assms ij by (auto simp: stuck_def shut_conn_def put_def notify_def)
  then have st: "stuck j s2" if "(pool_step others)\<^sup>*\<^sup>* ?s1 s2" for s2 using stuck_stays [OF that] by blast
  show "wk_pc (cp_workers s2 ! j) = WConsume" "wk_note (cp_workers s2 ! j) = Some NilNote"
    "cp_panic s2 \<or> pool_step others s2 (s2\<lparr>cp_panic := True\<rparr>)" if "(pool_step others)\<^sup>*\<^sup>* ?s1 s2" for s2
    using st [OF that] pool_step.notified_nil [of s2 j] by (auto simp: stuck_def at_pc_def)
qed

theorem shared_connection_panics_witness:
  "\<exists>s s1. pool_reach False s \<and> pool_step False s s1 \<and> pool_step False s1 (s1\<lparr>cp_panic := True\<rparr>) \<and> \<not> cp_panic s1"
proof -
  let ?s = "demo_state (demo_worker 0 WClose None False) (demo_worker 1 WConsume None False)"
  have "\<exists>s1. pool_step False ?s s1 \<and> wk_pc (cp_workers s1 ! 0) = WEnd \<and> (\<forall>s2. (pool_step False)\<^sup>*\<^sup>* s1 s2 \<longrightarrow>
      wk_pc (cp_workers s2 ! 1) = WConsume \<and> wk_note (cp_workers s2 ! 1) = Some NilNote \<and>
      (cp_panic s2 \<or> pool_step False s2 (s2\<lparr>cp_panic := True\<rparr>)))"
    by (rule shared_connection_panics [OF demo_failure(2)]) (simp_all add: demo_worker_def)
  then obtain s1 where s1: "pool_step False ?s s1" "wk_pc (cp_workers s1 ! 0) = WEnd"
    "cp_panic s1 \<or> pool_step False s1 (s1\<lparr>cp_panic := True\<rparr>)" by blast
  have "\<not> cp_panic s1" if "pool_step False ?s s1" "wk_pc (cp_workers s1 ! 0) = WEnd"
    using that by (cases rule: pool_step.cases) (auto simp: put_def shut_conn_def demo_state_def demo_worker_def)
  then show ?thesis using s1 demo_failure(2) by blast
qed

end
