(* ===== verification/TaskManager.thy ===== *)
theory TaskManager
  imports Prelude
begin

text \<open>
  The goroutines of the server: \<open>AddTask\<close> and \<open>Stop\<close> of \<^verbatim>\<open>utils/taskConsumerManager/manager.go\<close>, which
  keep a number of calls of a task running until the server stops, and \<open>tcpListenerAccept\<close> of
  \<^verbatim>\<open>server/tcp_server.go\<close>, with one goroutine and one handler for each connection. Both are step
  relations: the goroutines move in any order, one synchronised step at a time.
\<close>

section \<open>Lists of goroutines\<close>

definition weight :: "('a \<Rightarrow> nat) \<Rightarrow> 'a list \<Rightarrow> nat" where
  "weight f xs = sum_list (map f xs)"

lemma weight_simps [simp]:
  "weight f [] = 0" "weight f (x # xs) = f x + weight f xs" "weight f (xs @ ys) = weight f xs + weight f ys"
  by (simp_all add: weight_def)

lemma weight_update: "i < length xs \<Longrightarrow> weight f (xs[i := y]) + f (xs ! i) = weight f xs + f y"
proof (induction xs arbitrary: i)
  case (Cons x xs)
  then show ?case by (cases i) auto
qed simp

lemma weight_member: "x \<in> set xs \<Longrightarrow> f x \<le> weight f xs"
  by (induction xs) auto

lemma weight_drop: "i < length xs \<Longrightarrow> weight f (take i xs @ drop (Suc i) xs) + f (xs ! i) = weight f xs"
proof (induction xs arbitrary: i)
  case (Cons x xs)
  then show ?case by (cases i) (auto simp: add.assoc [symmetric])
qed simp

lemma weight_zero: "weight f xs = 0 \<longleftrightarrow> (\<forall>x\<in>set xs. f x = 0)"
  by (induction xs) auto

section \<open>The task manager\<close>

text \<open>
  A call of the task is running, has returned and called \<open>wg.Done\<close> but still holds its token, or is
  over. The loop of \<open>AddTask\<close> is at its \<open>select\<close>, has put a token into \<open>tChan\<close>, has seen that the
  context is not done, waits in the deferred \<open>wg.Wait\<close>, or is over.
\<close>

datatype call_pc = Running | Leaving | Gone

datatype loop_pc = Selecting | Acquired | Passed | Draining | Over

record task_loop =
  tl_count :: nat
  tl_tokens :: nat
  tl_pc :: loop_pc
  tl_calls :: "call_pc list"

text \<open>
  \<open>Stop\<close> has not been called, has cancelled the context and waits, or has returned; the calls of
  \<open>AddTask\<close> that have seen the context open and have not yet done \<open>wg.Add\<close>; and the loops.
\<close>

datatype stop_pc = Open | Cancelled | Stopped

record task_manager =
  tm_stop :: stop_pc
  tm_adding :: "nat list"
  tm_loops :: "task_loop list"

definition NewTaskManager :: task_manager where
  "NewTaskManager = \<lparr>tm_stop = Open, tm_adding = [], tm_loops = []\<rparr>"

definition ctx_done :: "task_manager \<Rightarrow> bool" where
  "ctx_done m \<longleftrightarrow> tm_stop m \<noteq> Open"

definition AddTask_loop :: "nat \<Rightarrow> task_loop" where
  "AddTask_loop n = \<lparr>tl_count = n, tl_tokens = 0, tl_pc = Selecting, tl_calls = []\<rparr>"

text \<open>One step of a loop or of a call it started; \<open>d\<close> says whether the context is done.\<close>

inductive loop_step :: "bool \<Rightarrow> task_loop \<Rightarrow> task_loop \<Rightarrow> bool" where
  quit: "tl_pc l = Selecting \<Longrightarrow> d \<Longrightarrow> loop_step d l (l\<lparr>tl_pc := Draining\<rparr>)"
| acquire: "tl_pc l = Selecting \<Longrightarrow> tl_tokens l < tl_count l \<Longrightarrow>
     loop_step d l (l\<lparr>tl_pc := Acquired, tl_tokens := tl_tokens l + 1\<rparr>)"
| recheck: "tl_pc l = Acquired \<Longrightarrow> loop_step d l (l\<lparr>tl_pc := (if d then Draining else Passed)\<rparr>)"
| spawn: "tl_pc l = Passed \<Longrightarrow> loop_step d l (l\<lparr>tl_pc := Selecting, tl_calls := tl_calls l @ [Running]\<rparr>)"
| drained: "tl_pc l = Draining \<Longrightarrow> Running \<notin> set (tl_calls l) \<Longrightarrow> loop_step d l (l\<lparr>tl_pc := Over\<rparr>)"
| finish: "i < length (tl_calls l) \<Longrightarrow> tl_calls l ! i = Running \<Longrightarrow>
     loop_step d l (l\<lparr>tl_calls := (tl_calls l)[i := Leaving]\<rparr>)"
| release: "i < length (tl_calls l) \<Longrightarrow> tl_calls l ! i = Leaving \<Longrightarrow> 0 < tl_tokens l \<or> tl_pc l = Over \<Longrightarrow>
     loop_step d l (l\<lparr>tl_calls := (tl_calls l)[i := Gone], tl_tokens := tl_tokens l - 1\<rparr>)"

inductive task_step :: "task_manager \<Rightarrow> task_manager \<Rightarrow> bool" where
  check: "\<not> ctx_done m \<Longrightarrow> task_step m (m\<lparr>tm_adding := tm_adding m @ [n]\<rparr>)"
| add: "i < length (tm_adding m) \<Longrightarrow>
     task_step m (m\<lparr>tm_adding := take i (tm_adding m) @ drop (Suc i) (tm_adding m),
       tm_loops := tm_loops m @ [AddTask_loop (tm_adding m ! i)]\<rparr>)"
| loop: "i < length (tm_loops m) \<Longrightarrow> loop_step (ctx_done m) (tm_loops m ! i) l \<Longrightarrow>
     task_step m (m\<lparr>tm_loops := (tm_loops m)[i := l]\<rparr>)"
| cancel: "tm_stop m = Open \<Longrightarrow> task_step m (m\<lparr>tm_stop := Cancelled\<rparr>)"
| stopped: "tm_stop m = Cancelled \<Longrightarrow> \<forall>l\<in>set (tm_loops m). tl_pc l = Over \<Longrightarrow>
     task_step m (m\<lparr>tm_stop := Stopped\<rparr>)"

inductive task_reach :: "task_manager \<Rightarrow> bool" where
  new: "task_reach NewTaskManager"
| move: "task_reach m \<Longrightarrow> task_step m m' \<Longrightarrow> task_reach m'"

subsection \<open>The invariant\<close>

definition holds_token :: "call_pc \<Rightarrow> nat" where
  "holds_token c = (if c = Gone then 0 else 1)"

definition loop_inv :: "task_loop \<Rightarrow> bool" where
  "loop_inv l \<longleftrightarrow> weight holds_token (tl_calls l) + (if tl_pc l \<in> {Acquired, Passed} then 1 else 0) \<le> tl_tokens l \<and>
     tl_tokens l \<le> tl_count l \<and> (tl_pc l = Over \<longrightarrow> Running \<notin> set (tl_calls l))"

lemma loop_inv_new: "loop_inv (AddTask_loop n)"
  by (simp add: loop_inv_def AddTask_loop_def)

lemma holds_update:
  assumes "i < length cs"
  shows "weight holds_token (cs[i := c]) + holds_token (cs ! i) = weight holds_token cs + holds_token c"
  by (rule weight_update [OF assms])

lemma set_update_Running: "Running \<notin> set cs \<Longrightarrow> c \<noteq> Running \<Longrightarrow> Running \<notin> set (cs[i := c])"
  using set_update_subset_insert [of cs i c] by auto

lemma loop_step_inv: "loop_step d l l' \<Longrightarrow> loop_inv l \<Longrightarrow> loop_inv l'"
proof (induction rule: loop_step.induct)
  case (finish i l d)
  then show ?case using holds_update [of i "tl_calls l" Leaving] set_update_Running [of "tl_calls l" Leaving i]
    by (auto simp: loop_inv_def holds_token_def)
next
  case (release i l d)
  then show ?case using holds_update [of i "tl_calls l" Gone] set_update_Running [of "tl_calls l" Gone i]
    by (auto simp: loop_inv_def holds_token_def)
qed (auto simp: loop_inv_def holds_token_def)

text \<open>After \<open>Stop\<close> has returned no loop starts a task again.\<close>

definition quiet :: "task_loop \<Rightarrow> bool" where
  "quiet l \<longleftrightarrow> tl_pc l \<noteq> Passed \<and> Running \<notin> set (tl_calls l)"

lemma quiet_new: "quiet (AddTask_loop n)"
  by (simp add: quiet_def AddTask_loop_def)

lemma loop_step_quiet: "loop_step True l l' \<Longrightarrow> quiet l \<Longrightarrow> quiet l'"
proof (induction True l l' rule: loop_step.induct)
  case (release i l)
  then show ?case using set_update_Running [of "tl_calls l" Gone i] by (auto simp: quiet_def)
next
  case (finish i l)
  then show ?case using set_update_Running [of "tl_calls l" Leaving i] by (auto simp: quiet_def)
qed (auto simp: quiet_def)

definition task_inv :: "task_manager \<Rightarrow> bool" where
  "task_inv m \<longleftrightarrow> (\<forall>l\<in>set (tm_loops m). loop_inv l) \<and> (tm_stop m = Stopped \<longrightarrow> (\<forall>l\<in>set (tm_loops m). quiet l))"

lemma task_step_inv:
  assumes "task_step m m'" "task_inv m"
  shows "task_inv m'"
  using assms
proof (induction rule: task_step.induct)
  case (loop i m l)
  let ?ls = "(tm_loops m)[i := l]"
  have sub: "set ?ls \<subseteq> insert l (set (tm_loops m))" by (rule set_update_subset_insert)
  have i: "tm_loops m ! i \<in> set (tm_loops m)" using loop(1) by simp
  have "loop_inv l" using loop_step_inv [OF loop(2)] loop(3) i by (simp add: task_inv_def)
  moreover have "quiet l" if "tm_stop m = Stopped"
    using loop_step_quiet [of "tm_loops m ! i" l] loop(2,3) i that by (simp add: task_inv_def ctx_done_def)
  ultimately show ?case using loop(3) sub by (auto simp: task_inv_def)
next
  case (stopped m)
  then show ?case by (auto simp: task_inv_def loop_inv_def quiet_def)
qed (auto simp: task_inv_def loop_inv_new quiet_new)

lemma task_reach_inv: "task_reach m \<Longrightarrow> task_inv m"
proof (induction rule: task_reach.induct)
  case new
  show ?case by (simp add: task_inv_def NewTaskManager_def)
qed (rule task_step_inv)

subsection \<open>Stopping\<close>

text \<open>What a goroutine can still do once the context is done.\<close>

definition call_rest :: "call_pc \<Rightarrow> nat" where
  "call_rest c = (case c of Running \<Rightarrow> 2 | Leaving \<Rightarrow> 1 | Gone \<Rightarrow> 0)"

definition pc_rest :: "loop_pc \<Rightarrow> nat" where
  "pc_rest p = (case p of Passed \<Rightarrow> 6 | Selecting \<Rightarrow> 3 | Acquired \<Rightarrow> 2 | Draining \<Rightarrow> 1 | Over \<Rightarrow> 0)"

definition loop_rest :: "task_loop \<Rightarrow> nat" where
  "loop_rest l = pc_rest (tl_pc l) + weight call_rest (tl_calls l)"

definition task_rest :: "task_manager \<Rightarrow> nat" where
  "task_rest m = (if tm_stop m = Stopped then 0 else 1) + 4 * length (tm_adding m) + weight loop_rest (tm_loops m)"

lemmas rest_defs = call_rest_def pc_rest_def loop_rest_def task_rest_def

lemma loop_step_rest: "loop_step True l l' \<Longrightarrow> loop_rest l' < loop_rest l"
proof (induction True l l' rule: loop_step.induct)
  case (finish i l)
  then show ?case using weight_update [of i "tl_calls l" call_rest Leaving] by (simp add: rest_defs)
next
  case (release i l)
  then show ?case using weight_update [of i "tl_calls l" call_rest Gone] by (simp add: rest_defs)
qed (simp_all add: rest_defs)

lemma task_step_rest:
  assumes "task_step m m'" "ctx_done m"
  shows "task_rest m' < task_rest m \<and> ctx_done m'"
  using assms
proof (induction rule: task_step.induct)
  case (loop i m l)
  then have "loop_rest l < loop_rest (tm_loops m ! i)" using loop_step_rest by simp
  then show ?case using weight_update [OF loop(1), of loop_rest l] loop(3) by (simp add: task_rest_def ctx_done_def)
next
  case (add i m)
  then show ?case by (auto simp: task_rest_def ctx_done_def AddTask_loop_def loop_rest_def pc_rest_def)
qed (auto simp: task_rest_def ctx_done_def)

text \<open>A loop that is not over can move once the context is done, at the latest when its calls return.\<close>

lemma loop_progress:
  assumes "tl_pc l \<noteq> Over"
  shows "\<exists>l'. loop_step True l l'"
proof (cases "tl_pc l = Draining")
  case True
  show ?thesis
  proof (cases "Running \<in> set (tl_calls l)")
    case True
    then obtain i where "i < length (tl_calls l)" "tl_calls l ! i = Running" by (auto simp: in_set_conv_nth)
    then show ?thesis using loop_step.finish by blast
  next
    case False
    then show ?thesis using True loop_step.drained by blast
  qed
next
  case False
  then consider "tl_pc l = Selecting" | "tl_pc l = Acquired" | "tl_pc l = Passed" using assms by (cases "tl_pc l") auto
  then show ?thesis
  proof cases
    case 1
    then show ?thesis using loop_step.quit [of l True] by blast
  next
    case 2
    then show ?thesis using loop_step.recheck [of l True] by blast
  next
    case 3
    then show ?thesis using loop_step.spawn [of l True] by blast
  qed
qed

lemma task_progress:
  assumes "tm_stop m = Cancelled"
  shows "\<exists>m'. task_step m m'"
proof (cases "\<forall>l\<in>set (tm_loops m). tl_pc l = Over")
  case True
  then show ?thesis using task_step.stopped assms by blast
next
  case False
  then obtain i where i: "i < length (tm_loops m)" "tl_pc (tm_loops m ! i) \<noteq> Over" by (auto simp: in_set_conv_nth)
  then obtain l where "loop_step (ctx_done m) (tm_loops m ! i) l"
    using loop_progress assms by (auto simp: ctx_done_def)
  then show ?thesis using task_step.loop [OF i(1)] by blast
qed

lemma stop_reached:
  "ctx_done m \<Longrightarrow> \<exists>m'. task_step\<^sup>*\<^sup>* m m' \<and> tm_stop m' = Stopped"
proof (induction "task_rest m" arbitrary: m rule: less_induct)
  case less
  show ?case
  proof (cases "tm_stop m")
    case Cancelled
    then obtain m1 where m1: "task_step m m1" using task_progress by blast
    obtain m2 where "task_step\<^sup>*\<^sup>* m1 m2" "tm_stop m2 = Stopped"
      using less task_step_rest [OF m1 less.prems] by blast
    then show ?thesis using m1 by (meson converse_rtranclp_into_rtranclp)
  qed (use less.prems in \<open>auto simp: ctx_done_def\<close>)
qed

lemma stop_steps:
  "(task_step ^^ n) m m' \<Longrightarrow> ctx_done m \<Longrightarrow> n + task_rest m' \<le> task_rest m \<and> ctx_done m'"
proof (induction n arbitrary: m')
  case (Suc n)
  then obtain m1 where "(task_step ^^ n) m m1" "task_step m1 m'" by auto
  then show ?case using Suc task_step_rest [of m1 m'] by fastforce
qed simp

lemma task_steps_reach: "task_step\<^sup>*\<^sup>* m m' \<Longrightarrow> task_reach m \<Longrightarrow> task_reach m'"
  by (induction rule: rtranclp_induct) (auto intro: task_reach.move)

lemma Stopped_stays: "task_step\<^sup>*\<^sup>* m m' \<Longrightarrow> tm_stop m = Stopped \<Longrightarrow> tm_stop m' = Stopped"
proof (induction rule: rtranclp_induct)
  case (step y z)
  from step(2) step(3) [OF step(4)] show ?case by (induction rule: task_step.induct) auto
qed simp

section \<open>Accepting connections\<close>

text \<open>
  The goroutine of a connection waits in its \<open>select\<close>, has closed the connection and waits for the
  handler, or is over. \<open>Stop\<close> makes \<open>isRun\<close> false, closes the listeners and cancels the context, in
  this order.
\<close>

datatype watch_pc = Watching | Closing | Watched

record accepted =
  ac_pc :: watch_pc
  ac_handled :: bool
  ac_closed :: bool

datatype accept_pc = AtLoop | InAccept | InWait | AcceptOver

datatype server_stage = Serving | NotRunning | ListenersClosed | ContextDone

text \<open>The stages are ordered by the statements of \<open>Stop\<close> that have been executed.\<close>

fun stage_rank :: "server_stage \<Rightarrow> nat" where
  "stage_rank Serving = 0"
| "stage_rank NotRunning = 1"
| "stage_rank ListenersClosed = 2"
| "stage_rank ContextDone = 3"

lemma stage_rank_inject: "stage_rank a = stage_rank b \<Longrightarrow> a = b"
  by (cases a; cases b) simp_all

instantiation server_stage :: linorder
begin

definition less_eq_server_stage :: "server_stage \<Rightarrow> server_stage \<Rightarrow> bool" where
  "less_eq_server_stage a b \<longleftrightarrow> stage_rank a \<le> stage_rank b"

definition less_server_stage :: "server_stage \<Rightarrow> server_stage \<Rightarrow> bool" where
  "less_server_stage a b \<longleftrightarrow> stage_rank a < stage_rank b"

instance
  by standard (auto simp: less_eq_server_stage_def less_server_stage_def intro: stage_rank_inject)

end

record accept_loop =
  al_stage :: server_stage
  al_pc :: accept_pc
  al_conns :: "accepted list"

definition tcpListenerAccept_start :: accept_loop where
  "tcpListenerAccept_start = \<lparr>al_stage = Serving, al_pc = AtLoop, al_conns = []\<rparr>"

inductive watch_step :: "bool \<Rightarrow> accepted \<Rightarrow> accepted \<Rightarrow> bool" where
  handled: "\<not> ac_handled c \<Longrightarrow> watch_step d c (c\<lparr>ac_handled := True\<rparr>)"
| woken: "ac_pc c = Watching \<Longrightarrow> d \<or> ac_handled c \<Longrightarrow> watch_step d c (c\<lparr>ac_pc := Closing, ac_closed := True\<rparr>)"
| left: "ac_pc c = Closing \<Longrightarrow> ac_handled c \<Longrightarrow> watch_step d c (c\<lparr>ac_pc := Watched\<rparr>)"

inductive accept_step :: "accept_loop \<Rightarrow> accept_loop \<Rightarrow> bool" where
  test: "al_pc a = AtLoop \<Longrightarrow> accept_step a (a\<lparr>al_pc := (if al_stage a = Serving then InAccept else InWait)\<rparr>)"
| accept: "al_pc a = InAccept \<Longrightarrow> al_stage a \<in> {Serving, NotRunning} \<Longrightarrow>
     accept_step a (a\<lparr>al_pc := AtLoop, al_conns := al_conns a @ [\<lparr>ac_pc = Watching, ac_handled = False, ac_closed = False\<rparr>]\<rparr>)"
| accept_error: "al_pc a = InAccept \<Longrightarrow> accept_step a (a\<lparr>al_pc := AtLoop\<rparr>)"
| watch: "i < length (al_conns a) \<Longrightarrow> watch_step (al_stage a = ContextDone) (al_conns a ! i) c \<Longrightarrow>
     accept_step a (a\<lparr>al_conns := (al_conns a)[i := c]\<rparr>)"
| waited: "al_pc a = InWait \<Longrightarrow> \<forall>c\<in>set (al_conns a). ac_pc c = Watched \<Longrightarrow> accept_step a (a\<lparr>al_pc := AcceptOver\<rparr>)"
| stop_run: "al_stage a = Serving \<Longrightarrow> accept_step a (a\<lparr>al_stage := NotRunning\<rparr>)"
| stop_listen: "al_stage a = NotRunning \<Longrightarrow> accept_step a (a\<lparr>al_stage := ListenersClosed\<rparr>)"
| stop_context: "al_stage a = ListenersClosed \<Longrightarrow> accept_step a (a\<lparr>al_stage := ContextDone\<rparr>)"

inductive accept_reach :: "accept_loop \<Rightarrow> bool" where
  start: "accept_reach tcpListenerAccept_start"
| move: "accept_reach a \<Longrightarrow> accept_step a a' \<Longrightarrow> accept_reach a'"

definition conn_inv :: "server_stage \<Rightarrow> accepted \<Rightarrow> bool" where
  "conn_inv st c \<longleftrightarrow> (ac_closed c \<longleftrightarrow> ac_pc c \<noteq> Watching) \<and> (ac_closed c \<and> \<not> ac_handled c \<longrightarrow> st = ContextDone) \<and>
     (ac_pc c = Watched \<longrightarrow> ac_handled c)"

definition accept_inv :: "accept_loop \<Rightarrow> bool" where
  "accept_inv a \<longleftrightarrow> (\<forall>c\<in>set (al_conns a). conn_inv (al_stage a) c) \<and>
     (al_pc a = AcceptOver \<longrightarrow> (\<forall>c\<in>set (al_conns a). ac_pc c = Watched))"

lemma watch_step_inv: "watch_step d c c' \<Longrightarrow> d = (st = ContextDone) \<Longrightarrow> conn_inv st c \<Longrightarrow> conn_inv st c'"
  by (induction rule: watch_step.induct) (auto simp: conn_inv_def)

lemma watch_step_Watched: "watch_step d c c' \<Longrightarrow> ac_pc c = Watched \<Longrightarrow> ac_pc c' = Watched"
  by (induction rule: watch_step.induct) auto

lemma accept_step_inv:
  assumes "accept_step a a'" "accept_inv a"
  shows "accept_inv a'"
  using assms
proof (induction rule: accept_step.induct)
  case (watch i a c)
  let ?cs = "(al_conns a)[i := c]"
  have sub: "set ?cs \<subseteq> insert c (set (al_conns a))" by (rule set_update_subset_insert)
  have i: "al_conns a ! i \<in> set (al_conns a)" using watch(1) by simp
  have "conn_inv (al_stage a) c" using watch_step_inv [OF watch(2) refl] watch(3) i by (simp add: accept_inv_def)
  moreover have "ac_pc c = Watched" if "al_pc a = AcceptOver"
    using watch_step_Watched [OF watch(2)] watch(3) i that by (simp add: accept_inv_def)
  ultimately show ?case using watch(3) sub by (auto simp: accept_inv_def)
next
  case (stop_run a)
  then show ?case by (fastforce simp: accept_inv_def conn_inv_def)
next
  case (stop_listen a)
  then show ?case by (fastforce simp: accept_inv_def conn_inv_def)
next
  case (stop_context a)
  then show ?case by (fastforce simp: accept_inv_def conn_inv_def)
qed (auto simp: accept_inv_def conn_inv_def)

lemma accept_reach_inv: "accept_reach a \<Longrightarrow> accept_inv a"
proof (induction rule: accept_reach.induct)
  case start
  show ?case by (simp add: accept_inv_def tcpListenerAccept_start_def)
qed (rule accept_step_inv)

definition watch_rest :: "accepted \<Rightarrow> nat" where
  "watch_rest c = (case ac_pc c of Watching \<Rightarrow> 2 | Closing \<Rightarrow> 1 | Watched \<Rightarrow> 0) + (if ac_handled c then 0 else 1)"

definition accept_rest :: "accept_loop \<Rightarrow> nat" where
  "accept_rest a = (case al_pc a of InAccept \<Rightarrow> 3 | AtLoop \<Rightarrow> 2 | InWait \<Rightarrow> 1 | AcceptOver \<Rightarrow> 0) + weight watch_rest (al_conns a)"

lemma watch_step_rest: "watch_step d c c' \<Longrightarrow> watch_rest c' < watch_rest c"
  by (induction rule: watch_step.induct) (auto simp: watch_rest_def)

lemma accept_step_rest:
  assumes "accept_step a a'" "al_stage a = ContextDone"
  shows "accept_rest a' < accept_rest a \<and> al_stage a' = ContextDone"
  using assms
proof (induction rule: accept_step.induct)
  case (watch i a c)
  then show ?case
    using weight_update [OF watch(1), of watch_rest c] watch_step_rest [OF watch(2)] by (simp add: accept_rest_def)
qed (simp_all add: accept_rest_def)

lemma watch_progress: "ac_pc c \<noteq> Watched \<Longrightarrow> \<exists>c'. watch_step True c c'"
  using watch_step.handled [of c True] watch_step.woken [of c True] watch_step.left [of c True]
  by (cases "ac_pc c"; cases "ac_handled c") auto

lemma accept_progress:
  assumes "al_stage a = ContextDone" "al_pc a \<noteq> AcceptOver"
  shows "\<exists>a'. accept_step a a'"
proof (cases "al_pc a")
  case AtLoop
  then show ?thesis using accept_step.test by blast
next
  case InAccept
  then show ?thesis using accept_step.accept_error by blast
next
  case InWait
  show ?thesis
  proof (cases "\<forall>c\<in>set (al_conns a). ac_pc c = Watched")
    case True
    then show ?thesis using InWait accept_step.waited by blast
  next
    case False
    then obtain i where i: "i < length (al_conns a)" "ac_pc (al_conns a ! i) \<noteq> Watched" by (auto simp: in_set_conv_nth)
    then obtain c where "watch_step (al_stage a = ContextDone) (al_conns a ! i) c"
      using watch_progress assms(1) by auto
    then show ?thesis using accept_step.watch [OF i(1)] by blast
  qed
qed (use assms in simp)

lemma accept_steps:
  "(accept_step ^^ n) a a' \<Longrightarrow> al_stage a = ContextDone \<Longrightarrow> n + accept_rest a' \<le> accept_rest a \<and> al_stage a' = ContextDone"
proof (induction n arbitrary: a')
  case (Suc n)
  then obtain a1 where "(accept_step ^^ n) a a1" "accept_step a1 a'" by auto
  then show ?case using Suc accept_step_rest [of a1 a'] by fastforce
qed simp

section \<open>A manager with one task\<close>

definition demo_loop :: task_loop where
  "demo_loop = \<lparr>tl_count = 1, tl_tokens = 1, tl_pc = Selecting, tl_calls = [Running]\<rparr>"

lemma demo_tasks:
  "task_reach \<lparr>tm_stop = Open, tm_adding = [], tm_loops = [demo_loop]\<rparr>"
  "task_reach \<lparr>tm_stop = Cancelled, tm_adding = [], tm_loops = [demo_loop]\<rparr>"
proof -
  let ?m = "\<lambda>l. \<lparr>tm_stop = Open, tm_adding = [], tm_loops = [l]\<rparr>"
  let ?a = "AddTask_loop 1"
  let ?b = "?a\<lparr>tl_pc := Acquired, tl_tokens := tl_tokens ?a + 1\<rparr>"
  let ?c = "?b\<lparr>tl_pc := Passed\<rparr>"
  have o: "\<not> ctx_done NewTaskManager" "\<And>l. \<not> ctx_done (?m l)" by (simp_all add: ctx_done_def NewTaskManager_def)
  have s: "loop_step False ?a ?b" "loop_step False ?b ?c" "loop_step False ?c (?c\<lparr>tl_pc := Selecting, tl_calls := tl_calls ?c @ [Running]\<rparr>)"
    using loop_step.acquire [of ?a False] loop_step.recheck [of ?b False] loop_step.spawn [of ?c False]
    by (simp_all add: AddTask_loop_def)
  have g: "task_reach (?m l')" if "task_reach (?m l)" "loop_step False l l'" for l l'
    using task_reach.move [OF that(1) task_step.loop [of 0 "?m l" l']] that(2) o(2) by (simp add: ctx_done_def)
  have "task_reach (?m ?a)"
    using task_reach.move [OF task_reach.move [OF task_reach.new task_step.check [OF o(1), of 1]] task_step.add [of 0]]
    by (simp add: NewTaskManager_def)
  from g [OF g [OF g [OF this s(1)] s(2)] s(3)] show r: "task_reach (?m demo_loop)"
    by (simp add: demo_loop_def AddTask_loop_def)
  show "task_reach \<lparr>tm_stop = Cancelled, tm_adding = [], tm_loops = [demo_loop]\<rparr>"
    using task_reach.move [OF r task_step.cancel] by simp
qed

section \<open>Properties\<close>

text \<open>No more calls of a task run at once than \<open>AddTask\<close> was told, in any interleaving.\<close>

theorem task_limit:
  assumes "task_reach m" and "l \<in> set (tm_loops m)"
  shows "length (filter (\<lambda>c. c = Running) (tl_calls l)) \<le> tl_count l"
proof -
  have "length (filter (\<lambda>c. c = Running) cs) \<le> weight holds_token cs" for cs
    by (induction cs) (auto simp: holds_token_def)
  from this [of "tl_calls l"] have "length (filter (\<lambda>c. c = Running) (tl_calls l)) \<le> weight holds_token (tl_calls l)" .
  moreover have "loop_inv l" using task_reach_inv [OF assms(1)] assms(2) by (simp add: task_inv_def)
  ultimately show ?thesis by (simp add: loop_inv_def)
qed

theorem task_limit_witness:
  "\<exists>m l. task_reach m \<and> tm_loops m = [l] \<and> tl_calls l = [Running] \<and> length (filter (\<lambda>c. c = Running) (tl_calls l)) \<le> 1"
proof -
  have "length (filter (\<lambda>c. c = Running) (tl_calls demo_loop)) \<le> tl_count demo_loop"
    by (rule task_limit [OF demo_tasks(1)]) simp
  then show ?thesis
    by (intro exI [of _ "\<lparr>tm_stop = Open, tm_adding = [], tm_loops = [demo_loop]\<rparr>"] exI [of _ demo_loop])
      (use demo_tasks(1) in \<open>simp add: demo_loop_def\<close>)
qed

text \<open>\<open>Stop\<close> ends: once it has cancelled the context every goroutine of the manager takes a bounded
  number of steps, one of them can always move until \<open>Stop\<close> has returned, and after that no task is
  running and none is ever started again, also by a call of \<open>AddTask\<close> that came too late.\<close>

theorem stop_ends:
  assumes "task_reach m" and "tm_stop m = Cancelled"
  shows "(\<forall>n m'. (task_step ^^ n) m m' \<longrightarrow> n \<le> task_rest m) \<and>
    (\<forall>m'. task_step\<^sup>*\<^sup>* m m' \<and> tm_stop m' \<noteq> Stopped \<longrightarrow> (\<exists>m''. task_step m' m'')) \<and>
    (\<forall>m'. task_step\<^sup>*\<^sup>* m m' \<and> tm_stop m' = Stopped \<longrightarrow> (\<forall>l\<in>set (tm_loops m'). Running \<notin> set (tl_calls l)))"
proof (intro conjI allI impI; (elim conjE)?)
  have d: "ctx_done m" using assms(2) by (simp add: ctx_done_def)
  show "n \<le> task_rest m" if "(task_step ^^ n) m m'" for n m' using stop_steps [OF that d] by simp
  show "\<exists>m''. task_step m' m''" if r: "task_step\<^sup>*\<^sup>* m m'" and o: "tm_stop m' \<noteq> Stopped" for m'
  proof -
    obtain n where n: "(task_step ^^ n) m m'" using rtranclp_imp_relpowp [OF r] by blast
    have "ctx_done m'" using stop_steps [OF n d] by simp
    then have "tm_stop m' = Cancelled" using o by (cases "tm_stop m'") (auto simp: ctx_done_def)
    then show ?thesis by (rule task_progress)
  qed
  show "\<forall>l\<in>set (tm_loops m'). Running \<notin> set (tl_calls l)" if "task_step\<^sup>*\<^sup>* m m'" "tm_stop m' = Stopped" for m'
    using task_reach_inv [OF task_steps_reach [OF that(1) assms(1)]] that(2) by (simp add: task_inv_def quiet_def)
qed

theorem stop_ends_witness:
  "\<exists>m. tm_loops m = [demo_loop] \<and> tm_stop m = Cancelled \<and> (\<forall>n m'. (task_step ^^ n) m m' \<longrightarrow> n \<le> 6)"
proof -
  let ?m = "\<lparr>tm_stop = Cancelled, tm_adding = [], tm_loops = [demo_loop]\<rparr>"
  have "task_rest ?m = 6" by (simp add: rest_defs demo_loop_def)
  then have "\<forall>n m'. (task_step ^^ n) ?m m' \<longrightarrow> n \<le> 6"
    using stop_ends [OF demo_tasks(2)] by simp
  then show ?thesis by (intro exI [of _ ?m]) simp
qed

text \<open>No connection is closed under its handler before the server stops. When the listener's goroutine
  returns, every connection it accepted is closed and every handler has returned; and once the context
  is done it takes a bounded number of steps and can always move until it has returned, at the
  latest when its handlers return.\<close>

theorem accept_ends:
  assumes "accept_reach a"
  shows "(\<forall>c\<in>set (al_conns a). ac_closed c \<and> \<not> ac_handled c \<longrightarrow> al_stage a = ContextDone) \<and>
    (al_pc a = AcceptOver \<longrightarrow> (\<forall>c\<in>set (al_conns a). ac_closed c \<and> ac_handled c)) \<and>
    (al_stage a = ContextDone \<longrightarrow> (al_pc a \<noteq> AcceptOver \<longrightarrow> (\<exists>a'. accept_step a a')) \<and>
       (\<forall>n a'. (accept_step ^^ n) a a' \<longrightarrow> n \<le> accept_rest a))"
proof (intro conjI impI ballI allI)
  note i = accept_reach_inv [OF assms, unfolded accept_inv_def conn_inv_def]
  show "al_stage a = ContextDone" if "c \<in> set (al_conns a)" "ac_closed c \<and> \<not> ac_handled c" for c
    using i that by blast
  show "ac_closed c" "ac_handled c" if "al_pc a = AcceptOver" "c \<in> set (al_conns a)" for c
    using i that by auto
  show "\<exists>a'. accept_step a a'" if "al_stage a = ContextDone" "al_pc a \<noteq> AcceptOver"
    using accept_progress that by blast
  show "n \<le> accept_rest a" if "al_stage a = ContextDone" "(accept_step ^^ n) a a'" for n a'
    using accept_steps [OF that(2,1)] by simp
qed


theorem accept_ends_witness:
  "\<exists>a. al_conns a = [\<lparr>ac_pc = Watching, ac_handled = False, ac_closed = False\<rparr>] \<and> al_stage a = ContextDone \<and>
     (\<exists>a'. accept_step a a') \<and> (\<forall>n a'. (accept_step ^^ n) a a' \<longrightarrow> n \<le> 5)"
proof -
  let ?c = "\<lparr>ac_pc = Watching, ac_handled = False, ac_closed = False\<rparr>"
  let ?a = "\<lambda>st. \<lparr>al_stage = st, al_pc = AtLoop, al_conns = [?c]\<rparr>"
  have "accept_reach (tcpListenerAccept_start\<lparr>al_pc := InAccept\<rparr>)"
    using accept_reach.move [OF accept_reach.start accept_step.test] by (simp add: tcpListenerAccept_start_def)
  from accept_reach.move [OF this accept_step.accept] have "accept_reach (?a Serving)"
    by (simp add: tcpListenerAccept_start_def)
  from accept_reach.move [OF this accept_step.stop_run] have "accept_reach (?a NotRunning)" by simp
  from accept_reach.move [OF this accept_step.stop_listen] have "accept_reach (?a ListenersClosed)" by simp
  from accept_reach.move [OF this accept_step.stop_context] have r: "accept_reach (?a ContextDone)" by simp
  have "accept_rest (?a ContextDone) = 5" by (simp add: accept_rest_def watch_rest_def)
  then show ?thesis using accept_ends [OF r] by (intro exI [of _ "?a ContextDone"]) simp
qed

end
