(* ===== verification/TaskRun.thy ===== *)
theory TaskRun
  imports TaskManager
begin

text \<open>
  The runners of \<^verbatim>\<open>utils/taskRunManager\<close>: \<open>AtomicTask\<close> (\<^verbatim>\<open>atomicTask.go\<close>), which bounds the running
  tasks with a counter and a condition variable, and \<open>ChanTask\<close> with the two functions that collect a
  number of results from a pool of tasks (\<^verbatim>\<open>chanTask.go\<close>).
\<close>

section \<open>AtomicTask\<close>

text \<open>
  The callers of \<open>Run\<close> and of \<open>Wait\<close>, and the tasks. The counter is an \<open>int32\<close> that stays between 0 and
  its limit. \<open>Block\<close> holds the lock from its test to its sleep, and \<open>Release\<close> takes it to wake the
  sleepers, so the test and the falling asleep are one step.
\<close>

datatype run_pc = RunLoad | RunCas int | RunBlock | RunAsleep | RunDone

datatype wait_pc = WaitBlock | WaitAsleep | WaitLoad | WaitDone

datatype task_pc = TaskRunning | TaskRelease | TaskOver

record atomic_task =
  at_max :: int
  at_count :: int
  at_runs :: "run_pc list"
  at_waits :: "wait_pc list"
  at_tasks :: "task_pc list"

definition NewAtomicTask :: "int \<Rightarrow> atomic_task" where
  "NewAtomicTask n = \<lparr>at_max = n, at_count = 0, at_runs = [], at_waits = [], at_tasks = []\<rparr>"

definition wake_run :: "run_pc \<Rightarrow> run_pc" where
  "wake_run p = (if p = RunAsleep then RunLoad else p)"

definition wake_wait :: "wait_pc \<Rightarrow> wait_pc" where
  "wake_wait p = (if p = WaitAsleep then WaitLoad else p)"

inductive atomic_step :: "atomic_task \<Rightarrow> atomic_task \<Rightarrow> bool" where
  call_run: "atomic_step a (a\<lparr>at_runs := at_runs a @ [RunLoad]\<rparr>)"
| call_wait: "atomic_step a (a\<lparr>at_waits := at_waits a @ [WaitBlock]\<rparr>)"
| load: "i < length (at_runs a) \<Longrightarrow> at_runs a ! i = RunLoad \<Longrightarrow>
     atomic_step a (a\<lparr>at_runs := (at_runs a)[i := (if at_count a < at_max a then RunCas (at_count a) else RunBlock)]\<rparr>)"
| swapped: "i < length (at_runs a) \<Longrightarrow> at_runs a ! i = RunCas k \<Longrightarrow> at_count a = k \<Longrightarrow>
     atomic_step a (a\<lparr>at_count := k + 1, at_runs := (at_runs a)[i := RunDone], at_tasks := at_tasks a @ [TaskRunning]\<rparr>)"
| not_swapped: "i < length (at_runs a) \<Longrightarrow> at_runs a ! i = RunCas k \<Longrightarrow> at_count a \<noteq> k \<Longrightarrow>
     atomic_step a (a\<lparr>at_runs := (at_runs a)[i := RunBlock]\<rparr>)"
| block: "i < length (at_runs a) \<Longrightarrow> at_runs a ! i = RunBlock \<Longrightarrow>
     atomic_step a (a\<lparr>at_runs := (at_runs a)[i := (if at_count a = at_max a then RunAsleep else RunLoad)]\<rparr>)"
| finish: "i < length (at_tasks a) \<Longrightarrow> at_tasks a ! i = TaskRunning \<Longrightarrow>
     atomic_step a (a\<lparr>at_count := at_count a - 1, at_tasks := (at_tasks a)[i := TaskRelease]\<rparr>)"
| broadcast: "i < length (at_tasks a) \<Longrightarrow> at_tasks a ! i = TaskRelease \<Longrightarrow>
     atomic_step a (a\<lparr>at_tasks := (at_tasks a)[i := TaskOver], at_runs := map wake_run (at_runs a),
       at_waits := map wake_wait (at_waits a)\<rparr>)"
| wait_block: "i < length (at_waits a) \<Longrightarrow> at_waits a ! i = WaitBlock \<Longrightarrow>
     atomic_step a (a\<lparr>at_waits := (at_waits a)[i := (if at_count a \<noteq> 0 then WaitAsleep else WaitLoad)]\<rparr>)"
| wait_load: "i < length (at_waits a) \<Longrightarrow> at_waits a ! i = WaitLoad \<Longrightarrow>
     atomic_step a (a\<lparr>at_waits := (at_waits a)[i := (if at_count a = 0 then WaitDone else WaitBlock)]\<rparr>)"

inductive atomic_reach :: "int \<Rightarrow> atomic_task \<Rightarrow> bool" for n where
  new: "atomic_reach n (NewAtomicTask n)"
| move: "atomic_reach n a \<Longrightarrow> atomic_step a a' \<Longrightarrow> atomic_reach n a'"

definition task_running :: "task_pc \<Rightarrow> nat" where
  "task_running p = (if p = TaskRunning then 1 else 0)"

text \<open>
  The counter is the number of running tasks; a caller of \<open>Run\<close> sleeps only while the counter is at its
  limit or a wake-up is on its way, and a caller of \<open>Wait\<close> only while it is not zero or one is.
\<close>

definition atomic_inv :: "int \<Rightarrow> atomic_task \<Rightarrow> bool" where
  "atomic_inv n a \<longleftrightarrow> at_max a = n \<and> at_count a = int (weight task_running (at_tasks a)) \<and> at_count a \<le> n \<and>
     (\<forall>k. RunCas k \<in> set (at_runs a) \<longrightarrow> k < n) \<and>
     (RunAsleep \<in> set (at_runs a) \<longrightarrow> at_count a = n \<or> TaskRelease \<in> set (at_tasks a)) \<and>
     (WaitAsleep \<in> set (at_waits a) \<longrightarrow> at_count a \<noteq> 0 \<or> TaskRelease \<in> set (at_tasks a))"

lemma in_update: "x \<in> set (xs[i := y]) \<Longrightarrow> x = y \<or> x \<in> set xs"
  using set_update_subset_insert [of xs i y] by auto

lemma keeps_member: "i < length xs \<Longrightarrow> x \<in> set xs \<Longrightarrow> xs ! i \<noteq> x \<Longrightarrow> x \<in> set (xs[i := y])"
  by (metis in_set_conv_nth length_list_update nth_list_update_neq)

lemma woken [simp]: "RunAsleep \<notin> wake_run ` A" "WaitAsleep \<notin> wake_wait ` B" "RunCas k \<in> wake_run ` A \<longleftrightarrow> RunCas k \<in> A"
  by (auto simp: wake_run_def wake_wait_def image_iff)

lemma atomic_step_inv:
  assumes "atomic_step a a'" "atomic_inv n a"
  shows "atomic_inv n a'"
  using assms
proof (induction rule: atomic_step.induct)
  case (finish i a)
  have "TaskRelease \<in> set ((at_tasks a)[i := TaskRelease])" using finish(1) by (rule set_update_memI)
  then show ?case
    using finish weight_update [OF finish(1), of task_running TaskRelease] by (auto simp: atomic_inv_def task_running_def)
next
  case (broadcast i a)
  then show ?case
    using weight_update [OF broadcast(1), of task_running TaskOver] by (simp add: atomic_inv_def task_running_def)
next
  case (swapped i a k)
  then have "k < n" by (metis atomic_inv_def nth_mem)
  with swapped show ?case by (auto simp: atomic_inv_def task_running_def dest!: in_update)
qed (auto simp: atomic_inv_def dest!: in_update split: if_splits)

lemma atomic_reach_inv: "atomic_reach n a \<Longrightarrow> 0 \<le> n \<Longrightarrow> atomic_inv n a"
proof (induction rule: atomic_reach.induct)
  case new
  then show ?case by (simp add: atomic_inv_def NewAtomicTask_def)
qed (blast intro: atomic_step_inv)

lemma weight_running: "weight task_running ts = length (filter (\<lambda>t. t = TaskRunning) ts)"
  by (induction ts) (simp_all add: task_running_def)


section \<open>Collecting results\<close>

text \<open>
  \<open>RunTaskGetSpecifyQuantityResultContext\<close>. A task is at its call of \<open>fn\<close>; has a result; has seen that
  the context is not done; has counted its result; has counted one too many; has put it into the
  channel; was the last of the expected ones, before \<open>cancel\<close> and before \<open>closeChan\<close>; runs the deferred
  calls of \<open>ChanTask.Run\<close>; is over. The goroutine around them hands out the tasks, waits, and is over.
\<close>

datatype ('p, 't) gather_pc =
    Calling 'p
  | HasResult 't
  | Admitted 't
  | Counted_result 't
  | Surplus
  | Delivered
  | LastOne
  | ClosingChan
  | Unwinding
  | Finished_task

datatype gather_main = Spawning | WaitingAll | GatherOver

text \<open>
  \<open>ga_tokens\<close> is the fill of \<open>tChan\<close> of size \<open>ga_pool\<close>; the counters are \<open>resultCount\<close> and \<open>enterCount\<close>;
  \<open>ga_cancelled\<close> and \<open>ga_parent\<close> say whether the own and the given context are done; \<open>ga_buf\<close> is the
  content of \<open>resChan\<close>. \<open>ga_sent\<close> and \<open>ga_found\<close> record all results put into it and all that \<open>fn\<close> gave;
  \<open>ga_panic\<close> is a send on the closed channel.
\<close>

record ('p, 't) gather =
  ga_expect :: nat
  ga_pool :: nat
  ga_todo :: "'p list"
  ga_tasks :: "('p, 't) gather_pc list"
  ga_tokens :: nat
  ga_main :: gather_main
  ga_resultCount :: int
  ga_enterCount :: int
  ga_cancelled :: bool
  ga_parent :: bool
  ga_buf :: "'t list"
  ga_closed :: bool
  ga_sent :: "'t list"
  ga_found :: "'t list"
  ga_panic :: bool

definition gather_start :: "nat \<Rightarrow> nat \<Rightarrow> 'p list \<Rightarrow> ('p, 't) gather" where
  "gather_start expect pool ps = \<lparr>ga_expect = expect, ga_pool = pool, ga_todo = ps, ga_tasks = [], ga_tokens = 0,
     ga_main = Spawning, ga_resultCount = int expect, ga_enterCount = int expect, ga_cancelled = False,
     ga_parent = False, ga_buf = [], ga_closed = False, ga_sent = [], ga_found = [], ga_panic = False\<rparr>"

definition ga_done :: "('p, 't) gather \<Rightarrow> bool" where
  "ga_done g \<longleftrightarrow> ga_cancelled g \<or> ga_parent g"

text \<open>One step of a task; \<open>R p v\<close> says that \<open>fn\<close> may give the result \<open>v\<close> for \<open>p\<close>.\<close>

inductive gather_task :: "('p \<Rightarrow> 't \<Rightarrow> bool) \<Rightarrow> ('p, 't) gather \<Rightarrow> ('p, 't) gather_pc \<Rightarrow> ('p, 't) gather_pc \<Rightarrow>
    ('p, 't) gather \<Rightarrow> bool" for R g where
  no_result: "gather_task R g (Calling p) Unwinding g"
| result: "R p v \<Longrightarrow> gather_task R g (Calling p) (HasResult v) (g\<lparr>ga_found := ga_found g @ [v]\<rparr>)"
| too_late: "ga_done g \<Longrightarrow> gather_task R g (HasResult v) Unwinding g"
| in_time: "\<not> ga_done g \<Longrightarrow> gather_task R g (HasResult v) (Admitted v) g"
| count_result: "gather_task R g (Admitted v) (if ga_resultCount g - 1 < 0 then Surplus else Counted_result v)
     (g\<lparr>ga_resultCount := ga_resultCount g - 1\<rparr>)"
| surplus: "gather_task R g Surplus Unwinding (g\<lparr>ga_cancelled := True\<rparr>)"
| send_panic: "ga_closed g \<Longrightarrow> gather_task R g (Counted_result v) Unwinding (g\<lparr>ga_panic := True\<rparr>)"
| send: "\<not> ga_closed g \<Longrightarrow> length (ga_buf g) < ga_expect g \<Longrightarrow>
     gather_task R g (Counted_result v) Delivered (g\<lparr>ga_buf := ga_buf g @ [v], ga_sent := ga_sent g @ [v]\<rparr>)"
| send_default: "\<not> ga_closed g \<Longrightarrow> \<not> length (ga_buf g) < ga_expect g \<Longrightarrow> gather_task R g (Counted_result v) Unwinding g"
| enter: "gather_task R g Delivered (if ga_enterCount g - 1 = 0 then LastOne else Unwinding)
     (g\<lparr>ga_enterCount := ga_enterCount g - 1\<rparr>)"
| last_cancel: "gather_task R g LastOne ClosingChan (g\<lparr>ga_cancelled := True\<rparr>)"
| last_close: "gather_task R g ClosingChan Unwinding (g\<lparr>ga_closed := True\<rparr>)"
| unwind: "gather_task R g Unwinding Finished_task (g\<lparr>ga_tokens := ga_tokens g - 1\<rparr>)"

inductive gather_step :: "('p \<Rightarrow> 't \<Rightarrow> bool) \<Rightarrow> ('p, 't) gather \<Rightarrow> ('p, 't) gather \<Rightarrow> bool" for R where
  run: "ga_main g = Spawning \<Longrightarrow> ga_todo g = p # ps \<Longrightarrow> ga_tokens g < ga_pool g \<Longrightarrow>
     gather_step R g (g\<lparr>ga_todo := ps, ga_tokens := ga_tokens g + 1, ga_tasks := ga_tasks g @ [Calling p]\<rparr>)"
| all_run: "ga_main g = Spawning \<Longrightarrow> ga_todo g = [] \<Longrightarrow> gather_step R g (g\<lparr>ga_main := WaitingAll\<rparr>)"
| waited: "ga_main g = WaitingAll \<Longrightarrow> \<forall>t\<in>set (ga_tasks g). t = Finished_task \<Longrightarrow>
     gather_step R g (g\<lparr>ga_main := GatherOver, ga_cancelled := True, ga_closed := True\<rparr>)"
| task: "i < length (ga_tasks g) \<Longrightarrow> gather_task R g (ga_tasks g ! i) t g' \<Longrightarrow>
     gather_step R g (g'\<lparr>ga_tasks := (ga_tasks g)[i := t]\<rparr>)"
| parent: "\<not> ga_parent g \<Longrightarrow> gather_step R g (g\<lparr>ga_parent := True\<rparr>)"
| receive: "ga_buf g = v # vs \<Longrightarrow> gather_step R g (g\<lparr>ga_buf := vs\<rparr>)"

inductive gather_reach :: "('p \<Rightarrow> 't \<Rightarrow> bool) \<Rightarrow> nat \<Rightarrow> nat \<Rightarrow> 'p list \<Rightarrow> ('p, 't) gather \<Rightarrow> bool" for R n k ps where
  start: "gather_reach R n k ps (gather_start n k ps)"
| move: "gather_reach R n k ps g \<Longrightarrow> gather_step R g g' \<Longrightarrow> gather_reach R n k ps g'"

subsection \<open>The invariant\<close>

definition n_counted :: "('p, 't) gather_pc \<Rightarrow> nat" where
  "n_counted t = (case t of Counted_result _ \<Rightarrow> 1 | _ \<Rightarrow> 0)"

definition n_early :: "('p, 't) gather_pc \<Rightarrow> nat" where
  "n_early t = (case t of HasResult _ \<Rightarrow> 1 | Admitted _ \<Rightarrow> 1 | _ \<Rightarrow> 0)"

definition n_delivered :: "('p, 't) gather_pc \<Rightarrow> nat" where
  "n_delivered t = (if t = Delivered then 1 else 0)"

definition n_closing :: "('p, 't) gather_pc \<Rightarrow> nat" where
  "n_closing t = (if t = LastOne \<or> t = ClosingChan then 1 else 0)"

definition n_surplus :: "('p, 't) gather_pc \<Rightarrow> nat" where
  "n_surplus t = (if t = Surplus then 1 else 0)"

definition n_live :: "('p, 't) gather_pc \<Rightarrow> nat" where
  "n_live t = (if t = Finished_task then 0 else 1)"

lemmas n_defs = n_counted_def n_early_def n_delivered_def n_closing_def n_surplus_def n_live_def

text \<open>The results that have a place among the expected ones.\<close>

definition placed :: "('p, 't) gather \<Rightarrow> nat" where
  "placed g = length (ga_sent g) + weight n_counted (ga_tasks g)"

definition gather_inv :: "nat \<Rightarrow> ('p, 't) gather \<Rightarrow> bool" where
  "gather_inv n g \<longleftrightarrow> ga_expect g = n \<and> \<not> ga_panic g \<and>
     int (placed g) = int n - max (ga_resultCount g) 0 \<and>
     ga_enterCount g = int n - (int (length (ga_sent g)) - int (weight n_delivered (ga_tasks g))) \<and>
     weight n_delivered (ga_tasks g) \<le> length (ga_sent g) \<and>
     (ga_closed g \<or> 0 < weight n_closing (ga_tasks g) \<longrightarrow> ga_enterCount g = 0 \<or> ga_main g = GatherOver) \<and>
     (0 < weight n_surplus (ga_tasks g) \<longrightarrow> ga_resultCount g < 0) \<and>
     (ga_main g = GatherOver \<longrightarrow> (\<forall>t\<in>set (ga_tasks g). t = Finished_task)) \<and>
     length (ga_buf g) \<le> length (ga_sent g) \<and>
     weight n_live (ga_tasks g) = ga_tokens g \<and> ga_tokens g \<le> ga_pool g"

text \<open>While a place is free and the given context is open no result is given up.\<close>

definition gather_exact :: "nat \<Rightarrow> ('p, 't) gather \<Rightarrow> bool" where
  "gather_exact n g \<longleftrightarrow> placed g + weight n_early (ga_tasks g) \<le> length (ga_found g) \<and>
     (placed g < n \<and> \<not> ga_parent g \<longrightarrow>
       length (ga_found g) = placed g + weight n_early (ga_tasks g) \<and> (ga_cancelled g \<longrightarrow> ga_main g = GatherOver))"

lemma gather_weights:
  assumes "i < length ts"
  shows "weight f (ts[i := t]) + f (ts ! i) = weight f ts + f t" "f (ts ! i) \<le> weight f ts"
  using weight_update [OF assms] weight_member [of "ts ! i" ts f] assms by simp_all

lemma gather_invD:
  assumes "gather_inv n g"
  shows "ga_expect g = n" "\<not> ga_panic g" "int (placed g) = int n - max (ga_resultCount g) 0"
    "ga_enterCount g = int n - (int (length (ga_sent g)) - int (weight n_delivered (ga_tasks g)))"
    "weight n_delivered (ga_tasks g) \<le> length (ga_sent g)"
    "ga_closed g \<Longrightarrow> ga_enterCount g = 0 \<or> ga_main g = GatherOver"
    "0 < weight n_closing (ga_tasks g) \<Longrightarrow> ga_enterCount g = 0 \<or> ga_main g = GatherOver"
    "0 < weight n_surplus (ga_tasks g) \<Longrightarrow> ga_resultCount g < 0"
    "length (ga_buf g) \<le> length (ga_sent g)" "weight n_live (ga_tasks g) = ga_tokens g" "ga_tokens g \<le> ga_pool g"
  using assms by (auto simp: gather_inv_def)

lemma placed_le: "gather_inv n g \<Longrightarrow> placed g \<le> n"
  unfolding gather_inv_def by linarith

lemma task_inv_step:
  assumes t: "gather_task R g (ga_tasks g ! i) t g'" and i: "i < length (ga_tasks g)" and inv: "gather_inv n g"
  shows "gather_inv n (g'\<lparr>ga_tasks := (ga_tasks g)[i := t]\<rparr>)"
proof -
  let ?ts = "(ga_tasks g)[i := t]"
  note c = gather_weights(1) [OF i, of n_counted t] gather_weights(2) [OF i, of n_counted]
    gather_weights(1) [OF i, of n_delivered t] gather_weights(2) [OF i, of n_delivered]
    gather_weights(1) [OF i, of n_closing t] gather_weights(2) [OF i, of n_closing]
    gather_weights(1) [OF i, of n_surplus t] gather_weights(2) [OF i, of n_surplus]
    gather_weights(1) [OF i, of n_live t] gather_weights(2) [OF i, of n_live]
  have m: "ga_main g \<noteq> GatherOver"
  proof
    assume "ga_main g = GatherOver"
    then have "ga_tasks g ! i = Finished_task" using inv i by (simp add: gather_inv_def)
    with t show False by (cases rule: gather_task.cases) simp_all
  qed
  have sn: "length (ga_sent g) + weight n_counted (ga_tasks g) \<le> n" using placed_le [OF inv] by (simp add: placed_def)
  note simps = gather_inv_def placed_def n_defs
  from t show ?thesis
  proof (cases rule: gather_task.cases)
    case (send_panic v)
    then have "weight n_counted (ga_tasks g) \<noteq> 0" using c(2) by (simp add: n_counted_def)
    then have "ga_enterCount g \<noteq> 0" using sn inv by (simp add: gather_inv_def)
    then show ?thesis using send_panic inv m by (simp add: gather_inv_def)
  next
    case (send_default v)
    then have "weight n_counted (ga_tasks g) \<noteq> 0" using c(2) by (simp add: n_counted_def)
    then show ?thesis using send_default sn inv by (simp add: gather_inv_def)
  next
    case enter
    have d: "1 \<le> weight n_delivered (ga_tasks g)" using c(4) enter(1) by (simp add: n_delivered_def)
    have "length (ga_sent g) \<le> n" using placed_le [OF inv] by (simp add: placed_def)
    then have e: "ga_enterCount g \<noteq> 0" using inv d by (simp add: gather_inv_def)
    have o: "\<not> ga_closed g" "weight n_closing (ga_tasks g) = 0" using inv e m by (auto simp: gather_inv_def)
    have k: "weight n_counted ?ts = weight n_counted (ga_tasks g)" "weight n_delivered ?ts + 1 = weight n_delivered (ga_tasks g)"
      "weight n_surplus ?ts = weight n_surplus (ga_tasks g)" "weight n_live ?ts = weight n_live (ga_tasks g)"
      "weight n_closing ?ts = (if ga_enterCount g - 1 = 0 then 1 else 0)"
      using c enter(1,2) o(2) by (auto simp: n_defs)
    show ?thesis using inv k d m o(1) by (simp add: gather_inv_def placed_def enter(3))
  next
    case no_result
    then show ?thesis using c m gather_invD [OF inv] by (simp add: simps)
  next
    case result
    then show ?thesis using c m gather_invD [OF inv] by (simp add: simps)
  next
    case too_late
    then show ?thesis using c m gather_invD [OF inv] by (simp add: simps)
  next
    case in_time
    then show ?thesis using c m gather_invD [OF inv] by (simp add: simps)
  next
    case count_result
    then show ?thesis using c m gather_invD [OF inv]
      by (cases "ga_resultCount g - 1 < 0"; cases "weight n_surplus (ga_tasks g)") (auto simp: simps)
  next
    case surplus
    then show ?thesis using c m gather_invD [OF inv] by (simp add: simps)
  next
    case send
    then show ?thesis using c m gather_invD [OF inv] by (simp add: simps)
  next
    case last_cancel
    then show ?thesis using c m gather_invD [OF inv] by (simp add: simps)
  next
    case last_close
    then show ?thesis using c m gather_invD [OF inv] by (simp add: simps)
  next
    case unwind
    have "ga_tokens g - 1 \<le> ga_pool g" using gather_invD(11) [OF inv] by simp
    moreover have "weight n_live ?ts = ga_tokens g - 1" using c(9) unwind gather_invD(10) [OF inv] by (simp add: n_live_def)
    ultimately show ?thesis using unwind c m gather_invD [OF inv] by (simp add: simps)
  qed
qed

lemma gather_step_inv:
  assumes "gather_step R g g'" "gather_inv n g"
  shows "gather_inv n g'"
  using assms
proof (induction rule: gather_step.induct)
  case (task i g t g')
  then show ?case by (blast intro: task_inv_step)
next
  case (run g p ps)
  then show ?case by (auto simp: gather_inv_def placed_def n_defs)
qed (auto simp: gather_inv_def placed_def)

lemma gather_reach_inv: "gather_reach R n k ps g \<Longrightarrow> gather_inv n g"
proof (induction rule: gather_reach.induct)
  case start
  show ?case by (simp add: gather_inv_def placed_def gather_start_def)
qed (rule gather_step_inv)

lemma task_exact_step:
  assumes t: "gather_task R g (ga_tasks g ! i) t g'" and i: "i < length (ga_tasks g)"
    and inv: "gather_inv n g" and ex: "gather_exact n g"
  shows "gather_exact n (g'\<lparr>ga_tasks := (ga_tasks g)[i := t]\<rparr>)"
proof -
  note c = gather_weights(1) [OF i, of n_counted t] gather_weights(2) [OF i, of n_counted]
    gather_weights(1) [OF i, of n_early t] gather_weights(2) [OF i, of n_early]
  note d = gather_weights(2) [OF i, of n_surplus] gather_weights(2) [OF i, of n_closing] gather_weights(2) [OF i, of n_delivered]
  have m: "ga_main g \<noteq> GatherOver"
  proof
    assume "ga_main g = GatherOver"
    then have "ga_tasks g ! i = Finished_task" using inv i by (simp add: gather_inv_def)
    with t show False by (cases rule: gather_task.cases) simp_all
  qed
  have full: "placed g = n" if "ga_resultCount g < 0 \<or> ga_enterCount g = 0"
  proof (cases "ga_resultCount g < 0")
    case True
    then show ?thesis using inv by (simp add: gather_inv_def)
  next
    case False
    then have "ga_enterCount g = 0" using that by simp
    then have "n \<le> length (ga_sent g)" using inv by (simp add: gather_inv_def)
    then show ?thesis using placed_le [OF inv] by (simp add: placed_def)
  qed
  have sn: "length (ga_sent g) + weight n_counted (ga_tasks g) \<le> n" using placed_le [OF inv] by (simp add: placed_def)
  note simps = gather_exact_def placed_def n_defs
  from t show ?thesis
  proof (cases rule: gather_task.cases)
    case (too_late v)
    then show ?thesis using ex c m by (simp add: simps ga_done_def) arith
  next
    case surplus
    then have "ga_resultCount g < 0" using inv d(1) by (simp add: gather_inv_def n_surplus_def)
    then have "placed g = n" using full by blast
    then show ?thesis using ex c surplus by (simp add: simps)
  next
    case last_cancel
    then have "weight n_closing (ga_tasks g) \<noteq> 0" using d(2) by (simp add: n_closing_def)
    then have "ga_enterCount g = 0" using inv m by (simp add: gather_inv_def)
    then have "placed g = n" using full by blast
    then show ?thesis using ex c last_cancel by (simp add: simps)
  next
    case (count_result v)
    show ?thesis
    proof (cases "ga_resultCount g - 1 < 0")
      case True
      then have "ga_resultCount g \<le> 0" by simp
      then have "placed g = n" using inv by (simp add: gather_inv_def)
      then show ?thesis using ex c count_result True by (simp add: simps)
    next
      case False
      then show ?thesis using ex c count_result by (simp add: simps)
    qed
  next
    case (send_default v)
    then have "weight n_counted (ga_tasks g) \<noteq> 0" using c(2) by (simp add: n_counted_def)
    then show ?thesis using send_default sn inv by (simp add: gather_inv_def)
  next
    case (send_panic v)
    then have "weight n_counted (ga_tasks g) \<noteq> 0" using c(2) by (simp add: n_counted_def)
    then have "ga_enterCount g \<noteq> 0" using sn inv by (simp add: gather_inv_def)
    then show ?thesis using send_panic inv m by (simp add: gather_inv_def)
  next
    case no_result
    then show ?thesis using ex c by (simp add: simps)
  next
    case result
    then show ?thesis using ex c by (simp add: simps)
  next
    case in_time
    then show ?thesis using ex c by (simp add: simps)
  next
    case send
    then show ?thesis using ex c by (simp add: simps)
  next
    case enter
    then show ?thesis using ex c by (simp add: simps)
  next
    case last_close
    then show ?thesis using ex c by (simp add: simps)
  next
    case unwind
    then show ?thesis using ex c by (simp add: simps)
  qed
qed

lemma gather_step_exact:
  assumes "gather_step R g g'" "gather_inv n g" "gather_exact n g"
  shows "gather_exact n g'"
  using assms
proof (induction rule: gather_step.induct)
  case (task i g t g')
  then show ?case by (blast intro: task_exact_step)
qed (auto simp: gather_exact_def placed_def n_defs)

lemma gather_reach_exact: "gather_reach R n k ps g \<Longrightarrow> gather_exact n g"
proof (induction rule: gather_reach.induct)
  case start
  show ?case by (simp add: gather_exact_def placed_def gather_start_def)
qed (blast intro: gather_step_exact gather_reach_inv)

subsection \<open>What is received, and when it ends\<close>

text \<open>Every result in the channel is one that \<open>fn\<close> can give for one of the parameters.\<close>

definition pc_values :: "('p, 't) gather_pc \<Rightarrow> 't set" where
  "pc_values t = (case t of HasResult v \<Rightarrow> {v} | Admitted v \<Rightarrow> {v} | Counted_result v \<Rightarrow> {v} | _ \<Rightarrow> {})"

definition pc_params :: "('p, 't) gather_pc \<Rightarrow> 'p set" where
  "pc_params t = (case t of Calling p \<Rightarrow> {p} | _ \<Rightarrow> {})"

definition gather_values :: "('p \<Rightarrow> 't \<Rightarrow> bool) \<Rightarrow> 'p set \<Rightarrow> ('p, 't) gather \<Rightarrow> bool" where
  "gather_values R P g \<longleftrightarrow> set (ga_todo g) \<subseteq> P \<and> (\<forall>t\<in>set (ga_tasks g). pc_params t \<subseteq> P \<and>
     pc_values t \<subseteq> {v. \<exists>p\<in>P. R p v}) \<and> set (ga_sent g) \<subseteq> {v. \<exists>p\<in>P. R p v}"

lemma gather_step_values:
  assumes "gather_step R g g'" "gather_values R P g"
  shows "gather_values R P g'"
  using assms
proof (induction rule: gather_step.induct)
  case (task i g t g')
  have o: "ga_tasks g ! i \<in> set (ga_tasks g)" using task(1) by simp
  have sub: "set ((ga_tasks g)[i := t]) \<subseteq> insert t (set (ga_tasks g))" by (rule set_update_subset_insert)
  have "ga_todo g' = ga_todo g \<and> pc_params t \<subseteq> P \<and> pc_values t \<subseteq> {v. \<exists>p\<in>P. R p v} \<and>
      set (ga_sent g') \<subseteq> {v. \<exists>p\<in>P. R p v}"
    using task(2) task(3) o
    by (cases rule: gather_task.cases) (fastforce simp: gather_values_def pc_values_def pc_params_def split: if_splits)+
  moreover from this have "\<forall>x\<in>set ((ga_tasks g)[i := t]). pc_params x \<subseteq> P \<and> pc_values x \<subseteq> {v. \<exists>p\<in>P. R p v}"
    using task(3) sub unfolding gather_values_def by blast
  ultimately show ?case using task(3) by (simp add: gather_values_def)
qed (auto simp: gather_values_def pc_values_def pc_params_def)

lemma gather_reach_values: "gather_reach R n k ps g \<Longrightarrow> gather_values R (set ps) g"
proof (induction rule: gather_reach.induct)
  case start
  show ?case by (simp add: gather_values_def gather_start_def)
qed (rule gather_step_values)

text \<open>A bound on the steps that are left.\<close>

definition pc_left :: "('p, 't) gather_pc \<Rightarrow> nat" where
  "pc_left t = (case t of Calling _ \<Rightarrow> 9 | HasResult _ \<Rightarrow> 8 | Admitted _ \<Rightarrow> 7 | Counted_result _ \<Rightarrow> 6 | Surplus \<Rightarrow> 2
     | Delivered \<Rightarrow> 4 | LastOne \<Rightarrow> 3 | ClosingChan \<Rightarrow> 2 | Unwinding \<Rightarrow> 1 | Finished_task \<Rightarrow> 0)"

definition gather_rest :: "('p, 't) gather \<Rightarrow> nat" where
  "gather_rest g = 10 * length (ga_todo g) + weight pc_left (ga_tasks g) + length (ga_buf g) +
     (if ga_parent g then 0 else 1) + (case ga_main g of Spawning \<Rightarrow> 2 | WaitingAll \<Rightarrow> 1 | GatherOver \<Rightarrow> 0)"

lemma gather_step_rest:
  assumes "gather_step R g g'"
  shows "gather_rest g' < gather_rest g"
  using assms
proof (induction rule: gather_step.induct)
  case (task i g t g')
  note w = weight_update [OF task(1), of pc_left t]
  show ?case using task(2)
    by (cases rule: gather_task.cases) (use w in \<open>simp_all add: gather_rest_def pc_left_def split: if_splits\<close>)
qed (simp_all add: gather_rest_def pc_left_def)

lemma gather_steps: "(gather_step R ^^ m) g g' \<Longrightarrow> m + gather_rest g' \<le> gather_rest g"
proof (induction m arbitrary: g')
  case (Suc m)
  then obtain g1 where "(gather_step R ^^ m) g g1" "gather_step R g1 g'" by auto
  then show ?case using Suc.IH [of g1] gather_step_rest [of R g1 g'] by simp
qed simp

lemma gather_task_progress:
  assumes "t \<noteq> Finished_task"
  shows "\<exists>t' g'. gather_task R g t t' g'"
proof (cases t)
  case (HasResult v)
  then show ?thesis using gather_task.too_late [of g R v] gather_task.in_time [of g R v] by blast
next
  case (Counted_result v)
  then show ?thesis
    using gather_task.send [of g R v] gather_task.send_default [of g R v] gather_task.send_panic [of g R v] by blast
qed (use assms in \<open>blast intro: gather_task.intros\<close>)+

lemma gather_progress:
  assumes "gather_inv n g" "0 < ga_pool g" "ga_main g \<noteq> GatherOver"
  shows "\<exists>g'. gather_step R g g'"
proof (cases "\<forall>t\<in>set (ga_tasks g). t = Finished_task")
  case False
  then obtain i where i: "i < length (ga_tasks g)" "ga_tasks g ! i \<noteq> Finished_task" by (auto simp: in_set_conv_nth)
  then show ?thesis using gather_task_progress [OF i(2)] gather_step.task [OF i(1)] by blast
next
  case True
  then have "weight n_live (ga_tasks g) = 0" by (simp add: weight_zero n_live_def)
  then have "ga_tokens g < ga_pool g" using gather_invD(10) [OF assms(1)] assms(2) by simp
  then show ?thesis
    using assms(3) True gather_step.run [of g] gather_step.all_run [of g] gather_step.waited [of g]
    by (cases "ga_main g"; cases "ga_todo g") blast+
qed

lemma gather_pool: "gather_reach R n k ps g \<Longrightarrow> ga_pool g = k"
proof (induction rule: gather_reach.induct)
  case (move g g')
  from move(2) show ?case
  proof (cases rule: gather_step.cases)
    case (task i t g1)
    from task(3) have "ga_pool g1 = ga_pool g" by (cases rule: gather_task.cases) simp_all
    then show ?thesis using task(1) move(3) by simp
  qed (use move(3) in auto)
qed (simp add: gather_start_def)

subsection \<open>A run\<close>

lemma gather_task_reach:
  assumes "gather_reach R n k ps g" "gather_task R g old t g'" "i < length (ga_tasks g)" "ga_tasks g ! i = old"
  shows "gather_reach R n k ps (g'\<lparr>ga_tasks := (ga_tasks g)[i := t]\<rparr>)"
  using gather_reach.move [OF assms(1) gather_step.task [of i g R t g']] assms(2-4) by simp

lemma demo_gather:
  obtains g where "gather_reach (\<lambda>p v. v = p) 1 1 [7 :: nat] g" "ga_main g = GatherOver" "\<not> ga_parent g"
    "ga_found g = [7]" "ga_closed g"
proof -
  let ?R = "gather_reach (\<lambda>p v. v = p) 1 1 [7 :: nat]"
  let ?g = "\<lambda>ts tok mn rc ec can buf cl snt fnd. \<lparr>ga_expect = 1, ga_pool = 1, ga_todo = [], ga_tasks = ts, ga_tokens = tok,
     ga_main = mn, ga_resultCount = rc, ga_enterCount = ec, ga_cancelled = can, ga_parent = False, ga_buf = buf,
     ga_closed = cl, ga_sent = snt, ga_found = fnd, ga_panic = False\<rparr>"
  have "?R (?g [Calling 7] 1 Spawning 1 1 False [] False [] [])"
    using gather_reach.move [OF gather_reach.start [where R = "\<lambda>p v. v = p" and ps = "[7 :: nat]"]
        gather_step.run [where p = 7 and ps = "[]"], of 1 1] by (simp add: gather_start_def)
  from gather_reach.move [OF this gather_step.all_run] have "?R (?g [Calling 7] 1 WaitingAll 1 1 False [] False [] [])" by simp
  from gather_task_reach [OF this gather_task.result [where p = 7 and v = 7], where i = 0] have "?R (?g [HasResult 7] 1 WaitingAll 1 1 False [] False [] [7])" by (simp add: ga_done_def)
  from gather_task_reach [OF this gather_task.in_time [where v = 7], where i = 0] have "?R (?g [Admitted 7] 1 WaitingAll 1 1 False [] False [] [7])" by (simp add: ga_done_def)
  from gather_task_reach [OF this gather_task.count_result [where v = 7], where i = 0] have "?R (?g [Counted_result 7] 1 WaitingAll 0 1 False [] False [] [7])" by (simp add: ga_done_def)
  from gather_task_reach [OF this gather_task.send [where v = 7], where i = 0] have "?R (?g [Delivered] 1 WaitingAll 0 1 False [7] False [7] [7])" by (simp add: ga_done_def)
  from gather_task_reach [OF this gather_task.enter, where i = 0] have "?R (?g [LastOne] 1 WaitingAll 0 0 False [7] False [7] [7])" by (simp add: ga_done_def)
  from gather_task_reach [OF this gather_task.last_cancel, where i = 0] have "?R (?g [ClosingChan] 1 WaitingAll 0 0 True [7] False [7] [7])" by (simp add: ga_done_def)
  from gather_task_reach [OF this gather_task.last_close, where i = 0] have "?R (?g [Unwinding] 1 WaitingAll 0 0 True [7] True [7] [7])" by (simp add: ga_done_def)
  from gather_task_reach [OF this gather_task.unwind, where i = 0] have "?R (?g [Finished_task] 0 WaitingAll 0 0 True [7] True [7] [7])" by (simp add: ga_done_def)
  from gather_reach.move [OF this gather_step.waited] have "?R (?g [Finished_task] 0 GatherOver 0 0 True [7] True [7] [7])" by simp
  with that show ?thesis by simp
qed

subsection \<open>With a time limit\<close>

text \<open>
  The goroutine of \<open>RunTaskGetSpecifyQuantityResultTimeOutContext\<close> forwards what it receives to a channel
  of the same size, from which the caller takes. It returns the rest of the channel, what was put
  into it, and whether the goroutine has returned.
\<close>

datatype 't forward_event = TimedOut | Forwarded 't | Drained_chan | Taken

fun forward :: "nat \<Rightarrow> 't forward_event list \<Rightarrow> 't list \<Rightarrow> 't list \<Rightarrow> 't list \<times> 't list \<times> bool" where
  "forward n [] buf out = (buf, out, False)"
| "forward n (TimedOut # evs) buf out = (buf, out, True)"
| "forward n (Drained_chan # evs) buf out = (buf, out, True)"
| "forward n (Forwarded r # evs) buf out =
    (if length buf < n then forward n evs (buf @ [r]) (out @ [r]) else forward n evs buf out)"
| "forward n (Taken # evs) buf out = forward n evs (tl buf) out"

fun before_end :: "'t forward_event list \<Rightarrow> 't list" where
  "before_end [] = []"
| "before_end (Forwarded r # evs) = r # before_end evs"
| "before_end (Taken # evs) = before_end evs"
| "before_end (_ # evs) = []"

lemma forward_all:
  assumes "length buf \<le> length out" "length out + length (before_end evs) \<le> n"
  shows "fst (snd (forward n evs buf out)) = out @ before_end evs"
  using assms by (induction n evs buf out rule: forward.induct) auto

section \<open>Properties\<close>

text \<open>\<open>AtomicTask\<close> never runs more tasks than its limit, and no wake-up is lost: a caller of \<open>Run\<close> or
  \<open>Wait\<close> that sleeps is woken by a task that is running or about to broadcast.\<close>

theorem atomic_no_lost_wakeup:
  assumes "atomic_reach n a" and "0 < n"
  shows "int (length (filter (\<lambda>t. t = TaskRunning) (at_tasks a))) \<le> n \<and>
    (RunAsleep \<in> set (at_runs a) \<or> WaitAsleep \<in> set (at_waits a) \<longrightarrow>
      TaskRunning \<in> set (at_tasks a) \<or> TaskRelease \<in> set (at_tasks a))"
proof -
  note i = atomic_reach_inv [OF assms(1) less_imp_le [OF assms(2)], unfolded atomic_inv_def weight_running]
  have "TaskRunning \<in> set (at_tasks a)" if "at_count a \<noteq> 0"
  proof (rule ccontr)
    assume "TaskRunning \<notin> set (at_tasks a)"
    then have "filter (\<lambda>t. t = TaskRunning) (at_tasks a) = []" by (auto simp: filter_empty_conv)
    then show False using i that by simp
  qed
  then show ?thesis using i assms(2) by auto
qed

theorem atomic_no_lost_wakeup_witness:
  "\<exists>a. atomic_reach 1 a \<and> at_waits a = [WaitAsleep] \<and> (TaskRunning \<in> set (at_tasks a) \<or> TaskRelease \<in> set (at_tasks a))"
proof -
  let ?a = "\<lambda>c rs ws ts. \<lparr>at_max = 1, at_count = c, at_runs = rs, at_waits = ws, at_tasks = ts\<rparr>"
  have "atomic_reach 1 (?a 0 [RunLoad] [] [])"
    using atomic_reach.move [OF atomic_reach.new atomic_step.call_run, of 1] by (simp add: NewAtomicTask_def)
  from atomic_reach.move [OF this atomic_step.load [of 0]] have "atomic_reach 1 (?a 0 [RunCas 0] [] [])" by simp
  from atomic_reach.move [OF this atomic_step.swapped [of 0 _ 0]] have "atomic_reach 1 (?a 1 [RunDone] [] [TaskRunning])" by simp
  from atomic_reach.move [OF this atomic_step.call_wait] have "atomic_reach 1 (?a 1 [RunDone] [WaitBlock] [TaskRunning])" by simp
  from atomic_reach.move [OF this atomic_step.wait_block [of 0]]
  have r: "atomic_reach 1 (?a 1 [RunDone] [WaitAsleep] [TaskRunning])" by simp
  from atomic_no_lost_wakeup [OF this] show ?thesis
    by (intro exI [of _ "?a 1 [RunDone] [WaitAsleep] [TaskRunning]"] conjI r) simp_all
qed

text \<open>The pool that collects \<open>n\<close> results never sends on the closed channel, puts at most \<open>n\<close> results into
  it, all of them results of \<open>fn\<close> for the given parameters, and runs at most \<open>k\<close> tasks at once. When it is
  over the channel is closed, and unless the given context was cancelled it has put in exactly the
  smaller of \<open>n\<close> and the number of results that were found.\<close>

theorem gather_quota:
  assumes "gather_reach R n k ps g"
  shows "\<not> ga_panic g \<and> length (ga_sent g) \<le> n \<and> (\<forall>v\<in>set (ga_sent g). \<exists>p\<in>set ps. R p v) \<and>
    length (filter (\<lambda>t. t \<noteq> Finished_task) (ga_tasks g)) \<le> k \<and>
    (ga_main g = GatherOver \<and> \<not> ga_parent g \<longrightarrow> length (ga_sent g) = min n (length (ga_found g)))"
proof (intro conjI impI)
  note i = gather_reach_inv [OF assms] and e = gather_reach_exact [OF assms]
  show "\<not> ga_panic g" by (rule gather_invD(2) [OF i])
  show "length (ga_sent g) \<le> n" using placed_le [OF i] by (simp add: placed_def)
  show "\<forall>v\<in>set (ga_sent g). \<exists>p\<in>set ps. R p v"
    using gather_reach_values [OF assms] by (auto simp: gather_values_def)
  have "length (filter (\<lambda>t. t \<noteq> Finished_task) ts) = weight n_live ts" for ts :: "('a, 'b) gather_pc list"
    by (induction ts) (simp_all add: n_live_def)
  then show "length (filter (\<lambda>t. t \<noteq> Finished_task) (ga_tasks g)) \<le> k"
    using gather_invD(10,11) [OF i] gather_pool [OF assms] by simp
  assume o: "ga_main g = GatherOver \<and> \<not> ga_parent g"
  then have "\<forall>t\<in>set (ga_tasks g). t = Finished_task" using i by (simp add: gather_inv_def)
  then have "weight n_counted (ga_tasks g) = 0" "weight n_early (ga_tasks g) = 0"
    by (auto simp: weight_zero n_counted_def n_early_def)
  then show "length (ga_sent g) = min n (length (ga_found g))"
    using e o placed_le [OF i] by (auto simp: gather_exact_def placed_def min_def)
qed

theorem gather_quota_witness:
  "\<exists>g. gather_reach (\<lambda>p v. v = p) 1 1 [7 :: nat] g \<and> ga_main g = GatherOver \<and> length (ga_sent g) = 1"
proof -
  obtain g where g: "gather_reach (\<lambda>p v. v = p) 1 1 [7 :: nat] g" "ga_main g = GatherOver" "\<not> ga_parent g" "ga_found g = [7]"
    by (rule demo_gather)
  from gather_quota [OF g(1)] g have "length (ga_sent g) = 1" by simp
  with g show ?thesis by blast
qed

text \<open>With a pool of at least one task the collection ends: a run has a bounded number of steps, and until
  the goroutine around the tasks is over one of them can move, if every call of \<open>fn\<close> returns.\<close>

theorem gather_ends:
  assumes "gather_reach R n k ps g" and "0 < k"
  shows "(ga_main g \<noteq> GatherOver \<longrightarrow> (\<exists>g'. gather_step R g g')) \<and> (\<forall>m g'. (gather_step R ^^ m) g g' \<longrightarrow> m \<le> gather_rest g)"
proof (intro conjI impI allI)
  show "\<exists>g'. gather_step R g g'" if "ga_main g \<noteq> GatherOver"
    using gather_progress [OF gather_reach_inv [OF assms(1)] _ that] gather_pool [OF assms(1)] assms(2) by simp
  show "m \<le> gather_rest g" if "(gather_step R ^^ m) g g'" for m g' using gather_steps [OF that] by simp
qed

theorem gather_ends_witness:
  "\<exists>g. gather_reach (\<lambda>p v. v = p) 1 1 [7 :: nat, 8] g \<and> ga_main g = Spawning \<and>
    (\<forall>m g'. (gather_step (\<lambda>p v. v = p) ^^ m) g g' \<longrightarrow> m \<le> 23)"
proof -
  have r: "gather_reach (\<lambda>p v. v = p) 1 1 [7 :: nat, 8] (gather_start 1 1 [7, 8])" by (rule gather_reach.start)
  show ?thesis
    using gather_ends [OF r] r
    by (intro exI [of _ "gather_start 1 1 [7 :: nat, 8]"]) (simp add: gather_rest_def gather_start_def)
qed

end
