(* ===== verification/Tools.thy ===== *)
theory Tools
  imports Socks5
begin

unbundle bit_operations_syntax

text \<open>
  The small utilities: the random strings and the local address of \<^verbatim>\<open>utils/tool.go\<close>, and the queue of channels
  of \<^verbatim>\<open>utils/rabbitMQ/rabbitQueue.go\<close>.
\<close>

section \<open>Random strings\<close>

definition letterBytes :: string where
  "letterBytes = ''abcdefghijklmnopqrstuvwxyzABCDEFGHIJKLMNOPQRSTUVWXYZ''"

definition letterIdxBits :: nat where "letterIdxBits = 6"

definition letterIdxMask :: int where "letterIdxMask = push_bit letterIdxBits 1 - 1"

definition letterIdxMax :: nat where "letterIdxMax = 63 div letterIdxBits"

text \<open>
  \<open>Int63\<close> is the source of random numbers, with its state. The loop may run for ever, so it is a partial
  function; a negative length makes \<open>sb.Grow\<close> panic, which is \<open>Some None\<close>.
\<close>

partial_function (option) rand_loop :: "('s \<Rightarrow> int \<times> 's) \<Rightarrow> int \<Rightarrow> int \<Rightarrow> nat \<Rightarrow> string \<Rightarrow> 's \<Rightarrow> (string \<times> 's) option" where
  "rand_loop Int63 i cache remain sb s =
    (if i < 0 then Some (sb, s)
     else let (cache1, remain1, s1) = (if remain = 0 then case Int63 s of (v, s') \<Rightarrow> (v, letterIdxMax, s') else (cache, remain, s));
         idx = nat (cache1 AND letterIdxMask);
         (sb1, i1) = (if idx < length letterBytes then (sb @ [letterBytes ! idx], i - 1) else (sb, i))
       in rand_loop Int63 i1 (drop_bit letterIdxBits cache1) (remain1 - 1) sb1 s1)"

definition RandStringBytesMaskImprSrcSB :: "('s \<Rightarrow> int \<times> 's) \<Rightarrow> int \<Rightarrow> 's \<Rightarrow> (string \<times> 's) option option" where
  "RandStringBytesMaskImprSrcSB Int63 n s = (if n < 0 then Some None
     else case Int63 s of (v, s') \<Rightarrow> map_option Some (rand_loop Int63 (n - 1) v letterIdxMax [] s'))"

text \<open>
  The reference: every number of the source gives ten groups of six bits, the lowest first; a group below 52
  is a letter, and the others are dropped.
\<close>

definition six_bits :: "nat \<Rightarrow> int \<Rightarrow> nat list" where
  "six_bits r c = map (\<lambda>j. nat (c div 64 ^ j mod 64)) [0..<r]"

definition letters :: "nat list \<Rightarrow> string" where
  "letters gs = map ((!) letterBytes) (filter (\<lambda>g. g < 52) gs)"

definition stream_letters :: "(nat \<Rightarrow> int) \<Rightarrow> nat \<Rightarrow> nat \<Rightarrow> string" where
  "stream_letters \<sigma> a b = concat (map (\<lambda>k. letters (six_bits 10 (\<sigma> k))) [a..<b])"

definition counted :: "(nat \<Rightarrow> int) \<Rightarrow> nat \<Rightarrow> int \<times> nat" where
  "counted \<sigma> k = (\<sigma> k, k + 1)"

lemma rand_consts [simp]: "letterIdxMask = 63" "letterIdxBits = 6" "letterIdxMax = 10" "length letterBytes = 52"
  by (simp_all add: letterIdxMask_def letterIdxBits_def letterIdxMax_def letterBytes_def push_bit_eq_mult)

lemma mask_mod: "c AND 63 = (c :: int) mod 64"
  using take_bit_eq_mask [of 6 c] by (simp add: take_bit_eq_mod mask_eq_exp_minus_1)

lemma six_bits_Suc: "six_bits (Suc r) c = nat (c mod 64) # six_bits r (c div 64)"
proof -
  have "c div 64 ^ Suc j = c div 64 div 64 ^ j" for j by (simp add: zdiv_zmult2_eq)
  moreover have "[0..<Suc r] = 0 # map Suc [0..<r]" by (simp add: map_Suc_upt upt_conv_Cons del: upt_Suc)
  ultimately show ?thesis by (simp add: six_bits_def comp_def del: upt_Suc power_Suc)
qed

lemma letters_simps [simp]: "letters [] = []" "letters (g # gs) = (if g < 52 then letterBytes ! g # letters gs else letters gs)"
  by (simp_all add: letters_def)

lemma stream_letters_step: "a < b \<Longrightarrow> stream_letters \<sigma> a b = letters (six_bits 10 (\<sigma> a)) @ stream_letters \<sigma> (Suc a) b"
  by (simp add: stream_letters_def upt_conv_Cons)

text \<open>One round of the loop.\<close>

lemma rand_loop_step:
  assumes "0 \<le> i"
  shows "rand_loop (counted \<sigma>) i c (Suc r) sb k =
      (if nat (c mod 64) < 52 then rand_loop (counted \<sigma>) (i - 1) (c div 64) r (sb @ [letterBytes ! nat (c mod 64)]) k
       else rand_loop (counted \<sigma>) i (c div 64) r sb k)"
    "rand_loop (counted \<sigma>) i c 0 sb k = rand_loop (counted \<sigma>) i (\<sigma> k) 10 sb (Suc k)"
  using assms
  by (simp_all add: Let_def mask_mod drop_bit_eq_div counted_def rand_loop.simps [of "counted \<sigma>" i c "Suc r"]
      rand_loop.simps [of "counted \<sigma>" i c 0] rand_loop.simps [of "counted \<sigma>" i "\<sigma> k" 10 sb "Suc k"])

lemma rand_loop_returns:
  assumes "i < int (length (letters (six_bits r c) @ stream_letters \<sigma> k m))"
  shows "\<exists>k'. rand_loop (counted \<sigma>) i c r sb k =
     Some (sb @ take (nat (i + 1)) (letters (six_bits r c) @ stream_letters \<sigma> k m), k')"
  using assms
proof (induction "r + 11 * (m - k)" arbitrary: i c r sb k rule: less_induct)
  case less
  show ?case
  proof (cases "i < 0")
    case True
    then show ?thesis by (subst rand_loop.simps) simp
  next
    case False
    then have i: "0 \<le> i" by simp
    show ?thesis
    proof (cases r)
      case 0
      then have km: "k < m" using less.prems i by (cases "k < m") (auto simp: six_bits_def stream_letters_def)
      have l: "10 + 11 * (m - Suc k) < r + 11 * (m - k)" using 0 km by simp
      show ?thesis using less.hyps [OF l, of i "\<sigma> k" sb] less.prems 0 km
        by (simp add: rand_loop_step(2) [OF i] stream_letters_step six_bits_def [of 0])
    next
      case (Suc r')
      have l: "r' + 11 * (m - k) < r + 11 * (m - k)" using Suc by simp
      have n: "nat (i + 1) = Suc (nat i)" using i by simp
      show ?thesis
        using less.hyps [OF l, of "if nat (c mod 64) < 52 then i - 1 else i" "c div 64"
            "if nat (c mod 64) < 52 then sb @ [letterBytes ! nat (c mod 64)] else sb"] less.prems i
        by (auto simp: Suc rand_loop_step(1) [OF i] six_bits_Suc n split: if_splits)
    qed
  qed
qed

lemma rand_loop_needs:
  assumes "rand_loop (counted \<sigma>) i c r sb k = Some y"
  shows "\<exists>m. i < int (length (letters (six_bits r c) @ stream_letters \<sigma> k m))"
proof -
  have "F = counted \<sigma> \<longrightarrow> (\<exists>m. i < int (length (letters (six_bits r c) @ stream_letters \<sigma> k m)))"
    if "rand_loop F i c r sb k = Some y" for F
  proof (rule rand_loop.raw_induct [where P = "\<lambda>F i c r sb k y. F = counted \<sigma> \<longrightarrow>
      (\<exists>m. i < int (length (letters (six_bits r c) @ stream_letters \<sigma> k m)))", OF _ that], intro impI)
    fix f F i c r sb k and y :: "string \<times> nat"
    assume ih: "\<And>F i c r sb k y. f F i c r sb k = Some y \<Longrightarrow> F = counted \<sigma> \<longrightarrow>
        (\<exists>m. i < int (length (letters (six_bits r c) @ stream_letters \<sigma> k m)))"
      and y: "(if i < 0 then Some (sb, k)
         else let (cache1, remain1, s1) = (if r = 0 then case F k of (v, s') \<Rightarrow> (v, letterIdxMax, s') else (c, r, k));
             idx = nat (cache1 AND letterIdxMask);
             (sb1, i1) = (if idx < length letterBytes then (sb @ [letterBytes ! idx], i - 1) else (sb, i))
           in f F i1 (drop_bit letterIdxBits cache1) (remain1 - 1) sb1 s1) = Some y"
      and F: "F = counted \<sigma>"
    show "\<exists>m. i < int (length (letters (six_bits r c) @ stream_letters \<sigma> k m))"
    proof (cases "i < 0")
      case False
      obtain c1 r1 k1 where e: "(c1, r1, k1) = (if r = 0 then (\<sigma> k, 10, Suc k) else (c, r, k))" by (metis prod.exhaust)
      obtain r2 where r1: "r1 = Suc r2" using e by (cases r1) (auto split: if_splits)
      let ?l = "nat (c1 mod 64) < 52"
      have "f (counted \<sigma>) (if ?l then i - 1 else i) (c1 div 64) r2 (if ?l then sb @ [letterBytes ! nat (c1 mod 64)] else sb) k1 = Some y"
        using y False e r1 by (auto simp: F counted_def Let_def mask_mod drop_bit_eq_div split: if_splits)
      then obtain m where m: "(if ?l then i - 1 else i) < int (length (letters (six_bits r2 (c1 div 64)) @ stream_letters \<sigma> k1 m))"
        using ih by blast
      then have m': "i < int (length (letters (six_bits r1 c1) @ stream_letters \<sigma> k1 m))"
        by (simp add: r1 six_bits_Suc split: if_splits)
      show ?thesis
      proof (cases "r = 0")
        case True
        then have ks: "c1 = \<sigma> k" "r1 = 10" "k1 = Suc k" using e by simp_all
        have "i < int (length (stream_letters \<sigma> k (max m (Suc k))))"
          using m' stream_letters_step [of k "max m (Suc k)" \<sigma>]
          by (cases "Suc k \<le> m") (simp_all add: ks max_def stream_letters_def)
        then show ?thesis by (intro exI [of _ "max m (Suc k)"]) simp
      qed (use m' e in auto)
    qed (intro exI, linarith)
  qed
  then show ?thesis using assms by blast
qed

section \<open>The local address\<close>

text \<open>The addresses of the interfaces come from \<open>net\<close>; an address that is not an \<open>*net.IPNet\<close> is passed over.\<close>

datatype net_addr = IPNet "byte list" | OtherAddr

definition IsLoopback :: "byte list \<Rightarrow> bool" where
  "IsLoopback ip = (case To4 ip of Some ip4 \<Rightarrow> ip4 ! 0 = 127 | None \<Rightarrow> ip = replicate 15 0 @ [1])"

fun link_address :: "net_addr list \<Rightarrow> string" where
  "link_address [] = []"
| "link_address (IPNet ip # as) = (if \<not> IsLoopback ip \<and> To4 ip \<noteq> None then IP_String ip else link_address as)"
| "link_address (OtherAddr # as) = link_address as"

definition GetIPv4FromLink :: "go_error + net_addr list \<Rightarrow> string" where
  "GetIPv4FromLink addrs = (case addrs of Inl _ \<Rightarrow> [] | Inr as \<Rightarrow> link_address as)"

section \<open>Random digits\<close>

text \<open>
  \<open>RandomNum\<close> of \<^verbatim>\<open>utils/rabbitMQ/rabbitMQPool.go\<close>: \<open>Seed\<close> sets the generator to the time, and an index out of range panics.
\<close>

definition numberAttr :: "int list" where "numberAttr = [0, 1, 2, 3, 4, 5, 6, 7, 8, 9]"

primrec digits_loop :: "(int \<Rightarrow> 's \<Rightarrow> int \<times> 's) \<Rightarrow> nat \<Rightarrow> string \<Rightarrow> 's \<Rightarrow> string option" where
  "digits_loop Intn 0 sb s = Some sb"
| "digits_loop Intn (Suc n) sb s = (case Intn (int (length numberAttr)) s of (k, s') \<Rightarrow>
     if 0 \<le> k \<and> nat k < length numberAttr then digits_loop Intn n (sb @ Itoa (numberAttr ! nat k)) s' else None)"

definition RandomNum :: "(int \<Rightarrow> 's) \<Rightarrow> (int \<Rightarrow> 's \<Rightarrow> int \<times> 's) \<Rightarrow> int \<Rightarrow> int \<Rightarrow> string option" where
  "RandomNum Seed Intn now n = digits_loop Intn (nat n) [] (Seed now)"

lemma length_numberAttr: "length numberAttr = 10"
  by (simp add: numberAttr_def)

lemma Itoa_digit: "i < 10 \<Longrightarrow> Itoa (numberAttr ! i) = [digit i]"
proof -
  assume i: "i < 10"
  have "numberAttr = map int [0..<10]" by code_simp
  then have "numberAttr ! i = map int [0..<10] ! i" by (rule arg_cong)
  then have "numberAttr ! i = int i" using nth_map [of i "[0..<10]" int] nth_upt [of 0 i 10] i by (simp only: length_upt)
  then show ?thesis using i by (simp add: Itoa_def decimal.simps [of i])
qed

lemma digits_loop_digits:
  assumes "\<And>s. 0 \<le> fst (Intn 10 s) \<and> fst (Intn 10 s) < 10"
  shows "\<exists>ds. digits_loop Intn n sb s = Some (sb @ map digit ds) \<and> length ds = n \<and> (\<forall>d\<in>set ds. d < 10)"
proof (induction n arbitrary: sb s)
  case (Suc n)
  obtain k s' where k: "Intn 10 s = (k, s')" by (cases "Intn 10 s")
  then have r: "0 \<le> k" "nat k < 10" using assms [of s] by auto
  obtain ds where "digits_loop Intn n (sb @ [digit (nat k)]) s' = Some ((sb @ [digit (nat k)]) @ map digit ds)"
    "length ds = n" "\<forall>d\<in>set ds. d < 10" using Suc.IH by blast
  then show ?case using k r by (intro exI [of _ "nat k # ds"]) (simp add: Itoa_digit length_numberAttr)
qed simp

text \<open>The result has the asked number of characters, decimal digits all; none for a negative length.\<close>

lemma RandomNum_digits:
  "(\<And>s. 0 \<le> fst (Intn 10 s) \<and> fst (Intn 10 s) < 10) \<Longrightarrow>
   \<exists>ds. RandomNum Seed Intn now n = Some (map digit ds) \<and> length ds = nat n \<and> (\<forall>d\<in>set ds. d < 10)"
  using digits_loop_digits [of Intn "nat n" "[]" "Seed now"] by (simp add: RandomNum_def)

section \<open>The queue of channels\<close>

text \<open>The nodes are on a heap; \<open>l\<close> is a 32-bit counter. \<open>None\<close> is the panic of a nil pointer.\<close>

record cq_node =
  cq_data :: nat
  cq_nxt :: ptr

record ChannelQueue =
  cq_nodes :: "nat \<rightharpoonup> cq_node"
  cq_fresh :: nat
  cq_head :: ptr
  cq_end :: ptr
  cq_l :: "32 word"

definition NewChannelQueue :: ChannelQueue where
  "NewChannelQueue = \<lparr>cq_nodes = Map.empty, cq_fresh = 0, cq_head = None, cq_end = None, cq_l = 0\<rparr>"

definition cq_Add :: "nat \<Rightarrow> ChannelQueue \<Rightarrow> ChannelQueue option" where
  "cq_Add v q =
    (let n = cq_fresh q;
         q1 = q\<lparr>cq_nodes := (cq_nodes q)(n \<mapsto> \<lparr>cq_data = v, cq_nxt = None\<rparr>), cq_fresh := n + 1, cq_l := cq_l q + 1\<rparr>
     in case cq_end q1 of
          None \<Rightarrow> Some (q1\<lparr>cq_head := Some n, cq_end := Some n\<rparr>)
        | Some e \<Rightarrow> map_option (\<lambda>nd. q1\<lparr>cq_nodes := (cq_nodes q1)(e \<mapsto> nd\<lparr>cq_nxt := Some n\<rparr>), cq_end := Some n\<rparr>)
            (cq_nodes q1 e))"

definition cq_Pop :: "ChannelQueue \<Rightarrow> ((nat option \<times> bool) \<times> ChannelQueue) option" where
  "cq_Pop q = (case cq_head q of
     None \<Rightarrow> Some ((None, False), q)
   | Some h \<Rightarrow> map_option (\<lambda>nd.
       let q1 = q\<lparr>cq_l := cq_l q - 1, cq_head := cq_nxt nd\<rparr>;
           q2 = (if cq_head q1 = None then q1\<lparr>cq_end := None\<rparr> else q1)
       in ((Some (cq_data nd), True), q2)) (cq_nodes q h))"

definition cq_Count :: "ChannelQueue \<Rightarrow> int" where
  "cq_Count q = sint (cq_l q)"

fun cq_chain :: "(nat \<rightharpoonup> cq_node) \<Rightarrow> ptr \<Rightarrow> (nat \<times> nat) list \<Rightarrow> bool" where
  "cq_chain h p [] \<longleftrightarrow> p = None"
| "cq_chain h p ((a, v) # as) \<longleftrightarrow> p = Some a \<and> (\<exists>nd. h a = Some nd \<and> cq_data nd = v \<and> cq_chain h (cq_nxt nd) as)"

definition cq_rep :: "ChannelQueue \<Rightarrow> (nat \<times> nat) list \<Rightarrow> bool" where
  "cq_rep q as \<longleftrightarrow> cq_chain (cq_nodes q) (cq_head q) as \<and> distinct (map fst as) \<and> (\<forall>a\<in>set (map fst as). a < cq_fresh q) \<and>
     cq_end q = (if as = [] then None else Some (fst (last as))) \<and> cq_l q = of_nat (length as)"

definition cq_is :: "ChannelQueue \<Rightarrow> nat list \<Rightarrow> bool" where
  "cq_is q xs \<longleftrightarrow> (\<exists>as. cq_rep q as \<and> map snd as = xs)"

lemma cq_chain_other: "a \<notin> set (map fst as) \<Longrightarrow> cq_chain (h(a \<mapsto> nd)) p as = cq_chain h p as"
  by (induction as arbitrary: p) auto

lemma cq_chain_snoc:
  "cq_chain h p (as @ [(e, v)]) \<Longrightarrow> distinct (map fst (as @ [(e, v)])) \<Longrightarrow> n \<notin> set (map fst (as @ [(e, v)])) \<Longrightarrow>
   \<exists>nd. h e = Some nd \<and> cq_chain (h(n \<mapsto> \<lparr>cq_data = w, cq_nxt = None\<rparr>, e \<mapsto> nd\<lparr>cq_nxt := Some n\<rparr>)) p (as @ [(e, v), (n, w)])"
  by (induction as arbitrary: p) auto

lemma cq_Add_rep:
  assumes "cq_rep q as"
  shows "case cq_Add v q of None \<Rightarrow> False | Some q' \<Rightarrow> cq_rep q' (as @ [(cq_fresh q, v)])"
proof (cases as rule: rev_cases)
  case Nil
  then show ?thesis using assms by (simp add: cq_Add_def cq_rep_def Let_def)
next
  case (snoc bs b)
  obtain e w where b: "b = (e, w)" by (cases b)
  have n: "cq_fresh q \<notin> set (map fst (bs @ [(e, w)]))" using assms snoc b by (auto simp: cq_rep_def)
  obtain nd where "cq_nodes q e = Some nd"
    "cq_chain ((cq_nodes q)(cq_fresh q \<mapsto> \<lparr>cq_data = v, cq_nxt = None\<rparr>, e \<mapsto> nd\<lparr>cq_nxt := Some (cq_fresh q)\<rparr>))
      (cq_head q) (bs @ [(e, w), (cq_fresh q, v)])"
    using cq_chain_snoc [of "cq_nodes q" "cq_head q" bs e w "cq_fresh q" v] n assms snoc b by (auto simp: cq_rep_def)
  then show ?thesis using assms snoc b n by (auto simp: cq_Add_def cq_rep_def Let_def less_Suc_eq)
qed

lemma cq_Pop_rep:
  assumes "cq_rep q as"
  shows "case as of [] \<Rightarrow> cq_Pop q = Some ((None, False), q)
    | (a, v) # bs \<Rightarrow> (case cq_Pop q of None \<Rightarrow> False | Some (r, q') \<Rightarrow> r = (Some v, True) \<and> cq_rep q' bs)"
proof (cases as)
  case (Cons b bs)
  then show ?thesis using assms by (cases b; cases bs) (auto simp: cq_Pop_def cq_rep_def Let_def)
qed (use assms in \<open>simp add: cq_Pop_def cq_rep_def\<close>)

text \<open>The queue is a list: \<open>Add\<close> appends, \<open>Pop\<close> takes the first, and \<open>Count\<close> is the length of a list that is not too long.\<close>

lemma channel_queue_list:
  "cq_is NewChannelQueue []"
  "cq_is q xs \<Longrightarrow> \<exists>q'. cq_Add v q = Some q' \<and> cq_is q' (xs @ [v])"
  "cq_is q [] \<Longrightarrow> cq_Pop q = Some ((None, False), q)"
  "cq_is q (x # xs) \<Longrightarrow> \<exists>q'. cq_Pop q = Some ((Some x, True), q') \<and> cq_is q' xs"
  "cq_is q xs \<Longrightarrow> length xs < 2 ^ 31 \<Longrightarrow> cq_Count q = int (length xs)"
proof -
  show "cq_is NewChannelQueue []" by (simp add: cq_is_def cq_rep_def NewChannelQueue_def)
  show "\<exists>q'. cq_Add v q = Some q' \<and> cq_is q' (xs @ [v])" if "cq_is q xs"
    using that cq_Add_rep [of q _ v] unfolding cq_is_def by (fastforce split: option.splits)
  show "cq_Pop q = Some ((None, False), q)" if "cq_is q []"
    using that cq_Pop_rep [of q "[]"] unfolding cq_is_def by auto
  show "\<exists>q'. cq_Pop q = Some ((Some x, True), q') \<and> cq_is q' xs" if q: "cq_is q (x # xs)"
  proof -
    obtain a bs where "cq_rep q ((a, x) # bs)" "map snd bs = xs" using q by (auto simp: cq_is_def)
    then show ?thesis using cq_Pop_rep [of q "(a, x) # bs"] by (auto simp: cq_is_def split: option.splits)
  qed
  show "cq_Count q = int (length xs)" if "cq_is q xs" "length xs < 2 ^ 31"
    using that by (auto simp: cq_is_def cq_rep_def cq_Count_def signed_of_nat signed_take_bit_int_eq_self)
qed

section \<open>Properties\<close>

text \<open>C40: The random string of length \<open>n\<close> is the first \<open>n\<close> letters that the source gives when each of its
  numbers is read as ten groups of six bits and the groups above 51 are dropped; the loop ends exactly when the
  source gives that many letters.\<close>

theorem rand_string_equiv:
  assumes "0 \<le> n"
  shows "(RandStringBytesMaskImprSrcSB (counted \<sigma>) n k \<noteq> None \<longleftrightarrow> (\<exists>m. nat n \<le> length (stream_letters \<sigma> k m))) \<and>
    (\<forall>m. nat n \<le> length (stream_letters \<sigma> k m) \<longrightarrow>
       (\<exists>k'. RandStringBytesMaskImprSrcSB (counted \<sigma>) n k = Some (Some (take (nat n) (stream_letters \<sigma> k m), k'))))"
proof -
  let ?r = "rand_loop (counted \<sigma>) (n - 1) (\<sigma> k) 10 [] (Suc k)"
  have r: "RandStringBytesMaskImprSrcSB (counted \<sigma>) n k = map_option Some ?r"
    using assms by (simp add: RandStringBytesMaskImprSrcSB_def counted_def)
  have parts: "\<exists>m. length (stream_letters \<sigma> k m) = length (letters (six_bits 10 (\<sigma> k)) @ stream_letters \<sigma> (Suc k) m')" for m'
  proof (cases "k < m'")
    case True
    then show ?thesis by (intro exI [of _ m']) (simp add: stream_letters_step)
  next
    case False
    then have "stream_letters \<sigma> k (Suc k) = letters (six_bits 10 (\<sigma> k))" "stream_letters \<sigma> (Suc k) m' = []"
      by (simp_all add: stream_letters_def)
    then show ?thesis by (intro exI [of _ "Suc k"]) simp
  qed
  have ret: "\<exists>k'. ?r = Some (take (nat n) (stream_letters \<sigma> k m), k')" if m: "nat n \<le> length (stream_letters \<sigma> k m)" for m
  proof (cases "k < m")
    case True
    then show ?thesis using rand_loop_returns [of "n - 1" 10 "\<sigma> k" \<sigma> "Suc k" m "[]"] m assms
      by (simp add: stream_letters_step)
  next
    case False
    then have "n = 0" using m assms by (simp add: stream_letters_def)
    then show ?thesis by (subst rand_loop.simps) simp
  qed
  have "\<exists>m. nat n \<le> length (stream_letters \<sigma> k m)" if "?r = Some y" for y
    using rand_loop_needs [OF that] parts assms by (metis int_nat_eq linorder_not_le of_nat_less_iff zle_diff1_eq)
  then have "?r \<noteq> None \<longleftrightarrow> (\<exists>m. nat n \<le> length (stream_letters \<sigma> k m))" using ret by (metis option.exhaust option.distinct(1))
  then show ?thesis using ret by (fastforce simp: r)
qed

theorem rand_string_equiv_witness:
  "\<exists>k'. RandStringBytesMaskImprSrcSB (counted (\<lambda>_. 65)) 3 0 = Some (Some (''bba'', k'))"
proof -
  have l: "stream_letters (\<lambda>_. 65) 0 1 = ''bbaaaaaaaa''"
    by (simp add: stream_letters_def six_bits_def letterBytes_def upt_rec zdiv_zmult2_eq)
  then have "nat 3 \<le> length (stream_letters (\<lambda>_. 65) 0 1)" "take (nat 3) (stream_letters (\<lambda>_. 65) 0 1) = ''bba''" by simp_all
  note l3 = this
  have "\<exists>k'. RandStringBytesMaskImprSrcSB (counted (\<lambda>_. 65)) 3 0 = Some (Some (take (nat 3) (stream_letters (\<lambda>_. 65) 0 1), k'))"
    by (rule conjunct2 [OF rand_string_equiv [of 3 "\<lambda>_. 65" 0], rule_format]) (simp_all add: l3(1) [simplified])
  then show ?thesis unfolding l3(2) .
qed

end
