(* ===== verification/Lifecycle.thy ===== *)
theory Lifecycle
  imports SendQueue TaskManager
begin

text \<open>
  The life of the server, from \<open>Start\<close> to the end of \<open>Stop\<close> (\<^verbatim>\<open>server/manager.go\<close>): the task manager, the
  calls of \<open>tcpAccept\<close> (\<^verbatim>\<open>server/tcp_server.go\<close>) with their listeners and handlers, and the report queues with
  the goroutines that empty them (\<^verbatim>\<open>server/rabbitmq_product.go\<close>), put together as one step relation.
\<close>

section \<open>The server\<close>

text \<open>
  A call of \<open>tcpAccept\<close>: one \<open>tcpListenerAccept\<close> for each listener; when all have returned it pauses, until
  the context is done or for five seconds.
\<close>

datatype tcp_pc = Listening | Pausing | Returned

record tcp_call =
  tc_loops :: "accept_loop list"
  tc_pc :: tcp_pc

definition tcpAccept :: "nat \<Rightarrow> server_stage \<Rightarrow> tcp_call" where
  "tcpAccept listeners st =
     \<lparr>tc_loops = replicate listeners (tcpListenerAccept_start\<lparr>al_stage := st\<rparr>), tc_pc = Listening\<rparr>"

definition AcceptAmount :: nat where
  "AcceptAmount = 8"

text \<open>
  The calls of the first task, \<open>tcpAccept\<close>, are in the order of the calls of the first loop of the task
  manager. \<open>sv_reported\<close> and \<open>sv_pushed\<close> are the messages that handlers have reported and that have been given to
  \<open>Push\<close> so far.
\<close>

record server =
  sv_stage :: server_stage
  sv_listeners :: nat
  sv_tm :: task_manager
  sv_calls :: "tcp_call list"
  sv_queue :: sendq
  sv_senders :: "sender list"
  sv_reported :: "RabbitMqData list"
  sv_pushed :: "RabbitMqData list"
  sv_closed :: bool
  sv_returned :: bool

definition Start :: "nat \<Rightarrow> server" where
  "Start listeners = \<lparr>sv_stage = Serving, sv_listeners = listeners,
     sv_tm = \<lparr>tm_stop = Open, tm_adding = [], tm_loops = [AddTask_loop AcceptAmount, AddTask_loop 1, AddTask_loop 1]\<rparr>,
     sv_calls = [], sv_queue = initRabbitmqSendQueueSlices,
     sv_senders = runhandleRabbitmqSendQueue,
     sv_reported = [], sv_pushed = [], sv_closed = False, sv_returned = False\<rparr>"

definition accept_calls :: "task_manager \<Rightarrow> call_pc list" where
  "accept_calls m = tl_calls (tm_loops m ! 0)"

text \<open>A call of \<open>tcpAccept\<close> is started with its goroutine, and the goroutine goes on when the call has returned.\<close>

inductive follow :: "tcp_call \<Rightarrow> tcp_call list \<Rightarrow> call_pc list \<Rightarrow> call_pc list \<Rightarrow> tcp_call list \<Rightarrow> bool" for new cs old where
  other: "follow new cs old old cs"
| started: "follow new cs old (old @ [Running]) (cs @ [new])"
| returned: "i < length old \<Longrightarrow> old ! i = Running \<Longrightarrow> tc_pc (cs ! i) = Returned \<Longrightarrow> follow new cs old (old[i := Leaving]) cs"
| released: "i < length old \<Longrightarrow> old ! i = Leaving \<Longrightarrow> follow new cs old (old[i := Gone]) cs"

definition set_stage :: "server_stage \<Rightarrow> server \<Rightarrow> server" where
  "set_stage st s = s\<lparr>sv_stage := st,
     sv_calls := map (\<lambda>c. c\<lparr>tc_loops := map (\<lambda>a. a\<lparr>al_stage := st\<rparr>) (tc_loops c)\<rparr>) (sv_calls s)\<rparr>"

text \<open>A handler that has not returned.\<close>

definition live_handler :: "server \<Rightarrow> bool" where
  "live_handler s \<longleftrightarrow> (\<exists>c\<in>set (sv_calls s). \<exists>a\<in>set (tc_loops c). \<exists>k\<in>set (al_conns a). \<not> ac_handled k)"

inductive server_step :: "server \<Rightarrow> server \<Rightarrow> bool" where
  task: "task_step (sv_tm s) m \<Longrightarrow> tm_stop m = tm_stop (sv_tm s) \<Longrightarrow>
     follow (tcpAccept (sv_listeners s) (sv_stage s)) (sv_calls s) (accept_calls (sv_tm s)) (accept_calls m) cs \<Longrightarrow>
     server_step s (s\<lparr>sv_tm := m, sv_calls := cs\<rparr>)"
| listen: "i < length (sv_calls s) \<Longrightarrow> c = sv_calls s ! i \<Longrightarrow> tc_pc c = Listening \<Longrightarrow> j < length (tc_loops c) \<Longrightarrow>
     accept_step (tc_loops c ! j) a \<Longrightarrow> al_stage a = al_stage (tc_loops c ! j) \<Longrightarrow>
     server_step s (s\<lparr>sv_calls := (sv_calls s)[i := c\<lparr>tc_loops := (tc_loops c)[j := a]\<rparr>]\<rparr>)"
| joined: "i < length (sv_calls s) \<Longrightarrow> c = sv_calls s ! i \<Longrightarrow> tc_pc c = Listening \<Longrightarrow>
     \<forall>a\<in>set (tc_loops c). al_pc a = AcceptOver \<Longrightarrow>
     server_step s (s\<lparr>sv_calls := (sv_calls s)[i := c\<lparr>tc_pc := Pausing\<rparr>]\<rparr>)"
| paused: "i < length (sv_calls s) \<Longrightarrow> c = sv_calls s ! i \<Longrightarrow> tc_pc c = Pausing \<Longrightarrow>
     server_step s (s\<lparr>sv_calls := (sv_calls s)[i := c\<lparr>tc_pc := Returned\<rparr>]\<rparr>)"
| report: "live_handler s \<Longrightarrow> pushRabbitmqSendQueue pick d (sv_queue s) = Some q \<Longrightarrow>
     server_step s (s\<lparr>sv_queue := q, sv_reported := sv_reported s @ [d]\<rparr>)"
| take: "w < length (sv_senders s) \<Longrightarrow> sv_senders s ! w = AtQueue \<Longrightarrow>
     dequeue (rabbitmqSendQueueSlices (sv_queue s) ! queue_of w) = Some ((Some d, True, isClose), q) \<Longrightarrow>
     server_step s (s\<lparr>sv_queue := set_queue (queue_of w) q (sv_queue s), sv_senders := (sv_senders s)[w := Pushing d]\<rparr>)"
| pushed: "w < length (sv_senders s) \<Longrightarrow> sv_senders s ! w = Pushing d \<Longrightarrow>
     server_step s (s\<lparr>sv_pushed := sv_pushed s @ [d], sv_senders := (sv_senders s)[w := AtQueue]\<rparr>)"
| sender_ends: "w < length (sv_senders s) \<Longrightarrow> sv_senders s ! w = AtQueue \<Longrightarrow>
     dequeue (rabbitmqSendQueueSlices (sv_queue s) ! queue_of w) = Some ((v, False, True), q) \<Longrightarrow>
     server_step s (s\<lparr>sv_senders := (sv_senders s)[w := SenderOver]\<rparr>)"
| stop_run: "sv_stage s = Serving \<Longrightarrow> server_step s (set_stage NotRunning s)"
| stop_listen: "sv_stage s = NotRunning \<Longrightarrow> server_step s (set_stage ListenersClosed s)"
| stop_cancel: "sv_stage s = ListenersClosed \<Longrightarrow> task_step (sv_tm s) m \<Longrightarrow> tm_stop (sv_tm s) = Open \<Longrightarrow>
     tm_stop m = Cancelled \<Longrightarrow> server_step s (set_stage ContextDone s\<lparr>sv_tm := m\<rparr>)"
| stop_waited: "task_step (sv_tm s) m \<Longrightarrow> tm_stop (sv_tm s) = Cancelled \<Longrightarrow> tm_stop m = Stopped \<Longrightarrow>
     server_step s (s\<lparr>sv_tm := m\<rparr>)"
| stop_close: "tm_stop (sv_tm s) = Stopped \<Longrightarrow> \<not> sv_closed s \<Longrightarrow>
     server_step s (s\<lparr>sv_queue := closeRabbitmqSendQueueSlices (sv_queue s), sv_closed := True\<rparr>)"
| stop_returns: "sv_closed s \<Longrightarrow> \<not> sv_returned s \<Longrightarrow> \<forall>x\<in>set (sv_senders s). x = SenderOver \<Longrightarrow> server_step s (s\<lparr>sv_returned := True\<rparr>)"

inductive server_reach :: "server \<Rightarrow> bool" where
  start: "server_reach (Start listeners)"
| move: "server_reach s \<Longrightarrow> server_step s s' \<Longrightarrow> server_reach s'"

section \<open>The invariant\<close>

definition call_inv :: "server_stage \<Rightarrow> tcp_call \<Rightarrow> bool" where
  "call_inv st c \<longleftrightarrow> (\<forall>a\<in>set (tc_loops c). accept_inv a \<and> al_stage a = st) \<and>
     (tc_pc c \<noteq> Listening \<longrightarrow> (\<forall>a\<in>set (tc_loops c). al_pc a = AcceptOver))"

definition calls_inv :: "server \<Rightarrow> bool" where
  "calls_inv s \<longleftrightarrow> tm_loops (sv_tm s) \<noteq> [] \<and> task_inv (sv_tm s) \<and>
     length (sv_calls s) = length (accept_calls (sv_tm s)) \<and> (\<forall>c\<in>set (sv_calls s). call_inv (sv_stage s) c) \<and>
     (\<forall>i<length (sv_calls s). accept_calls (sv_tm s) ! i \<noteq> Running \<longrightarrow> tc_pc (sv_calls s ! i) = Returned) \<and>
     (sv_stage s = ContextDone \<longleftrightarrow> tm_stop (sv_tm s) \<noteq> Open)"

definition queued :: "sendq \<Rightarrow> RabbitMqData multiset" where
  "queued sq = mset (concat (slice_msgs sq))"

definition slices_ok :: "bool \<Rightarrow> sendq \<Rightarrow> bool" where
  "slices_ok opn sq \<longleftrightarrow> length (rabbitmqSendQueueSlices sq) = 8 \<and>
     (\<forall>q\<in>set (rabbitmqSendQueueSlices sq). mq_inv q \<and> q_status q = opn \<and> None \<notin> set (mq_list q))"

definition queues_inv :: "server \<Rightarrow> bool" where
  "queues_inv s \<longleftrightarrow> slices_ok (\<not> sv_closed s) (sv_queue s) \<and> length (sv_senders s) = 32 \<and>
     mset (sv_reported s) = mset (sv_pushed s) + mset (concat (map in_flight (sv_senders s))) + queued (sv_queue s) \<and>
     (\<forall>w<32. sv_senders s ! w = SenderOver \<longrightarrow>
        sv_closed s \<and> mq_list (rabbitmqSendQueueSlices (sv_queue s) ! queue_of w) = []) \<and>
     (sv_closed s \<longrightarrow> tm_stop (sv_tm s) = Stopped) \<and>
     (sv_returned s \<longrightarrow> sv_closed s \<and> (\<forall>x\<in>set (sv_senders s). x = SenderOver))"

definition server_inv :: "server \<Rightarrow> bool" where
  "server_inv s \<longleftrightarrow> calls_inv s \<and> queues_inv s"

subsection \<open>The calls of the accept task\<close>

lemma task_step_loops: "task_step m m' \<Longrightarrow> tm_loops m \<noteq> [] \<Longrightarrow> tm_loops m' \<noteq> []"
  by (induction rule: task_step.induct) auto

lemma accept_inv_stage: "accept_inv a \<Longrightarrow> al_stage a \<noteq> ContextDone \<Longrightarrow> accept_inv (a\<lparr>al_stage := st\<rparr>)"
  by (fastforce simp: accept_inv_def conn_inv_def)

lemma call_inv_stage:
  assumes "call_inv st c" "st \<noteq> ContextDone"
  shows "call_inv st' (c\<lparr>tc_loops := map (\<lambda>a. a\<lparr>al_stage := st'\<rparr>) (tc_loops c)\<rparr>)"
  using assms accept_inv_stage by (auto simp: call_inv_def)

lemma call_inv_new: "call_inv st (tcpAccept n st)"
  by (auto simp: call_inv_def tcpAccept_def tcpListenerAccept_start_def accept_inv_def)

lemma call_inv_listen:
  assumes "call_inv st c" "tc_pc c = Listening" "j < length (tc_loops c)" "accept_step (tc_loops c ! j) a"
    "al_stage a = al_stage (tc_loops c ! j)"
  shows "call_inv st (c\<lparr>tc_loops := (tc_loops c)[j := a]\<rparr>)"
proof -
  have "tc_loops c ! j \<in> set (tc_loops c)" using assms(3) by simp
  then have "accept_inv a \<and> al_stage a = st" using assms accept_step_inv [OF assms(4)] by (simp add: call_inv_def)
  then show ?thesis
    using assms(1,2) set_update_subset_insert [of "tc_loops c" j a] by (auto simp: call_inv_def)
qed

lemma follow_length: "follow new cs old calls cs' \<Longrightarrow> length cs = length old \<Longrightarrow> length cs' = length calls"
  by (induction rule: follow.induct) auto

lemma follow_returned:
  assumes "follow new cs old calls cs'" "length cs = length old"
    "\<forall>i<length cs. old ! i \<noteq> Running \<longrightarrow> tc_pc (cs ! i) = Returned"
  shows "\<forall>i<length cs'. calls ! i \<noteq> Running \<longrightarrow> tc_pc (cs' ! i) = Returned"
  using assms by (induction rule: follow.induct) (auto simp: nth_append nth_list_update)

lemma follow_calls: "follow new cs old calls cs' \<Longrightarrow> set cs' \<subseteq> insert new (set cs)"
  by (induction rule: follow.induct) auto

lemma update_call:
  assumes "calls_inv s" "i < length (sv_calls s)" "call_inv (sv_stage s) c" "tc_pc (sv_calls s ! i) \<noteq> Returned"
  shows "calls_inv (s\<lparr>sv_calls := (sv_calls s)[i := c]\<rparr>)"
  using assms set_update_subset_insert [of "sv_calls s" i c] unfolding calls_inv_def by (auto simp: nth_list_update)

lemma set_stage_calls:
  assumes "calls_inv s" "sv_stage s \<noteq> ContextDone" "st \<noteq> ContextDone"
  shows "calls_inv (set_stage st s)"
  using assms call_inv_stage unfolding calls_inv_def set_stage_def by auto

lemma stop_manager: "tm_stop (sv_tm s) \<noteq> tm_stop m \<Longrightarrow> task_step (sv_tm s) m \<Longrightarrow> accept_calls m = accept_calls (sv_tm s)"
  by (cases rule: task_step.cases) (auto simp: accept_calls_def)

lemma server_step_calls:
  assumes "server_step s s'" "calls_inv s"
  shows "calls_inv s'"
  using assms
proof (induction rule: server_step.induct)
  case (task s m cs)
  have new: "call_inv (sv_stage s) (tcpAccept (sv_listeners s) (sv_stage s))" by (rule call_inv_new)
  show ?case
    using task task_step_inv [OF task(1)] task_step_loops [OF task(1)] follow_length [OF task(3)] follow_returned [OF task(3)]
      follow_calls [OF task(3)] new
    by (auto simp: calls_inv_def)
next
  case (listen i s c j a)
  have "call_inv (sv_stage s) c" using listen by (simp add: calls_inv_def)
  then show ?case using call_inv_listen [OF _ listen(3-6)] listen by (intro update_call) auto
next
  case (joined i s c)
  have "call_inv (sv_stage s) c" using joined by (simp add: calls_inv_def)
  then show ?case using joined by (intro update_call) (auto simp: call_inv_def)
next
  case (paused i s c)
  have "call_inv (sv_stage s) c" using paused by (simp add: calls_inv_def)
  then show ?case using paused by (intro update_call) (auto simp: call_inv_def)
next
  case (stop_run s)
  then show ?case by (intro set_stage_calls) simp_all
next
  case (stop_listen s)
  then show ?case by (intro set_stage_calls) simp_all
next
  case (stop_cancel s m)
  then have "accept_calls m = accept_calls (sv_tm s)" by (intro stop_manager) simp_all
  then show ?case
    using stop_cancel task_step_inv [OF stop_cancel(2)] task_step_loops [OF stop_cancel(2)] call_inv_stage
    by (auto simp: calls_inv_def set_stage_def)
next
  case (stop_waited s m)
  then have "accept_calls m = accept_calls (sv_tm s)" by (intro stop_manager) simp_all
  then show ?case
    using stop_waited task_step_inv [OF stop_waited(1)] task_step_loops [OF stop_waited(1)] by (auto simp: calls_inv_def)
qed (auto simp: calls_inv_def)

text \<open>When \<open>tcm.Stop\<close> has returned every connection is closed and no handler is left.\<close>

lemma all_handled:
  assumes "calls_inv s" "tm_stop (sv_tm s) = Stopped"
  shows "\<forall>c\<in>set (sv_calls s). \<forall>a\<in>set (tc_loops c). \<forall>k\<in>set (al_conns a). ac_closed k \<and> ac_handled k"
proof (intro ballI)
  fix c a k
  assume k: "c \<in> set (sv_calls s)" "a \<in> set (tc_loops c)" "k \<in> set (al_conns a)"
  have l: "tm_loops (sv_tm s) ! 0 \<in> set (tm_loops (sv_tm s))" using assms(1) by (simp add: calls_inv_def)
  then have "Running \<notin> set (accept_calls (sv_tm s))"
    using assms unfolding calls_inv_def task_inv_def accept_calls_def quiet_def by blast
  then have "\<forall>i<length (sv_calls s). tc_pc (sv_calls s ! i) = Returned"
    using assms(1) unfolding calls_inv_def by (metis nth_mem)
  then have "tc_pc c = Returned" using k(1) by (auto simp: in_set_conv_nth)
  then have "al_pc a = AcceptOver" "accept_inv a"
    using assms(1) k(1,2) unfolding calls_inv_def call_inv_def by (metis tcp_pc.distinct(3), metis)
  then have "conn_inv (al_stage a) k" "ac_pc k = Watched" using k(3) by (simp_all add: accept_inv_def)
  then show "ac_closed k \<and> ac_handled k" by (simp add: conn_inv_def)
qed

lemma no_handler: "calls_inv s \<Longrightarrow> tm_stop (sv_tm s) = Stopped \<Longrightarrow> \<not> live_handler s"
  using all_handled by (auto simp: live_handler_def)

subsection \<open>The reports\<close>

lemma queued_update:
  assumes "i < length (rabbitmqSendQueueSlices sq)"
  shows "queued (set_queue i q sq) + mset (map the (mq_list (rabbitmqSendQueueSlices sq ! i))) =
    queued sq + mset (map the (mq_list q))"
proof -
  have u: "mset (concat (xss[i := ys])) + mset (xss ! i) = mset (concat xss) + mset ys" if "i < length xss"
    for xss :: "'b list list" and i ys
    using that
  proof (induction xss arbitrary: i)
    case (Cons xs xss)
    then show ?case by (cases i) (auto simp: ac_simps)
  qed simp
  show ?thesis using u [of i "slice_msgs sq" "map the (mq_list q)"] assms
    by (simp add: queued_def slice_msgs_def set_queue_def map_update)
qed

lemma push_queued:
  assumes "slices_ok True sq" "pushRabbitmqSendQueue pick d sq = Some sq'"
  shows "slices_ok True sq' \<and> queued sq' = queued sq + {#d#} \<and> length (rabbitmqSendQueueSlices sq') = 8"
proof -
  let ?c = "rabbitmqSendQueueSlicesCounter sq + 1"
  let ?i = "slice_index ?c" and ?qs = "rabbitmqSendQueueSlices sq"
  have i: "?i < length ?qs" using assms(1) by (simp add: slices_ok_def)
  then have q: "mq_inv (?qs ! ?i)" "Status (?qs ! ?i)" "None \<notin> set (mq_list (?qs ! ?i))"
    using assms(1) by (auto simp: slices_ok_def Status_def)
  from mq.enq_open [OF q(1,2), of pick "Some d"] obtain q' where
    e: "Enqueue pick (Some d) (?qs ! ?i) = Some (None, q')" "mq_inv q'" "mq_list q' = mq_list (?qs ! ?i) @ [Some d]"
      "q_status q'"
    by (auto simp: Status_def)
  have sq': "sq' = set_queue ?i q' (sq\<lparr>rabbitmqSendQueueSlicesCounter := ?c\<rparr>)"
    using assms(2) i e(1) by (simp add: pushRabbitmqSendQueue_def slice_index_mod Let_def set_queue_def)
  have "slices_ok True sq'"
    using assms(1) q e set_update_subset_insert [of ?qs ?i q'] by (auto simp: slices_ok_def sq' set_queue_def)
  moreover have "queued sq' = queued sq + {#d#}"
    using queued_update [of ?i "sq\<lparr>rabbitmqSendQueueSlicesCounter := ?c\<rparr>" q'] i e(3)
    by (simp add: sq' queued_def slice_msgs_def)
  ultimately show ?thesis by (simp add: slices_ok_def)
qed

text \<open>A message taken from a queue.\<close>

lemma take_queued:
  assumes ok: "slices_ok opn sq" and i: "i < 8"
    and d: "dequeue (rabbitmqSendQueueSlices sq ! i) = Some ((v, ok', isClose), q)"
  shows "if ok' then \<exists>x. v = Some x \<and> slices_ok opn (set_queue i q sq) \<and> queued sq = queued (set_queue i q sq) + {#x#} \<and>
      mq_list (rabbitmqSendQueueSlices sq ! i) \<noteq> []
    else isClose = (\<not> opn) \<and> mq_list (rabbitmqSendQueueSlices sq ! i) = []"
proof -
  let ?q = "rabbitmqSendQueueSlices sq ! i"
  have len: "i < length (rabbitmqSendQueueSlices sq)" using ok i by (simp add: slices_ok_def)
  then have q: "mq_inv ?q" "q_status ?q = opn" "None \<notin> set (mq_list ?q)" using ok by (auto simp: slices_ok_def)
  show ?thesis
  proof (cases "mq_list ?q")
    case Nil
    then show ?thesis using mq.deq_empty [OF q(1) Nil] d q(2) by (auto simp: Status_def)
  next
    case (Cons x xs)
    obtain q' where q': "dequeue ?q = Some ((x, True, \<not> Status ?q), q')" "mq_inv q'" "mq_list q' = xs" "Status q' = Status ?q"
      using mq.deq_cons [OF q(1) Cons] by blast
    obtain y where x: "x = Some y" using q(3) Cons by (cases x) auto
    have "slices_ok opn (set_queue i q' sq)"
      using ok q q' Cons len set_update_subset_insert [of "rabbitmqSendQueueSlices sq" i q']
      by (auto simp: slices_ok_def set_queue_def Status_def)
    then show ?thesis using queued_update [OF len, of q'] q' d x Cons by (simp add: Status_def)
  qed
qed

text \<open>After the queues have been closed they only get shorter.\<close>

lemma stays_empty:
  assumes "slices_ok opn sq" "i < 8" "dequeue (rabbitmqSendQueueSlices sq ! i) = Some ((Some d, True, isClose), q)"
    "mq_list (rabbitmqSendQueueSlices sq ! j) = []"
  shows "mq_list (rabbitmqSendQueueSlices (set_queue i q sq) ! j) = []"
  using take_queued [OF assms(1-3)] assms(4) by (cases "i = j") auto

lemma take_inv:
  assumes "queues_inv s" "w < length (sv_senders s)" "sv_senders s ! w = AtQueue"
    "dequeue (rabbitmqSendQueueSlices (sv_queue s) ! queue_of w) = Some ((Some d, True, isClose), q)"
  shows "queues_inv (s\<lparr>sv_queue := set_queue (queue_of w) q (sv_queue s), sv_senders := (sv_senders s)[w := Pushing d]\<rparr>)"
proof -
  have w: "queue_of w < 8" using assms(1,2) queue_of_less by (simp add: queues_inv_def)
  have ok: "slices_ok (\<not> sv_closed s) (sv_queue s)" using assms(1) by (simp add: queues_inv_def)
  note t = take_queued [OF ok w assms(4), simplified] and e = stays_empty [OF ok w assms(4)]
  show ?thesis
    using assms(1-3) t e in_flight_update [OF assms(2), of "Pushing d"]
      set_update_subset_insert [of "sv_senders s" w "Pushing d"]
    unfolding queues_inv_def by (auto simp: nth_list_update)
qed

lemma server_step_queues:
  assumes "server_step s s'" "calls_inv s" "queues_inv s"
  shows "queues_inv s'"
  using assms
proof (induction rule: server_step.induct)
  case (report s pick d q)
  then have "\<not> sv_closed s" using no_handler by (auto simp: queues_inv_def)
  then show ?case using report push_queued [of "sv_queue s" pick d q] by (auto simp: queues_inv_def)
next
  case (take w s d isClose q)
  then show ?case by (intro take_inv)
next
  case (pushed w s d)
  then show ?case using in_flight_update [OF pushed(1), of AtQueue] nth_mem [OF pushed(1)]
    by (auto simp: queues_inv_def nth_list_update)
next
  case (sender_ends w s v q)
  then have w: "w < 32" "queue_of w < 8" "slices_ok (\<not> sv_closed s) (sv_queue s)" using queue_of_less by (simp_all add: queues_inv_def)
  show ?case using sender_ends in_flight_update [OF sender_ends(1), of SenderOver] take_queued [OF w(3,2) sender_ends(3)] nth_mem [OF sender_ends(1)]
    by (auto simp: queues_inv_def nth_list_update)
next
  case (stop_close s)
  have c: "slice_msgs (closeRabbitmqSendQueueSlices sq) = slice_msgs sq" if "slices_ok True sq" for sq
    using that by (auto simp: slice_msgs_def closeRabbitmqSendQueueSlices_def Close_same slices_ok_def comp_def)
  have "slices_ok False (closeRabbitmqSendQueueSlices sq)" if "slices_ok True sq" for sq
    using that by (auto simp: slices_ok_def closeRabbitmqSendQueueSlices_def Close_same)
  then show ?case using stop_close c by (auto simp: queues_inv_def queued_def)
qed (auto simp: queues_inv_def set_stage_def)

lemma AddTask_loop_calls [simp]: "tl_calls (AddTask_loop n) = []"
  by (simp add: AddTask_loop_def)

lemma server_reach_inv: "server_reach s \<Longrightarrow> server_inv s"
proof (induction rule: server_reach.induct)
  case (start listeners)
  have "queued initRabbitmqSendQueueSlices = {#}" by (simp add: queued_def sendq_init(2))
  moreover have "slices_ok True initRabbitmqSendQueueSlices"
    by (auto simp: slices_ok_def initRabbitmqSendQueueSlices_def NewMQueue_empty RabbitmqSendQueueSlicesShareSize_def)
  ultimately show ?case
    by (simp add: server_inv_def Start_def calls_inv_def queues_inv_def task_inv_def accept_calls_def loop_inv_new AddTask_loop_calls
        RabbitmqSendQueueSlicesShareSize_def RabbitmqSendQueueSlicesHandlerCount_def ctx_done_def)
next
  case (move s s')
  then show ?case using server_step_calls server_step_queues by (auto simp: server_inv_def)
qed

section \<open>Stopping\<close>

text \<open>What can still happen; a listener call that is still to be started counts for its task.\<close>

definition tcp_rest :: "tcp_call \<Rightarrow> nat" where
  "tcp_rest c = weight accept_rest (tc_loops c) + (case tc_pc c of Listening \<Rightarrow> 2 | Pausing \<Rightarrow> 1 | Returned \<Rightarrow> 0)"

definition sender_rest :: "sender \<Rightarrow> nat" where
  "sender_rest x = (case x of SenderOver \<Rightarrow> 0 | AtQueue \<Rightarrow> 1 | Pushing _ \<Rightarrow> 2)"

definition starting :: "nat \<Rightarrow> task_manager \<Rightarrow> nat" where
  "starting listeners m = (if tl_pc (tm_loops m ! 0) = Passed then tcp_rest (tcpAccept listeners ContextDone) else 0)"

definition tasks_rest :: "server \<Rightarrow> nat" where
  "tasks_rest s = task_rest (sv_tm s) + weight tcp_rest (sv_calls s) + starting (sv_listeners s) (sv_tm s)"

definition queues_rest :: "server \<Rightarrow> nat" where
  "queues_rest s = weight sender_rest (sv_senders s) + 2 * size (queued (sv_queue s))"

definition stop_rest :: "server \<Rightarrow> nat" where
  "stop_rest s = tasks_rest s + queues_rest s + (if sv_closed s then 0 else 1) + (if sv_returned s then 0 else 1)"

lemmas stop_rest_defs = stop_rest_def tasks_rest_def queues_rest_def

definition advances :: "server \<Rightarrow> bool" where
  "advances s \<longleftrightarrow> (\<exists>s'. server_step s s' \<and> stop_rest s' < stop_rest s \<and> sv_stage s' = ContextDone)"

lemma sender_advances:
  assumes "server_inv s" "sv_closed s" "sv_stage s = ContextDone" "w < length (sv_senders s)" "sv_senders s ! w \<noteq> SenderOver"
  shows "advances s"
proof (cases "sv_senders s ! w")
  case (Pushing d)
  let ?s = "s\<lparr>sv_pushed := sv_pushed s @ [d], sv_senders := (sv_senders s)[w := AtQueue]\<rparr>"
  have "stop_rest ?s < stop_rest s"
    using weight_update [OF assms(4), of sender_rest AtQueue] Pushing by (simp add: stop_rest_defs sender_rest_def)
  then show ?thesis using server_step.pushed [OF assms(4) Pushing] assms(3) by (auto simp: advances_def)
next
  case AtQueue
  have ok: "slices_ok False (sv_queue s)" and w: "queue_of w < 8"
    using assms queue_of_less by (simp_all add: server_inv_def queues_inv_def)
  let ?q = "rabbitmqSendQueueSlices (sv_queue s) ! queue_of w"
  have q: "mq_inv ?q" "q_status ?q = False" using ok w by (auto simp: slices_ok_def)
  show ?thesis
  proof (cases "mq_list ?q")
    case Nil
    then obtain t where "dequeue ?q = Some ((t, False, True), ?q)" using mq.deq_empty [OF q(1) Nil] q(2) by (auto simp: Status_def)
    moreover have "stop_rest (s\<lparr>sv_senders := (sv_senders s)[w := SenderOver]\<rparr>) < stop_rest s"
      using weight_update [OF assms(4), of sender_rest SenderOver] AtQueue by (simp add: stop_rest_defs sender_rest_def)
    ultimately show ?thesis using server_step.sender_ends [OF assms(4) AtQueue] assms(3) by (fastforce simp: advances_def)
  next
    case (Cons x xs)
    obtain q' where d: "dequeue ?q = Some ((x, True, True), q')" using mq.deq_cons [OF q(1) Cons] q(2) by (auto simp: Status_def)
    obtain d where x: "x = Some d" and qd: "queued (sv_queue s) = queued (set_queue (queue_of w) q' (sv_queue s)) + {#d#}"
      using take_queued [OF ok w d] by auto
    let ?s = "s\<lparr>sv_queue := set_queue (queue_of w) q' (sv_queue s), sv_senders := (sv_senders s)[w := Pushing d]\<rparr>"
    have "stop_rest ?s < stop_rest s"
      using weight_update [OF assms(4), of sender_rest "Pushing d"] AtQueue qd by (simp add: stop_rest_defs sender_rest_def)
    then show ?thesis using server_step.take [OF assms(4) AtQueue d [unfolded x]] assms(3) by (auto simp: advances_def)
  qed
qed (use assms in simp)

text \<open>A call of \<open>tcpAccept\<close> that has not returned can move when the context is done.\<close>

lemma call_advances:
  assumes "server_inv s" "sv_stage s = ContextDone" "i < length (sv_calls s)" "tc_pc (sv_calls s ! i) \<noteq> Returned"
  shows "advances s"
proof -
  let ?c = "sv_calls s ! i"
  have less: "advances s" if "server_step s (s\<lparr>sv_calls := (sv_calls s)[i := c]\<rparr>)" "tcp_rest c < tcp_rest ?c" for c
  proof -
    have "stop_rest (s\<lparr>sv_calls := (sv_calls s)[i := c]\<rparr>) < stop_rest s"
      using that(2) weight_update [OF assms(3), of tcp_rest c] by (simp add: stop_rest_defs)
    then show ?thesis using that(1) assms(2) unfolding advances_def by fastforce
  qed
  have c: "call_inv ContextDone ?c" using assms by (simp add: server_inv_def calls_inv_def)
  show ?thesis
  proof (cases "tc_pc ?c = Pausing")
    case True
    then show ?thesis using less [OF server_step.paused [OF assms(3) refl True]] by (simp add: tcp_rest_def)
  next
    case False
    then have l: "tc_pc ?c = Listening" using assms(4) by (cases "tc_pc ?c") auto
    show ?thesis
    proof (cases "\<forall>a\<in>set (tc_loops ?c). al_pc a = AcceptOver")
      case True
      then show ?thesis using less [OF server_step.joined [OF assms(3) refl l True]] l by (simp add: tcp_rest_def)
    next
      case False
      then obtain j where j: "j < length (tc_loops ?c)" "al_pc (tc_loops ?c ! j) \<noteq> AcceptOver" by (auto simp: in_set_conv_nth)
      have st: "al_stage (tc_loops ?c ! j) = ContextDone" using c j(1) by (simp add: call_inv_def)
      obtain a where a: "accept_step (tc_loops ?c ! j) a" using accept_progress [OF st j(2)] by blast
      note r = accept_step_rest [OF a st]
      have "tcp_rest (?c\<lparr>tc_loops := (tc_loops ?c)[j := a]\<rparr>) < tcp_rest ?c"
        using weight_update [OF j(1), of accept_rest a] r by (simp add: tcp_rest_def)
      then show ?thesis using less [OF server_step.listen [OF assms(3) refl l j(1) a]] r st by simp
    qed
  qed
qed

lemma loop_advances:
  assumes "sv_stage s = ContextDone" "tm_stop (sv_tm s) = Cancelled" "i < length (tm_loops (sv_tm s))"
    and step: "loop_step True (tm_loops (sv_tm s) ! i) l"
    and m: "m = sv_tm s\<lparr>tm_loops := (tm_loops (sv_tm s))[i := l]\<rparr>"
    and f: "follow (tcpAccept (sv_listeners s) ContextDone) (sv_calls s) (accept_calls (sv_tm s)) (accept_calls m) cs"
    and "weight tcp_rest cs + starting (sv_listeners s) m \<le> weight tcp_rest (sv_calls s) + starting (sv_listeners s) (sv_tm s)"
  shows "advances s"
proof -
  have d: "ctx_done (sv_tm s)" using assms(2) by (simp add: ctx_done_def)
  have t: "task_step (sv_tm s) m" unfolding m by (rule task_step.loop) (use assms(3) step d in simp_all)
  have "server_step s (s\<lparr>sv_tm := m, sv_calls := cs\<rparr>)"
    by (rule server_step.task [OF t]) (use f assms(1) in \<open>simp_all add: m\<close>)
  moreover have "stop_rest (s\<lparr>sv_tm := m, sv_calls := cs\<rparr>) < stop_rest s"
    using task_step_rest [OF t d] assms(7) by (simp add: stop_rest_defs)
  ultimately show ?thesis using assms(1) unfolding advances_def by fastforce
qed

lemma draining_advances:
  assumes "server_inv s" "sv_stage s = ContextDone" "tm_stop (sv_tm s) = Cancelled" "i < length (tm_loops (sv_tm s))"
    and "tl_pc (tm_loops (sv_tm s) ! i) = Draining"
  shows "advances s"
proof -
  let ?m = "sv_tm s" and ?l = "tm_loops (sv_tm s) ! i"
  note adv = loop_advances [OF assms(2-4)]
  show ?thesis
  proof (cases "Running \<in> set (tl_calls ?l)")
    case False
    let ?k = "?l\<lparr>tl_pc := Over\<rparr>"
    have "accept_calls (?m\<lparr>tm_loops := (tm_loops ?m)[i := ?k]\<rparr>) = accept_calls ?m"
      using assms(4) by (cases i) (auto simp: accept_calls_def nth_list_update)
    then show ?thesis using adv [OF loop_step.drained [OF assms(5) False] refl, of "sv_calls s"] assms(4)
      by (cases i) (auto simp: follow.other starting_def)
  next
    case True
    then obtain j where j: "j < length (tl_calls ?l)" "tl_calls ?l ! j = Running" by (auto simp: in_set_conv_nth)
    let ?k = "?l\<lparr>tl_calls := (tl_calls ?l)[j := Leaving]\<rparr>"
    note step = adv [OF loop_step.finish [OF j] refl, of "sv_calls s"]
    show ?thesis
    proof (cases i)
      case 0
      have len: "j < length (sv_calls s)" "j < length (accept_calls ?m)" "accept_calls ?m ! j = Running"
        using assms(1) j 0 by (simp_all add: server_inv_def calls_inv_def accept_calls_def)
      show ?thesis
      proof (cases "tc_pc (sv_calls s ! j) = Returned")
        case True
        have "accept_calls (?m\<lparr>tm_loops := (tm_loops ?m)[i := ?k]\<rparr>) = (accept_calls ?m)[j := Leaving]"
          using assms(4) 0 by (simp add: accept_calls_def)
        then show ?thesis using step follow.returned [OF len(2,3) True] assms(4) 0 by (simp add: starting_def)
      qed (use call_advances [OF assms(1,2) len(1)] in blast)
    next
      case (Suc i')
      then show ?thesis using step by (simp add: accept_calls_def follow.other starting_def)
    qed
  qed
qed

lemma manager_advances:
  assumes "server_inv s" "sv_stage s = ContextDone" "tm_stop (sv_tm s) = Cancelled"
  shows "advances s"
proof (cases "\<forall>l\<in>set (tm_loops (sv_tm s)). tl_pc l = Over")
  case True
  have t: "task_step (sv_tm s) (sv_tm s\<lparr>tm_stop := Stopped\<rparr>)" by (rule task_step.stopped [OF assms(3) True])
  have "server_step s (s\<lparr>sv_tm := sv_tm s\<lparr>tm_stop := Stopped\<rparr>\<rparr>)"
    by (rule server_step.stop_waited [OF t assms(3)]) simp
  moreover have "stop_rest (s\<lparr>sv_tm := sv_tm s\<lparr>tm_stop := Stopped\<rparr>\<rparr>) < stop_rest s"
    using task_step_rest [OF t] assms(3) by (simp add: stop_rest_defs ctx_done_def starting_def)
  ultimately show ?thesis using assms(2) unfolding advances_def by fastforce
next
  case False
  then obtain i where i: "i < length (tm_loops (sv_tm s))" "tl_pc (tm_loops (sv_tm s) ! i) \<noteq> Over" by (auto simp: in_set_conv_nth)
  let ?m = "sv_tm s" and ?l = "tm_loops (sv_tm s) ! i"
  note adv = loop_advances [OF assms(2,3) i(1)]
  have same: "accept_calls (?m\<lparr>tm_loops := (tm_loops ?m)[i := ?l\<lparr>tl_pc := Draining\<rparr>]\<rparr>) = accept_calls ?m"
    using i(1) by (cases i) (auto simp: accept_calls_def nth_list_update)
  have drain: "advances s" if "loop_step True ?l (?l\<lparr>tl_pc := Draining\<rparr>)"
  proof (rule adv [OF that refl, of "sv_calls s"])
    show "weight tcp_rest (sv_calls s) + starting (sv_listeners s) (?m\<lparr>tm_loops := (tm_loops ?m)[i := ?l\<lparr>tl_pc := Draining\<rparr>]\<rparr>)
        \<le> weight tcp_rest (sv_calls s) + starting (sv_listeners s) ?m"
      using i(1) by (cases i) (simp_all add: starting_def)
  qed (simp add: same follow.other)
  show ?thesis
  proof (cases "tl_pc ?l")
    case Selecting
    show ?thesis by (rule drain [OF loop_step.quit [OF Selecting TrueI]])
  next
    case Acquired
    show ?thesis by (rule drain) (use loop_step.recheck [OF Acquired, of True] in simp)
  next
    case Draining
    then show ?thesis using draining_advances [OF assms i(1)] by blast
  next
    case Passed
    let ?k = "?l\<lparr>tl_pc := Selecting, tl_calls := tl_calls ?l @ [Running]\<rparr>"
    note step = adv [OF loop_step.spawn [OF Passed] refl]
    show ?thesis
    proof (cases i)
      case 0
      then have "accept_calls (?m\<lparr>tm_loops := (tm_loops ?m)[i := ?k]\<rparr>) = accept_calls ?m @ [Running]"
        using i(1) by (simp add: accept_calls_def)
      then show ?thesis
        using step [of "sv_calls s @ [tcpAccept (sv_listeners s) ContextDone]"] i(1) 0 Passed by (simp add: starting_def follow.started)
    next
      case (Suc i')
      then show ?thesis using step [of "sv_calls s"] by (simp add: accept_calls_def follow.other starting_def)
    qed
  qed (use i in simp)
qed

lemma stop_advances:
  assumes "server_inv s" "sv_stage s = ContextDone" "\<not> sv_returned s"
  shows "advances s"
proof (cases "tm_stop (sv_tm s)")
  case Stopped
  show ?thesis
  proof (cases "sv_closed s")
    case True
    show ?thesis
    proof (cases "\<forall>x\<in>set (sv_senders s). x = SenderOver")
      case o: True
      have "stop_rest (s\<lparr>sv_returned := True\<rparr>) < stop_rest s" using assms(3) by (simp add: stop_rest_defs)
      then show ?thesis using server_step.stop_returns [OF True assms(3) o] assms(2) unfolding advances_def by fastforce
    next
      case False
      then show ?thesis using sender_advances [OF assms(1) True assms(2)] by (auto simp: in_set_conv_nth)
    qed
  next
    case False
    let ?s = "s\<lparr>sv_queue := closeRabbitmqSendQueueSlices (sv_queue s), sv_closed := True\<rparr>"
    have "slice_msgs (closeRabbitmqSendQueueSlices (sv_queue s)) = slice_msgs (sv_queue s)"
      using assms(1) False
      by (auto simp: slice_msgs_def closeRabbitmqSendQueueSlices_def Close_same slices_ok_def server_inv_def queues_inv_def)
    then have "stop_rest ?s < stop_rest s" using False by (simp add: stop_rest_defs queued_def)
    then show ?thesis using server_step.stop_close [OF Stopped False] assms(2) unfolding advances_def by fastforce
  qed
next
  case Cancelled
  then show ?thesis by (rule manager_advances [OF assms(1,2)])
qed (use assms in \<open>simp add: server_inv_def calls_inv_def\<close>)

lemma server_steps_inv: "server_step\<^sup>*\<^sup>* s s' \<Longrightarrow> server_inv s \<Longrightarrow> server_inv s'"
  by (induction rule: rtranclp_induct) (auto simp: server_inv_def intro: server_step_calls server_step_queues)

lemma stop_completes:
  "server_inv s \<Longrightarrow> sv_stage s = ContextDone \<Longrightarrow> \<exists>s'. server_step\<^sup>*\<^sup>* s s' \<and> sv_returned s'"
proof (induction "stop_rest s" arbitrary: s rule: less_induct)
  case less
  show ?case
  proof (cases "sv_returned s")
    case False
    then obtain s1 where s1: "server_step s s1" "stop_rest s1 < stop_rest s" "sv_stage s1 = ContextDone"
      using stop_advances less.prems unfolding advances_def by blast
    have "server_inv s1" using server_steps_inv [OF r_into_rtranclp] s1(1) less.prems(1) by blast
    then show ?thesis using less.hyps [OF s1(2) _ s1(3)] s1(1) by (meson converse_rtranclp_into_rtranclp)
  qed blast
qed

lemma server_steps_reach: "server_step\<^sup>*\<^sup>* s s' \<Longrightarrow> server_reach s \<Longrightarrow> server_reach s'"
  by (induction rule: rtranclp_induct) (auto intro: server_reach.move)

lemma stop_from:
  assumes "server_inv s"
  shows "\<exists>s'. server_step\<^sup>*\<^sup>* s s' \<and> sv_returned s'"
proof -
  have go: "\<exists>s'. server_step\<^sup>*\<^sup>* s s' \<and> sv_returned s'"
    if "server_step s s1" "server_inv s" "server_inv s1 \<Longrightarrow> \<exists>s'. server_step\<^sup>*\<^sup>* s1 s' \<and> sv_returned s'" for s s1
  proof -
    have "server_step\<^sup>*\<^sup>* s s1" using that(1) by (rule r_into_rtranclp)
    then have "server_inv s1" using that(2) by (rule server_steps_inv)
    then show ?thesis using that(1,3) by (meson converse_rtranclp_into_rtranclp)
  qed
  have c: "\<exists>s'. server_step\<^sup>*\<^sup>* s s' \<and> sv_returned s'" if s: "server_inv s" "sv_stage s = ListenersClosed" for s
  proof (rule go [OF _ s(1)])
    have o: "tm_stop (sv_tm s) = Open" using s by (simp add: server_inv_def calls_inv_def)
    show "server_step s (set_stage ContextDone s\<lparr>sv_tm := sv_tm s\<lparr>tm_stop := Cancelled\<rparr>\<rparr>)"
      by (rule server_step.stop_cancel [OF s(2) task_step.cancel [OF o] o]) simp
  qed (simp add: stop_completes set_stage_def)
  have l: "\<exists>s'. server_step\<^sup>*\<^sup>* s s' \<and> sv_returned s'" if s: "server_inv s" "sv_stage s = NotRunning" for s
    by (rule go [OF server_step.stop_listen [OF s(2)] s(1)]) (simp add: c set_stage_def)
  show ?thesis
  proof (cases "sv_stage s")
    case Serving
    show ?thesis by (rule go [OF server_step.stop_run [OF Serving] assms]) (simp add: l set_stage_def)
  qed (use assms c l stop_completes in blast)+
qed

section \<open>A report\<close>

lemma reported_grows: "server_step\<^sup>*\<^sup>* s s' \<Longrightarrow> set (sv_reported s) \<subseteq> set (sv_reported s')"
proof (induction rule: rtranclp_induct)
  case (step y z)
  have "set (sv_reported y) \<subseteq> set (sv_reported z)" using step(2) by (cases rule: server_step.cases) (auto simp: set_stage_def)
  then show ?case using step(3) by blast
qed simp

definition demo_server :: "loop_pc \<Rightarrow> nat \<Rightarrow> call_pc list \<Rightarrow> accept_loop list \<Rightarrow> server" where
  "demo_server pc n calls as = (Start 1)\<lparr>
     sv_tm := \<lparr>tm_stop = Open, tm_adding = [],
       tm_loops = [\<lparr>tl_count = AcceptAmount, tl_tokens = n, tl_pc = pc, tl_calls = calls\<rparr>, AddTask_loop 1, AddTask_loop 1]\<rparr>,
     sv_calls := (if calls = [] then [] else [\<lparr>tc_loops = as, tc_pc = Listening\<rparr>])\<rparr>"

lemma demo_task:
  assumes "server_reach (demo_server pc n calls as)"
    and "loop_step False \<lparr>tl_count = AcceptAmount, tl_tokens = n, tl_pc = pc, tl_calls = calls\<rparr>
      \<lparr>tl_count = AcceptAmount, tl_tokens = n', tl_pc = pc', tl_calls = calls'\<rparr>"
    and "follow (tcpAccept 1 Serving) (sv_calls (demo_server pc n calls as)) calls calls' (sv_calls (demo_server pc' n' calls' as'))"
  shows "server_reach (demo_server pc' n' calls' as')"
proof -
  let ?s = "demo_server pc n calls as" and ?t = "demo_server pc' n' calls' as'"
  have "task_step (sv_tm ?s) (sv_tm ?t)"
    using task_step.loop [of 0 "sv_tm ?s"] assms(2) by (simp add: demo_server_def ctx_done_def)
  then have "server_step ?s (?s\<lparr>sv_tm := sv_tm ?t, sv_calls := sv_calls ?t\<rparr>)"
    by (rule server_step.task) (use assms(3) in \<open>simp_all add: demo_server_def accept_calls_def Start_def\<close>)
  moreover have "?s\<lparr>sv_tm := sv_tm ?t, sv_calls := sv_calls ?t\<rparr> = ?t" by (simp add: demo_server_def)
  ultimately show ?thesis using server_reach.move [OF assms(1)] by simp
qed

lemma demo_report:
  assumes "pushRabbitmqSendQueue None demo_data initRabbitmqSendQueueSlices = Some q"
  obtains s where "server_reach s" "sv_reported s = [demo_data]" "sv_pushed s = []"
proof -
  let ?L = tcpListenerAccept_start
  let ?A = "?L\<lparr>al_pc := AtLoop, al_conns := [\<lparr>ac_pc = Watching, ac_handled = False, ac_closed = False\<rparr>]\<rparr>"
  have "server_reach (demo_server Selecting 0 [] [])"
    using server_reach.start [of 1] by (simp add: demo_server_def Start_def AddTask_loop_def)
  then have "server_reach (demo_server Acquired 1 [] [])"
    by (rule demo_task) (use loop_step.acquire [of "\<lparr>tl_count = AcceptAmount, tl_tokens = 0, tl_pc = Selecting, tl_calls = []\<rparr>" False]
      in \<open>auto simp: AcceptAmount_def demo_server_def follow.other\<close>)
  then have "server_reach (demo_server Passed 1 [] [])"
    by (rule demo_task) (use loop_step.recheck [of "\<lparr>tl_count = AcceptAmount, tl_tokens = 1, tl_pc = Acquired, tl_calls = []\<rparr>" False]
      in \<open>auto simp: demo_server_def follow.other\<close>)
  then have r: "server_reach (demo_server Selecting 1 [Running] [?L])"
    by (rule demo_task) (use loop_step.spawn [of "\<lparr>tl_count = AcceptAmount, tl_tokens = 1, tl_pc = Passed, tl_calls = []\<rparr>" False]
        follow.started [of "tcpAccept 1 Serving" "[]" "[]"]
      in \<open>auto simp: demo_server_def tcpAccept_def tcpListenerAccept_start_def Start_def\<close>)
  have listen: "server_reach (demo_server Selecting 1 [Running] [a'])"
    if "server_reach (demo_server Selecting 1 [Running] [a])" "accept_step a a'" "al_stage a' = al_stage a" for a a'
    using server_reach.move [OF that(1) server_step.listen [of 0 _ _ 0 a']] that(2,3) by (simp add: demo_server_def)
  have "server_reach (demo_server Selecting 1 [Running] [?L\<lparr>al_pc := InAccept\<rparr>])"
    by (rule listen [OF r]) (use accept_step.test [of ?L] in \<open>simp_all add: tcpListenerAccept_start_def\<close>)
  then have r2: "server_reach (demo_server Selecting 1 [Running] [?A])"
    by (rule listen) (use accept_step.accept [of "?L\<lparr>al_pc := InAccept\<rparr>"] in \<open>simp_all add: tcpListenerAccept_start_def\<close>)
  have "live_handler (demo_server Selecting 1 [Running] [?A])" by (simp add: live_handler_def demo_server_def)
  from server_step.report [OF this, of None demo_data q] assms
  have "server_step (demo_server Selecting 1 [Running] [?A])
      ((demo_server Selecting 1 [Running] [?A])\<lparr>sv_queue := q, sv_reported := [demo_data]\<rparr>)"
    by (simp add: demo_server_def Start_def)
  from server_reach.move [OF r2 this] show ?thesis by (rule that) (simp_all add: demo_server_def Start_def)
qed

text \<open>When \<open>Stop\<close> has returned nothing is left in a queue or in the hands of a goroutine.\<close>

lemma returned_pushed:
  assumes "queues_inv s" "sv_returned s"
  shows "sv_closed s \<and> tm_stop (sv_tm s) = Stopped \<and> mset (sv_pushed s) = mset (sv_reported s)"
proof -
  have c: "sv_closed s" "\<forall>x\<in>set (sv_senders s). x = SenderOver" "tm_stop (sv_tm s) = Stopped"
    using assms by (auto simp: queues_inv_def)
  have "in_flight x = []" if "x \<in> set (sv_senders s)" for x using that c(2) by auto
  then have f: "concat (map in_flight (sv_senders s)) = []" by simp
  have e: "mq_list (rabbitmqSendQueueSlices (sv_queue s) ! i) = []" if "i < 8" for i
  proof -
    have w: "4 * i < 32" "queue_of (4 * i) = i" using that by (simp_all add: queue_of_def RabbitmqSendQueueSlicesHandlerCount_def)
    then have "sv_senders s ! (4 * i) = SenderOver" using c(2) assms(1) by (simp add: queues_inv_def)
    then show ?thesis using assms(1) w unfolding queues_inv_def by metis
  qed
  have l8: "length (rabbitmqSendQueueSlices (sv_queue s)) = 8" using assms(1) by (simp add: queues_inv_def slices_ok_def)
  then have "\<forall>q\<in>set (rabbitmqSendQueueSlices (sv_queue s)). mq_list q = []" using e by (auto simp: in_set_conv_nth)
  then have "queued (sv_queue s) = {#}" by (simp add: queued_def slice_msgs_def)
  then show ?thesis using c assms(1) f by (simp add: queues_inv_def)
qed

text \<open>\<open>Stop\<close> only goes forward.\<close>

lemma stage_forward: "server_step s s' \<Longrightarrow> sv_stage s \<le> sv_stage s'"
  by (cases rule: server_step.cases) (auto simp: set_stage_def less_eq_server_stage_def)

section \<open>Properties\<close>

text \<open>C2: From \<open>Start\<close> to the end of \<open>Stop\<close>, in any interleaving of listeners, handlers, tasks and the goroutines of
  the report queues: the queues are closed only when no handler is left, so no report meets a closed queue; and when
  \<open>Stop\<close> returns no task is running, every connection is closed and its handler has returned, and every
  message that a handler has reported has been given to \<open>Push\<close> exactly once.\<close>

theorem stop_loses_nothing:
  assumes "server_reach s"
  shows "(live_handler s \<longrightarrow> \<not> sv_closed s \<and>
       (\<forall>pick d. \<exists>q. pushRabbitmqSendQueue pick d (sv_queue s) = Some q \<and> queued q = queued (sv_queue s) + {#d#})) \<and>
    (sv_returned s \<longrightarrow> mset (sv_pushed s) = mset (sv_reported s) \<and> (\<forall>l\<in>set (tm_loops (sv_tm s)). Running \<notin> set (tl_calls l)) \<and>
       (\<forall>c\<in>set (sv_calls s). \<forall>a\<in>set (tc_loops c). \<forall>k\<in>set (al_conns a). ac_closed k \<and> ac_handled k))"
proof (intro conjI impI allI)
  have inv: "calls_inv s" "queues_inv s" using server_reach_inv [OF assms] by (simp_all add: server_inv_def)
  show o: "\<not> sv_closed s" if "live_handler s" using that no_handler [OF inv(1)] inv(2) by (auto simp: queues_inv_def)
  show "\<exists>q. pushRabbitmqSendQueue pick d (sv_queue s) = Some q \<and> queued q = queued (sv_queue s) + {#d#}" if "live_handler s" for pick d
  proof -
    have ok: "slices_ok True (sv_queue s)" using o [OF that] inv(2) by (simp add: queues_inv_def)
    then have "sendq_ok (sv_queue s)" by (auto simp: slices_ok_def sendq_ok_def)
    then obtain q where "pushRabbitmqSendQueue pick d (sv_queue s) = Some q" using push_slice by blast
    then show ?thesis using push_queued [OF ok] by blast
  qed
  assume r: "sv_returned s"
  have c: "tm_stop (sv_tm s) = Stopped" using returned_pushed [OF inv(2) r] by blast
  show "mset (sv_pushed s) = mset (sv_reported s)" using returned_pushed [OF inv(2) r] by blast
  show "\<forall>l\<in>set (tm_loops (sv_tm s)). Running \<notin> set (tl_calls l)"
    using inv(1) c by (auto simp: calls_inv_def task_inv_def quiet_def)
  show "\<forall>c\<in>set (sv_calls s). \<forall>a\<in>set (tc_loops c). \<forall>k\<in>set (al_conns a). ac_closed k \<and> ac_handled k"
    by (rule all_handled [OF inv(1) c])
qed

theorem stop_loses_nothing_witness:
  "\<exists>s. server_reach s \<and> sv_returned s \<and> demo_data \<in> set (sv_pushed s) \<and> mset (sv_pushed s) = mset (sv_reported s)"
proof -
  obtain q where "pushRabbitmqSendQueue None demo_data initRabbitmqSendQueueSlices = Some q" using push_slice [OF sendq_init(1)] by blast
  then obtain s where s: "server_reach s" "sv_reported s = [demo_data]" by (rule demo_report)
  obtain s' where s': "server_step\<^sup>*\<^sup>* s s'" "sv_returned s'" using stop_from [OF server_reach_inv [OF s(1)]] by blast
  have r: "server_reach s'" by (rule server_steps_reach [OF s'(1) s(1)])
  have m: "mset (sv_pushed s') = mset (sv_reported s')" using stop_loses_nothing [OF r] s'(2) by blast
  then have "demo_data \<in> set (sv_pushed s')" using reported_grows [OF s'(1)] s(2) mset_eq_setD [OF m] by auto
  then show ?thesis using r s'(2) m by blast
qed

text \<open>C18: The server can always stop: from every state that it can reach, whatever its listeners, handlers, tasks and
  queues are doing, there is a run in which \<open>Stop\<close> returns; and once the context is done, no state before that is
  without a step towards it; and no step undoes a stage of \<open>Stop\<close>.\<close>

theorem server_stop_ends:
  assumes "server_reach s"
  shows "(\<exists>s'. server_step\<^sup>*\<^sup>* s s' \<and> sv_returned s') \<and>
    (sv_stage s = ContextDone \<and> \<not> sv_returned s \<longrightarrow> (\<exists>s'. server_step s s' \<and> stop_rest s' < stop_rest s)) \<and>
    (\<forall>s'. server_step s s' \<longrightarrow> sv_stage s \<le> sv_stage s')"
  using stop_from [OF server_reach_inv [OF assms]] stop_advances [OF server_reach_inv [OF assms]] stage_forward
  unfolding advances_def by blast

theorem server_stop_ends_witness:
  "\<exists>s. server_reach s \<and> sv_returned s \<and> sv_listeners s = 2"
proof -
  have keep: "sv_listeners s' = sv_listeners s" if "server_step\<^sup>*\<^sup>* s s'" for s s'
    using that
  proof (induction rule: rtranclp_induct)
    case (step y z)
    from step(2) have "sv_listeners z = sv_listeners y" by (cases rule: server_step.cases) (auto simp: set_stage_def)
    then show ?case using step(3) by simp
  qed simp
  obtain s where "server_step\<^sup>*\<^sup>* (Start 2) s" "sv_returned s" using server_stop_ends [OF server_reach.start] by blast
  then show ?thesis using server_steps_reach server_reach.start keep [of "Start 2" s] by (force simp: Start_def)
qed

end
