(* ===== verification/Startup.thy ===== *)
theory Startup
  imports Consumers SendQueue
begin

text \<open>
  The start of the server: \<open>newManager\<close> and \<open>Start\<close> (\<^verbatim>\<open>server/manager.go\<close>), the first configuration and the task that
  refreshes it (\<^verbatim>\<open>server/nacos_config.go\<close>), the listeners (\<^verbatim>\<open>server/tcp_server.go\<close>) and the pool of the reports (\<^verbatim>\<open>common/rabbitmq.go\<close>). \<open>None\<close> is a panic, which ends the process.
\<close>

section \<open>Start\<close>

text \<open>
  The calls of the libraries \<open>viper\<close>, \<open>nacos_remote\<close> and \<open>net\<close>. \<open>st_Unmarshal\<close> is what is left in the
  structure: its error is not looked at.
\<close>

record 'e start_api =
  st_AddRemoteProvider :: "string \<Rightarrow> 'e \<Rightarrow> go_error option \<times> 'e"
  st_ReadRemoteConfig :: "'e \<Rightarrow> go_error option \<times> 'e"
  st_Watch :: "'e \<Rightarrow> 'e"
  st_Unmarshal :: "'e \<Rightarrow> NacosConfig \<times> 'e"
  st_Listen :: "string \<Rightarrow> 'e \<Rightarrow> (go_error + nat) \<times> 'e"

record nacos_config =
  nc_Url :: string
  nc_Port :: int

definition zero_conf :: NacosConfig where
  "zero_conf = \<lparr>LimitedReader_ReadRate = 0, LimitedReader_ReadBurst = 0, OneIpMaxConn = 0\<rparr>"

definition newManager :: "'m \<Rightarrow> 'n \<Rightarrow> ('m, 'n) manager" where
  "newManager ips users = \<lparr>ipConnCountMap = ips, userCtxMap = users, counters = [], contexts = [], nacosConfig = zero_conf\<rparr>"

definition initNacosConf :: "'e start_api \<Rightarrow> nacos_config \<Rightarrow> ('m, 'n) manager \<Rightarrow> 'e \<Rightarrow> (('m, 'n) manager \<times> 'e) option" where
  "initNacosConf A nc m e = (case st_AddRemoteProvider A (nc_Url nc @ '':'' @ Itoa (nc_Port nc)) e of
     (Some _, e1) \<Rightarrow> None
   | (None, e1) \<Rightarrow> (case st_ReadRemoteConfig A e1 of
       (Some _, e2) \<Rightarrow> None
     | (None, e2) \<Rightarrow> (case st_ReadRemoteConfig A e2 of
         (Some _, e3) \<Rightarrow> None
       | (None, e3) \<Rightarrow> (case st_Unmarshal A (st_Watch A e3) of (conf, e4) \<Rightarrow> Some (setNacosConf conf m, e4)))))"

fun listen_all :: "'e start_api \<Rightarrow> string list \<Rightarrow> (string, nat) gomap \<Rightarrow> 'e \<Rightarrow> ((string, nat) gomap \<times> 'e) option" where
  "listen_all A [] ls e = Some (ls, e)"
| "listen_all A (v # vs) ls e = (case st_Listen A v e of
     (Inl _, e1) \<Rightarrow> None
   | (Inr l, e1) \<Rightarrow> listen_all A vs (gomap_set ls v l) e1)"

definition initTcpListener :: "'e start_api \<Rightarrow> string list \<Rightarrow> 'e \<Rightarrow> ((string, nat) gomap \<times> 'e) option" where
  "initTcpListener A addrs e = listen_all A addrs [] e"

definition manager_Start :: "'e start_api \<Rightarrow> nacos_config \<Rightarrow> string list \<Rightarrow> ('m, 'n) manager \<Rightarrow> 'e \<Rightarrow>
    (('m, 'n) manager \<times> (string, nat) gomap \<times> sendq \<times> 'e) option" where
  "manager_Start A nc addrs m e =
     Option.bind (initNacosConf A nc (setNacosConf zero_conf m) e) (\<lambda>(m1, e1).
     Option.bind (initTcpListener A addrs e1) (\<lambda>(ls, e2).
       Some (m1, ls, initRabbitmqSendQueueSlices, e2)))"

text \<open>The pool through which the reports are sent, made once when it is first used.\<close>

definition GetRabbitMqProductPool :: "'e amqp_api \<Rightarrow> rabbitmq_config \<Rightarrow> 'e \<Rightarrow> (RabbitPool \<times> 'e) option" where
  "GetRabbitMqProductPool A rq e =
    (case ConnectVirtualHost A (rq_Host rq) (rq_Port rq) (rq_User rq) (rq_Password rq) (rq_VirtualHost rq) NewProductPool e of
       (None, p, e1) \<Rightarrow> Some (p, e1)
     | (Some _, p, e1) \<Rightarrow> None)"

section \<open>Refreshing the configuration\<close>

text \<open>
  What the loop of \<open>runNacosConfServer\<close> waits for: the end of the context, a change, or the ticker. The last two do
  the same, with what \<open>Unmarshal\<close> returns and the order of the iteration.
\<close>

datatype nacos_event = NacosDone | NacosResp "go_error + NacosConfig" "nat list" | NacosTick "go_error + NacosConfig" "nat list"

fun runNacosConfServer :: "('n, connContext list) cmap_api \<Rightarrow> nacos_event list \<Rightarrow> ('m, 'n) manager \<Rightarrow>
    (bool \<times> ('m, 'n) manager) option" where
  "runNacosConfServer B [] m = Some (False, m)"
| "runNacosConfServer B (NacosDone # evs) m = Some (True, m)"
| "runNacosConfServer B (NacosResp c sched # evs) m = Option.bind (nacos_round B sched c m) (runNacosConfServer B evs)"
| "runNacosConfServer B (NacosTick c sched # evs) m = Option.bind (nacos_round B sched c m) (runNacosConfServer B evs)"

text \<open>The configurations that arrive before the end.\<close>

fun good_confs :: "nacos_event list \<Rightarrow> NacosConfig list" where
  "good_confs [] = []"
| "good_confs (NacosDone # evs) = []"
| "good_confs (NacosResp c sched # evs) = (case c of Inl _ \<Rightarrow> good_confs evs | Inr conf \<Rightarrow> conf # good_confs evs)"
| "good_confs (NacosTick c sched # evs) = (case c of Inl _ \<Rightarrow> good_confs evs | Inr conf \<Rightarrow> conf # good_confs evs)"

lemma update_context_last: "update_context c (update_context c' x) = update_context c x"
  by (simp add: update_context_def UpdateParameter_def Let_def)

definition refreshed :: "NacosConfig list \<Rightarrow> ('m, 'n) manager \<Rightarrow> ('m, 'n) manager \<Rightarrow> bool" where
  "refreshed confs m m' \<longleftrightarrow> nacosConfig m' = last (nacosConfig m # confs) \<and> length (contexts m') = length (contexts m) \<and>
     (\<forall>p<length (contexts m). contexts m' ! p =
       (if ctx_cancelled (contexts m ! p) \<or> confs = [] then contexts m ! p else update_context (last confs) (contexts m ! p)))"

lemma refreshed_Nil [simp]: "refreshed [] m m"
  by (simp add: refreshed_def)

lemma refreshed_trans:
  assumes "refreshed [c] m m1" "refreshed cs m1 m2"
  shows "refreshed (c # cs) m m2"
  using assms by (auto simp: refreshed_def update_context_last) (auto simp: update_context_def)

context session_maps
begin

lemma nacos_round_refreshed:
  assumes "sys_inv invA lookA invB lookB s"
  shows "\<exists>m'. nacos_round B sched c (mgr s) = Some m' \<and> sys_inv invA lookA invB lookB (s\<lparr>mgr := m'\<rparr>) \<and>
    refreshed (case c of Inl _ \<Rightarrow> [] | Inr conf \<Rightarrow> [conf]) (mgr s) m'"
proof (cases c)
  case (Inl e)
  then show ?thesis using assms by (simp add: nacos_round_def)
next
  case (Inr conf)
  let ?s = "s\<lparr>mgr := setNacosConf conf (mgr s)\<rparr>"
  have g: "sys_inv invA lookA invB lookB ?s" by (rule setNacosConf_ok [OF assms])
  obtain m' where m': "updateLimitedReaderAction B sched (mgr ?s) = Some m'"
    "sys_inv invA lookA invB lookB (?s\<lparr>mgr := m'\<rparr>)" "nacosConfig m' = conf"
    using updateLimitedReaderAction_ok [OF g, of sched] by (auto simp: setNacosConf_def)
  have len: "length (contexts m') = length (contexts (mgr s))"
    using m'(1) update_actions_same by (auto simp: updateLimitedReaderAction_def setNacosConf_def split: option.splits)
  show ?thesis
    using m' len refresh_effect [OF g, of sched] Inr by (auto simp: nacos_round_def refreshed_def setNacosConf_def)
qed

lemma nacos_loop_refreshed:
  "sys_inv invA lookA invB lookB s \<Longrightarrow>
   \<exists>m'. runNacosConfServer B evs (mgr s) = Some (NacosDone \<in> set evs, m') \<and> refreshed (good_confs evs) (mgr s) m'"
proof (induction evs arbitrary: s)
  case (Cons ev evs)
  have round: ?case if e: "runNacosConfServer B (ev # evs) (mgr s) = Option.bind (nacos_round B sched c (mgr s)) (runNacosConfServer B evs)"
      "good_confs (ev # evs) = (case c of Inl _ \<Rightarrow> good_confs evs | Inr conf \<Rightarrow> conf # good_confs evs)" "ev \<noteq> NacosDone" for sched c
  proof -
    obtain m1 where m1: "nacos_round B sched c (mgr s) = Some m1" "sys_inv invA lookA invB lookB (s\<lparr>mgr := m1\<rparr>)"
      "refreshed (case c of Inl _ \<Rightarrow> [] | Inr conf \<Rightarrow> [conf]) (mgr s) m1"
      using nacos_round_refreshed [OF Cons.prems] by blast
    obtain m2 where m2: "runNacosConfServer B evs m1 = Some (NacosDone \<in> set evs, m2)" "refreshed (good_confs evs) m1 m2"
      using Cons.IH [OF m1(2)] by auto
    show ?thesis
    proof (cases c)
      case (Inl x)
      then have "m1 = mgr s" using m1(1) by (simp add: nacos_round_def)
      then show ?thesis using m1(1) m2 e Inl by (simp add: eq_commute [of NacosDone])
    next
      case (Inr conf)
      then show ?thesis using m1 m2 e refreshed_trans [of conf "mgr s" m1 "good_confs evs" m2] by (simp add: eq_commute [of NacosDone])
    qed
  qed
  show ?case
  proof (cases ev)
    case (NacosResp c sched)
    then show ?thesis by (intro round [of sched c]) simp_all
  next
    case (NacosTick c sched)
    then show ?thesis by (intro round [of sched c]) simp_all
  qed simp
qed simp

end

section \<open>The pool of the reports\<close>

lemma GetRabbitMqProductPool_ok:
  assumes "\<And>url e. \<exists>c e'. am_Dial A url e = (Inr c, e')"
  shows "\<exists>p e'. GetRabbitMqProductPool A rq e = Some (p, e') \<and> pool_ok p \<and> (\<forall>rc\<in>set (pool_conns p). rc_conn rc \<noteq> None)"
  using initConnections_ok [OF assms, of "NewProductPool\<lparr>host := rq_Host rq, port := rq_Port rq, user := rq_User rq,
      password := rq_Password rq, virtualHost := rq_VirtualHost rq\<rparr>" e]
  by (auto simp: GetRabbitMqProductPool_def ConnectVirtualHost_def NewProductPool_def newRabbitPool_def)

section \<open>The listeners\<close>

lemma listen_all_exact:
  "listen_all A vs ls e = Some (ls', e') \<Longrightarrow> fst ` set ls' = fst ` set ls \<union> set vs"
proof (induction vs arbitrary: ls e)
  case (Cons v vs)
  then show ?case by (auto split: prod.splits sum.splits simp: dom_update dest!: Cons.IH)
qed simp

section \<open>Properties\<close>

text \<open>A server that has started has no connection and no context, the configuration that Nacos gave, a
  listener for exactly the configured addresses, and open, empty report queues; so all that is shown of the
  runs of a server holds of it.\<close>

theorem startup_exact:
  assumes "manager_Start A nc addrs (newManager ips users) e = Some (m, ls, sq, e')"
    and "invA ips" "lookA ips = Map.empty" "invB users" "lookB users = Map.empty"
  shows "sys_start invA lookA invB lookB \<lparr>mgr = m, sessions = []\<rparr> \<and> (\<exists>e1. fst (st_Unmarshal A e1) = nacosConfig m) \<and>
    fst ` set ls = set addrs \<and> sendq_ok sq \<and> slice_msgs sq = replicate 8 []"
proof -
  obtain e1 where i: "initNacosConf A nc (setNacosConf zero_conf (newManager ips users)) e = Some (m, e1)"
    and l: "initTcpListener A addrs e1 = Some (ls, e')" and q: "sq = initRabbitmqSendQueueSlices"
    using assms(1) by (auto simp: manager_Start_def bind_eq_Some_conv)
  have n: "\<exists>conf e2 e3. m = setNacosConf conf (newManager ips users) \<and> st_Unmarshal A e2 = (conf, e3)"
    using i by (auto simp: initNacosConf_def setNacosConf_def split: prod.splits option.splits)
  then have "sys_start invA lookA invB lookB \<lparr>mgr = m, sessions = []\<rparr>"
    using assms(2-) by (auto simp: sys_start_def newManager_def setNacosConf_def)
  moreover have "\<exists>e1. fst (st_Unmarshal A e1) = nacosConfig m" using n by (auto simp: setNacosConf_def) (metis fst_conv)
  ultimately show ?thesis using listen_all_exact [OF l [unfolded initTcpListener_def]] sendq_init q by simp
qed

definition demo_start :: "unit start_api" where
  "demo_start = \<lparr>st_AddRemoteProvider = (\<lambda>ep u. (if ep = ''nacos'' @ '':'' @ Itoa 8848 then None else Some (Errorf ep), u)),
     st_ReadRemoteConfig = (\<lambda>u. (None, u)), st_Watch = (\<lambda>u. u),
     st_Unmarshal = (\<lambda>u. (\<lparr>LimitedReader_ReadRate = 5, LimitedReader_ReadBurst = 80, OneIpMaxConn = 2\<rparr>, u)),
     st_Listen = (\<lambda>v u. (Inr 7, u))\<rparr>"

theorem startup_exact_witness:
  "\<exists>(m :: ((string, ptr) cmap, (string, ptr) cmap) manager) ls sq.
     manager_Start demo_start \<lparr>nc_Url = ''nacos'', nc_Port = 8848\<rparr> ['':2423'', '':5467''] (newManager New New) () = Some (m, ls, sq, ()) \<and>
     sys_start cmap_inv cm_lookup cmap_inv cm_lookup \<lparr>mgr = m, sessions = []\<rparr> \<and> OneIpMaxConn (nacosConfig m) = 2 \<and>
     fst ` set ls = {'':2423'', '':5467''}"
proof -
  let ?s = "manager_Start demo_start \<lparr>nc_Url = ''nacos'', nc_Port = 8848\<rparr> ['':2423'', '':5467''] (newManager New New) ()"
  obtain m :: "((string, ptr) cmap, (string, ptr) cmap) manager" and ls sq where s: "?s = Some (m, ls, sq, ())"
    by (simp add: manager_Start_def initNacosConf_def initTcpListener_def demo_start_def)
  have n: "cmap_inv (New :: (string, ptr) cmap)" "cm_lookup (New :: (string, ptr) cmap) = Map.empty" by (simp_all add: New_def create_empty)
  note t = startup_exact [OF s, of cmap_inv cm_lookup cmap_inv cm_lookup, OF n n]
  obtain e1 where "nacosConfig m = fst (st_Unmarshal demo_start e1)" using t by metis
  then have "OneIpMaxConn (nacosConfig m) = 2" by (simp add: demo_start_def)
  moreover have "fst ` set ls = {'':2423'', '':5467''}" using t by simp
  ultimately show ?thesis using s t by blast
qed

text \<open>C29: However many refreshes there are, the loop of \<open>runNacosConfServer\<close> does not panic and returns exactly when its
  context is done; then the configuration is the last one that could be decoded, every live context has its limits, and a
  closed one keeps its own.\<close>

theorem nacos_last_wins:
  assumes "session_maps A invA lookA B invB lookB" "sys_start invA lookA invB lookB s0" "mreach A B P s0 s"
  shows "\<exists>m'. runNacosConfServer B evs (mgr s) = Some (NacosDone \<in> set evs, m') \<and>
    nacosConfig m' = last (nacosConfig (mgr s) # good_confs evs) \<and>
    (\<forall>p<length (contexts (mgr s)). contexts m' ! p =
       (if ctx_cancelled (contexts (mgr s) ! p) \<or> good_confs evs = [] then contexts (mgr s) ! p
        else update_context (last (good_confs evs)) (contexts (mgr s) ! p)))"
  using session_maps.nacos_loop_refreshed [OF assms(1) session_maps.mreach_inv [OF assms(1,3,2)], of evs]
  by (auto simp: refreshed_def)

theorem nacos_last_wins_witness:
  "\<exists>(s :: ((string, ptr) cmap, (string, ptr) cmap) sys) m' c.
     runNacosConfServer repo_api [NacosTick (Inr \<lparr>LimitedReader_ReadRate = 5, LimitedReader_ReadBurst = 80, OneIpMaxConn = 2\<rparr>) [],
       NacosResp (Inl EOF) [], NacosDone] (mgr s) = Some (True, m') \<and> c \<in> set (contexts m') \<and> readBurst (conn_action c) = 80"
proof -
  let ?conf = "\<lparr>LimitedReader_ReadRate = 0, LimitedReader_ReadBurst = 0, OneIpMaxConn = 2\<rparr>"
  let ?new = "\<lparr>LimitedReader_ReadRate = 5, LimitedReader_ReadBurst = 80, OneIpMaxConn = 2\<rparr>"
  let ?evs = "[NacosTick (Inr ?new) [], NacosResp (Inl EOF) [], NacosDone]"
  obtain s p q where s: "mreach repo_api repo_api (\<lambda>_. True) (repo_start ?conf) s"
      "sessions s = [Relaying ''10.0.0.1'' ''u:10.0.0.1'' p, Relaying ''10.0.0.1'' ''u:10.0.0.1'' q]"
      "cm_lookup (userCtxMap (mgr s)) ''u:10.0.0.1'' \<noteq> None"
    using repo_run [of ?conf "\<lambda>_. True"] by auto
  note g = repo.mreach_inv [OF s(1) repo_start_ok]
  obtain r where r: "r < length (contexts (mgr s))" "\<not> ctx_cancelled (contexts (mgr s) ! r)"
    using s(3) user_inv_cell [OF sys_invD(4) [OF g]] by blast
  obtain m' where m': "runNacosConfServer repo_api ?evs (mgr s) = Some (True, m')"
      "\<forall>p<length (contexts (mgr s)). contexts m' ! p =
         (if ctx_cancelled (contexts (mgr s) ! p) then contexts (mgr s) ! p else update_context ?new (contexts (mgr s) ! p))"
    using nacos_last_wins [OF repo.session_maps_axioms repo_start_ok s(1), of ?evs] by auto
  obtain m1 where m1: "runNacosConfServer repo_api ?evs (mgr s) = Some (True, m1)" "refreshed (good_confs ?evs) (mgr s) m1"
    using repo.nacos_loop_refreshed [OF g, of ?evs] by auto
  have "length (contexts m') = length (contexts (mgr s))" using m1 m'(1) by (simp add: refreshed_def)
  then have "contexts m' ! r \<in> set (contexts m')" using r(1) by simp
  moreover have "readBurst (conn_action (contexts m' ! r)) = 80"
    using m'(2) r by (simp add: update_context_def UpdateParameter_def default_burst_def Let_def)
  ultimately show ?thesis using m'(1) by blast
qed

end
