(* ===== verification/Boot.thy ===== *)
theory Boot
  imports Startup
begin

text \<open>
  What happens before \<open>main\<close>: the initialisation of the packages in the order of the language, with the \<open>init\<close> functions of
  \<^verbatim>\<open>server/lua\<close> and \<^verbatim>\<open>main.go\<close>, the configuration (\<^verbatim>\<open>config/load.go\<close>), the client of Redis (\<^verbatim>\<open>common/redis.go\<close>) and the log
  (\<^verbatim>\<open>log/init.go\<close>, \<^verbatim>\<open>log/log.go\<close>).
\<close>

section \<open>The order of initialisation\<close>

text \<open>
  The packages are sorted by their import path; in each step the first one that is not initialised and whose imports
  are is initialised (the language specification, "Program initialization").
\<close>

type_synonym packages = "(string \<times> string list) list"

definition ready :: "string list \<Rightarrow> string \<times> string list \<Rightarrow> bool" where
  "ready ini pkg \<longleftrightarrow> fst pkg \<notin> set ini \<and> set (snd pkg) \<subseteq> set ini"

primrec init_from :: "nat \<Rightarrow> packages \<Rightarrow> string list \<Rightarrow> string list" where
  "init_from 0 pkgs ini = ini"
| "init_from (Suc n) pkgs ini = (case find (ready ini) pkgs of
     None \<Rightarrow> ini | Some pkg \<Rightarrow> init_from n pkgs (ini @ [fst pkg]))"

definition init_order :: "packages \<Rightarrow> string list" where
  "init_order pkgs = init_from (length pkgs) pkgs []"

text \<open>The packages of the repository that \<open>main\<close> needs, each with those of the repository that it imports.\<close>

definition repo_packages :: packages where
  "repo_packages =
   [(''main'', [''proxy_server/config'', ''proxy_server/log'', ''proxy_server/server'']),
    (''proxy_server/common'', [''proxy_server/config'', ''proxy_server/utils/rabbitMQ'']),
    (''proxy_server/config'', []),
    (''proxy_server/log'', []),
    (''proxy_server/protobuf'', []),
    (''proxy_server/server'', [''proxy_server/common'', ''proxy_server/config'', ''proxy_server/log'', ''proxy_server/protobuf'',
       ''proxy_server/server/lua'', ''proxy_server/server/sniffing'', ''proxy_server/server/sniffing/tls'', ''proxy_server/utils'',
       ''proxy_server/utils/Queue'', ''proxy_server/utils/rabbitMQ'', ''proxy_server/utils/socks5'',
       ''proxy_server/utils/taskConsumerManager'']),
    (''proxy_server/server/lua'', [''proxy_server/common'', ''proxy_server/log'']),
    (''proxy_server/server/sniffing'', []),
    (''proxy_server/server/sniffing/tls'', []),
    (''proxy_server/utils'', []),
    (''proxy_server/utils/Queue'', []),
    (''proxy_server/utils/rabbitMQ'', []),
    (''proxy_server/utils/socks5'', []),
    (''proxy_server/utils/taskConsumerManager'', [])]"

section \<open>The state of the program\<close>

record redis_config =
  rd_Addr :: string
  rd_Password :: string
  rd_DB :: int
  rd_MinIdleConns :: int
  rd_MaxIdleConns :: int
  rd_PoolSize :: int

text \<open>The configuration file; the three structures are pointers.\<close>

record conf_file =
  cf_TcpListenerAddress :: "string list"
  cf_GrpcListenerAddress :: string
  cf_LogDir :: string
  cf_LocalIp :: string
  cf_ProcessName :: string
  cf_Redis :: "redis_config option"
  cf_Rabbitmq :: "rabbitmq_config option"
  cf_Nacos :: "nacos_config option"

text \<open>The levels of the log, in their order.\<close>

datatype level = DebugLevel | InfoLevel | WarnLevel | ErrorLevel | DPanicLevel | PanicLevel | FatalLevel

text \<open>Where the log is written: a file, by its name, or the standard output.\<close>

datatype sink = LogFile string | Stdout

text \<open>
  The variables the \<open>init\<close> functions use: the pointer to the configuration, the logger (\<open>None\<close> is nil) with its cores, what has been
  written, the client of Redis once it is made (by its options), and the codes of the two scripts.
\<close>

record 'e program =
  pg_conf :: "conf_file option"
  pg_log :: "(sink \<times> level) list option"
  pg_lines :: "(sink \<times> level \<times> string) list"
  pg_redis :: "redis_config option"
  pg_add_sha :: string
  pg_set_sha :: string
  pg_env :: 'e

definition program_zero :: "'e \<Rightarrow> 'e program" where
  "program_zero e = \<lparr>pg_conf = None, pg_log = None, pg_lines = [], pg_redis = None, pg_add_sha = [], pg_set_sha = [], pg_env = e\<rparr>"

text \<open>A call returns, panics, or ends the process with a status.\<close>

datatype 'a run = Runs 'a | Crash | Exits int

fun and_then :: "'a run \<Rightarrow> ('a \<Rightarrow> 'b run) \<Rightarrow> 'b run" where
  "and_then (Runs x) f = f x"
| "and_then Crash f = Crash"
| "and_then (Exits n) f = Exits n"

text \<open>
  The libraries: the file system, \<open>encoding/json\<close>, \<open>filepath.Join\<close>, the files of the log, and the upload of a script by a client.
\<close>

datatype lua_script = AddUserDataLuaScript | SetUserDataLuaScript

record 'e boot_api =
  bt_ReadFile :: "string \<Rightarrow> 'e \<Rightarrow> go_error + byte list"
  bt_Unmarshal :: "byte list \<Rightarrow> go_error + conf_file"
  bt_Join :: "string \<Rightarrow> string"
  bt_rotatelogs :: "string \<Rightarrow> 'e \<Rightarrow> go_error option \<times> 'e"
  bt_Load :: "redis_config \<Rightarrow> lua_script \<Rightarrow> 'e \<Rightarrow> (go_error + string) \<times> 'e"

section \<open>Configuration and client\<close>

definition GetConf :: "'e program \<Rightarrow> conf_file option" where
  "GetConf g = pg_conf g"

definition Load :: "'e boot_api \<Rightarrow> string \<Rightarrow> 'e program \<Rightarrow> 'e program run" where
  "Load B path g = (case bt_ReadFile B path (pg_env g) of
     Inl _ \<Rightarrow> Crash
   | Inr data \<Rightarrow> (case bt_Unmarshal B data of Inl _ \<Rightarrow> Crash | Inr conf \<Rightarrow> Runs (g\<lparr>pg_conf := Some conf\<rparr>)))"

text \<open>\<open>sync.OnceValue\<close>: the client is made by the first call. A nil pointer is dereferenced without a configuration.\<close>

definition GetRedisDB :: "'e program \<Rightarrow> (redis_config \<times> 'e program) run" where
  "GetRedisDB g = (case pg_redis g of
     Some r \<Rightarrow> Runs (r, g)
   | None \<Rightarrow> (case GetConf g of
       None \<Rightarrow> Crash
     | Some conf \<Rightarrow> (case cf_Redis conf of None \<Rightarrow> Crash | Some r \<Rightarrow> Runs (r, g\<lparr>pg_redis := Some r\<rparr>))))"

section \<open>The log\<close>

text \<open>A file for each level; \<open>getWriter\<close> panics if it cannot be made.\<close>

definition getWriter :: "'e boot_api \<Rightarrow> string \<Rightarrow> 'e program \<Rightarrow> (sink \<times> 'e program) run" where
  "getWriter B filename g = (case bt_rotatelogs B filename (pg_env g) of
     (Some _, e) \<Rightarrow> Crash
   | (None, e) \<Rightarrow> Runs (LogFile filename, g\<lparr>pg_env := e\<rparr>))"

fun getWriters :: "'e boot_api \<Rightarrow> string list \<Rightarrow> 'e program \<Rightarrow> (sink list \<times> 'e program) run" where
  "getWriters B [] g = Runs ([], g)"
| "getWriters B (f # fs) g = and_then (getWriter B f g) (\<lambda>(w, g1).
     and_then (getWriters B fs g1) (\<lambda>(ws, g2). Runs (w # ws, g2)))"

definition log_levels :: "(string \<times> level) list" where
  "log_levels = [(''/info'', InfoLevel), (''/warn'', WarnLevel), (''/error'', ErrorLevel), (''/debug'', DebugLevel),
     (''/dPanic'', DPanicLevel), (''/panic'', PanicLevel), (''/fatal'', FatalLevel)]"

text \<open>Each level is enabled in one core with its file and in one core with the standard output.\<close>

definition Init :: "'e boot_api \<Rightarrow> string \<Rightarrow> 'e program \<Rightarrow> 'e program run" where
  "Init B filepath g = and_then (getWriters B (map (\<lambda>(n, l). filepath @ n) log_levels) g) (\<lambda>(ws, g1).
     Runs (g1\<lparr>pg_log := Some (zip ws (map snd log_levels) @ map (\<lambda>(n, l). (Stdout, l)) log_levels)\<rparr>))"

text \<open>
  The seven functions \<open>Info\<close> to \<open>Fatal\<close>: nothing at all without a logger; else a line in each core of the level, and then \<open>Panic\<close> panics
  and \<open>Fatal\<close> exits. The logger is not in development mode, in which \<open>DPanic\<close> would panic.
\<close>

definition log_at :: "level \<Rightarrow> string \<Rightarrow> 'e program \<Rightarrow> 'e program run" where
  "log_at l msg g = (case pg_log g of
     None \<Rightarrow> Runs g
   | Some cores \<Rightarrow>
       if l = PanicLevel then Crash
       else if l = FatalLevel then Exits 1
       else Runs (g\<lparr>pg_lines := pg_lines g @ map (\<lambda>(s, k). (s, k, msg)) (filter (\<lambda>(s, k). k = l) cores)\<rparr>))"

text \<open>The deferred calls that recover from a panic, if there is one.\<close>

definition Recover :: "bool \<Rightarrow> string \<Rightarrow> 'e program \<Rightarrow> 'e program run" where
  "Recover panicking msg g = (case pg_log g of
     None \<Rightarrow> if panicking then Crash else Runs g
   | Some _ \<Rightarrow> if panicking then log_at FatalLevel msg g else Runs g)"

definition DRecover :: "bool \<Rightarrow> string \<Rightarrow> 'e program \<Rightarrow> 'e program run" where
  "DRecover panicking msg g = (case pg_log g of
     None \<Rightarrow> if panicking then Crash else Runs g
   | Some _ \<Rightarrow> if panicking then log_at DPanicLevel msg g else Runs g)"

section \<open>The init functions\<close>

text \<open>On an error \<open>Result\<close> gives the empty string, which is stored if \<open>log.Panic\<close> returns.\<close>

definition upload :: "'e boot_api \<Rightarrow> lua_script \<Rightarrow> string \<Rightarrow> 'e program \<Rightarrow> (string \<times> 'e program) run" where
  "upload B script msg g = and_then (GetRedisDB g) (\<lambda>(client, g1).
     case bt_Load B client script (pg_env g1) of
       (Inr sha, e) \<Rightarrow> Runs (sha, g1\<lparr>pg_env := e\<rparr>)
     | (Inl err, e) \<Rightarrow> and_then (log_at PanicLevel msg (g1\<lparr>pg_env := e\<rparr>)) (\<lambda>g2. Runs ([], g2)))"

definition add_init :: "'e boot_api \<Rightarrow> 'e program \<Rightarrow> 'e program run" where
  "add_init B g = and_then (upload B AddUserDataLuaScript ''AddUserDataLuaScript'' g) (\<lambda>(sha, g1). Runs (g1\<lparr>pg_add_sha := sha\<rparr>))"

definition set_init :: "'e boot_api \<Rightarrow> 'e program \<Rightarrow> 'e program run" where
  "set_init B g = and_then (upload B SetUserDataLuaScript ''SetUserDataLuaScript'' g) (\<lambda>(sha, g1). Runs (g1\<lparr>pg_set_sha := sha\<rparr>))"

text \<open>The \<open>init\<close> of \<^verbatim>\<open>main.go\<close>, with the path that the flag gives; the debug server runs in a goroutine of its own.\<close>

definition main_init :: "'e boot_api \<Rightarrow> string \<Rightarrow> 'e program \<Rightarrow> 'e program run" where
  "main_init B configPath g = and_then (Load B configPath g) (\<lambda>g1.
     case GetConf g1 of None \<Rightarrow> Crash | Some conf \<Rightarrow> Init B (bt_Join B (cf_LogDir conf)) g1)"

text \<open>
  The debug server: it ends only with a panic, since neither the listener nor \<open>Serve\<close> can end in another way; \<open>served\<close> says whether
  it could listen and \<open>Serve\<close> has not returned.
\<close>

definition gohttp :: "bool \<Rightarrow> 'e program \<Rightarrow> 'e program run" where
  "gohttp served g = Recover (\<not> served) ''http'' g"

text \<open>The other packages have no \<open>init\<close> function that uses these variables. Files of a package are taken in the order of their names.\<close>

definition package_init :: "'e boot_api \<Rightarrow> string \<Rightarrow> string \<Rightarrow> 'e program \<Rightarrow> 'e program run" where
  "package_init B configPath pkg g =
    (if pkg = ''proxy_server/server/lua'' then and_then (add_init B g) (set_init B)
     else if pkg = ''main'' then main_init B configPath g
     else Runs g)"

fun run_inits :: "'e boot_api \<Rightarrow> string \<Rightarrow> string list \<Rightarrow> 'e program \<Rightarrow> 'e program run" where
  "run_inits B configPath [] g = Runs g"
| "run_inits B configPath (pkg # pkgs) g = and_then (package_init B configPath pkg g) (run_inits B configPath pkgs)"

definition boot :: "'e boot_api \<Rightarrow> string \<Rightarrow> 'e \<Rightarrow> 'e program run" where
  "boot B configPath e = run_inits B configPath (init_order repo_packages) (program_zero e)"

section \<open>What the order gives\<close>

lemma init_from_imports:
  assumes "\<And>xs p ys. ini = xs @ p # ys \<Longrightarrow> \<exists>is. (p, is) \<in> set pkgs \<and> set is \<subseteq> set xs" and "init_from n pkgs ini = xs @ p # ys"
  shows "\<exists>is. (p, is) \<in> set pkgs \<and> set is \<subseteq> set xs"
  using assms
proof (induction n arbitrary: ini)
  case 0
  then show ?case by simp
next
  case (Suc n)
  show ?case
  proof (cases "find (ready ini) pkgs")
    case None
    then show ?thesis using Suc.prems by simp
  next
    case (Some pkg)
    then have r: "pkg \<in> set pkgs" "ready ini pkg" by (auto simp: find_Some_iff)
    have "\<exists>is. (p, is) \<in> set pkgs \<and> set is \<subseteq> set xs" if "ini @ [fst pkg] = xs @ p # ys" for xs p ys
    proof (cases ys rule: rev_cases)
      case Nil
      then show ?thesis using that r by (cases pkg) (auto simp: ready_def)
    next
      case (snoc zs z)
      then have "ini = xs @ p # zs" using that by simp
      then show ?thesis by (rule Suc.prems(1))
    qed
    from Suc.IH [OF this] show ?thesis using Suc.prems(2) Some by simp
  qed
qed

lemma init_order_imports: "init_order pkgs = xs @ p # ys \<Longrightarrow> \<exists>is. (p, is) \<in> set pkgs \<and> set is \<subseteq> set xs"
  by (rule init_from_imports [of "[]"]) (simp_all add: init_order_def)

lemma repo_order: "init_order repo_packages = [''proxy_server/config'', ''proxy_server/log'', ''proxy_server/protobuf'',
   ''proxy_server/server/sniffing'', ''proxy_server/server/sniffing/tls'', ''proxy_server/utils'', ''proxy_server/utils/Queue'',
   ''proxy_server/utils/rabbitMQ'', ''proxy_server/common'', ''proxy_server/server/lua'', ''proxy_server/utils/socks5'',
   ''proxy_server/utils/taskConsumerManager'', ''proxy_server/server'', ''main'']"
  by code_simp

section \<open>The log after its initialisation\<close>

lemma and_then_Runs: "and_then x f = Runs y \<longleftrightarrow> (\<exists>z. x = Runs z \<and> f z = Runs y)"
  by (cases x) auto

lemma getWriters_Runs:
  "getWriters B fs g = Runs (ws, g') \<Longrightarrow> ws = map LogFile fs \<and> (\<exists>e. g' = g\<lparr>pg_env := e\<rparr>)"
proof (induction fs arbitrary: g ws g')
  case Nil
  then show ?case by (cases g) auto
next
  case (Cons f fs)
  then show ?case by (fastforce simp: and_then_Runs getWriter_def split: prod.splits option.splits)
qed

lemma getWriters_ok:
  assumes "\<And>f e. fst (bt_rotatelogs B f e) = None"
  shows "\<exists>ws g'. getWriters B fs g = Runs (ws, g')"
proof (induction fs arbitrary: g)
  case (Cons f fs)
  obtain e where "bt_rotatelogs B f (pg_env g) = (None, e)" using assms [of f "pg_env g"] by (cases "bt_rotatelogs B f (pg_env g)") auto
  then show ?case using Cons.IH [of "g\<lparr>pg_env := e\<rparr>"] by (auto simp: getWriter_def)
qed simp

definition level_file :: "level \<Rightarrow> string" where
  "level_file l = fst (the (find (\<lambda>x. snd x = l) log_levels))"

text \<open>
  A line goes to the file of its own level and to the standard output, and nowhere else; before the log is
  initialised every function of it does nothing, \<open>Panic\<close> and \<open>Fatal\<close> too.
\<close>

lemma log_exact:
  assumes "Init B filepath g = Runs g'" "l \<noteq> PanicLevel" "l \<noteq> FatalLevel"
  shows "log_at l msg g' = Runs (g'\<lparr>pg_lines := pg_lines g' @ [(LogFile (filepath @ level_file l), l, msg), (Stdout, l, msg)]\<rparr>)"
    and "pg_log g0 = None \<Longrightarrow> log_at k msg g0 = Runs g0"
proof -
  obtain ws g1 where w: "getWriters B (map (\<lambda>(n, l). filepath @ n) log_levels) g = Runs (ws, g1)"
    and g': "g' = g1\<lparr>pg_log := Some (zip ws (map snd log_levels) @ map (\<lambda>(n, l). (Stdout, l)) log_levels)\<rparr>"
    using assms(1) by (auto simp: Init_def and_then_Runs)
  note getWriters_Runs [OF w]
  then show "log_at l msg g' = Runs (g'\<lparr>pg_lines := pg_lines g' @ [(LogFile (filepath @ level_file l), l, msg), (Stdout, l, msg)]\<rparr>)"
    using assms(2,3) by (cases l) (simp_all add: g' log_at_def log_levels_def level_file_def)
qed (simp add: log_at_def)

lemma Init_ok:
  assumes "\<And>f e. fst (bt_rotatelogs B f e) = None"
  shows "\<exists>g' e cores. Init B filepath g = Runs g' \<and> g' = g\<lparr>pg_env := e, pg_log := Some cores\<rparr>"
proof -
  obtain ws g1 where w: "getWriters B (map (\<lambda>(n, l). filepath @ n) log_levels) g = Runs (ws, g1)" using getWriters_ok [OF assms] by blast
  from getWriters_Runs [OF w] obtain e where "g1 = g\<lparr>pg_env := e\<rparr>" by blast
  then show ?thesis using w by (auto simp: Init_def)
qed

section \<open>Properties\<close>

text \<open>C4: The program never reaches \<open>main\<close>. The package \<open>server/lua\<close> is initialised before \<open>main\<close>, which imports it through
  \<open>server\<close>, and its \<open>init\<close> asks for the client of Redis when \<open>init\<close> of \<open>main\<close> has not yet loaded the configuration: whatever the
  files and the servers are, a nil pointer is dereferenced. If the configuration were there, the same
  initialisation would end; an error of an upload would then be dropped, because the log is not initialised either.\<close>

theorem boot_crashes:
  "boot B configPath e = Crash \<and>
   (cf_Redis conf = Some r \<and> bt_Unmarshal B data = Inr conf \<and> (\<forall>e. bt_ReadFile B configPath e = Inr data) \<and>
      (\<forall>f e. fst (bt_rotatelogs B f e) = None) \<longrightarrow>
    (\<exists>g. run_inits B configPath (init_order repo_packages) ((program_zero e)\<lparr>pg_conf := Some conf\<rparr>) = Runs g \<and>
       pg_conf g = Some conf \<and> pg_redis g = Some r \<and> pg_log g \<noteq> None \<and>
       pg_add_sha g = (case fst (bt_Load B r AddUserDataLuaScript e) of Inl _ \<Rightarrow> [] | Inr sha \<Rightarrow> sha)))"
proof (intro conjI impI)
  show "boot B configPath e = Crash"
    by (simp add: boot_def repo_order package_init_def add_init_def upload_def GetRedisDB_def GetConf_def program_zero_def)
  let ?g = "(program_zero e)\<lparr>pg_conf := Some conf\<rparr>"
  assume h: "cf_Redis conf = Some r \<and> bt_Unmarshal B data = Inr conf \<and> (\<forall>e. bt_ReadFile B configPath e = Inr data) \<and>
      (\<forall>f e. fst (bt_rotatelogs B f e) = None)"
  obtain x e1 where x: "bt_Load B r AddUserDataLuaScript e = (x, e1)" by (cases "bt_Load B r AddUserDataLuaScript e")
  let ?g1 = "?g\<lparr>pg_redis := Some r, pg_env := e1, pg_add_sha := (case x of Inl _ \<Rightarrow> [] | Inr sha \<Rightarrow> sha)\<rparr>"
  have 1: "add_init B ?g = Runs ?g1"
    using h x by (cases x) (simp_all add: add_init_def upload_def GetRedisDB_def GetConf_def log_at_def program_zero_def)
  obtain y e2 where y: "bt_Load B r SetUserDataLuaScript e1 = (y, e2)" by (cases "bt_Load B r SetUserDataLuaScript e1")
  let ?g2 = "?g1\<lparr>pg_env := e2, pg_set_sha := (case y of Inl _ \<Rightarrow> [] | Inr sha \<Rightarrow> sha)\<rparr>"
  have 2: "set_init B ?g1 = Runs ?g2"
    using h y by (cases y) (simp_all add: set_init_def upload_def GetRedisDB_def GetConf_def log_at_def program_zero_def)
  obtain g3 e3 cores where 3: "Init B (bt_Join B (cf_LogDir conf)) ?g2 = Runs g3" "g3 = ?g2\<lparr>pg_env := e3, pg_log := Some cores\<rparr>"
    using Init_ok [of B "bt_Join B (cf_LogDir conf)" ?g2] h by blast
  have "main_init B configPath ?g2 = Runs g3"
    using h 3(1) by (simp add: main_init_def Load_def GetConf_def program_zero_def)
  then have "run_inits B configPath (init_order repo_packages) ?g = Runs g3"
    using 1 2 by (simp add: repo_order package_init_def)
  then show "\<exists>g. run_inits B configPath (init_order repo_packages) ?g = Runs g \<and>
       pg_conf g = Some conf \<and> pg_redis g = Some r \<and> pg_log g \<noteq> None \<and>
       pg_add_sha g = (case fst (bt_Load B r AddUserDataLuaScript e) of Inl _ \<Rightarrow> [] | Inr sha \<Rightarrow> sha)"
    using x by (intro exI [of _ g3]) (simp add: 3(2) program_zero_def)
qed

definition demo_conf_file :: conf_file where
  "demo_conf_file = \<lparr>cf_TcpListenerAddress = ['':2423''], cf_GrpcListenerAddress = [], cf_LogDir = ''log'', cf_LocalIp = ''10.0.0.1'',
     cf_ProcessName = ''p'', cf_Redis = Some \<lparr>rd_Addr = ''r:6379'', rd_Password = [], rd_DB = 0, rd_MinIdleConns = 1,
       rd_MaxIdleConns = 2, rd_PoolSize = 3\<rparr>, cf_Rabbitmq = None, cf_Nacos = None\<rparr>"

definition demo_boot :: "unit boot_api" where
  "demo_boot = \<lparr>bt_ReadFile = (\<lambda>p e. if p = ''conf.json'' then Inr [1] else Inl EOF), bt_Unmarshal = (\<lambda>bs. Inr demo_conf_file),
     bt_Join = (\<lambda>d. d), bt_rotatelogs = (\<lambda>f e. (None, e)),
     bt_Load = (\<lambda>c s e. (if s = AddUserDataLuaScript then Inr ''sha'' else Inl EOF, e))\<rparr>"

theorem boot_crashes_witness:
  "boot demo_boot ''conf.json'' () = Crash \<and>
   (\<exists>g. run_inits demo_boot ''conf.json'' (init_order repo_packages) ((program_zero ())\<lparr>pg_conf := Some demo_conf_file\<rparr>) = Runs g \<and>
      pg_add_sha g = ''sha'')"
  using boot_crashes [of demo_boot "''conf.json''" "()" demo_conf_file "the (cf_Redis demo_conf_file)" "[1]"]
  by (auto simp: demo_boot_def demo_conf_file_def)

end
