(* ===== verification/Process.thy ===== *)
theory Process
  imports Lifecycle
begin

text \<open>
  The process (\<^verbatim>\<open>main.go\<close>): \<open>main\<close> starts the server, waits for a signal, and then runs the deferred \<open>Stop\<close>, against a timer
  that ends the process. What is left of the reports at each end.
\<close>

section \<open>The main goroutine\<close>

text \<open>
  \<open>main\<close> waits for a signal, is in its deferred function, or the process has ended with a status. \<open>Start\<close> of the server
  returns no error, so the branch that ends the process at once is never taken.
\<close>

datatype main_pc = Awaiting | Cleaning | Exited int

record process =
  pr_server :: server
  pr_main :: main_pc

definition main_start :: "nat \<Rightarrow> process" where
  "main_start listeners = \<lparr>pr_server = Start listeners, pr_main = Awaiting\<rparr>"

text \<open>
  Only the deferred function calls \<open>Stop\<close>; the other steps of the server happen before and after the signal. The timer
  of \<open>time.AfterFunc\<close> is armed by the signal; its five seconds may pass at any point after that.
\<close>

inductive main_step :: "process \<Rightarrow> process \<Rightarrow> bool" where
  serve: "pr_main p = Awaiting \<Longrightarrow> server_step (pr_server p) s \<Longrightarrow> sv_stage s = Serving \<Longrightarrow> main_step p (p\<lparr>pr_server := s\<rparr>)"
| signal: "pr_main p = Awaiting \<Longrightarrow> main_step p (p\<lparr>pr_main := Cleaning\<rparr>)"
| clean: "pr_main p = Cleaning \<Longrightarrow> server_step (pr_server p) s \<Longrightarrow> main_step p (p\<lparr>pr_server := s\<rparr>)"
| main_returns: "pr_main p = Cleaning \<Longrightarrow> sv_returned (pr_server p) \<Longrightarrow> main_step p (p\<lparr>pr_main := Exited 0\<rparr>)"
| forced: "pr_main p = Cleaning \<Longrightarrow> main_step p (p\<lparr>pr_main := Exited 1\<rparr>)"

inductive main_reach :: "process \<Rightarrow> bool" where
  start: "main_reach (main_start listeners)"
| move: "main_reach p \<Longrightarrow> main_step p p' \<Longrightarrow> main_reach p'"

inductive_simps ended_step: "main_step \<lparr>pr_server = s, pr_main = Exited n\<rparr> p'"

lemma ended_stays: "pr_main p = Exited n \<Longrightarrow> \<not> main_step p p'"
  by (cases p) (simp add: ended_step)

section \<open>What a process keeps\<close>

text \<open>The reports that are in a queue or with a goroutine that has not yet pushed them.\<close>

definition unsent :: "server \<Rightarrow> RabbitMqData multiset" where
  "unsent s = mset (concat (map in_flight (sv_senders s))) + queued (sv_queue s)"

definition process_inv :: "process \<Rightarrow> bool" where
  "process_inv p \<longleftrightarrow> server_reach (pr_server p) \<and> (pr_main p = Awaiting \<longrightarrow> sv_stage (pr_server p) = Serving) \<and>
     (pr_main p = Exited 0 \<longrightarrow> sv_returned (pr_server p))"

lemma main_step_inv:
  assumes "main_step p p'" "process_inv p"
  shows "process_inv p'"
  using assms by cases (auto simp: process_inv_def intro: server_reach.move)

lemma main_reach_inv:
  assumes "main_reach p"
  shows "process_inv p"
  using assms
proof induction
  case (start listeners)
  then show ?case using server_reach.start [of listeners] by (simp add: process_inv_def main_start_def) (simp add: Start_def)
qed (rule main_step_inv)

lemma serving_open:
  assumes "server_inv s" "sv_stage s = Serving"
  shows "\<not> sv_closed s" "\<not> sv_returned s"
  using assms by (auto simp: server_inv_def calls_inv_def queues_inv_def)

lemma reports_kept:
  assumes "server_inv s"
  shows "mset (sv_reported s) = mset (sv_pushed s) + unsent s"
  using assms by (simp add: server_inv_def queues_inv_def unsent_def add.assoc)

lemma clean_steps:
  assumes "server_step\<^sup>*\<^sup>* s s'" "pr_main p = Cleaning" "pr_server p = s"
  shows "main_step\<^sup>*\<^sup>* p (p\<lparr>pr_server := s'\<rparr>)"
  using assms(1)
proof induction
  case base
  then show ?case using assms(3) by (cases p) simp
next
  case (step y z)
  have "main_step (p\<lparr>pr_server := y\<rparr>) (p\<lparr>pr_server := y\<rparr>\<lparr>pr_server := z\<rparr>)"
    using step(2) assms(2) by (intro main_step.clean) simp_all
  then show ?case using step(3) by simp
qed

lemma clean_end:
  assumes "main_reach p" "pr_main p = Cleaning"
  shows "\<exists>p'. main_step\<^sup>*\<^sup>* p p' \<and> pr_main p' = Exited 0"
proof -
  have r: "server_reach (pr_server p)" using main_reach_inv [OF assms(1)] by (simp add: process_inv_def)
  obtain s where s: "server_step\<^sup>*\<^sup>* (pr_server p) s" "sv_returned s" using stop_from [OF server_reach_inv [OF r]] by blast
  have "main_step (p\<lparr>pr_server := s\<rparr>) (p\<lparr>pr_server := s, pr_main := Exited 0\<rparr>)"
    using main_step.main_returns [of "p\<lparr>pr_server := s\<rparr>"] s(2) assms(2) by simp
  with clean_steps [OF s(1) assms(2) refl]
  have "main_step\<^sup>*\<^sup>* p (p\<lparr>pr_server := s, pr_main := Exited 0\<rparr>)" by (rule rtranclp.rtrancl_into_rtrancl)
  then show ?thesis by (intro exI [of _ "p\<lparr>pr_server := s, pr_main := Exited 0\<rparr>"]) simp
qed

text \<open>After the signal the server can be in any state that it can reach.\<close>

lemma signalled:
  assumes "server_reach s"
  shows "\<exists>p. main_reach p \<and> pr_main p = Cleaning \<and> pr_server p = s"
  using assms
proof induction
  case (start listeners)
  have "main_reach ((main_start listeners)\<lparr>pr_main := Cleaning\<rparr>)"
    by (rule main_reach.move [OF main_reach.start main_step.signal]) (simp add: main_start_def)
  then show ?case by (rule_tac x = "(main_start listeners)\<lparr>pr_main := Cleaning\<rparr>" in exI) (simp add: main_start_def)
next
  case (move s s')
  then obtain p where p: "main_reach p" "pr_main p = Cleaning" "pr_server p = s" by blast
  then have "main_reach (p\<lparr>pr_server := s'\<rparr>)" using main_reach.move [OF p(1) main_step.clean [OF p(2)]] move(2) by simp
  then show ?case using p by (intro exI [of _ "p\<lparr>pr_server := s'\<rparr>"]) simp
qed

section \<open>Properties\<close>

text \<open>C32: Until the signal the server serves and its queues are open. At every moment, and so at whatever moment the
  process ends, each report has been given to \<open>Push\<close> once or is still in a queue or in flight; when the process ends with
  status 0 nothing is left, so only the forced end can lose a report, and it loses exactly those; and as long as the
  process runs, it can still end with status 0.\<close>

theorem process_ends:
  assumes "main_reach p"
  shows "(pr_main p = Awaiting \<longrightarrow> sv_stage (pr_server p) = Serving \<and> \<not> sv_closed (pr_server p) \<and> \<not> sv_returned (pr_server p)) \<and>
    mset (sv_reported (pr_server p)) = mset (sv_pushed (pr_server p)) + unsent (pr_server p) \<and>
    (pr_main p = Exited 0 \<longrightarrow> unsent (pr_server p) = {#}) \<and>
    (pr_main p = Awaiting \<or> pr_main p = Cleaning \<longrightarrow> (\<exists>p'. main_step\<^sup>*\<^sup>* p p' \<and> pr_main p' = Exited 0))"
proof (intro conjI impI)
  note i = main_reach_inv [OF assms, unfolded process_inv_def]
  note s = server_reach_inv [OF conjunct1 [OF i]]
  show "sv_stage (pr_server p) = Serving" "\<not> sv_closed (pr_server p)" "\<not> sv_returned (pr_server p)" if "pr_main p = Awaiting"
    using that i serving_open [OF s] by blast+
  show k: "mset (sv_reported (pr_server p)) = mset (sv_pushed (pr_server p)) + unsent (pr_server p)" by (rule reports_kept [OF s])
  show "unsent (pr_server p) = {#}" if "pr_main p = Exited 0"
    using that i k returned_pushed [of "pr_server p"] s by (simp add: server_inv_def)
  assume "pr_main p = Awaiting \<or> pr_main p = Cleaning"
  then show "\<exists>p'. main_step\<^sup>*\<^sup>* p p' \<and> pr_main p' = Exited 0"
  proof
    assume a: "pr_main p = Awaiting"
    have "main_reach (p\<lparr>pr_main := Cleaning\<rparr>)" using assms main_step.signal [OF a] by (rule main_reach.move)
    then obtain p' where "main_step\<^sup>*\<^sup>* (p\<lparr>pr_main := Cleaning\<rparr>) p'" "pr_main p' = Exited 0"
      using clean_end [of "p\<lparr>pr_main := Cleaning\<rparr>"] by auto
    then show ?thesis using main_step.signal [OF a] by (meson converse_rtranclp_into_rtranclp)
  qed (rule clean_end [OF assms])
qed

text \<open>A process that has been sent a signal with one report in a queue: it may lose the report.\<close>

theorem process_ends_witness:
  "\<exists>p. main_reach p \<and> pr_main p = Exited 1 \<and> demo_data \<in># unsent (pr_server p)"
proof -
  obtain q where "pushRabbitmqSendQueue None demo_data initRabbitmqSendQueueSlices = Some q" using push_slice [OF sendq_init(1)] by blast
  then obtain s where s: "server_reach s" "sv_reported s = [demo_data]" "sv_pushed s = []" by (rule demo_report)
  obtain p where p: "main_reach p" "pr_main p = Cleaning" "pr_server p = s" using signalled [OF s(1)] by blast
  have r: "main_reach (p\<lparr>pr_main := Exited 1\<rparr>)" by (rule main_reach.move [OF p(1) main_step.forced [OF p(2)]])
  have "mset (sv_reported s) = mset (sv_pushed s) + unsent s" using process_ends [OF r] by (simp add: p(3))
  then have "unsent s = {#demo_data#}" by (simp add: s(2,3))
  then show ?thesis using r p(3) by (intro exI [of _ "p\<lparr>pr_main := Exited 1\<rparr>"]) simp
qed

end
