(* ===== verification/Dialers.thy ===== *)
theory Dialers
  imports HttpText
begin

text \<open>
  The clients of other proxies: \<open>GetConn\<close> of \<^verbatim>\<open>proto/http/conn.go\<close>, which opens a tunnel with CONNECT, and \<open>GetConn\<close> of
  \<^verbatim>\<open>proto/socks/conn.go\<close>. The connection to the proxy is the record \<open>conn\<close> of \<open>Socks5\<close>: the bytes the proxy sends, and
  the messages written to it.
\<close>

section \<open>Reading the answer through a buffer\<close>

text \<open>
  What \<open>http.ReadResponse\<close> makes of the bytes the buffer has got so far: it needs more, it fails, or there is a response
  with the length of its head, its status code and the number of bytes that closing its body reads (the declared
  length of a body; 0 if none is declared, since then the end of the connection is the end of the body).
\<close>

datatype response = NeedMore | BadResponse go_error | Response nat int nat

text \<open>
  The calls of the libraries: \<open>url.Parse\<close>; \<open>Dial\<close>, which gives the connection to a server; \<open>req.Write\<close> of a CONNECT
  request with its host and its authorization, if there is one; \<open>http.ReadResponse\<close>; and how many bytes one read of the
  connection gets.
\<close>

record 'e tunnel_api =
  tn_Parse :: "string \<Rightarrow> go_error + url"
  tn_Dial :: "string \<Rightarrow> 'e \<Rightarrow> (go_error + conn) \<times> 'e"
  tn_Write :: "string \<Rightarrow> string option \<Rightarrow> go_error + byte list"
  tn_Response :: "byte list \<Rightarrow> response"
  tn_chunk :: "byte list \<Rightarrow> nat"

text \<open>One read into the buffer gets at least a byte and at most the 4096 bytes of a \<open>bufio.Reader\<close>.\<close>

definition chunk_size :: "(byte list \<Rightarrow> nat) \<Rightarrow> byte list \<Rightarrow> nat" where
  "chunk_size chunk bs = min 4096 (max 1 (chunk bs))"

text \<open>\<open>http.ReadResponse\<close> on the reader: the result, what is still buffered, and the connection.\<close>

function ReadResponse :: "(byte list \<Rightarrow> response) \<Rightarrow> (byte list \<Rightarrow> nat) \<Rightarrow> byte list \<Rightarrow> conn \<Rightarrow>
    (go_error + int \<times> nat) \<times> byte list \<times> conn" where
  "ReadResponse R chunk buf c = (case R buf of
     BadResponse e \<Rightarrow> (Inl e, [], c)
   | Response h status body \<Rightarrow> (Inr (status, body), drop h buf, c)
   | NeedMore \<Rightarrow>
       if inbuf c = [] then (Inl (if inend c = EOF then UnexpectedEOF else inend c), [], c)
       else let k = chunk_size chunk (inbuf c)
         in ReadResponse R chunk (buf @ take k (inbuf c)) (c\<lparr>inbuf := drop k (inbuf c)\<rparr>))"
  by pat_completeness auto
termination
  by (relation "measure (\<lambda>(R, chunk, buf, c). length (inbuf c))") (auto simp: chunk_size_def)

declare ReadResponse.simps [simp del]

text \<open>\<open>resp.Body.Close\<close>: the body is read from the buffer and then from the connection.\<close>

definition close_body :: "nat \<Rightarrow> byte list \<Rightarrow> conn \<Rightarrow> conn" where
  "close_body body buf c = c\<lparr>inbuf := drop (body - length buf) (inbuf c)\<rparr>"

section \<open>The tunnel of an HTTP proxy\<close>

text \<open>
  What is returned, the connection in its state at the end (\<open>None\<close> if there was none), and whether it was closed. The
  deferred \<open>Close\<close> of the body runs last; after the connection has been closed it reads nothing from it.
\<close>

definition http_GetConn :: "'e tunnel_api \<Rightarrow> string \<Rightarrow> string \<Rightarrow> 'e \<Rightarrow>
    (go_error option \<times> conn option \<times> bool) \<times> 'e" where
  "http_GetConn T s targetAddr e = (case http_ParseURL (tn_Parse T) s of
     (Some err, _) \<Rightarrow> ((Some err, None, False), e)
   | (None, u) \<Rightarrow> (case tn_Dial T (pu_addr u) e of
       (Inl err, e1) \<Rightarrow> ((Some err, None, False), e1)
     | (Inr conn, e1) \<Rightarrow>
         (case tn_Write T targetAddr (if pu_auth u = [] then None else Some (pu_auth u)) of
            Inl err \<Rightarrow> ((Some err, Some conn, True), e1)
          | Inr msg \<Rightarrow> (case conn_Write msg conn of
              (Some err, conn1) \<Rightarrow> ((Some err, Some conn1, True), e1)
            | (None, conn1) \<Rightarrow> (case ReadResponse (tn_Response T) (tn_chunk T) [] conn1 of
                (Inl err, buf, conn2) \<Rightarrow> ((Some err, Some conn2, True), e1)
              | (Inr (status, body), buf, conn2) \<Rightarrow>
                  if status \<noteq> 200 then ((Some (Errorf ''status''), Some conn2, True), e1)
                  else if 0 < length buf then (case ReadAtLeast (length buf) conn2 of
                      (Inl err, conn3) \<Rightarrow> ((Some err, Some conn3, True), e1)
                    | (Inr b, conn3) \<Rightarrow> ((None, Some (close_body body buf conn3), False), e1))
                  else ((None, Some (close_body body buf conn2), False), e1))))))"

section \<open>The dialer of a SOCKS5 proxy\<close>

text \<open>
  \<open>proxy.SOCKS5\<close> of \<^verbatim>\<open>golang.org/x/net\<close> makes a dialer from the address of the proxy and the credentials, whose \<open>Dial\<close> returns the
  connection; both are parameters.
\<close>

definition socks_GetConn :: "(string \<Rightarrow> go_error + url) \<Rightarrow>
    (string \<Rightarrow> (string \<times> string) option \<Rightarrow> go_error + (string \<Rightarrow> 'e \<Rightarrow> (go_error + 'c) \<times> 'e)) \<Rightarrow>
    string \<Rightarrow> string \<Rightarrow> 'e \<Rightarrow> (go_error + 'c) \<times> 'e" where
  "socks_GetConn Parse SOCKS5 s targetAddr e = (case socks_ParseURL Parse s of
     (Some err, _) \<Rightarrow> (Inl err, e)
   | (None, auth, server) \<Rightarrow> (case SOCKS5 server auth of
       Inl err \<Rightarrow> (Inl err, e)
     | Inr dial \<Rightarrow> (case dial targetAddr e of
         (Inl err, e1) \<Rightarrow> (Inl err, e1)
       | (Inr conn, e1) \<Rightarrow> (Inr conn, e1))))"

section \<open>What the buffer holds\<close>

text \<open>
  A response is complete once its head is: it does not depend on what follows, and no proper prefix of the head is
  taken for a response.
\<close>

definition response_head :: "(byte list \<Rightarrow> response) \<Rightarrow> byte list \<Rightarrow> int \<Rightarrow> nat \<Rightarrow> bool" where
  "response_head R head status body \<longleftrightarrow> (\<forall>rest. R (head @ rest) = Response (length head) status body) \<and>
     (\<forall>n<length head. R (take n head) = NeedMore)"

lemma response_headD:
  assumes "response_head R head status body" and "buf @ rest1 = head @ rest"
  shows "length buf < length head \<Longrightarrow> R buf = NeedMore \<and> rest1 \<noteq> []"
    and "length head \<le> length buf \<Longrightarrow> R buf = Response (length head) status body \<and>
      drop (length head) buf = take (length buf - length head) rest \<and> rest1 = drop (length buf - length head) rest"
proof -
  show "R buf = NeedMore \<and> rest1 \<noteq> []" if l: "length buf < length head"
  proof -
    have "buf = take (length buf) (buf @ rest1)" by simp
    also have "\<dots> = take (length buf) head" using l unfolding assms(2) by simp
    finally have "R buf = NeedMore" using assms(1) l unfolding response_head_def by metis
    moreover have "length (buf @ rest1) = length (head @ rest)" using assms(2) by simp
    ultimately show ?thesis using l by auto
  qed
  show "R buf = Response (length head) status body \<and>
      drop (length head) buf = take (length buf - length head) rest \<and> rest1 = drop (length buf - length head) rest"
    if l: "length head \<le> length buf"
  proof -
    obtain b where b: "buf = head @ b" "rest = b @ rest1" using assms(2) l by (auto simp: append_eq_append_conv2)
    then show ?thesis using assms(1) by (simp add: response_head_def)
  qed
qed

text \<open>The reader stops at the end of the head, with fewer than 4096 bytes after it in its buffer.\<close>

lemma ReadResponse_head:
  assumes "response_head R head status body" and "length buf < length head" and "buf @ inbuf c = head @ rest"
  shows "\<exists>b<4096. b \<le> length rest \<and>
    ReadResponse R chunk buf c = (Inr (status, body), take b rest, c\<lparr>inbuf := drop b rest\<rparr>)"
  using assms
proof (induction R chunk buf c rule: ReadResponse.induct)
  case (1 R chunk buf c)
  let ?k = "chunk_size chunk (inbuf c)"
  let ?buf = "buf @ take ?k (inbuf c)" and ?c = "c\<lparr>inbuf := drop ?k (inbuf c)\<rparr>"
  note more = response_headD(1) [OF 1(2,4,3)]
  have s: "ReadResponse R chunk buf c = ReadResponse R chunk ?buf ?c"
    using more by (simp add: ReadResponse.simps [of R chunk buf c] Let_def)
  have e: "?buf @ inbuf ?c = head @ rest" using 1(4) by simp
  show ?case
  proof (cases "length ?buf < length head")
    case True
    show ?thesis unfolding s using 1(1) [OF _ _ refl 1(2) True e] more by simp
  next
    case False
    let ?b = "length ?buf - length head"
    have d: "R ?buf = Response (length head) status body" "drop (length head) ?buf = take ?b rest"
      "drop ?k (inbuf c) = drop ?b rest"
      using response_headD(2) [OF 1(2) e] False by simp_all
    have "?b < 4096" "?b \<le> length rest"
      using 1(3) arg_cong [OF e, of length] by (simp_all add: chunk_size_def)
    then show ?thesis
      unfolding s using d by (intro exI [of _ ?b]) (simp add: ReadResponse.simps [of R chunk ?buf])
  qed
qed

section \<open>What is left in a tunnel\<close>

text \<open>
  When a proxy answers 200 without a body and then sends \<open>rest\<close>, some \<open>b\<close> bytes of \<open>rest\<close> are in the buffer. If there are
  none the tunnel gives \<open>rest\<close>. Otherwise these \<open>b\<close> bytes are dropped with the buffer and the next \<open>b\<close> bytes are read
  and dropped as well; if they do not come, the call fails and the connection is closed.
\<close>

theorem http_tunnel:
  assumes "http_ParseURL (tn_Parse T) s = (None, u)" and "tn_Dial T (pu_addr u) e = (Inr c, e1)"
    and "tn_Write T targetAddr (if pu_auth u = [] then None else Some (pu_auth u)) = Inr msg" and "werr c = []"
    and "response_head (tn_Response T) head 200 0" and "head \<noteq> []" and "inbuf c = head @ rest"
  shows "\<exists>b<4096. b \<le> length rest \<and> (\<exists>err. http_GetConn T s targetAddr e =
      (if b = 0 \<or> 2 * b \<le> length rest then ((None, Some (c\<lparr>written := written c @ [msg], inbuf := drop (2 * b) rest\<rparr>), False), e1)
       else ((Some err, Some (c\<lparr>written := written c @ [msg], inbuf := []\<rparr>), True), e1)))"
proof -
  let ?c = "c\<lparr>written := written c @ [msg]\<rparr>"
  obtain b where b: "b < 4096" "b \<le> length rest" "ReadResponse (tn_Response T) (tn_chunk T) [] ?c =
      (Inr (200, 0), take b rest, ?c\<lparr>inbuf := drop b rest\<rparr>)"
    using ReadResponse_head [OF assms(5), of "[]" ?c rest "tn_chunk T"] assms(6,7) by auto
  let ?e = "if drop b rest \<noteq> [] \<and> inend c = EOF then UnexpectedEOF else inend c"
  have "http_GetConn T s targetAddr e =
      (if b = 0 \<or> 2 * b \<le> length rest then ((None, Some (c\<lparr>written := written c @ [msg], inbuf := drop (2 * b) rest\<rparr>), False), e1)
       else ((Some ?e, Some (c\<lparr>written := written c @ [msg], inbuf := []\<rparr>), True), e1))"
    using b(2) assms(4) by (auto simp: http_GetConn_def assms(1-3) conn_Write_ok [OF assms(4)] b(3) close_body_def ReadAtLeast_def
      min_def mult_2 add.commute)
  then show ?thesis using b(1,2) by blast
qed

definition demo_answer :: "byte list" where "demo_answer = bytes_of ''HTTP/1.1 200 OK'' @ [13, 10, 13, 10]"

definition demo_Response :: "byte list \<Rightarrow> response" where
  "demo_Response bs = (if length bs < length demo_answer then NeedMore
     else Response (length demo_answer) 200 0)"

definition demo_tunnel :: "nat \<Rightarrow> conn tunnel_api" where
  "demo_tunnel k = \<lparr>tn_Parse = demo_Parse, tn_Dial = (\<lambda>a e. (Inr e, e)), tn_Write = (\<lambda>t au. Inr (bytes_of t)),
     tn_Response = demo_Response, tn_chunk = (\<lambda>bs. k)\<rparr>"

definition demo_proxy :: "string \<Rightarrow> conn" where
  "demo_proxy rest = \<lparr>inbuf = demo_answer @ bytes_of rest, inend = EOF, written = [], werr = []\<rparr>"

lemma demo_head: "response_head demo_Response demo_answer 200 0"
  by (simp add: response_head_def demo_Response_def)

text \<open>
  A proxy that sends a greeting with its answer: read in one piece the greeting is lost and the call fails; read up to
  the third byte of the greeting, the tunnel begins at its seventh.
\<close>

lemma demo_tunnel_loses:
  "fst (fst (http_GetConn (demo_tunnel 4096) ''http://h'' ''t:443'' (demo_proxy ''220 ready''))) = Some EOF"
  "map_option inbuf (fst (snd (fst (http_GetConn (demo_tunnel 22) ''http://h'' ''t:443'' (demo_proxy ''220 ready''))))) =
     Some (bytes_of ''ady'')"
  by code_simp+

theorem http_tunnel_witness:
  "\<exists>b<4096. b \<le> 9 \<and> (\<exists>err. http_GetConn (demo_tunnel 22) ''http://h'' ''t:443'' (demo_proxy ''220 ready'') =
      (if b = 0 \<or> 2 * b \<le> 9 then ((None, Some ((demo_proxy ''220 ready'')\<lparr>written := [bytes_of ''t:443''],
          inbuf := drop (2 * b) (bytes_of ''220 ready'')\<rparr>), False), demo_proxy ''220 ready'')
       else ((Some err, Some ((demo_proxy ''220 ready'')\<lparr>written := [bytes_of ''t:443''], inbuf := []\<rparr>), True), demo_proxy ''220 ready'')))"
proof -
  let ?T = "demo_tunnel 22" and ?c = "demo_proxy ''220 ready''"
  have u: "http_ParseURL (tn_Parse ?T) ''http://h'' = (None, snd (http_ParseURL demo_Parse ''http://h''))" by code_simp
  have c: "tn_Dial ?T a ?c = (Inr ?c, ?c)" "tn_Write ?T ''t:443'' au = Inr (bytes_of ''t:443'')"
    "tn_Response ?T = demo_Response" "werr ?c = []" "inbuf ?c = demo_answer @ bytes_of ''220 ready''" for a au
    by (simp_all add: demo_tunnel_def demo_proxy_def)
  have n: "demo_answer \<noteq> []" "length (bytes_of ''220 ready'') = 9" "written ?c @ [m] = [m]" for m
    by (simp_all add: demo_answer_def demo_proxy_def)
  show ?thesis
    using http_tunnel [OF u c(1,2,4) _ n(1) c(5), unfolded c(3), OF demo_head] unfolding n(2,3) .
qed

end
