(* ===== verification/Spec2Isabelle.thy ===== *)
theory Spec2Isabelle
  imports Prelude MQueue ConcurrentMap FlowLimit FlowShared Blacklist Socks5 Manager
    ClientHello Auth RabbitPool SendQueue Sniffing HttpText
    Handlers HandlerSpec HandlerReplies Copying Consumers ConsumePool TaskManager TaskRun Tools Lifecycle Startup Boot Process Dialers
begin

text \<open>
  A verification development for the proxy server of this repository.

  \<^bold>\<open>The program.\<close> The server accepts TCP connections on several addresses. The first bytes of a connection
  choose between SOCKS5 and HTTP; the client is authenticated against Redis, counted per address, connected
  to its target and relayed, with a limit on its traffic, until it ends, is refused by the blacklist or is
  disconnected. Every connection is reported to RabbitMQ, and five consumers of RabbitMQ change the users, the
  blacklist and the live connections. The configuration of the limits is refreshed from Nacos.

  \<^bold>\<open>The model.\<close> Functions of the source are functions of HOL with the same name (a name of the library gets a
  prefix, as in \<open>cm_Get\<close>), structs are records, panics are \<open>None\<close> and errors are \<open>Inl\<close> or a value of \<open>go_error\<close>.
  A pointer is an address of a heap that is part of the state. Code that runs in several goroutines is an inductive
  step relation with one step for each synchronised region, and its properties hold for every interleaving.
  Packages that are not in the repository are records of functions, arguments of the definitions that call them;
  what is relied on is in the assumptions of a locale, which is interpreted on a concrete instance.

  \<^bold>\<open>Theories.\<close>
  \<^item> \<open>Prelude\<close>: the machine types, strings as bytes, Go's maps and division, \<open>strconv.Itoa\<close>.
  \<^item> \<open>MQueue\<close>: \<^verbatim>\<open>utils/Queue/mqueue.go\<close>. The linked queue on a heap of nodes with its node pool, refined to
    a list (the locale \<open>go_queue\<close> is its interface), and the consumers that wait on its condition variable.
  \<^item> \<open>ConcurrentMap\<close>: \<^verbatim>\<open>utils/Map/concurrentMap/map.go\<close>. The sharded map with its hash, refined to one map
    with the results and callbacks of every operation; the locale \<open>concurrent_map\<close> states what its users rely on.
  \<^item> \<open>FlowLimit\<close>: \<^verbatim>\<open>server/flow_limit.go\<close>. The budget of bytes per second and the limited reader. \<open>FlowShared\<close>: the
    same budget used by several connections and changed by a refresh at the same time, as the step relation \<open>flow_step\<close>.
  \<^item> \<open>Blacklist\<close>: \<open>regexpDomain\<close> of \<^verbatim>\<open>server/common.go\<close> and the blacklist of \<^verbatim>\<open>server/manager.go\<close>.
  \<^item> \<open>Socks5\<close>: \<^verbatim>\<open>utils/socks5/func.go\<close>. The messages of the protocol as readers and writers of bytes, over a
    connection whose every write has an answer of its own (\<open>werr\<close>), so that any write may be the first that fails.
  \<^item> \<open>Manager\<close>: the counts of connections and the contexts of users in \<^verbatim>\<open>server/manager.go\<close> and \<^verbatim>\<open>server/io.go\<close>,
    the messages that disconnect users and the refresh of the configuration, as the step relation \<open>sstep\<close> of all
    sessions over the two maps. Its finer relation \<open>fstep\<close> closes a key in two steps, as the code does (the entry is popped
    under the lock and cancelled after it), and lets \<open>Stop\<close> cancel the parent of all contexts. The maps are those the server imports; the locale \<open>session_maps\<close> states their laws, and
    the map of the repository satisfies them.
  \<^item> \<open>ClientHello\<close>: \<^verbatim>\<open>server/sniffing/tls/client_hello.go\<close>, over the interface of \<open>cryptobyte\<close> (locale \<open>cryptobyte\<close>). The
    data of an extension is specified by the grammar \<open>legal_ext\<close>, after the RFCs and apart from the parser.
  \<^item> \<open>Auth\<close>: \<^verbatim>\<open>server/auth.go\<close>, the two Lua scripts of \<^verbatim>\<open>server/lua\<close> and the handlers of the messages about users, over the
    commands of Redis (locale \<open>redis\<close>).
  \<^item> \<open>RabbitPool\<close>: \<^verbatim>\<open>utils/rabbitMQ\<close>. The pool of connections and channels, the attempts of a push and the
    retries of a refused delivery, over the package \<open>amqp\<close> (locale \<open>amqp\<close>).
  \<^item> \<open>SendQueue\<close>: \<^verbatim>\<open>server/rabbitmq_product.go\<close>. The eight report queues, the reports, and the 32
    goroutines that push them, with the closing of the queues, as the step relation \<open>sends_step\<close>.
  \<^item> \<open>Sniffing\<close>: \<^verbatim>\<open>server/sniffing/conn.go\<close> and the part of the two handlers that looks for a host name.
  \<^item> \<open>HttpText\<close>: the text of the HTTP proxy and of the URLs in \<^verbatim>\<open>proto\<close>, with base64 written out.
  \<^item> \<open>Handlers\<close>: \<^verbatim>\<open>server/tcp_conn_handler.go\<close>, \<^verbatim>\<open>server/socks_proxy_handler.go\<close> and \<^verbatim>\<open>server/http_proxy_handler.go\<close>: choice
    of the protocol, set-up with every refusal, the loop of a relayed connection and the deferred calls.
    \<open>HandlerSpec\<close> refines them to the sessions of \<open>Manager\<close>; \<open>HandlerReplies\<close> says what the client is told.
  \<^item> \<open>Copying\<close>: the goroutines of a relayed connection, that copy, sniff and close. A read is granted any number of bytes, since
    \<open>GetReadSize\<close> can overlap a refresh (\<open>FlowShared\<close>); the flag \<open>cp_raced\<close> marks a read that took more than there was, and both
    panics, of such a read and of the sniffing of a short first flight, are steps.
  \<^item> \<open>Consumers\<close>: \<^verbatim>\<open>server/rabbitmq_consume.go\<close> and the five consumers, refined to a table of users.
  \<^item> \<open>TaskManager\<close>: \<^verbatim>\<open>utils/taskConsumerManager/manager.go\<close> and \<^verbatim>\<open>server/tcp_server.go\<close>.
  \<^item> \<open>TaskRun\<close>: \<^verbatim>\<open>utils/taskRunManager\<close>: bounded numbers of running tasks and the collection of their results.
  \<^item> \<open>ConsumePool\<close>: the worker \<open>consumeTask\<close> of \<^verbatim>\<open>utils/rabbitMQ/rabbitMQPool.go\<close>, and all the workers of a pool with the
    goroutine that connects again (\<open>RunConsume\<close>, \<open>rConsume\<close>, \<open>setConnectError\<close>), as the step relation \<open>pool_step\<close>. Its argument says
    whether other pools consume in the program: they share the package variables \<open>status\<close> and \<open>statusLock\<close>.
  \<^item> \<open>Tools\<close>: \<^verbatim>\<open>utils/tool.go\<close> (random strings, the local address) and the queue of \<^verbatim>\<open>utils/rabbitMQ/rabbitQueue.go\<close>.
  \<^item> \<open>Lifecycle\<close>: \<open>Start\<close> and \<open>Stop\<close> of \<^verbatim>\<open>server/manager.go\<close>, as the step relation \<open>server_step\<close> over the task manager,
    the calls of \<open>tcpAccept\<close>, the handlers and the report queues of the theories before it.
  \<^item> \<open>Startup\<close>: \<open>newManager\<close>, what \<open>Start\<close> does before it serves, and the refresh of the configuration from Nacos.
  \<^item> \<open>Boot\<close>: what runs before \<open>main\<close>: the order of initialisation of the packages, the \<open>init\<close> functions of \<^verbatim>\<open>main.go\<close> and
    \<^verbatim>\<open>server/lua\<close>, \<^verbatim>\<open>config/load.go\<close>, \<^verbatim>\<open>common/redis.go\<close>, \<^verbatim>\<open>log\<close> and the goroutine of \<^verbatim>\<open>http.go\<close>.
  \<^item> \<open>Process\<close>: \<^verbatim>\<open>main.go\<close>, the signal, the deferred \<open>Stop\<close> and the timer that ends the process, over \<open>Lifecycle\<close>.
  \<^item> \<open>Dialers\<close>: \<open>GetConn\<close> of \<^verbatim>\<open>proto/http/conn.go\<close> and \<^verbatim>\<open>proto/socks/conn.go\<close>, which nothing in the repository calls.

  \<^bold>\<open>What the lemmas show.\<close> Each theory first states an invariant of its state or steps and proves that every operation
  or step preserves it, then derives the properties from it: the abstract state an operation implements, what
  is returned on every branch, bounds, the absence of lost wake-ups, and that loops and goroutines end. The
  handlers, the consumers and the sessions are tied together by refinement: a set-up or a teardown of \<open>Handlers\<close> is a sequence
  of steps of \<open>Manager\<close>, so the limit on connections and the lifetime of contexts hold of the handlers too.

  \<^bold>\<open>Bounds and loops.\<close> Only \<open>init_from\<close> has fuel, the number of packages, of which each step initialises one. Recursion is structural or has a measure, except \<open>tryConn\<close>, \<open>rPush\<close>,
  the loop of the random strings and that of the ClientHello parser, which are partial functions with \<open>None\<close> for a call that does not return. A step
  relation that ends has a measure that every step decreases and a lemma that a step is possible before the end.
  Counters of the source are integers at their width where a run can reach it (32-bit round robin, 64-bit retry times,
  the shard counter of the traffic budget). The counters of the traffic budget are plain integers, and \<open>FlowShared\<close> shows that they
  never leave the 64-bit range; the counts of connections are words, read as signed.

  \<^bold>\<open>Start-up.\<close> \<open>Boot\<close> shows that this commit panics before \<open>main\<close>: \<^verbatim>\<open>server/lua\<close> asks for the client of Redis in its \<open>init\<close>, which
  runs before the one of \<open>main\<close> that loads the configuration. The other theories are about the server from the moment
  it has started, whatever loads the scripts.

  \<^bold>\<open>Not modelled.\<close> The generated code of \<^verbatim>\<open>protobuf\<close>; \<^verbatim>\<open>server/grpc_server.go\<close>, which is commented out; the format of the lines of
  the log and the pages that \<^verbatim>\<open>http.go\<close> registers, which are calls of libraries. The commands of Redis run or fail as a whole: an answer that is lost
  after the script ran is not modelled. A refresh of the configuration is one round between the steps of the handlers. Lines of the log appear in \<open>Boot\<close> only: they do not
  change the state of the other components. Time appears as the value read from the clock and as steps that may happen at any moment;
  pauses do not appear. The memory model of Go is taken to be sequentially consistent.
\<close>

end
